(* ===== verification/Prelude.thy ===== *)
theory Prelude
  imports Main "HOL-Library.Word"
begin

text \<open>
  Shared vocabulary of the development: the byte type, results that carry either the raised
  exception or a value, little-endian integers as \<open>struct\<close> packs them, and the searches on
  byte strings that Python's \<open>bytes\<close> offers. The collections declared here are filled by the
  component theories: \<open>result_simps\<close> evaluates and inverts chains of fallible calls,
  \<open>wire_simps\<close> computes with packed integers.
\<close>

unbundle bit_operations_syntax

named_theorems result_simps
named_theorems wire_simps

type_synonym byte = "8 word"
type_synonym bytes = "byte list"

subsection \<open>Results\<close>

text \<open>
  A Python call either raises or returns: \<open>'e + 'a\<close>, with \<open>Inl\<close> for the exception. \<open>bindE\<close>
  continues with the returned value and lets an exception pass through.
\<close>

definition bindE :: "'e + 'a \<Rightarrow> ('a \<Rightarrow> 'e + 'b) \<Rightarrow> 'e + 'b" where
  "bindE m f = (case m of Inl e \<Rightarrow> Inl e | Inr x \<Rightarrow> f x)"

definition is_ok :: "'e + 'a \<Rightarrow> bool" where
  "is_ok m = (case m of Inl _ \<Rightarrow> False | Inr _ \<Rightarrow> True)"

lemma bindE_simps [simp]:
  "bindE (Inl e) f = Inl e"
  "bindE (Inr x) f = f x"
  by (simp_all add: bindE_def)

lemma bindE_eq_Inr [result_simps]:
  "(bindE m f = Inr y) = (\<exists>x. m = Inr x \<and> f x = Inr y)"
  by (cases m) simp_all

lemma bindE_eq_Inl [result_simps]:
  "(bindE m f = Inl e) = (m = Inl e \<or> (\<exists>x. m = Inr x \<and> f x = Inl e))"
  by (cases m) simp_all

lemma bindE_cong [fundef_cong]:
  "m = m' \<Longrightarrow> (\<And>x. m' = Inr x \<Longrightarrow> f x = f' x) \<Longrightarrow> bindE m f = bindE m' f'"
  by (cases m') simp_all

lemma is_ok_simps [simp]:
  "is_ok (Inr x)"
  "\<not> is_ok (Inl e)"
  by (simp_all add: is_ok_def)

lemma is_ok_iff: "is_ok m = (\<exists>x. m = Inr x)"
  by (cases m) simp_all

text \<open>\<open>mapE f xs\<close> is a comprehension over a list that stops at the first exception.\<close>

fun mapE :: "('a \<Rightarrow> 'e + 'b) \<Rightarrow> 'a list \<Rightarrow> 'e + 'b list" where
  "mapE f [] = Inr []"
| "mapE f (x # xs) = bindE (f x) (\<lambda>y. bindE (mapE f xs) (\<lambda>ys. Inr (y # ys)))"

lemma mapE_eq_Inr:
  "(mapE f xs = Inr ys) = list_all2 (\<lambda>x y. f x = Inr y) xs ys"
proof (induction xs arbitrary: ys)
  case (Cons x xs)
  show ?case by (auto simp: Cons.IH result_simps list_all2_Cons1)
qed auto

subsection \<open>Little-endian integers\<close>

text \<open>
  \<open>le_bytes n v\<close> is the \<open>n\<close>-byte little-endian image of \<open>v\<close> (\<open>struct\<close> codes \<open>B\<close>, \<open>H\<close> and
  \<open>I\<close> after \<open><\<close> for \<open>n\<close> = 1, 2, 4), \<open>le_value\<close> reads such an image back.
\<close>

fun le_bytes :: "nat \<Rightarrow> int \<Rightarrow> bytes" where
  "le_bytes 0 v = []"
| "le_bytes (Suc n) v = word_of_int v # le_bytes n (v div 256)"

fun le_value :: "bytes \<Rightarrow> int" where
  "le_value [] = 0"
| "le_value (b # bs) = uint b + 256 * le_value bs"

lemma length_le_bytes [simp]: "length (le_bytes n v) = n"
  by (induction n arbitrary: v) simp_all

lemma byte_bounds [simp]:
  fixes b :: byte
  shows "0 \<le> uint b" "uint b < 256" "uint b \<le> 255"
  using uint_lt2p [of b] by simp_all

lemma le_value_nonneg [simp]: "0 \<le> le_value bs"
  by (induction bs) (auto intro: add_nonneg_nonneg)

lemma le_value_less: "le_value bs < 256 ^ length bs"
proof (induction bs)
  case (Cons b bs)
  have "uint b + 256 * le_value bs < 256 + 256 * (256 ^ length bs - 1)"
    by (rule add_less_le_mono) (use Cons.IH in simp_all)
  then show ?case by simp
qed simp

lemma le_value_le_bytes [simp]:
  "0 \<le> v \<Longrightarrow> v < 256 ^ n \<Longrightarrow> le_value (le_bytes n v) = v"
proof (induction n arbitrary: v)
  case (Suc n)
  have "v div 256 < 256 ^ n" using Suc.prems by (simp add: div_less_iff_less_mult)
  with Suc have "le_value (le_bytes n (v div 256)) = v div 256" by simp
  then show ?case by (simp add: uint_word_of_int)
qed simp

lemma le_bytes_le_value [simp]: "length bs = n \<Longrightarrow> le_bytes n (le_value bs) = bs"
proof (induction bs arbitrary: n)
  case (Cons b bs)
  then obtain m where n: "n = Suc m" "length bs = m" by (cases n) auto
  have "uint (word_of_int (uint b + 256 * le_value bs) :: byte) = uint b"
    unfolding uint_word_of_int by simp
  then have "(word_of_int (uint b + 256 * le_value bs) :: byte) = b"
    by (rule unsigned_word_eqI)
  moreover have "(uint b + 256 * le_value bs) div 256 = le_value bs" by simp
  ultimately show ?case using Cons.IH n by simp
qed simp

lemma le_bytes_inj:
  "0 \<le> v \<Longrightarrow> v < 256 ^ n \<Longrightarrow> 0 \<le> w \<Longrightarrow> w < 256 ^ n \<Longrightarrow> le_bytes n v = le_bytes n w \<Longrightarrow> v = w"
  by (metis le_value_le_bytes)

lemma le_bytes_single [simp]: "le_bytes (Suc 0) (uint a) = [a]"
  by simp

lemma le_bytes_of_pair [simp]: "le_bytes 2 (uint a + 256 * uint b) = [a, b]"
  using le_bytes_le_value [of "[a, b]" 2] by simp

lemma le_bytes_small [wire_simps]:
  "le_bytes 1 v = [word_of_int v]"
  "le_bytes (Suc 0) v = [word_of_int v]"
  "le_bytes 2 v = [word_of_int v, word_of_int (v div 256)]"
  "le_bytes 4 v = [word_of_int v, word_of_int (v div 256), word_of_int (v div 256 div 256),
     word_of_int (v div 256 div 256 div 256)]"
  by (simp_all add: numeral_eq_Suc)

lemma le_value_small [wire_simps]:
  "le_value [] = 0"
  "le_value [a] = uint a"
  "le_value [a, b] = uint a + 256 * uint b"
  "le_value [a, b, c, d] = uint a + 256 * (uint b + 256 * (uint c + 256 * uint d))"
  by simp_all

declare le_bytes.simps(2) [simp del] le_value.simps(2) [simp del]

lemma le_value_bound1 [simp]: "length bs = Suc 0 \<Longrightarrow> le_value bs \<le> 255"
  using le_value_less [of bs] by simp

lemma le_value_bound2 [simp]: "length bs = 2 \<Longrightarrow> le_value bs \<le> 65535"
  using le_value_less [of bs] by simp

lemma le_value_bound4 [simp]: "length bs = 4 \<Longrightarrow> le_value bs \<le> 4294967295"
  using le_value_less [of bs] by simp

text \<open>\<open>slice off n bs\<close> is the Python slice \<open>bs[off:off + n]\<close> for non-negative bounds.\<close>

definition slice :: "nat \<Rightarrow> nat \<Rightarrow> 'a list \<Rightarrow> 'a list" where
  "slice off n bs = take n (drop off bs)"

lemma length_slice [simp]: "length (slice off n bs) = min n (length bs - off)"
  by (simp add: slice_def)

lemma slice_append_left:
  "off + n \<le> length xs \<Longrightarrow> slice off n (xs @ ys) = slice off n xs"
  by (simp add: slice_def)

lemma slice_head: "length xs = n \<Longrightarrow> slice 0 n (xs @ ys) = xs"
  by (simp add: slice_def)

lemma slice_tail: "length xs \<le> off \<Longrightarrow> slice off n (xs @ ys) = slice (off - length xs) n ys"
  by (simp add: slice_def)

lemma slice_whole: "length xs = n \<Longrightarrow> slice 0 n xs = xs"
  by (simp add: slice_def)

lemmas slice_concat = slice_head slice_tail slice_whole

lemma slice_join:
  "off' = off + n \<Longrightarrow> slice off n bs @ slice off' m bs = slice off (n + m) bs"
  "off' = off + n \<Longrightarrow> slice off n bs @ slice off' m bs @ r = slice off (n + m) bs @ r"
  by (simp_all add: slice_def add.commute [of n off] take_add drop_drop flip: append_assoc)

lemma slice_drop: "slice 0 n bs @ drop n bs = bs"
  by (simp add: slice_def)

subsection \<open>Searching byte strings\<close>

text \<open>\<open>xs.startswith(pat)\<close> and \<open>xs.find(pat)\<close>, with \<open>None\<close> for the result \<open>-1\<close>.\<close>

definition starts_with :: "'a list \<Rightarrow> 'a list \<Rightarrow> bool" where
  "starts_with pat xs = (take (length pat) xs = pat)"

fun find_sub :: "'a list \<Rightarrow> 'a list \<Rightarrow> nat option" where
  "find_sub pat [] = (if pat = [] then Some 0 else None)"
| "find_sub pat (x # xs) =
     (if starts_with pat (x # xs) then Some 0 else map_option Suc (find_sub pat xs))"

definition find_from :: "'a list \<Rightarrow> nat \<Rightarrow> 'a list \<Rightarrow> nat option" where
  "find_from pat start xs =
     (if length xs < start then None else map_option ((+) start) (find_sub pat (drop start xs)))"

lemma starts_with_append [simp]: "starts_with pat (pat @ xs)"
  by (simp add: starts_with_def)

lemma starts_with_length: "starts_with pat xs \<Longrightarrow> length pat \<le> length xs"
  unfolding starts_with_def by (drule arg_cong [where f = length]) simp

lemma starts_with_mono: "starts_with pat xs \<Longrightarrow> starts_with pat (xs @ ys)"
  using starts_with_length [of pat xs] by (simp add: starts_with_def)

lemma find_sub_Some:
  "find_sub pat xs = Some n \<Longrightarrow> starts_with pat (drop n xs) \<and> n \<le> length xs"
proof (induction xs arbitrary: n)
  case Nil
  then show ?case by (simp add: starts_with_def split: if_splits)
next
  case (Cons x xs)
  then show ?case by (auto split: if_splits)
qed

lemma find_sub_Some_first:
  "find_sub pat xs = Some n \<Longrightarrow> k < n \<Longrightarrow> \<not> starts_with pat (drop k xs)"
proof (induction xs arbitrary: n k)
  case (Cons x xs)
  then show ?case by (cases k) (auto split: if_splits)
qed (simp split: if_splits)

lemma find_sub_None: "find_sub pat xs = None \<Longrightarrow> \<not> starts_with pat (drop k xs)"
proof (induction xs arbitrary: k)
  case Nil
  then show ?case by (simp add: starts_with_def split: if_splits)
next
  case (Cons x xs)
  then show ?case by (cases k) (auto split: if_splits)
qed

lemma find_from_Some:
  "find_from pat start xs = Some n \<Longrightarrow>
     start \<le> n \<and> n \<le> length xs \<and> starts_with pat (drop n xs)"
  using find_sub_Some [of pat "drop start xs"]
  by (auto simp: find_from_def add.commute split: if_splits)

lemma find_from_Some_length:
  "find_from pat start xs = Some n \<Longrightarrow> n + length pat \<le> length xs"
  using find_from_Some [of pat start xs n] starts_with_length [of pat "drop n xs"] by auto

lemma find_from_after:
  "find_from pat start xs = Some n \<Longrightarrow> pat \<noteq> [] \<Longrightarrow> start \<le> n \<and> n < length xs"
  using find_from_Some [of pat start xs n] find_from_Some_length [of pat start xs n]
  by (cases pat) auto

end
