(* ===== verification/Codec.thy ===== *)
theory Codec
  imports Prelude
begin

text \<open>
  The contract every wire format of the program keeps: an encoder that is total on the valid
  values and a decoder that accepts exactly the images of valid values. Clients that only need
  this (unambiguous images, a decision procedure for well-formed input, self-delimiting streams)
  are proved once in the locales and reach each format through its interpretation in the theory
  that models the format.
\<close>

locale wire_codec =
  fixes enc :: "'a \<Rightarrow> bytes"
    and dec :: "bytes \<Rightarrow> 'e + 'a"
    and valid :: "'a \<Rightarrow> bool"
  assumes dec_enc: "valid x \<Longrightarrow> dec (enc x) = Inr x"
    and dec_sound: "dec bs = Inr x \<Longrightarrow> valid x \<and> enc x = bs"
begin

lemma enc_inj: "valid x \<Longrightarrow> valid y \<Longrightarrow> enc x = enc y \<Longrightarrow> x = y"
  by (metis dec_enc sum.inject(2))

lemma dec_iff: "(dec bs = Inr x) = (valid x \<and> enc x = bs)"
  using dec_enc dec_sound by blast

lemma accepts_iff: "is_ok (dec bs) = (\<exists>x. valid x \<and> enc x = bs)"
  by (simp add: is_ok_iff dec_iff)

lemma rejects_non_image: "(\<And>x. valid x \<Longrightarrow> enc x \<noteq> bs) \<Longrightarrow> \<not> is_ok (dec bs)"
  by (auto simp: accepts_iff)

lemma dec_inj: "dec bs = Inr x \<Longrightarrow> dec bs' = Inr x \<Longrightarrow> bs = bs'"
  by (simp add: dec_iff)

end

text \<open>
  A self-delimiting format: the length of an image can be read off any stream it starts, so no
  image is a proper prefix of another and a concatenation of images has one reading.
\<close>

locale delimited_codec = wire_codec +
  fixes measure_image :: "bytes \<Rightarrow> nat option"
  assumes measure_enc: "valid x \<Longrightarrow> measure_image (enc x @ rest) = Some (length (enc x))"
    and enc_nonempty: "valid x \<Longrightarrow> enc x \<noteq> []"
begin

lemma enc_append_eq:
  assumes "valid x" "valid y" "enc x @ r = enc y @ s"
  shows "x = y \<and> r = s"
proof -
  from assms measure_enc [of x r] measure_enc [of y s] have "length (enc x) = length (enc y)"
    by simp
  with assms(3) have "enc x = enc y" "r = s" by simp_all
  with assms(1,2) show ?thesis by (simp add: enc_inj)
qed

lemma concat_enc_inj:
  "list_all valid xs \<Longrightarrow> list_all valid ys \<Longrightarrow>
     concat (map enc xs) = concat (map enc ys) \<Longrightarrow> xs = ys"
proof (induction xs arbitrary: ys)
  case Nil
  then show ?case by (cases ys) (auto simp: enc_nonempty)
next
  case (Cons x xs)
  then obtain y ys' where ys: "ys = y # ys'"
    by (cases ys) (auto simp: enc_nonempty)
  with Cons.prems have "x = y \<and> concat (map enc xs) = concat (map enc ys')"
    by (intro enc_append_eq) simp_all
  with Cons ys show ?case by simp
qed

end

end
