(* ===== verification/Frame_Codec.thy ===== *)
theory Frame_Codec
  imports Codec
begin

text \<open>
  The frame layer of \<open>server/msx_protocol.py\<close>: the exception classes, \<open>Frame\<close> and its validating
  constructor, CRC-16/CCITT-FALSE, \<open>encode_frame\<close>, \<open>decode_frame\<close>, \<open>SequenceCounter\<close> and
  \<open>validate_response\<close>. Python integers are \<open>int\<close> and are checked against their wire width by
  the constructor, as in the code; the CRC register, which the code masks to 16 bits after every
  step, is a \<open>16 word\<close>. An exception is its class with the values the class stores; message
  texts are left out.
\<close>

unbundle bit_operations_syntax

subsection \<open>Constants and exceptions\<close>

definition MAGIC :: bytes where "MAGIC = [0x4D, 0x58]"
definition PROTOCOL_VERSION :: int where "PROTOCOL_VERSION = 3"
definition MAX_WIRE_PAYLOAD :: int where "MAX_WIRE_PAYLOAD = 0xFFFF"
definition HEADER_SIZE :: nat where "HEADER_SIZE = 11"
definition CRC_SIZE :: nat where "CRC_SIZE = 2"
definition MIN_FRAME_SIZE :: nat where "MIN_FRAME_SIZE = HEADER_SIZE + CRC_SIZE"
definition MAX_FRAME_SIZE :: nat where
  "MAX_FRAME_SIZE = HEADER_SIZE + nat MAX_WIRE_PAYLOAD + CRC_SIZE"

lemmas frame_consts =
  MAGIC_def PROTOCOL_VERSION_def MAX_WIRE_PAYLOAD_def HEADER_SIZE_def CRC_SIZE_def

datatype frame_type = REQUEST | RESPONSE | EVENT

definition frame_type_of_int :: "int \<Rightarrow> frame_type option" where
  "frame_type_of_int v =
     (if v = 1 then Some REQUEST else if v = 2 then Some RESPONSE
      else if v = 3 then Some EVENT else None)"

primrec int_of_frame_type :: "frame_type \<Rightarrow> int" where
  "int_of_frame_type REQUEST = 1"
| "int_of_frame_type RESPONSE = 2"
| "int_of_frame_type EVENT = 3"

datatype protocol_error =
    FrameValidationError string
  | InvalidMagicError bytes
  | UnsupportedVersionError int int
  | InvalidFrameTypeError int
  | FrameLengthError int int
  | TruncatedFrameError int int
  | PayloadTooLargeError int int
  | CRCMismatchError int int
  | GarbageDataError bytes
  | SequenceMismatchError int int
  | OpcodeMismatchError int int

text \<open>\<open>except FrameDecodeError\<close>: the classes below it, \<open>TruncatedFrameError\<close> through
  \<open>FrameLengthError\<close>.\<close>

primrec is_frame_decode_error :: "protocol_error \<Rightarrow> bool" where
  "is_frame_decode_error (FrameValidationError n) = False"
| "is_frame_decode_error (InvalidMagicError a) = True"
| "is_frame_decode_error (UnsupportedVersionError a e) = True"
| "is_frame_decode_error (InvalidFrameTypeError a) = True"
| "is_frame_decode_error (FrameLengthError e a) = True"
| "is_frame_decode_error (TruncatedFrameError e a) = True"
| "is_frame_decode_error (PayloadTooLargeError a m) = False"
| "is_frame_decode_error (CRCMismatchError e a) = True"
| "is_frame_decode_error (GarbageDataError d) = True"
| "is_frame_decode_error (SequenceMismatchError e a) = False"
| "is_frame_decode_error (OpcodeMismatchError e a) = False"

definition is_payload_too_large :: "protocol_error \<Rightarrow> bool" where
  "is_payload_too_large e = (case e of PayloadTooLargeError _ _ \<Rightarrow> True | _ \<Rightarrow> False)"

definition wire_int :: "string \<Rightarrow> int \<Rightarrow> int \<Rightarrow> protocol_error + int" where
  "wire_int name v maximum =
     (if \<not> (0 \<le> v \<and> v \<le> maximum) then Inl (FrameValidationError name) else Inr v)"

lemma wire_int_eq_Inr [result_simps]:
  "(wire_int name v m = Inr w) = (0 \<le> v \<and> v \<le> m \<and> w = v)"
  by (auto simp: wire_int_def)

lemma wire_int_ok [simp]: "0 \<le> v \<Longrightarrow> v \<le> m \<Longrightarrow> wire_int name v m = Inr v"
  by (simp add: wire_int_def)

subsection \<open>Frames\<close>

record frame =
  fr_type :: frame_type
  fr_sequence :: int
  fr_opcode :: int
  fr_payload :: bytes
  fr_flags :: int
  fr_status :: int
  fr_version :: int

definition mk_frame ::
  "int \<Rightarrow> int \<Rightarrow> int \<Rightarrow> bytes \<Rightarrow> int \<Rightarrow> int \<Rightarrow> int \<Rightarrow> protocol_error + frame" where
  "mk_frame ftype seq opcode data flags status version =
     (case frame_type_of_int ftype of
        None \<Rightarrow> Inl (FrameValidationError ''frame_type'')
      | Some ft \<Rightarrow>
          bindE (wire_int ''sequence'' seq 0xFFFF) (\<lambda>seq.
          bindE (wire_int ''opcode'' opcode 0xFF) (\<lambda>opcode.
          bindE (wire_int ''flags'' flags 0xFF) (\<lambda>flags.
          bindE (wire_int ''status'' status 0xFF) (\<lambda>status.
          bindE (wire_int ''version'' version 0xFF) (\<lambda>version.
            if int (length data) > MAX_WIRE_PAYLOAD
            then Inl (PayloadTooLargeError (int (length data)) MAX_WIRE_PAYLOAD)
            else Inr \<lparr>fr_type = ft, fr_sequence = seq, fr_opcode = opcode, fr_payload = data,
                      fr_flags = flags, fr_status = status, fr_version = version\<rparr>))))))"

definition wf_frame :: "frame \<Rightarrow> bool" where
  "wf_frame f \<longleftrightarrow>
     0 \<le> fr_sequence f \<and> fr_sequence f \<le> 0xFFFF \<and> 0 \<le> fr_opcode f \<and> fr_opcode f \<le> 0xFF \<and>
     0 \<le> fr_flags f \<and> fr_flags f \<le> 0xFF \<and> 0 \<le> fr_status f \<and> fr_status f \<le> 0xFF \<and>
     0 \<le> fr_version f \<and> fr_version f \<le> 0xFF \<and> int (length (fr_payload f)) \<le> MAX_WIRE_PAYLOAD"

definition frame_ok :: "frame \<Rightarrow> bool" where
  "frame_ok f \<longleftrightarrow> fr_status f = 0 \<and> fr_flags f AND 0x04 = 0"

lemma frame_type_roundtrip [simp]:
  "frame_type_of_int (int_of_frame_type t) = Some t"
  by (cases t) (simp_all add: frame_type_of_int_def)

lemma frame_type_of_int_Some [simp]:
  "frame_type_of_int v = Some t \<Longrightarrow> int_of_frame_type t = v"
  by (auto simp: frame_type_of_int_def split: if_splits)

lemma frame_type_bounds [simp]: "0 \<le> int_of_frame_type t" "int_of_frame_type t < 256"
  by (cases t; simp)+

lemma mk_frame_wf: "mk_frame t s op p fl st v = Inr f \<Longrightarrow> wf_frame f"
  by (auto simp: mk_frame_def wf_frame_def result_simps split: option.splits if_splits)

lemma mk_frame_of_wf:
  "wf_frame f \<Longrightarrow>
     mk_frame (int_of_frame_type (fr_type f)) (fr_sequence f) (fr_opcode f) (fr_payload f)
       (fr_flags f) (fr_status f) (fr_version f) = Inr f"
  by (simp add: mk_frame_def wf_frame_def)

subsection \<open>CRC-16/CCITT-FALSE\<close>

type_synonym u16 = "16 word"

definition crc16_bit :: "u16 \<Rightarrow> u16" where
  "crc16_bit crc =
     (if crc AND 0x8000 \<noteq> 0 then push_bit 1 crc XOR 0x1021 else push_bit 1 crc)"

definition crc16_byte :: "u16 \<Rightarrow> byte \<Rightarrow> u16" where
  "crc16_byte crc b = (crc16_bit ^^ 8) (crc XOR push_bit 8 (ucast b))"

definition crc16_fold :: "u16 \<Rightarrow> bytes \<Rightarrow> u16" where
  "crc16_fold crc data = foldl crc16_byte crc data"

definition crc16_ccitt :: "bytes \<Rightarrow> int \<Rightarrow> protocol_error + int" where
  "crc16_ccitt data initial =
     bindE (wire_int ''initial CRC'' initial 0xFFFF)
       (\<lambda>i. Inr (uint (crc16_fold (word_of_int i) data)))"

definition frame_crc :: "bytes \<Rightarrow> int" where
  "frame_crc data = uint (crc16_fold 0xFFFF data)"

lemma crc16_ccitt_default: "crc16_ccitt data 0xFFFF = Inr (frame_crc data)"
  by (simp add: crc16_ccitt_def frame_crc_def)

lemma crc16_fold_append: "crc16_fold c (xs @ ys) = crc16_fold (crc16_fold c xs) ys"
  by (simp add: crc16_fold_def)

lemma frame_crc_bounds [simp]: "0 \<le> frame_crc d" "frame_crc d < 65536" "frame_crc d \<le> 65535"
  using uint_lt2p [of "crc16_fold 0xFFFF d"] by (simp_all add: frame_crc_def)

subsection \<open>Encoding and decoding\<close>

definition pack_header :: "int \<Rightarrow> int \<Rightarrow> int \<Rightarrow> int \<Rightarrow> int \<Rightarrow> int \<Rightarrow> int \<Rightarrow> bytes" where
  "pack_header version ftype flags seq opcode status len =
     MAGIC @ le_bytes 1 version @ le_bytes 1 ftype @ le_bytes 1 flags @ le_bytes 2 seq @
     le_bytes 1 opcode @ le_bytes 1 status @ le_bytes 2 len"

definition encode_frame :: "frame \<Rightarrow> bytes" where
  "encode_frame f =
     (let header = pack_header (fr_version f) (int_of_frame_type (fr_type f)) (fr_flags f)
            (fr_sequence f) (fr_opcode f) (fr_status f) (int (length (fr_payload f)));
          body = header @ fr_payload f
      in body @ le_bytes 2 (frame_crc body))"

definition decode_header ::
  "int \<Rightarrow> int \<Rightarrow> bytes \<Rightarrow> protocol_error + frame_type \<times> int \<times> int \<times> int \<times> int \<times> int" where
  "decode_header version max_payload data =
     (let magic = slice 0 2 data; actual_version = le_value (slice 2 1 data);
          type_byte = le_value (slice 3 1 data); flags = le_value (slice 4 1 data);
          seq = le_value (slice 5 2 data); opcode = le_value (slice 7 1 data);
          status = le_value (slice 8 1 data); len = le_value (slice 9 2 data)
      in if magic \<noteq> MAGIC then Inl (InvalidMagicError magic)
         else if actual_version \<noteq> version
           then Inl (UnsupportedVersionError actual_version version)
         else case frame_type_of_int type_byte of
                None \<Rightarrow> Inl (InvalidFrameTypeError type_byte)
              | Some ft \<Rightarrow>
                  if len > max_payload then Inl (PayloadTooLargeError len max_payload)
                  else Inr (ft, flags, seq, opcode, status, len))"

definition decode_frame :: "int \<Rightarrow> int \<Rightarrow> bytes \<Rightarrow> protocol_error + frame" where
  "decode_frame version max_payload raw =
     bindE (wire_int ''version'' version 0xFF) (\<lambda>_.
     bindE (wire_int ''max_payload'' max_payload MAX_WIRE_PAYLOAD) (\<lambda>_.
       if length raw < HEADER_SIZE
       then Inl (TruncatedFrameError (int HEADER_SIZE) (int (length raw)))
       else bindE (decode_header version max_payload raw)
         (\<lambda>(ft, flags, seq, opcode, status, len).
            let expected_size = HEADER_SIZE + nat len + CRC_SIZE in
            if length raw < expected_size
            then Inl (TruncatedFrameError (int expected_size) (int (length raw)))
            else if length raw \<noteq> expected_size
            then Inl (FrameLengthError (int expected_size) (int (length raw)))
            else
              let received_crc = le_value (slice (expected_size - CRC_SIZE) CRC_SIZE raw);
                  calculated_crc = frame_crc (take (length raw - CRC_SIZE) raw)
              in if received_crc \<noteq> calculated_crc
                 then Inl (CRCMismatchError calculated_crc received_crc)
                 else mk_frame (int_of_frame_type ft) seq opcode
                        (slice HEADER_SIZE (length raw - CRC_SIZE - HEADER_SIZE) raw)
                        flags status version)))"

definition encode_many :: "frame list \<Rightarrow> bytes" where
  "encode_many frames = concat (map encode_frame frames)"

definition sequence_counter :: "int \<Rightarrow> protocol_error + int" where
  "sequence_counter start = wire_int ''sequence'' start 0xFFFF"

definition next_sequence :: "int \<Rightarrow> int \<times> int" where
  "next_sequence v = (v, (v + 1) AND 0xFFFF)"

definition validate_response :: "frame \<Rightarrow> frame \<Rightarrow> protocol_error + unit" where
  "validate_response req resp =
     (if fr_type req \<noteq> REQUEST then Inl (FrameValidationError ''request'')
      else if fr_type resp \<noteq> RESPONSE then Inl (FrameValidationError ''response'')
      else if fr_sequence resp \<noteq> fr_sequence req
        then Inl (SequenceMismatchError (fr_sequence req) (fr_sequence resp))
      else if fr_opcode resp \<noteq> fr_opcode req
        then Inl (OpcodeMismatchError (fr_opcode req) (fr_opcode resp))
      else Inr ())"

subsection \<open>Header and frame round trips\<close>

lemma length_pack_header [simp]: "length (pack_header ver t fl sq op st n) = HEADER_SIZE"
  by (simp add: pack_header_def frame_consts)

lemma pack_header_slices:
  "slice 0 2 (pack_header ver t fl sq op st n @ rest) = MAGIC"
  "slice 2 1 (pack_header ver t fl sq op st n @ rest) = le_bytes 1 ver"
  "slice 3 1 (pack_header ver t fl sq op st n @ rest) = le_bytes 1 t"
  "slice 4 1 (pack_header ver t fl sq op st n @ rest) = le_bytes 1 fl"
  "slice 5 2 (pack_header ver t fl sq op st n @ rest) = le_bytes 2 sq"
  "slice 7 1 (pack_header ver t fl sq op st n @ rest) = le_bytes 1 op"
  "slice 8 1 (pack_header ver t fl sq op st n @ rest) = le_bytes 1 st"
  "slice 9 2 (pack_header ver t fl sq op st n @ rest) = le_bytes 2 n"
  by (simp_all add: slice_def pack_header_def MAGIC_def wire_simps)

lemma decode_header_pack:
  assumes "0 \<le> ver" "ver \<le> 255" "0 \<le> fl" "fl \<le> 255" "0 \<le> sq" "sq \<le> 65535" "0 \<le> op" "op \<le> 255"
    "0 \<le> st" "st \<le> 255" "0 \<le> n" "n \<le> 65535"
  shows "decode_header v m (pack_header ver (int_of_frame_type ft) fl sq op st n @ rest) =
    (if ver \<noteq> v then Inl (UnsupportedVersionError ver v)
     else if n > m then Inl (PayloadTooLargeError n m) else Inr (ft, fl, sq, op, st, n))"
  unfolding decode_header_def Let_def pack_header_slices using assms by simp

lemma header_split:
  assumes "HEADER_SIZE \<le> length bs" "slice 0 2 bs = MAGIC"
  shows "pack_header (le_value (slice 2 1 bs)) (le_value (slice 3 1 bs)) (le_value (slice 4 1 bs))
      (le_value (slice 5 2 bs)) (le_value (slice 7 1 bs)) (le_value (slice 8 1 bs))
      (le_value (slice 9 2 bs)) = take HEADER_SIZE bs"
proof -
  obtain a b c d e f g h i j k rest where bs: "bs = [a,b,c,d,e,f,g,h,i,j,k] @ rest"
    using assms(1) by (auto simp: HEADER_SIZE_def numeral_eq_Suc Suc_le_length_iff)
  from assms(2) have "MAGIC = [a, b]" by (simp add: bs slice_def)
  then show ?thesis
    by (simp add: pack_header_def slice_def HEADER_SIZE_def bs le_value_small)
qed

lemma decode_header_Inr:
  assumes "HEADER_SIZE \<le> length bs"
    and "decode_header v m bs = Inr (ft, fl, sq, op, st, n)"
  shows "take HEADER_SIZE bs = pack_header v (int_of_frame_type ft) fl sq op st n \<and>
    0 \<le> fl \<and> fl \<le> 255 \<and> 0 \<le> sq \<and> sq \<le> 65535 \<and> 0 \<le> op \<and> op \<le> 255 \<and> 0 \<le> st \<and> st \<le> 255 \<and>
    0 \<le> n \<and> n \<le> 65535 \<and> n \<le> m \<and> 0 \<le> v \<and> v \<le> 255"
proof -
  have len: "length (slice 4 1 bs) = Suc 0" "length (slice 5 2 bs) = 2" "length (slice 7 1 bs) = Suc 0"
    "length (slice 8 1 bs) = Suc 0" "length (slice 9 2 bs) = 2" "length (slice 2 1 bs) = Suc 0"
    using assms(1) by (simp_all add: HEADER_SIZE_def)
  from assms(2) have m: "slice 0 2 bs = MAGIC" and v: "v = le_value (slice 2 1 bs)"
    and t: "frame_type_of_int (le_value (slice 3 1 bs)) = Some ft"
    and rest: "fl = le_value (slice 4 1 bs)" "sq = le_value (slice 5 2 bs)"
      "op = le_value (slice 7 1 bs)" "st = le_value (slice 8 1 bs)" "n = le_value (slice 9 2 bs)"
      "n \<le> m"
    unfolding decode_header_def Let_def by (auto split: if_splits option.splits)
  from t have "int_of_frame_type ft = le_value (slice 3 1 bs)" by simp
  with header_split [OF assms(1) m] v rest len show ?thesis by simp
qed

lemma length_encode_frame [simp]:
  "length (encode_frame f) = HEADER_SIZE + length (fr_payload f) + CRC_SIZE"
  by (simp add: encode_frame_def Let_def CRC_SIZE_def)

lemma decode_header_encode:
  assumes "wf_frame f"
  shows "decode_header v m (encode_frame f @ rest) =
    (if fr_version f \<noteq> v then Inl (UnsupportedVersionError (fr_version f) v)
     else if int (length (fr_payload f)) > m
       then Inl (PayloadTooLargeError (int (length (fr_payload f))) m)
     else Inr (fr_type f, fr_flags f, fr_sequence f, fr_opcode f, fr_status f,
               int (length (fr_payload f))))"
  using assms
  by (simp add: encode_frame_def Let_def wf_frame_def decode_header_pack MAX_WIRE_PAYLOAD_def)

lemma decode_encode_frame:
  assumes "wf_frame f" "int (length (fr_payload f)) \<le> m" "m \<le> MAX_WIRE_PAYLOAD"
  shows "decode_frame (fr_version f) m (encode_frame f) = Inr f"
proof -
  define body where "body = pack_header (fr_version f) (int_of_frame_type (fr_type f)) (fr_flags f)
        (fr_sequence f) (fr_opcode f) (fr_status f) (int (length (fr_payload f))) @ fr_payload f"
  have enc: "encode_frame f = body @ le_bytes 2 (frame_crc body)"
    by (simp add: encode_frame_def body_def Let_def)
  have hdr: "decode_header (fr_version f) m (encode_frame f) =
    Inr (fr_type f, fr_flags f, fr_sequence f, fr_opcode f, fr_status f, int (length (fr_payload f)))"
    using decode_header_encode [OF assms(1), of "fr_version f" m "[]"] assms(2) by simp
  have lb: "length body = HEADER_SIZE + length (fr_payload f)" by (simp add: body_def)
  have pl: "slice HEADER_SIZE (length (fr_payload f)) (encode_frame f) = fr_payload f"
    by (simp add: enc body_def slice_def)
  have crc: "slice (length body) 2 (encode_frame f) = le_bytes 2 (frame_crc body)"
    by (simp add: enc slice_def)
  have bd: "take (length body) (encode_frame f) = body" by (simp add: enc)
  have v: "0 \<le> fr_version f" "fr_version f \<le> 255" "0 \<le> m"
    using assms by (auto simp: wf_frame_def)
  show ?thesis
    unfolding decode_frame_def
    using v assms(3) mk_frame_of_wf [OF assms(1)] lb crc bd pl
    by (simp add: hdr Let_def CRC_SIZE_def)
qed

lemma encode_decode_frame:
  assumes "decode_frame v m raw = Inr f"
  shows "encode_frame f = raw \<and> wf_frame f \<and> fr_version f = v \<and> int (length (fr_payload f)) \<le> m"
proof -
  from assms obtain ft fl sq op st n where
    hl: "HEADER_SIZE \<le> length raw" and
    hdr: "decode_header v m raw = Inr (ft, fl, sq, op, st, n)" and
    len: "length raw = HEADER_SIZE + nat n + CRC_SIZE" and
    crc: "le_value (slice (HEADER_SIZE + nat n) 2 raw) = frame_crc (take (HEADER_SIZE + nat n) raw)" and
    mk: "mk_frame (int_of_frame_type ft) sq op (slice HEADER_SIZE (nat n) raw) fl st v = Inr f"
    unfolding decode_frame_def
    by (auto simp: result_simps Let_def CRC_SIZE_def split: if_splits)
  note h = decode_header_Inr [OF hl hdr]
  have split: "take (HEADER_SIZE + nat n) raw = take HEADER_SIZE raw @ slice HEADER_SIZE (nat n) raw"
    by (simp add: slice_def take_add)
  have f: "f = \<lparr>fr_type = ft, fr_sequence = sq, fr_opcode = op,
     fr_payload = slice HEADER_SIZE (nat n) raw, fr_flags = fl, fr_status = st, fr_version = v\<rparr>"
    using mk by (auto simp: mk_frame_def result_simps split: if_splits)
  have lp: "length (fr_payload f) = nat n" using len by (simp add: f CRC_SIZE_def)
  have tail: "le_bytes 2 (le_value (slice (HEADER_SIZE + nat n) 2 raw)) = slice (HEADER_SIZE + nat n) 2 raw"
    using len by (simp add: CRC_SIZE_def)
  have "encode_frame f = take (HEADER_SIZE + nat n) raw @ slice (HEADER_SIZE + nat n) 2 raw"
    using h lp split crc tail by (simp add: encode_frame_def Let_def f)
  also have "\<dots> = raw" using len by (simp add: slice_def CRC_SIZE_def flip: take_add)
  finally show ?thesis using mk_frame_wf [OF mk] h lp by (simp add: f)
qed

subsection \<open>What the CRC detects\<close>

lemma crc_top_bit: "(crc AND 0x8000 \<noteq> 0) = bit crc 15" for crc :: u16
  using and_exp_eq_0_iff_not_bit [of crc 15] by simp

lemma crc16_bit_alt: "crc16_bit crc = push_bit 1 crc XOR (if bit crc 15 then 0x1021 else 0)"
  by (simp add: crc16_bit_def crc_top_bit)

lemma word_xor_cancel [simp]:
  fixes a b c :: "'a::len word"
  shows "(c XOR a = c XOR b) = (a = b)" "(a XOR c = b XOR c) = (a = b)"
    "(a XOR b = 0) = (a = b)" "c XOR (c XOR a) = a"
proof -
  show self: "c XOR (c XOR a) = a" for a c :: "'a word"
    by (simp flip: xor.assoc)
  show "(c XOR a = c XOR b) = (a = b)" by (metis self)
  show "(a XOR c = b XOR c) = (a = b)" by (metis self xor.commute)
  show "(a XOR b = 0) = (a = b)" by (metis self xor_self_eq xor.right_neutral)
qed

lemma push_bit_1_xor: "push_bit k (a XOR b) = push_bit k a XOR push_bit k b" for a b :: "'a::len word"
  by (rule bit_word_eqI) (auto simp: bit_simps)

lemma crc16_bit_xor: "crc16_bit (a XOR b) = crc16_bit a XOR crc16_bit b"
  unfolding crc16_bit_alt push_bit_1_xor
  by (cases "bit a 15"; cases "bit b 15")
    (simp_all add: bit_xor_iff xor.assoc xor.commute xor.left_commute del: push_bit_of_1 push_bit_Suc)

lemma crc16_bit_0: "crc16_bit x = 0 \<Longrightarrow> x = 0"
proof -
  assume z: "crc16_bit x = 0"
  then have "\<not> bit (crc16_bit x) 0" by simp
  then have "\<not> bit x 15"
    unfolding crc16_bit_alt bit_xor_iff bit_push_bit_iff by (auto split: if_splits)
  with z have p: "push_bit 1 x = 0" by (simp add: crc16_bit_alt)
  show "x = 0"
  proof (rule bit_word_eqI)
    fix n assume n: "n < LENGTH(16)"
    show "bit x n = bit (0 :: u16) n"
    proof (cases "n = 15")
      case True
      with \<open>\<not> bit x 15\<close> show ?thesis by simp
    next
      case False
      with n have "bit (push_bit 1 x) (Suc n) = bit x n"
        unfolding bit_push_bit_iff by simp
      with p show ?thesis by simp
    qed
  qed
qed

lemma crc16_bits_xor: "(crc16_bit ^^ k) (a XOR b) = (crc16_bit ^^ k) a XOR (crc16_bit ^^ k) b"
  by (induction k) (simp_all add: crc16_bit_xor)

lemma crc16_bits_inj: "(crc16_bit ^^ k) a = (crc16_bit ^^ k) b \<Longrightarrow> a = b"
proof (induction k)
  case (Suc k)
  then have "crc16_bit ((crc16_bit ^^ k) a XOR (crc16_bit ^^ k) b) = 0"
    by (simp only: crc16_bit_xor) simp
  then have "(crc16_bit ^^ k) a = (crc16_bit ^^ k) b" by (drule_tac crc16_bit_0) simp
  then show ?case by (rule Suc.IH)
qed simp

lemma crc16_byte_inj_state: "crc16_byte c b = crc16_byte c' b \<Longrightarrow> c = c'"
  unfolding crc16_byte_def by (drule crc16_bits_inj) simp

lemma crc16_fold_inj_state: "crc16_fold c xs = crc16_fold c' xs \<Longrightarrow> c = c'"
  by (induction xs arbitrary: c c') (auto simp: crc16_fold_def dest: crc16_byte_inj_state)

lemma shifted_byte_inj: "push_bit 8 (ucast b :: u16) = push_bit 8 (ucast b') \<Longrightarrow> b = b'" for b b' :: byte
proof (rule bit_word_eqI)
  fix n assume eq: "push_bit 8 (ucast b :: u16) = push_bit 8 (ucast b')" and n: "n < LENGTH(8)"
  then have "bit (push_bit 8 (ucast b :: u16)) (n + 8) = bit (push_bit 8 (ucast b' :: u16)) (n + 8)" by simp
  with n show "bit b n = bit b' n" by (simp add: bit_push_bit_iff bit_ucast_iff)
qed

lemma crc16_byte_inj_byte: "crc16_byte c b = crc16_byte c b' \<Longrightarrow> b = b'"
  unfolding crc16_byte_def by (drule crc16_bits_inj) (simp add: shifted_byte_inj)

lemma crc16_bits_low: "k \<le> 8 \<Longrightarrow> (crc16_bit ^^ k) (ucast b) = push_bit k (ucast b)" for b :: byte
proof (induction k)
  case (Suc k)
  then have "\<not> bit (push_bit k (ucast b :: u16)) 15"
    by (simp add: bit_push_bit_iff bit_ucast_iff) (auto dest: bit_imp_le_length)
  then have "crc16_bit (push_bit k (ucast b)) = push_bit 1 (push_bit k (ucast b))"
    unfolding crc16_bit_alt by simp
  also have "\<dots> = push_bit (Suc k) (ucast b)"
    unfolding push_bit_push_bit by simp
  finally show ?case using Suc by simp
qed simp

lemma crc16_two_bytes:
  "crc16_byte (crc16_byte c b1) b2 = (crc16_bit ^^ 16) (c XOR push_bit 8 (ucast b1) XOR ucast b2)"
proof -
  have "crc16_byte (crc16_byte c b1) b2 =
      (crc16_bit ^^ 8) ((crc16_bit ^^ 8) (c XOR push_bit 8 (ucast b1)) XOR (crc16_bit ^^ 8) (ucast b2))"
    by (simp add: crc16_byte_def crc16_bits_low)
  also have "\<dots> = (crc16_bit ^^ (8 + 8)) (c XOR push_bit 8 (ucast b1) XOR ucast b2)"
    by (simp only: funpow_add o_def crc16_bits_xor xor.assoc)
  finally show ?thesis by simp
qed

lemma byte_pair_inj:
  fixes b1 b2 c1 c2 :: byte
  assumes "push_bit 8 (ucast b1 :: u16) XOR ucast b2 = push_bit 8 (ucast c1) XOR ucast c2"
  shows "b1 = c1 \<and> b2 = c2"
proof
  have bits: "bit (push_bit 8 (ucast b1 :: u16) XOR ucast b2) n = bit (push_bit 8 (ucast c1 :: u16) XOR ucast c2) n" for n
    using assms by simp
  show "b1 = c1"
  proof (rule bit_word_eqI)
    fix n assume "n < LENGTH(8)"
    with bits [of "n + 8"] show "bit b1 n = bit c1 n"
      by (auto simp: bit_simps dest: bit_imp_le_length)
  qed
  show "b2 = c2"
  proof (rule bit_word_eqI)
    fix n assume "n < LENGTH(8)"
    with bits [of n] show "bit b2 n = bit c2 n" by (auto simp: bit_simps)
  qed
qed

lemma crc16_fold_window:
  assumes "length w = length w'" "length w \<le> 2" "crc16_fold c (xs @ w @ ys) = crc16_fold c (xs @ w' @ ys)"
  shows "w = w'"
proof -
  let ?c = "crc16_fold c xs"
  from assms(3) have eq: "crc16_fold ?c w = crc16_fold ?c w'"
    by (auto simp: crc16_fold_append dest: crc16_fold_inj_state)
  consider "w = []" | b where "w = [b]" | b1 b2 where "w = [b1, b2]"
    using assms(2) by (auto simp: le_Suc_eq numeral_eq_Suc length_Suc_conv)
  then show ?thesis
  proof cases
    case 1
    with assms(1) show ?thesis by simp
  next
    case 2
    with assms(1) [symmetric] obtain b' where "w' = [b']" by (auto simp: length_Suc_conv)
    with 2 eq show ?thesis by (auto simp: crc16_fold_def dest: crc16_byte_inj_byte)
  next
    case 3
    with assms(1) [symmetric] obtain c1 c2 where w': "w' = [c1, c2]" by (auto simp: length_Suc_conv)
    with 3 eq have "?c XOR (push_bit 8 (ucast b1) XOR ucast b2) = ?c XOR (push_bit 8 (ucast c1) XOR ucast c2)"
      by (auto simp: crc16_fold_def crc16_two_bytes xor.assoc dest: crc16_bits_inj)
    then have "push_bit 8 (ucast b1 :: u16) XOR ucast b2 = push_bit 8 (ucast c1) XOR ucast c2"
      by simp
    then show ?thesis using 3 w' by (auto dest: byte_pair_inj)
  qed
qed

lemma frame_crc_window:
  "length w = length w' \<Longrightarrow> length w \<le> 2 \<Longrightarrow> w \<noteq> w' \<Longrightarrow>
     frame_crc (xs @ w @ ys) \<noteq> frame_crc (xs @ w' @ ys)"
  unfolding frame_crc_def by (metis crc16_fold_window unsigned_word_eqI)

lemma decode_frame_args:
  "decode_frame v m raw = Inr f \<Longrightarrow> 0 \<le> v \<and> v \<le> 255 \<and> 0 \<le> m \<and> m \<le> MAX_WIRE_PAYLOAD"
  unfolding decode_frame_def by (simp add: result_simps)

lemma encode_frame_trailer:
  "\<exists>body. encode_frame f = body @ le_bytes 2 (frame_crc body)"
  unfolding encode_frame_def Let_def by blast

lemma decode_frame_iff:
  "(decode_frame v m raw = Inr f) =
     (wf_frame f \<and> fr_version f = v \<and> int (length (fr_payload f)) \<le> m \<and> m \<le> MAX_WIRE_PAYLOAD \<and>
      encode_frame f = raw)"
  using decode_encode_frame [of f m] encode_decode_frame [of v m raw f]
    decode_frame_args [of v m raw f] by auto

lemma decode_frame_trailer:
  assumes "is_ok (decode_frame v m (u @ t))" "length t = 2"
  shows "t = le_bytes 2 (frame_crc u)"
proof -
  from assms(1) obtain f where "encode_frame f = u @ t"
    by (auto simp: is_ok_iff decode_frame_iff)
  with encode_frame_trailer [of f] assms(2) show ?thesis by auto
qed

lemma frame_crc_trailer_inj: "le_bytes 2 (frame_crc u) = le_bytes 2 (frame_crc u') \<Longrightarrow> frame_crc u = frame_crc u'"
  by (rule le_bytes_inj [where n = 2]) simp_all

lemma corrupted_window_rejected:
  assumes ok: "is_ok (decode_frame v m (xs @ w @ ys))"
    and w: "length w' = length w" "w' \<noteq> w" "length w \<le> 2"
    and place: "length ys \<noteq> 1 \<or> length w = 1"
  shows "\<not> is_ok (decode_frame v m (xs @ w' @ ys))"
proof
  assume bad: "is_ok (decode_frame v m (xs @ w' @ ys))"
  show False
  proof (cases "2 \<le> length ys")
    case True
    then obtain mid t where ys: "ys = mid @ t" "length t = 2"
      by (metis append_take_drop_id diff_diff_cancel length_drop)
    from decode_frame_trailer [of v m "xs @ w @ mid" t] decode_frame_trailer [of v m "xs @ w' @ mid" t]
    have "le_bytes 2 (frame_crc (xs @ w @ mid)) = le_bytes 2 (frame_crc (xs @ w' @ mid))"
      using ok bad ys by simp
    then show False
      using frame_crc_window [of w w' xs mid] w by (auto dest: frame_crc_trailer_inj)
  next
    case False
    with place w have "length (w @ ys) \<le> 2" by simp linarith
    from ok obtain f where "encode_frame f = xs @ w @ ys"
      by (auto simp: is_ok_iff decode_frame_iff)
    then have "length xs + length (w @ ys) = HEADER_SIZE + length (fr_payload f) + CRC_SIZE"
      by (metis length_append length_encode_frame)
    then have long: "2 \<le> length xs + length (w @ ys)" by (simp add: CRC_SIZE_def)
    define k where "k = length xs + length (w @ ys) - 2"
    define u p where "u = take k xs" and "p = drop k xs"
    have xs: "xs = u @ p" by (simp add: u_def p_def)
    have "length (p @ w @ ys) = 2"
      using \<open>length (w @ ys) \<le> 2\<close> long by (simp add: p_def k_def)
    moreover have "length (p @ w' @ ys) = 2" using calculation w(1) by simp
    moreover have "is_ok (decode_frame v m (u @ p @ w @ ys))" using ok unfolding xs by simp
    moreover have "is_ok (decode_frame v m (u @ p @ w' @ ys))" using bad unfolding xs by simp
    ultimately have "p @ w @ ys = p @ w' @ ys" by (metis decode_frame_trailer)
    with w(2) show False by simp
  qed
qed

subsection \<open>Truncated and over-long input\<close>

lemma decode_header_take:
  "HEADER_SIZE \<le> n \<Longrightarrow> decode_header v m (take n bs) = decode_header v m bs"
  by (simp add: decode_header_def slice_def HEADER_SIZE_def take_drop min_def Let_def)

lemma decode_frame_truncated:
  assumes f: "wf_frame f" "int (length (fr_payload f)) \<le> m" "m \<le> MAX_WIRE_PAYLOAD"
    and n: "n < length (encode_frame f)"
  shows "decode_frame (fr_version f) m (take n (encode_frame f)) =
    Inl (TruncatedFrameError
      (int (if n < HEADER_SIZE then HEADER_SIZE else length (encode_frame f))) (int n))"
proof -
  have v: "0 \<le> fr_version f" "fr_version f \<le> 255" "0 \<le> m"
    using f by (auto simp: wf_frame_def)
  have "decode_header (fr_version f) m (encode_frame f) =
    Inr (fr_type f, fr_flags f, fr_sequence f, fr_opcode f, fr_status f, int (length (fr_payload f)))"
    using decode_header_encode [OF f(1), of "fr_version f" m "[]"] f(2) by simp
  then have hdr: "\<not> n < HEADER_SIZE \<Longrightarrow> decode_header (fr_version f) m (take n (encode_frame f)) =
    Inr (fr_type f, fr_flags f, fr_sequence f, fr_opcode f, fr_status f, int (length (fr_payload f)))"
    by (simp add: decode_header_take)
  show ?thesis
    using v f(3) n by (simp add: decode_frame_def hdr Let_def)
qed

lemma decode_frame_trailing:
  assumes f: "wf_frame f" "int (length (fr_payload f)) \<le> m" "m \<le> MAX_WIRE_PAYLOAD" and "xs \<noteq> []"
  shows "decode_frame (fr_version f) m (encode_frame f @ xs) =
    Inl (FrameLengthError (int (length (encode_frame f))) (int (length (encode_frame f) + length xs)))"
proof -
  have v: "0 \<le> fr_version f" "fr_version f \<le> 255" "0 \<le> m"
    using f by (auto simp: wf_frame_def)
  show ?thesis
    using v f(3) assms(4) decode_header_encode [OF f(1), of "fr_version f" m xs] f(2)
    by (simp add: decode_frame_def Let_def CRC_SIZE_def)
qed

subsection \<open>Frames as a self-delimiting codec\<close>

definition v3_frame :: "frame \<Rightarrow> bool" where
  "v3_frame f \<longleftrightarrow> wf_frame f \<and> fr_version f = PROTOCOL_VERSION"

definition frame_extent :: "bytes \<Rightarrow> nat option" where
  "frame_extent bs =
     (case decode_header PROTOCOL_VERSION MAX_WIRE_PAYLOAD bs of
        Inl _ \<Rightarrow> None
      | Inr (_, _, _, _, _, len) \<Rightarrow> Some (HEADER_SIZE + nat len + CRC_SIZE))"

lemma frame_codec_laws:
  "delimited_codec encode_frame (decode_frame PROTOCOL_VERSION MAX_WIRE_PAYLOAD) v3_frame frame_extent"
proof
  fix f bs rest
  show "v3_frame f \<Longrightarrow> decode_frame PROTOCOL_VERSION MAX_WIRE_PAYLOAD (encode_frame f) = Inr f"
    using decode_encode_frame [of f MAX_WIRE_PAYLOAD] by (auto simp: v3_frame_def wf_frame_def)
  show "decode_frame PROTOCOL_VERSION MAX_WIRE_PAYLOAD bs = Inr f \<Longrightarrow> v3_frame f \<and> encode_frame f = bs"
    by (simp add: v3_frame_def decode_frame_iff)
  show "v3_frame f \<Longrightarrow> frame_extent (encode_frame f @ rest) = Some (length (encode_frame f))"
    using decode_header_encode [of f PROTOCOL_VERSION MAX_WIRE_PAYLOAD rest]
    by (auto simp: v3_frame_def frame_extent_def wf_frame_def)
  show "v3_frame f \<Longrightarrow> encode_frame f \<noteq> []"
    by (metis length_encode_frame add_is_0 list.size(3) CRC_SIZE_def zero_neq_numeral)
qed

interpretation frames: delimited_codec encode_frame "decode_frame PROTOCOL_VERSION MAX_WIRE_PAYLOAD"
  v3_frame frame_extent
  by (rule frame_codec_laws)

lemma next_sequence_bounds: "0 \<le> v \<Longrightarrow> v \<le> 0xFFFF \<Longrightarrow> next_sequence v = (v, (v + 1) mod 65536)"
  using take_bit_eq_mask [of 16 "v + 1"] by (simp add: next_sequence_def take_bit_eq_mod mask_eq_exp_minus_1)

lemma validate_response_ok:
  "(validate_response req resp = Inr ()) =
     (fr_type req = REQUEST \<and> fr_type resp = RESPONSE \<and> fr_sequence resp = fr_sequence req \<and>
      fr_opcode resp = fr_opcode req)"
  by (simp add: validate_response_def)

subsection \<open>Properties of the codec\<close>

text \<open>
  C1: The decoder is exactly the inverse of the encoder. It returns a frame for precisely one byte
  string, the image the encoder gives for that frame, and only for frames whose fields fit their
  widths, whose version is the expected one and whose payload is within the limit.
\<close>

theorem frame_codec_exact:
  "(decode_frame v m raw = Inr f) =
     (wf_frame f \<and> fr_version f = v \<and> int (length (fr_payload f)) \<le> m \<and> m \<le> MAX_WIRE_PAYLOAD \<and>
      encode_frame f = raw)"
  by (rule decode_frame_iff)

definition sample_frame :: frame where
  "sample_frame = \<lparr>fr_type = RESPONSE, fr_sequence = 7, fr_opcode = 1, fr_payload = [0x4D],
     fr_flags = 0, fr_status = 0, fr_version = 3\<rparr>"

lemma sample_frame_decodes: "decode_frame 3 512 (encode_frame sample_frame) = Inr sample_frame"
  using decode_encode_frame [of sample_frame 512]
  by (simp add: sample_frame_def wf_frame_def frame_consts)

lemma sample_frame_image:
  "take 11 (encode_frame sample_frame) @ 0x4D # drop 12 (encode_frame sample_frame) =
     encode_frame sample_frame"
  by (simp add: encode_frame_def Let_def pack_header_def sample_frame_def MAGIC_def wire_simps)

text \<open>
  C2: No corrupted frame within the CRC's guarantee is taken for a frame. If a byte string decodes
  and one byte of it, or two neighbouring bytes that do not straddle the boundary between body and
  trailer, are replaced by others, then the result is rejected: header, payload and trailer alike.
\<close>

theorem frame_corruption_detected:
  assumes "is_ok (decode_frame v m (xs @ w @ ys))"
    and "length w' = length w" and "w' \<noteq> w" and "length w \<le> 2"
    and "length ys \<noteq> 1 \<or> length w = 1"
  shows "\<not> is_ok (decode_frame v m (xs @ w' @ ys))"
  by (rule corrupted_window_rejected [OF assms])

theorem frame_corruption_detected_witness:
  "\<not> is_ok (decode_frame 3 512
     (take 11 (encode_frame sample_frame) @ [0x4C] @ drop 12 (encode_frame sample_frame)))"
  by (rule frame_corruption_detected [where w = "[0x4D]"])
    (simp_all add: sample_frame_decodes sample_frame_image)

text \<open>
  Cut and padded frames are told apart from corrupted ones. A proper prefix of an encoded frame
  raises \<open>TruncatedFrameError\<close> with the size the decoder was waiting for and the size it got, an
  encoded frame with bytes after it raises \<open>FrameLengthError\<close> with both sizes.
\<close>

theorem frame_length_errors:
  assumes "wf_frame f" "int (length (fr_payload f)) \<le> m" "m \<le> MAX_WIRE_PAYLOAD"
  shows "(n < length (encode_frame f) \<longrightarrow>
      decode_frame (fr_version f) m (take n (encode_frame f)) =
        Inl (TruncatedFrameError
          (int (if n < HEADER_SIZE then HEADER_SIZE else length (encode_frame f))) (int n))) \<and>
    (xs \<noteq> [] \<longrightarrow>
      decode_frame (fr_version f) m (encode_frame f @ xs) =
        Inl (FrameLengthError (int (length (encode_frame f)))
          (int (length (encode_frame f) + length xs))))"
  using decode_frame_truncated [OF assms] decode_frame_trailing [OF assms] by blast

lemma frame_length_errors_example:
  "decode_frame 3 512 (take 12 (encode_frame sample_frame)) = Inl (TruncatedFrameError 14 12) \<and>
   decode_frame 3 512 (encode_frame sample_frame @ [0]) = Inl (FrameLengthError 14 15)"
proof -
  have "wf_frame sample_frame" "int (length (fr_payload sample_frame)) \<le> 512"
    "(512 :: int) \<le> MAX_WIRE_PAYLOAD" "fr_version sample_frame = 3"
    "length (encode_frame sample_frame) = 14"
    by (simp_all add: sample_frame_def wf_frame_def frame_consts length_encode_frame)
  with frame_length_errors [of sample_frame 512 12 "[0]"] show ?thesis
    by (simp add: HEADER_SIZE_def)
qed

end
