(* ===== verification/Frame_Parser.thy ===== *)
theory Frame_Parser
  imports Frame_Codec
begin

text \<open>
  \<open>FrameParser\<close> of \<open>server/msx_protocol.py\<close>: the incremental decoder that turns arbitrary stream
  fragments into frames, records what it discards and resynchronises on the next magic. The loop
  of \<open>feed\<close>, the search \<open>_find_valid_frame\<close> and the boundary handling of \<open>finish\<close> are translated
  as they stand; an exception that the code does not catch leaves them as \<open>Inl\<close>. The second half
  relates the loop to \<open>scan\<close>, a reference reading of a stream that looks at one position at a
  time, and derives that fragmentation cannot be observed.
\<close>

subsection \<open>State and operations\<close>

record parser =
  pr_version :: int
  pr_max_payload :: int
  pr_buffer :: bytes
  pr_errors :: "protocol_error list"

definition new_parser :: "int \<Rightarrow> int \<Rightarrow> protocol_error + parser" where
  "new_parser version max_payload =
     bindE (wire_int ''version'' version 0xFF) (\<lambda>v.
     bindE (wire_int ''max_payload'' max_payload MAX_WIRE_PAYLOAD) (\<lambda>m.
       Inr \<lparr>pr_version = v, pr_max_payload = m, pr_buffer = [], pr_errors = []\<rparr>))"

definition buffered_bytes :: "parser \<Rightarrow> nat" where
  "buffered_bytes p = length (pr_buffer p)"

definition reset :: "bool \<Rightarrow> parser \<Rightarrow> parser" where
  "reset clear_errors p =
     (let p = p\<lparr>pr_buffer := []\<rparr> in if clear_errors then p\<lparr>pr_errors := []\<rparr> else p)"

definition pop_errors :: "parser \<Rightarrow> protocol_error list \<times> parser" where
  "pop_errors p = (pr_errors p, p\<lparr>pr_errors := []\<rparr>)"

text \<open>\<open>errors.append(e)\<close> followed by \<open>del buffer[:n]\<close>.\<close>

definition discard :: "nat \<Rightarrow> protocol_error \<Rightarrow> parser \<Rightarrow> parser" where
  "discard n e p = p\<lparr>pr_errors := pr_errors p @ [e], pr_buffer := drop n (pr_buffer p)\<rparr>"

lemma discard_simps [simp]:
  "pr_buffer (discard n e p) = drop n (pr_buffer p)"
  "pr_errors (discard n e p) = pr_errors p @ [e]"
  "pr_version (discard n e p) = pr_version p"
  "pr_max_payload (discard n e p) = pr_max_payload p"
  by (simp_all add: discard_def)

text \<open>The bytes before the first magic are dropped as one garbage record.\<close>

definition skip_garbage :: "nat \<Rightarrow> parser \<Rightarrow> parser" where
  "skip_garbage magic_at p =
     (if magic_at \<noteq> 0 then discard magic_at (GarbageDataError (take magic_at (pr_buffer p))) p
      else p)"

lemma skip_garbage_simps [simp]:
  "pr_buffer (skip_garbage n p) = drop n (pr_buffer p)"
  "pr_version (skip_garbage n p) = pr_version p"
  "pr_max_payload (skip_garbage n p) = pr_max_payload p"
  by (simp_all add: skip_garbage_def)

definition drop_unframed :: "parser \<Rightarrow> parser" where
  "drop_unframed p =
     (let keep = (if last (pr_buffer p) = 0x4D then 1 else 0);
          discarded = take (length (pr_buffer p) - keep) (pr_buffer p)
      in if discarded \<noteq> [] then discard (length discarded) (GarbageDataError discarded) p else p)"

function feed_loop :: "parser \<Rightarrow> frame list \<Rightarrow> protocol_error + frame list \<times> parser" where
  "feed_loop p frames =
     (if pr_buffer p = [] then Inr (frames, p)
      else case find_sub MAGIC (pr_buffer p) of
        None \<Rightarrow> Inr (frames, drop_unframed p)
      | Some magic_at \<Rightarrow>
          let p1 = skip_garbage magic_at p in
          if length (pr_buffer p1) < HEADER_SIZE then Inr (frames, p1)
          else case decode_header (pr_version p) (pr_max_payload p) (pr_buffer p1) of
            Inl e \<Rightarrow>
              if is_frame_decode_error e \<or> is_payload_too_large e
              then feed_loop (discard 1 e p1) frames else Inl e
          | Inr (_, _, _, _, _, payload_length) \<Rightarrow>
              let expected_size = HEADER_SIZE + nat payload_length + CRC_SIZE in
              if length (pr_buffer p1) < expected_size then Inr (frames, p1)
              else case decode_frame (pr_version p) (pr_max_payload p)
                          (take expected_size (pr_buffer p1)) of
                Inl e \<Rightarrow>
                  if is_frame_decode_error e then feed_loop (discard 1 e p1) frames else Inl e
              | Inr f \<Rightarrow>
                  feed_loop (p1\<lparr>pr_buffer := drop expected_size (pr_buffer p1)\<rparr>) (frames @ [f]))"
  by pat_completeness auto
termination
  by (relation "measure (\<lambda>(p, _). length (pr_buffer p))")
    (auto simp: HEADER_SIZE_def CRC_SIZE_def dest: find_sub_Some)

declare feed_loop.simps [simp del]

definition feed :: "parser \<Rightarrow> bytes \<Rightarrow> protocol_error + frame list \<times> parser" where
  "feed p data = feed_loop (p\<lparr>pr_buffer := pr_buffer p @ data\<rparr>) []"

function find_valid_loop :: "parser \<Rightarrow> nat option \<Rightarrow> protocol_error + nat option" where
  "find_valid_loop p None = Inr None"
| "find_valid_loop p (Some offset) =
     (let available = length (pr_buffer p) - offset;
          next_offset = find_from MAGIC (offset + 1) (pr_buffer p)
      in if available \<ge> HEADER_SIZE then
           case decode_header (pr_version p) (pr_max_payload p) (drop offset (pr_buffer p)) of
             Inl e \<Rightarrow>
               if is_frame_decode_error e \<or> is_payload_too_large e
               then find_valid_loop p next_offset else Inl e
           | Inr (_, _, _, _, _, len) \<Rightarrow>
               let size = HEADER_SIZE + nat len + CRC_SIZE in
               if available \<ge> size then
                 case decode_frame (pr_version p) (pr_max_payload p)
                        (slice offset size (pr_buffer p)) of
                   Inl e \<Rightarrow>
                     if is_frame_decode_error e then find_valid_loop p next_offset else Inl e
                 | Inr _ \<Rightarrow> Inr (Some offset)
               else find_valid_loop p next_offset
         else find_valid_loop p next_offset)"
  by pat_completeness auto
termination
  by (relation "measure (\<lambda>(p, off).
        case off of None \<Rightarrow> 0 | Some k \<Rightarrow> Suc (length (pr_buffer p) - k))")
    (auto simp: MAGIC_def split: option.splits dest!: find_from_after)

definition find_valid_frame :: "parser \<Rightarrow> nat \<Rightarrow> protocol_error + nat option" where
  "find_valid_frame p start = find_valid_loop p (find_from MAGIC start (pr_buffer p))"

subsection \<open>The loop of feed as a scan\<close>

text \<open>
  What the parser decides about the first byte of its buffer: too little input, not the start of
  a frame, or a frame with its size.
\<close>

datatype verdict = Incomplete | Bad | Good frame nat

definition head_verdict :: "int \<Rightarrow> int \<Rightarrow> bytes \<Rightarrow> verdict" where
  "head_verdict v m buf =
     (if length buf < 2 then (if take (length buf) MAGIC = buf then Incomplete else Bad)
      else if \<not> starts_with MAGIC buf then Bad
      else if length buf < HEADER_SIZE then Incomplete
      else case decode_header v m buf of
             Inl _ \<Rightarrow> Bad
           | Inr (_, _, _, _, _, len) \<Rightarrow>
               let size = HEADER_SIZE + nat len + CRC_SIZE in
               if length buf < size then Incomplete
               else case decode_frame v m (take size buf) of Inl _ \<Rightarrow> Bad | Inr f \<Rightarrow> Good f size)"

lemma head_verdict_Nil [simp]: "head_verdict v m [] = Incomplete"
  by (simp add: head_verdict_def)

lemma head_verdict_Bad_nonempty: "head_verdict v m buf = Bad \<Longrightarrow> buf \<noteq> []"
  by auto

lemma head_verdict_Good:
  "head_verdict v m buf = Good f n \<Longrightarrow>
     n \<le> length buf \<and> HEADER_SIZE + CRC_SIZE \<le> n \<and> decode_frame v m (take n buf) = Inr f"
  by (auto simp: head_verdict_def Let_def split: if_splits sum.splits)

function scan :: "int \<Rightarrow> int \<Rightarrow> bytes \<Rightarrow> frame list \<times> bytes" where
  "scan v m buf =
     (case head_verdict v m buf of
        Incomplete \<Rightarrow> ([], buf)
      | Bad \<Rightarrow> scan v m (tl buf)
      | Good f n \<Rightarrow> apfst (Cons f) (scan v m (drop n buf)))"
  by pat_completeness auto
termination
  by (relation "measure (\<lambda>(_, _, buf). length buf)")
    (auto dest: head_verdict_Bad_nonempty head_verdict_Good simp: HEADER_SIZE_def)

declare scan.simps [simp del]

text \<open>A verdict that did not wait for input does not change when more input arrives.\<close>

lemma decode_header_append:
  "HEADER_SIZE \<le> length buf \<Longrightarrow> decode_header v m (buf @ ys) = decode_header v m buf"
  using decode_header_take [of HEADER_SIZE v m "buf @ ys"] decode_header_take [of HEADER_SIZE v m buf]
  by simp

lemma starts_with_append_iff:
  "length pat \<le> length xs \<Longrightarrow> starts_with pat (xs @ ys) = starts_with pat xs"
  by (simp add: starts_with_def)

lemma head_verdict_append:
  assumes "head_verdict v m buf \<noteq> Incomplete"
  shows "head_verdict v m (buf @ ys) = head_verdict v m buf"
proof (cases "length buf < 2")
  case True
  with assms obtain x where "buf = [x]" "x \<noteq> 0x4D"
    by (cases buf) (auto simp: head_verdict_def MAGIC_def split: if_splits)
  then show ?thesis
    by (auto simp: head_verdict_def MAGIC_def starts_with_def)
next
  case False
  then have "starts_with MAGIC (buf @ ys) = starts_with MAGIC buf"
    by (intro starts_with_append_iff) (simp add: MAGIC_def)
  with False assms show ?thesis
    by (auto simp: head_verdict_def Let_def decode_header_append not_less split: if_splits sum.splits)
qed

lemma scan_append:
  "scan v m (buf @ ys) =
     (let (fs, rest) = scan v m buf; (fs', rest') = scan v m (rest @ ys) in (fs @ fs', rest'))"
proof (induction v m buf rule: scan.induct)
  case (1 v m buf)
  show ?case
  proof (cases "head_verdict v m buf")
    case Incomplete
    then show ?thesis by (simp add: scan.simps [of v m buf] split: prod.splits)
  next
    case Bad
    then have "buf \<noteq> []" by auto
    with Bad "1.IH"(1) [OF Bad] head_verdict_append [of v m buf ys] show ?thesis
      by (simp add: scan.simps [of v m buf] scan.simps [of v m "buf @ ys"])
  next
    case (Good f n)
    with head_verdict_Good [of v m buf f n] "1.IH"(2) [OF Good]
      head_verdict_append [of v m buf ys] show ?thesis
      by (simp add: scan.simps [of v m buf] scan.simps [of v m "buf @ ys"] apfst_def map_prod_def
          split: prod.splits)
  qed
qed

lemma scan_rest: "\<exists>pre. buf = pre @ snd (scan v m buf)"
proof (induction v m buf rule: scan.induct)
  case (1 v m buf)
  show ?case
  proof (cases "head_verdict v m buf")
    case Incomplete
    then show ?thesis by (simp add: scan.simps [of v m buf])
  next
    case Bad
    with "1.IH"(1) [OF Bad] obtain pre where "tl buf = pre @ snd (scan v m (tl buf))" by blast
    then have "buf = (hd buf # pre) @ snd (scan v m buf)"
      using Bad head_verdict_Bad_nonempty [OF Bad] by (simp add: scan.simps [of v m buf])
    then show ?thesis by blast
  next
    case (Good f n)
    with "1.IH"(2) [OF Good] obtain pre where "drop n buf = pre @ snd (scan v m (drop n buf))"
      by blast
    then have "buf = (take n buf @ pre) @ snd (scan v m buf)"
      using Good by (simp add: scan.simps [of v m buf])
    then show ?thesis by blast
  qed
qed

definition wf_parser :: "parser \<Rightarrow> bool" where
  "wf_parser p \<longleftrightarrow>
     0 \<le> pr_version p \<and> pr_version p \<le> 0xFF \<and>
     0 \<le> pr_max_payload p \<and> pr_max_payload p \<le> MAX_WIRE_PAYLOAD"

lemma new_parser_wf: "new_parser v m = Inr p \<Longrightarrow> wf_parser p \<and> pr_buffer p = [] \<and> pr_errors p = []"
  by (auto simp: new_parser_def wf_parser_def result_simps)

lemma wf_parser_discard [simp]: "wf_parser (discard n e p) = wf_parser p"
  "wf_parser (skip_garbage n p) = wf_parser p"
  "wf_parser (p\<lparr>pr_buffer := b\<rparr>) = wf_parser p"
  "wf_parser (p\<lparr>pr_errors := es\<rparr>) = wf_parser p"
  by (simp_all add: wf_parser_def)

text \<open>Which errors the two decoders can raise on stream input.\<close>

lemma decode_header_caught:
  "decode_header v m bs = Inl e \<Longrightarrow> is_frame_decode_error e \<or> is_payload_too_large e"
  by (auto simp: decode_header_def Let_def is_payload_too_large_def split: if_splits option.splits)

lemma decode_candidate_error:
  assumes "wf_parser p" "HEADER_SIZE \<le> length buf"
    and hdr: "decode_header (pr_version p) (pr_max_payload p) buf = Inr (ft, fl, sq, op, st, n)"
    and size: "HEADER_SIZE + nat n + CRC_SIZE \<le> length buf"
    and err: "decode_frame (pr_version p) (pr_max_payload p)
                (take (HEADER_SIZE + nat n + CRC_SIZE) buf) = Inl e"
  shows "\<exists>c r. e = CRCMismatchError c r"
proof -
  let ?raw = "take (HEADER_SIZE + nat n + CRC_SIZE) buf"
  have hdr': "decode_header (pr_version p) (pr_max_payload p) ?raw = Inr (ft, fl, sq, op, st, n)"
    using hdr by (simp add: decode_header_take)
  have len: "length ?raw = HEADER_SIZE + nat n + CRC_SIZE" using size by simp
  note b = decode_header_Inr [OF assms(2) hdr]
  have "int (length (slice HEADER_SIZE (nat n) ?raw)) \<le> MAX_WIRE_PAYLOAD"
    using b len by (simp add: MAX_WIRE_PAYLOAD_def CRC_SIZE_def)
  then have mk: "is_ok (mk_frame (int_of_frame_type ft) sq op (slice HEADER_SIZE (nat n) ?raw) fl st
      (pr_version p))"
    using b by (simp add: mk_frame_def)
  show ?thesis
    using assms(1) err len mk
    by (auto simp: decode_frame_def hdr' wf_parser_def Let_def split: if_splits)
qed

subsection \<open>The loop agrees with the scan\<close>

lemma scan_Bad: "head_verdict v m buf = Bad \<Longrightarrow> scan v m buf = scan v m (tl buf)"
  by (subst scan.simps) simp

lemma scan_Incomplete: "head_verdict v m buf = Incomplete \<Longrightarrow> scan v m buf = ([], buf)"
  by (subst scan.simps) simp

lemma scan_Good:
  "head_verdict v m buf = Good f n \<Longrightarrow> scan v m buf = apfst (Cons f) (scan v m (drop n buf))"
  by (subst scan.simps) simp

lemma scan_Nil [simp]: "scan v m [] = ([], [])"
  by (simp add: scan_Incomplete)

lemma scan_skip:
  "k \<le> length buf \<Longrightarrow> (\<And>j. j < k \<Longrightarrow> head_verdict v m (drop j buf) = Bad) \<Longrightarrow>
     scan v m buf = scan v m (drop k buf)"
proof (induction k arbitrary: buf)
  case (Suc k)
  have "head_verdict v m buf = Bad" using Suc.prems(2) [of 0] by simp
  moreover have "scan v m (tl buf) = scan v m (drop k (tl buf))"
  proof (rule Suc.IH)
    show "k \<le> length (tl buf)" using Suc.prems(1) by simp
    show "head_verdict v m (drop j (tl buf)) = Bad" if "j < k" for j
      using Suc.prems(2) [of "Suc j"] that by (simp add: drop_Suc)
  qed
  ultimately show ?case by (simp add: scan_Bad drop_Suc)
qed simp

lemma head_verdict_no_magic:
  "2 \<le> length buf \<Longrightarrow> \<not> starts_with MAGIC buf \<Longrightarrow> head_verdict v m buf = Bad"
  by (simp add: head_verdict_def)

lemma scan_to_magic:
  assumes "find_sub MAGIC buf = Some k"
  shows "scan v m buf = scan v m (drop k buf)"
proof (rule scan_skip)
  show "k \<le> length buf" using find_sub_Some [OF assms] by simp
  fix j assume j: "j < k"
  have "2 \<le> length (drop k buf)"
    using find_sub_Some [OF assms] starts_with_length [of MAGIC "drop k buf"] by (simp add: MAGIC_def)
  with j have "2 \<le> length (drop j buf)" by simp
  then show "head_verdict v m (drop j buf) = Bad"
    using find_sub_Some_first [OF assms j] by (rule head_verdict_no_magic)
qed

lemma scan_no_magic:
  "find_sub MAGIC buf = None \<Longrightarrow> buf \<noteq> [] \<Longrightarrow>
     scan v m buf = ([], if last buf = 0x4D then [0x4D] else [])"
proof (induction buf)
  case (Cons x xs)
  show ?case
  proof (cases xs)
    case Nil
    then show ?thesis
      by (cases "x = 0x4D") (auto simp: scan_Incomplete scan_Bad head_verdict_def MAGIC_def)
  next
    case (Cons y ys)
    with Cons.prems have "\<not> starts_with MAGIC (x # xs)" "find_sub MAGIC xs = None"
      by (auto split: if_splits)
    with Cons Cons.IH show ?thesis
      by (simp add: scan_Bad head_verdict_no_magic)
  qed
qed simp

fun error_cost :: "protocol_error \<Rightarrow> nat" where
  "error_cost (GarbageDataError d) = length d"
| "error_cost (TruncatedFrameError expected actual) = nat actual"
| "error_cost e = 1"

definition frame_bytes :: "frame list \<Rightarrow> nat" where
  "frame_bytes fs = sum_list (map (\<lambda>f. length (encode_frame f)) fs)"

lemma frame_bytes_simps [simp]:
  "frame_bytes [] = 0" "frame_bytes (f # fs) = length (encode_frame f) + frame_bytes fs"
  "frame_bytes (fs @ gs) = frame_bytes fs + frame_bytes gs"
  by (simp_all add: frame_bytes_def)

definition errors_cost :: "protocol_error list \<Rightarrow> nat" where
  "errors_cost es = sum_list (map error_cost es)"

lemma errors_cost_simps [simp]:
  "errors_cost [] = 0" "errors_cost (e # es) = error_cost e + errors_cost es"
  "errors_cost (es @ es') = errors_cost es + errors_cost es'"
  by (simp_all add: errors_cost_def)

text \<open>
  \<open>feeds p fs p'\<close>: from \<open>p\<close> the loop returned \<open>fs\<close> and left \<open>p'\<close>; frames and buffer are what the
  scan says, and the errors it added account for every byte that went neither into a frame nor
  into the buffer.
\<close>

definition feeds :: "parser \<Rightarrow> frame list \<Rightarrow> parser \<Rightarrow> bool" where
  "feeds p fs p' \<longleftrightarrow>
     (fs, pr_buffer p') = scan (pr_version p) (pr_max_payload p) (pr_buffer p) \<and>
     pr_version p' = pr_version p \<and> pr_max_payload p' = pr_max_payload p \<and>
     (\<exists>errs. pr_errors p' = pr_errors p @ errs \<and>
        length (pr_buffer p) = frame_bytes fs + errors_cost errs + length (pr_buffer p'))"

lemma feeds_stop:
  "scan (pr_version p) (pr_max_payload p) (pr_buffer p) = ([], pr_buffer p) \<Longrightarrow> feeds p [] p"
  by (simp add: feeds_def)

lemma feeds_discard:
  assumes "feeds (discard n e p) fs p'" "error_cost e = n" "n \<le> length (pr_buffer p)"
    and "scan (pr_version p) (pr_max_payload p) (pr_buffer p) =
         scan (pr_version p) (pr_max_payload p) (drop n (pr_buffer p))"
  shows "feeds p fs p'"
  using assms by (auto simp: feeds_def)

lemma feeds_bad:
  assumes "feeds (discard 1 e q) fs p'" "error_cost e = 1"
    and "head_verdict (pr_version q) (pr_max_payload q) (pr_buffer q) = Bad"
  shows "feeds q fs p'"
proof (rule feeds_discard [OF assms(1,2)])
  show "1 \<le> length (pr_buffer q)"
    using head_verdict_Bad_nonempty [OF assms(3)] by (simp add: Suc_le_eq)
qed (simp add: scan_Bad [OF assms(3)] drop_Suc)

lemma feeds_skip_garbage:
  assumes "feeds (skip_garbage k p) fs p'" "find_sub MAGIC (pr_buffer p) = Some k"
  shows "feeds p fs p'"
proof (cases "k = 0")
  case True
  with assms(1) show ?thesis by (simp add: skip_garbage_def)
next
  case False
  let ?e = "GarbageDataError (take k (pr_buffer p))"
  have k: "k \<le> length (pr_buffer p)" using find_sub_Some [OF assms(2)] by simp
  show ?thesis
  proof (rule feeds_discard)
    show "feeds (discard k ?e p) fs p'" using assms(1) False by (simp add: skip_garbage_def)
    show "error_cost ?e = k" using k by simp
  qed (use k scan_to_magic [OF assms(2)] in simp_all)
qed

lemma feeds_drop_unframed:
  assumes "find_sub MAGIC (pr_buffer p) = None" "pr_buffer p \<noteq> []"
  shows "feeds p [] (drop_unframed p)"
proof -
  have "drop (length (pr_buffer p) - 1) (pr_buffer p) = [last (pr_buffer p)]"
    using assms(2) by (metis One_nat_def append_butlast_last_id append_eq_conv_conj length_butlast)
  with assms show ?thesis
    by (auto simp: feeds_def scan_no_magic drop_unframed_def Let_def)
qed

lemma head_verdict_at_magic:
  assumes "starts_with MAGIC buf" "HEADER_SIZE \<le> length buf"
  shows "head_verdict v m buf =
    (case decode_header v m buf of
       Inl _ \<Rightarrow> Bad
     | Inr (_, _, _, _, _, len) \<Rightarrow>
         if length buf < HEADER_SIZE + nat len + CRC_SIZE then Incomplete
         else case decode_frame v m (take (HEADER_SIZE + nat len + CRC_SIZE) buf) of
                Inl _ \<Rightarrow> Bad
              | Inr f \<Rightarrow> Good f (HEADER_SIZE + nat len + CRC_SIZE))"
  using assms unfolding head_verdict_def Let_def by (auto simp: HEADER_SIZE_def)

lemma head_verdict_short:
  "starts_with MAGIC buf \<Longrightarrow> length buf < HEADER_SIZE \<Longrightarrow> head_verdict v m buf = Incomplete"
  using starts_with_length [of MAGIC buf] by (simp add: head_verdict_def MAGIC_def)

lemma decode_header_cost: "decode_header v m bs = Inl e \<Longrightarrow> error_cost e = 1"
  by (auto simp: decode_header_def Let_def split: if_splits option.splits)

lemma feed_loop_feeds:
  "wf_parser p \<Longrightarrow> \<exists>fs p'. feed_loop p frames = Inr (frames @ fs, p') \<and> feeds p fs p'"
proof (induction p frames rule: feed_loop.induct)
  case (1 p frames)
  show ?case
  proof (cases "pr_buffer p = [] \<or> find_sub MAGIC (pr_buffer p) = None")
    case True
    then show ?thesis
      using feeds_drop_unframed [of p] by (auto simp: feed_loop.simps [of p] intro!: exI feeds_stop)
  next
    case False
    then obtain k where ne: "pr_buffer p \<noteq> []" and k: "find_sub MAGIC (pr_buffer p) = Some k"
      by auto
    define q where "q = skip_garbage k p"
    have q: "pr_version q = pr_version p" "pr_max_payload q = pr_max_payload p" "wf_parser q"
      "starts_with MAGIC (pr_buffer q)"
      using "1.prems" find_sub_Some [OF k] by (simp_all add: q_def)
    have "\<exists>fs p'. feed_loop p frames = Inr (frames @ fs, p') \<and> feeds q fs p'"
    proof (cases "length (pr_buffer q) < HEADER_SIZE")
      case True
      then show ?thesis
        using ne k q by (auto simp: feed_loop.simps [of p] Let_def simp flip: q_def
            intro!: exI feeds_stop scan_Incomplete head_verdict_short)
    next
      case long: False
      then have hv: "HEADER_SIZE \<le> length (pr_buffer q)" by simp
      show ?thesis
      proof (cases "decode_header (pr_version p) (pr_max_payload p) (pr_buffer q)")
        case (Inl e)
        then have bad: "head_verdict (pr_version q) (pr_max_payload q) (pr_buffer q) = Bad"
          using q hv by (simp add: head_verdict_at_magic)
        have c: "is_frame_decode_error e \<or> is_payload_too_large e" "error_cost e = 1"
          using Inl by (auto dest: decode_header_caught decode_header_cost)
        have step: "feed_loop p frames = feed_loop (discard 1 e q) frames"
          using ne k long Inl c by (subst feed_loop.simps) (simp add: Let_def flip: q_def)
        have "\<exists>fs p'. feed_loop (discard 1 e q) frames = Inr (frames @ fs, p') \<and>
            feeds (discard 1 e q) fs p'"
          unfolding q_def by (rule "1.IH"(1) [OF ne k refl])
            (use long Inl c q in \<open>simp_all add: q_def\<close>)
        then show ?thesis using feeds_bad [OF _ c(2) bad] unfolding step by blast
      next
        case (Inr h)
        obtain ft fl sq op st n where h: "h = (ft, fl, sq, op, st, n)" by (cases h)
        let ?size = "HEADER_SIZE + nat n + CRC_SIZE"
        show ?thesis
        proof (cases "length (pr_buffer q) < ?size")
          case True
          then have "head_verdict (pr_version q) (pr_max_payload q) (pr_buffer q) = Incomplete"
            using Inr h q hv by (simp add: head_verdict_at_magic)
          with True ne k long Inr h show ?thesis
            by (auto simp: feed_loop.simps [of p] Let_def simp flip: q_def
                intro!: exI feeds_stop scan_Incomplete)
        next
          case complete: False
          show ?thesis
          proof (cases "decode_frame (pr_version p) (pr_max_payload p) (take ?size (pr_buffer q))")
            case (Inl e)
            then have bad: "head_verdict (pr_version q) (pr_max_payload q) (pr_buffer q) = Bad"
              using q hv Inr h complete by (simp add: head_verdict_at_magic)
            obtain c r where e: "e = CRCMismatchError c r"
              using decode_candidate_error [of q "pr_buffer q" ft fl sq op st n e]
                q hv Inl Inr h complete by auto
            have step: "feed_loop p frames = feed_loop (discard 1 e q) frames"
              using ne k long Inl Inr h complete e
              by (subst feed_loop.simps) (simp add: Let_def flip: q_def)
            have "\<exists>fs p'. feed_loop (discard 1 e q) frames = Inr (frames @ fs, p') \<and>
                feeds (discard 1 e q) fs p'"
              unfolding q_def by (rule "1.IH"(2) [OF ne k refl])
                (use long Inl Inr h complete e q in \<open>simp_all add: q_def\<close>)
            then show ?thesis using feeds_bad [OF _ _ bad] e unfolding step by fastforce
          next
            case frame: (Inr f)
            let ?q = "q\<lparr>pr_buffer := drop ?size (pr_buffer q)\<rparr>"
            have good: "head_verdict (pr_version q) (pr_max_payload q) (pr_buffer q) = Good f ?size"
              using q hv Inr h complete frame by (simp add: head_verdict_at_magic)
            have len: "length (encode_frame f) = ?size"
              using frame complete by (auto simp: decode_frame_iff)
            have step: "feed_loop p frames = feed_loop ?q (frames @ [f])"
              using ne k long frame Inr h complete
              by (subst feed_loop.simps) (simp add: Let_def flip: q_def)
            have "\<exists>fs p'. feed_loop ?q (frames @ [f]) = Inr ((frames @ [f]) @ fs, p') \<and> feeds ?q fs p'"
              unfolding q_def by (rule "1.IH"(3) [OF ne k refl])
                (use long frame Inr h complete q in \<open>simp_all add: q_def\<close>)
            then obtain fs p' where
              "feed_loop ?q (frames @ [f]) = Inr (frames @ (f # fs), p')" "feeds ?q fs p'" by auto
            moreover from this(2) have "feeds q (f # fs) p'"
              using good len complete scan_Good [OF good] by (auto simp: feeds_def apfst_def map_prod_def split: prod.splits)
            ultimately show ?thesis using step by auto
          qed
        qed
      qed
    qed
    then show ?thesis using feeds_skip_garbage [OF _ k] by (auto simp: q_def)
  qed
qed

lemma feed_feeds:
  assumes "wf_parser p"
  shows "\<exists>fs p'. feed p data = Inr (fs, p') \<and> feeds (p\<lparr>pr_buffer := pr_buffer p @ data\<rparr>) fs p'"
  using feed_loop_feeds [of "p\<lparr>pr_buffer := pr_buffer p @ data\<rparr>" "[]"] assms
  by (simp add: feed_def)

lemma feeds_buffer_le: "feeds p fs p' \<Longrightarrow> length (pr_buffer p') \<le> length (pr_buffer p)"
  by (auto simp: feeds_def)

lemma feeds_wf: "feeds p fs p' \<Longrightarrow> wf_parser p' = wf_parser p"
  by (simp add: feeds_def wf_parser_def)

lemma feed_wf: "wf_parser p \<Longrightarrow> feed p data = Inr (fs, p') \<Longrightarrow> wf_parser p'"
  using feed_feeds [of p data] feeds_wf by fastforce

lemma feed_scan:
  assumes "wf_parser p"
  shows "map_sum id (map_prod id pr_buffer) (feed p data) =
    Inr (scan (pr_version p) (pr_max_payload p) (pr_buffer p @ data))"
  using feed_feeds [OF assms, of data] by (auto simp: feeds_def)

subsection \<open>Feeding a sequence of fragments\<close>

fun feed_all :: "parser \<Rightarrow> bytes list \<Rightarrow> protocol_error + frame list \<times> parser" where
  "feed_all p [] = Inr ([], p)"
| "feed_all p (c # cs) =
     bindE (feed p c) (\<lambda>(fs, p'). bindE (feed_all p' cs) (\<lambda>(fs', p''). Inr (fs @ fs', p'')))"

lemma feed_all_scan:
  assumes "wf_parser p" "scan (pr_version p) (pr_max_payload p) (pr_buffer p) = ([], pr_buffer p)"
  shows "\<exists>p'. feed_all p cs = Inr (fst (scan (pr_version p) (pr_max_payload p) (pr_buffer p @ concat cs)), p') \<and>
    pr_buffer p' = snd (scan (pr_version p) (pr_max_payload p) (pr_buffer p @ concat cs))"
  using assms
proof (induction cs arbitrary: p)
  case Nil
  then show ?case by simp
next
  case (Cons c cs)
  let ?v = "pr_version p" and ?m = "pr_max_payload p"
  obtain fs p1 where f: "feed p c = Inr (fs, p1)"
    and fd: "feeds (p\<lparr>pr_buffer := pr_buffer p @ c\<rparr>) fs p1"
    using feed_feeds [OF Cons.prems(1)] by blast
  then have p1: "scan ?v ?m (pr_buffer p @ c) = (fs, pr_buffer p1)" "pr_version p1 = ?v"
    "pr_max_payload p1 = ?m" "wf_parser p1"
    using Cons.prems(1) feed_wf by (auto simp: feeds_def)
  have "scan ?v ?m (pr_buffer p1) = ([], pr_buffer p1)"
    using scan_append [of ?v ?m "pr_buffer p @ c" "[]"] p1(1) by (auto split: prod.splits)
  with p1 Cons.IH [of p1] have IH:
    "\<exists>p'. feed_all p1 cs = Inr (fst (scan ?v ?m (pr_buffer p1 @ concat cs)), p') \<and>
      pr_buffer p' = snd (scan ?v ?m (pr_buffer p1 @ concat cs))" by simp
  have "scan ?v ?m (pr_buffer p @ c @ concat cs) =
     (fs @ fst (scan ?v ?m (pr_buffer p1 @ concat cs)), snd (scan ?v ?m (pr_buffer p1 @ concat cs)))"
    using scan_append [of ?v ?m "pr_buffer p @ c" "concat cs"] p1(1) by (simp split: prod.splits)
  with IH f show ?case by auto
qed

subsection \<open>The boundary operation finish\<close>

declare find_valid_loop.simps(2) [simp del]

lemma find_valid_loop_step:
  "find_valid_loop p (Some j) = r \<Longrightarrow>
     r = Inr (Some j) \<or> r = find_valid_loop p (find_from MAGIC (j + 1) (pr_buffer p)) \<or> (\<exists>e. r = Inl e)"
  by (subst (asm) find_valid_loop.simps) (auto simp: Let_def split: if_splits sum.splits)

lemma find_valid_loop_bound:
  "find_valid_loop p (Some j) = Inr (Some k) \<Longrightarrow> j < length (pr_buffer p) \<Longrightarrow>
     j \<le> k \<and> k < length (pr_buffer p)"
proof (induction "length (pr_buffer p) - j" arbitrary: j rule: less_induct)
  case less
  let ?b = "pr_buffer p" and ?nxt = "find_from MAGIC (j + 1) (pr_buffer p)"
  from find_valid_loop_step [OF less.prems(1)] 
  consider "k = j" | "find_valid_loop p ?nxt = Inr (Some k)" by auto
  then show ?case
  proof cases
    case 2
    then obtain i where i: "?nxt = Some i" by (cases ?nxt) auto
    then have "j + 1 \<le> i" "i < length ?b"
      using find_from_after [of MAGIC "j + 1" ?b i] by (simp_all add: MAGIC_def)
    moreover from this have "length ?b - i < length ?b - j" by linarith
    ultimately show ?thesis using less.hyps [of i] 2 i by fastforce
  qed (use less.prems in simp)
qed

lemma find_valid_frame_bound:
  assumes "find_valid_frame p start = Inr (Some k)"
  shows "start \<le> k \<and> k < length (pr_buffer p)"
proof -
  from assms obtain j where j: "find_from MAGIC start (pr_buffer p) = Some j"
    by (cases "find_from MAGIC start (pr_buffer p)") (auto simp: find_valid_frame_def)
  then have "start \<le> j" "j < length (pr_buffer p)"
    using find_from_after [of MAGIC start "pr_buffer p" j] by (simp_all add: MAGIC_def)
  with find_valid_loop_bound [of p j k] assms j show ?thesis by (auto simp: find_valid_frame_def)
qed

lemma drop_unframed_le: "length (pr_buffer (drop_unframed p)) \<le> length (pr_buffer p)"
  by (simp add: drop_unframed_def Let_def)

lemma feed_loop_step:
  assumes "feed_loop p frames = Inr (fs, p')"
  shows "length (pr_buffer p') \<le> length (pr_buffer p) \<or>
     (\<exists>q fr. feed_loop q fr = Inr (fs, p') \<and> length (pr_buffer q) < length (pr_buffer p))"
proof (cases "pr_buffer p = [] \<or> find_sub MAGIC (pr_buffer p) = None")
  case True
  with assms drop_unframed_le [of p] show ?thesis
    by (subst (asm) feed_loop.simps) (auto split: if_splits)
next
  case False
  then obtain k where ne: "pr_buffer p \<noteq> []" and k: "find_sub MAGIC (pr_buffer p) = Some k"
    by auto
  define q where "q = skip_garbage k p"
  have q: "length (pr_buffer q) \<le> length (pr_buffer p)" by (simp add: q_def)
  show ?thesis
  proof (cases "length (pr_buffer q) < HEADER_SIZE")
    case True
    with assms ne k q show ?thesis
      by (subst (asm) feed_loop.simps) (simp add: Let_def flip: q_def)
  next
    case long: False
    then have "length (pr_buffer (discard 1 e q)) < length (pr_buffer p)"
      "length (drop (HEADER_SIZE + n + CRC_SIZE) (pr_buffer q)) < length (pr_buffer p)" for e n
      using q by (auto simp: HEADER_SIZE_def)
    with assms ne k q long show ?thesis
      by (subst (asm) feed_loop.simps)
        (fastforce simp add: Let_def simp flip: q_def split: if_splits sum.splits prod.splits)
  qed
qed

lemma feed_loop_le:
  "feed_loop p frames = Inr (fs, p') \<Longrightarrow> length (pr_buffer p') \<le> length (pr_buffer p)"
proof (induction "length (pr_buffer p)" arbitrary: p frames rule: less_induct)
  case less
  from feed_loop_step [OF less.prems] less.hyps show ?case by fastforce
qed

lemma feed_nil_le: "feed p [] = Inr (fs, p') \<Longrightarrow> length (pr_buffer p') \<le> length (pr_buffer p)"
  by (simp add: feed_def feed_loop_le)


text \<open>
  The \<open>while\<close> of \<open>finish\<close>: an incomplete frame at the head of the buffer is given up as truncated
  when a complete valid frame starts later, and feeding resumes there.
\<close>

function finish_loop :: "parser \<Rightarrow> frame list \<Rightarrow> protocol_error + frame list \<times> parser" where
  "finish_loop p frames =
     (if starts_with MAGIC (pr_buffer p) \<and> HEADER_SIZE \<le> length (pr_buffer p) then
        case decode_header (pr_version p) (pr_max_payload p) (pr_buffer p) of
          Inl e \<Rightarrow>
            if is_frame_decode_error e \<or> is_payload_too_large e then Inr (frames, p) else Inl e
        | Inr (_, _, _, _, _, payload_length) \<Rightarrow>
            let expected = HEADER_SIZE + nat payload_length + CRC_SIZE in
            if expected \<le> length (pr_buffer p) then Inr (frames, p)
            else bindE (find_valid_frame p 1) (\<lambda>next_frame.
              case next_frame of
                None \<Rightarrow> Inr (frames, p)
              | Some k \<Rightarrow>
                  bindE (feed (discard k (TruncatedFrameError (int expected) (int k)) p) [])
                    (\<lambda>(fs, p'). finish_loop p' (frames @ fs)))
      else Inr (frames, p))"
  by pat_completeness auto
termination
proof (relation "measure (\<lambda>(p, _). length (pr_buffer p))", goal_cases)
  case (2 p frames h ft h1 fl h2 sq h3 op h4 st len expected nf k r fs p')
  then show ?case
    using find_valid_frame_bound [of p 1 k] feed_nil_le [of _ fs p'] by fastforce
qed simp

declare finish_loop.simps [simp del]

definition finish_tail :: "parser \<Rightarrow> protocol_error + parser" where
  "finish_tail p =
     (let buf = pr_buffer p; n = length buf; clear = (\<lambda>e. Inr (discard n e p)) in
      if buf = [] then Inr p
      else if starts_with buf MAGIC \<or> starts_with MAGIC buf then
        (if HEADER_SIZE \<le> n then
           case decode_header (pr_version p) (pr_max_payload p) buf of
             Inl e \<Rightarrow> if is_frame_decode_error e \<or> is_payload_too_large e then clear e else Inl e
           | Inr (_, _, _, _, _, len) \<Rightarrow>
               clear (TruncatedFrameError (int (HEADER_SIZE + nat len + CRC_SIZE)) (int n))
         else clear (TruncatedFrameError (int HEADER_SIZE) (int n)))
      else clear (GarbageDataError buf))"

definition finish :: "parser \<Rightarrow> protocol_error + frame list \<times> parser" where
  "finish p =
     bindE (feed p []) (\<lambda>(frames, p).
     bindE (finish_loop p frames) (\<lambda>(frames, p).
     bindE (finish_tail p) (\<lambda>p. Inr (frames, p))))"


subsection \<open>What finish recovers\<close>

lemma find_from_first:
  assumes "find_from pat start xs = Some n" "start \<le> k" "k < n"
  shows "\<not> starts_with pat (drop k xs)"
proof -
  from assms(1) obtain i where "find_sub pat (drop start xs) = Some i" "n = start + i"
    by (auto simp: find_from_def split: if_splits)
  with assms find_sub_Some_first [of pat "drop start xs" i "k - start"] show ?thesis by simp
qed

lemma find_from_None:
  assumes "find_from pat start xs = None" "start \<le> k" "pat \<noteq> []"
  shows "\<not> starts_with pat (drop k xs)"
proof (cases "length xs < start")
  case True
  with assms show ?thesis by (simp add: starts_with_def)
next
  case False
  with assms find_sub_None [of pat "drop start xs" "k - start"] show ?thesis
    by (simp add: find_from_def)
qed

definition good_at :: "parser \<Rightarrow> nat \<Rightarrow> bool" where
  "good_at p k \<longleftrightarrow>
     (\<exists>f n. head_verdict (pr_version p) (pr_max_payload p) (drop k (pr_buffer p)) = Good f n)"

lemma good_at_magic: "good_at p k \<Longrightarrow> starts_with MAGIC (drop k (pr_buffer p))"
  by (auto simp: good_at_def head_verdict_def split: if_splits)

lemma find_valid_loop_verdict:
  assumes "wf_parser p" "starts_with MAGIC (drop j (pr_buffer p))"
  shows "find_valid_loop p (Some j) =
    (if good_at p j then Inr (Some j)
     else find_valid_loop p (find_from MAGIC (j + 1) (pr_buffer p)))"
proof -
  let ?v = "pr_version p" and ?m = "pr_max_payload p" and ?b = "drop j (pr_buffer p)"
  show ?thesis
  proof (cases "HEADER_SIZE \<le> length ?b")
    case False
    then show ?thesis
      using head_verdict_short [OF assms(2)]
      by (simp add: find_valid_loop.simps(2) good_at_def Let_def)
  next
    case long: True
    note hv = head_verdict_at_magic [OF assms(2) long, of ?v ?m]
    show ?thesis
    proof (cases "decode_header ?v ?m ?b")
      case (Inl e)
      with long decode_header_caught [OF Inl] hv show ?thesis
        by (simp add: find_valid_loop.simps(2) good_at_def Let_def)
    next
      case (Inr h)
      obtain ft fl sq op st n where h: "h = (ft, fl, sq, op, st, n)" by (cases h)
      let ?size = "HEADER_SIZE + nat n + CRC_SIZE"
      show ?thesis
      proof (cases "decode_frame ?v ?m (take ?size ?b)")
        case err: (Inl e)
        have "?size \<le> length ?b \<Longrightarrow> is_frame_decode_error e"
          using decode_candidate_error [OF assms(1) long, of ft fl sq op st n e] Inr h err by auto
        with long Inr h err hv show ?thesis
          by (simp add: find_valid_loop.simps(2) good_at_def Let_def slice_def)
      next
        case frame: (Inr f)
        with long Inr h hv show ?thesis
          by (simp add: find_valid_loop.simps(2) good_at_def Let_def slice_def)
      qed
    qed
  qed
qed

definition first_good :: "parser \<Rightarrow> nat \<Rightarrow> nat option \<Rightarrow> bool" where
  "first_good p start r =
     (case r of
        None \<Rightarrow> \<forall>k\<ge>start. \<not> good_at p k
      | Some k \<Rightarrow> start \<le> k \<and> good_at p k \<and> (\<forall>j. start \<le> j \<and> j < k \<longrightarrow> \<not> good_at p j))"

lemma first_good_find:
  assumes "\<And>j. find_from MAGIC start (pr_buffer p) = Some j \<Longrightarrow>
     \<exists>r. find_valid_loop p (Some j) = Inr r \<and> first_good p j r"
  shows "\<exists>r. find_valid_loop p (find_from MAGIC start (pr_buffer p)) = Inr r \<and> first_good p start r"
proof (cases "find_from MAGIC start (pr_buffer p)")
  case None
  then have "\<not> good_at p k" if "start \<le> k" for k
    using find_from_None [OF None that] good_at_magic [of p k] by (auto simp: MAGIC_def)
  with None show ?thesis by (simp add: first_good_def)
next
  case (Some j)
  then have before: "\<not> good_at p k" if "start \<le> k" "k < j" for k
    using find_from_first [OF Some that] good_at_magic [of p k] by blast
  from Some have "start \<le> j" by (simp add: find_from_Some)
  with assms [OF Some] Some before show ?thesis
    unfolding first_good_def by (fastforce split: option.splits simp: not_less)
qed

lemma find_valid_loop_first:
  "wf_parser p \<Longrightarrow> starts_with MAGIC (drop j (pr_buffer p)) \<Longrightarrow>
     \<exists>r. find_valid_loop p (Some j) = Inr r \<and> first_good p j r"
proof (induction "length (pr_buffer p) - j" arbitrary: j rule: less_induct)
  case less
  have j: "j < length (pr_buffer p)"
    using starts_with_length [OF less.prems(2)] by (simp add: MAGIC_def)
  have "\<exists>r. find_valid_loop p (find_from MAGIC (j + 1) (pr_buffer p)) = Inr r \<and> first_good p (j + 1) r"
  proof (rule first_good_find)
    fix i assume i: "find_from MAGIC (j + 1) (pr_buffer p) = Some i"
    note b = find_from_Some [OF i]
    show "\<exists>r. find_valid_loop p (Some i) = Inr r \<and> first_good p i r"
      by (rule less.hyps) (use b j less.prems(1) in linarith, use b less.prems(1) in simp_all)
  qed
  then obtain r where r: "find_valid_loop p (find_from MAGIC (j + 1) (pr_buffer p)) = Inr r"
    "first_good p (j + 1) r" by blast
  show ?case
  proof (cases "good_at p j")
    case True
    with find_valid_loop_verdict [OF less.prems] show ?thesis by (auto simp: first_good_def)
  next
    case False
    then have "first_good p j r"
      using r(2) by (auto simp: first_good_def Suc_le_eq split: option.splits)
        (metis le_neq_implies_less less_le_not_le)+
    with r(1) find_valid_loop_verdict [OF less.prems] False show ?thesis by auto
  qed
qed

lemma find_valid_frame_first:
  "wf_parser p \<Longrightarrow> \<exists>r. find_valid_frame p start = Inr r \<and> first_good p start r"
  unfolding find_valid_frame_def
  by (rule first_good_find) (simp add: find_valid_loop_first find_from_Some)


text \<open>
  At a boundary no more input arrives, so a position that is not the start of a complete valid
  frame is skipped. This is the reference reading of the rest of the stream.
\<close>

function scan_end :: "int \<Rightarrow> int \<Rightarrow> bytes \<Rightarrow> frame list" where
  "scan_end v m buf =
     (if buf = [] then []
      else case head_verdict v m buf of
             Good f n \<Rightarrow> f # scan_end v m (drop n buf)
           | _ \<Rightarrow> scan_end v m (tl buf))"
  by pat_completeness auto
termination
  by (relation "measure (\<lambda>(_, _, buf). length buf)")
    (auto dest: head_verdict_Good simp: HEADER_SIZE_def)

declare scan_end.simps [simp del]

lemma scan_end_Nil [simp]: "scan_end v m [] = []"
  by (simp add: scan_end.simps)

lemma scan_end_Good:
  "head_verdict v m buf = Good f n \<Longrightarrow> scan_end v m buf = f # scan_end v m (drop n buf)"
  by (subst scan_end.simps) auto

lemma scan_end_skip1:
  "(\<And>f n. head_verdict v m buf \<noteq> Good f n) \<Longrightarrow> scan_end v m buf = scan_end v m (tl buf)"
  by (subst scan_end.simps) (auto split: verdict.splits)

lemma scan_end_scan: "scan_end v m buf = fst (scan v m buf) @ scan_end v m (snd (scan v m buf))"
proof (induction v m buf rule: scan.induct)
  case (1 v m buf)
  then show ?case
    by (cases "head_verdict v m buf")
      (simp_all add: scan_Incomplete scan_Bad scan_Good scan_end_Good scan_end_skip1)
qed

lemma scan_end_skip:
  "(\<And>j f n. j < k \<Longrightarrow> head_verdict v m (drop j buf) \<noteq> Good f n) \<Longrightarrow>
     scan_end v m buf = scan_end v m (drop k buf)"
proof (induction k arbitrary: buf)
  case (Suc k)
  have "scan_end v m buf = scan_end v m (tl buf)"
    by (rule scan_end_skip1) (use Suc.prems [of 0] in simp)
  also have "\<dots> = scan_end v m (drop k (tl buf))"
    by (rule Suc.IH) (use Suc.prems [of "Suc _"] in \<open>simp add: drop_Suc\<close>)
  finally show ?case by (simp add: drop_Suc)
qed simp

lemma scan_end_none:
  "(\<And>k f n. head_verdict v m (drop k buf) \<noteq> Good f n) \<Longrightarrow> scan_end v m buf = []"
  using scan_end_skip [of "length buf" v m buf] by simp

lemma scan_snd_incomplete: "head_verdict v m (snd (scan v m buf)) = Incomplete"
proof (induction v m buf rule: scan.induct)
  case (1 v m buf)
  then show ?case
    by (cases "head_verdict v m buf") (simp_all add: scan_Incomplete scan_Bad scan_Good)
qed

definition conserves :: "parser \<Rightarrow> frame list \<Rightarrow> parser \<Rightarrow> bool" where
  "conserves p fs p' \<longleftrightarrow>
     pr_version p' = pr_version p \<and> pr_max_payload p' = pr_max_payload p \<and>
     (\<exists>errs. pr_errors p' = pr_errors p @ errs \<and>
        length (pr_buffer p) = frame_bytes fs + errors_cost errs + length (pr_buffer p'))"

lemma conserves_refl: "conserves p [] p"
  by (simp add: conserves_def)

lemma conserves_trans: "conserves p fs q \<Longrightarrow> conserves q gs r \<Longrightarrow> conserves p (fs @ gs) r"
  by (fastforce simp: conserves_def)

lemma conserves_discard: "error_cost e = n \<Longrightarrow> n \<le> length (pr_buffer p) \<Longrightarrow> conserves p [] (discard n e p)"
  by (simp add: conserves_def)

lemma feeds_conserves: "feeds p fs p' \<Longrightarrow> conserves p fs p'"
  by (simp add: feeds_def conserves_def)

lemma conserves_wf: "conserves p fs p' \<Longrightarrow> wf_parser p' = wf_parser p"
  by (simp add: conserves_def wf_parser_def)

lemma feeds_incomplete:
  "feeds p fs p' \<Longrightarrow> head_verdict (pr_version p') (pr_max_payload p') (pr_buffer p') = Incomplete"
  unfolding feeds_def by (metis scan_snd_incomplete snd_conv)


definition waiting :: "parser \<Rightarrow> bool" where
  "waiting p \<longleftrightarrow>
     head_verdict (pr_version p) (pr_max_payload p) (pr_buffer p) = Incomplete"

abbreviation rest_frames :: "parser \<Rightarrow> frame list" where
  "rest_frames p \<equiv> scan_end (pr_version p) (pr_max_payload p) (pr_buffer p)"

lemma rest_frames_none: "(\<And>k. \<not> good_at p k) \<Longrightarrow> rest_frames p = []"
  by (rule scan_end_none) (simp add: good_at_def)

lemma good_at_length: "good_at p k \<Longrightarrow> k + HEADER_SIZE + CRC_SIZE \<le> length (pr_buffer p)"
  using head_verdict_Good [of "pr_version p" "pr_max_payload p" "drop k (pr_buffer p)"]
  by (fastforce simp: good_at_def HEADER_SIZE_def)

lemma waiting_cases:
  assumes "waiting p"
  obtains (prefix) "length (pr_buffer p) < HEADER_SIZE"
      "starts_with (pr_buffer p) MAGIC \<or> starts_with MAGIC (pr_buffer p)"
  | (body) ft fl sq op st n where "HEADER_SIZE \<le> length (pr_buffer p)"
      "starts_with MAGIC (pr_buffer p)"
      "decode_header (pr_version p) (pr_max_payload p) (pr_buffer p) = Inr (ft, fl, sq, op, st, n)"
      "length (pr_buffer p) < HEADER_SIZE + nat n + CRC_SIZE"
proof (cases "length (pr_buffer p) < HEADER_SIZE")
  case True
  moreover have "starts_with (pr_buffer p) MAGIC \<or> starts_with MAGIC (pr_buffer p)"
    using assms by (auto simp: waiting_def head_verdict_def starts_with_def split: if_splits)
  ultimately show ?thesis by (rule prefix)
next
  case False
  then have magic: "starts_with MAGIC (pr_buffer p)"
    using assms by (auto simp: waiting_def head_verdict_def HEADER_SIZE_def split: if_splits)
  with assms False that(2) show ?thesis
    by (auto simp: waiting_def head_verdict_at_magic not_less split: sum.splits if_splits)
qed

lemma waiting_rest_skip:
  assumes "waiting p" "first_good p 1 (Some k)"
  shows "rest_frames p = scan_end (pr_version p) (pr_max_payload p) (drop k (pr_buffer p))"
proof (rule scan_end_skip)
  fix j f n assume "j < k"
  then show "head_verdict (pr_version p) (pr_max_payload p) (drop j (pr_buffer p)) \<noteq> Good f n"
    using assms by (cases j) (auto simp: waiting_def first_good_def good_at_def)
qed

lemma waiting_rest_none:
  assumes "waiting p" "first_good p 1 None"
  shows "rest_frames p = []"
proof (rule rest_frames_none)
  fix k show "\<not> good_at p k"
    using assms by (cases k) (auto simp: waiting_def first_good_def good_at_def)
qed

lemma feed_nil_feeds: "wf_parser p \<Longrightarrow> \<exists>fs p'. feed p [] = Inr (fs, p') \<and> feeds p fs p'"
  using feed_feeds [of p "[]"] by simp

lemma finish_loop_spec:
  "wf_parser p \<Longrightarrow> waiting p \<Longrightarrow>
     \<exists>p'. finish_loop p frames = Inr (frames @ rest_frames p, p') \<and>
       conserves p (rest_frames p) p' \<and> waiting p'"
proof (induction "length (pr_buffer p)" arbitrary: p frames rule: less_induct)
  case less
  from less.prems(2) show ?case
  proof (cases rule: waiting_cases)
    case prefix
    then have "rest_frames p = []"
      using good_at_length by (intro rest_frames_none) fastforce
    moreover have "finish_loop p frames = Inr (frames, p)"
      using prefix(1) by (subst finish_loop.simps) simp
    ultimately show ?thesis using less.prems(2) conserves_refl by simp
  next
    case (body ft fl sq op st n)
    let ?size = "HEADER_SIZE + nat n + CRC_SIZE"
    let ?q = "\<lambda>k. discard k (TruncatedFrameError (int ?size) (int k)) p"
    obtain r where r: "find_valid_frame p 1 = Inr r" "first_good p 1 r"
      using find_valid_frame_first [OF less.prems(1)] by blast
    have step: "finish_loop p frames =
      (case r of None \<Rightarrow> Inr (frames, p)
       | Some k \<Rightarrow> bindE (feed (?q k) []) (\<lambda>(fs, p'). finish_loop p' (frames @ fs)))"
      using body r(1) by (subst finish_loop.simps) (cases r; simp add: Let_def)
    show ?thesis
    proof (cases r)
      case None
      with step r(2) waiting_rest_none [OF less.prems(2)] less.prems(2) conserves_refl show ?thesis
        by simp
    next
      case (Some k)
      from r Some have k: "1 \<le> k" "k < length (pr_buffer p)"
        using find_valid_frame_bound [of p 1 k] by simp_all
      obtain fs p1 where f: "feed (?q k) [] = Inr (fs, p1)" and fd: "feeds (?q k) fs p1"
        using feed_nil_feeds wf_parser_discard(1) less.prems(1) by blast
      have p1: "wf_parser p1" "waiting p1" "length (pr_buffer p1) < length (pr_buffer p)"
        using feeds_wf [OF fd] feeds_incomplete [OF fd] feeds_buffer_le [OF fd] less.prems(1) k
        by (simp_all add: waiting_def)
      obtain p' where p': "finish_loop p1 (frames @ fs) = Inr ((frames @ fs) @ rest_frames p1, p')"
        "conserves p1 (rest_frames p1) p'" "waiting p'"
        using less.hyps [OF p1(3) p1(1,2), of "frames @ fs"] by blast
      have rest: "rest_frames p = fs @ rest_frames p1"
        using waiting_rest_skip [OF less.prems(2)] r(2) Some fd
          scan_end_scan [of "pr_version p" "pr_max_payload p" "drop k (pr_buffer p)"]
        by (auto simp: feeds_def simp flip: fst_conv snd_conv) (metis fst_conv snd_conv)
      have "conserves p ([] @ fs @ rest_frames p1) p'"
        by (rule conserves_trans [OF conserves_discard conserves_trans [OF feeds_conserves [OF fd] p'(2)]])
          (use k in simp_all)
      with p' rest step Some f show ?thesis by auto
    qed
  qed
qed

lemma finish_tail_spec:
  assumes "waiting p"
  shows "\<exists>p'. finish_tail p = Inr p' \<and> conserves p [] p' \<and> pr_buffer p' = []"
  using assms
proof (cases rule: waiting_cases)
  case prefix
  then show ?thesis
    using conserves_refl [of p] by (auto simp: finish_tail_def Let_def intro!: conserves_discard)
next
  case body
  then show ?thesis
    using conserves_refl [of p] by (auto simp: finish_tail_def Let_def intro!: conserves_discard)
qed

lemma finish_spec:
  assumes "wf_parser p"
  shows "\<exists>p'. finish p = Inr (rest_frames p, p') \<and> conserves p (rest_frames p) p' \<and> pr_buffer p' = []"
proof -
  obtain fs p1 where f: "feed p [] = Inr (fs, p1)" and fd: "feeds p fs p1"
    using feed_feeds [OF assms, of "[]"] by auto
  have p1: "wf_parser p1" "waiting p1"
    using feeds_wf [OF fd] feeds_incomplete [OF fd] assms by (simp_all add: waiting_def)
  obtain p2 where p2: "finish_loop p1 fs = Inr (fs @ rest_frames p1, p2)"
    "conserves p1 (rest_frames p1) p2" "waiting p2"
    using finish_loop_spec [OF p1] by blast
  obtain p3 where p3: "finish_tail p2 = Inr p3" "conserves p2 [] p3" "pr_buffer p3 = []"
    using finish_tail_spec [OF p2(3)] by blast
  have rest: "rest_frames p = fs @ rest_frames p1"
    using fd scan_end_scan [of "pr_version p" "pr_max_payload p" "pr_buffer p"]
    unfolding feeds_def by (metis fst_conv snd_conv)
  have "conserves p (fs @ rest_frames p1 @ []) p3"
    by (rule conserves_trans [OF feeds_conserves [OF fd] conserves_trans [OF p2(2) p3(2)]])
  with f p2(1) p3 rest show ?thesis by (simp add: finish_def)
qed

subsection \<open>Streams of frames\<close>

definition acceptable :: "int \<Rightarrow> int \<Rightarrow> frame \<Rightarrow> bool" where
  "acceptable v m f \<longleftrightarrow>
     wf_frame f \<and> fr_version f = v \<and> int (length (fr_payload f)) \<le> m \<and> m \<le> MAX_WIRE_PAYLOAD"

lemma head_verdict_frame:
  assumes "acceptable v m f"
  shows "head_verdict v m (encode_frame f @ rest) = Good f (length (encode_frame f))"
proof -
  let ?b = "encode_frame f @ rest"
  have hdr: "decode_header v m ?b =
    Inr (fr_type f, fr_flags f, fr_sequence f, fr_opcode f, fr_status f, int (length (fr_payload f)))"
    using assms decode_header_encode [of f v m rest] by (simp add: acceptable_def)
  have len: "length (encode_frame f) = HEADER_SIZE + length (fr_payload f) + CRC_SIZE"
    by (rule length_encode_frame)
  have "decode_frame v m (encode_frame f) = Inr f"
    using assms by (simp add: decode_frame_iff acceptable_def)
  moreover have "starts_with MAGIC ?b"
    by (simp add: encode_frame_def pack_header_def Let_def starts_with_def MAGIC_def)
  ultimately show ?thesis using hdr len by (simp add: head_verdict_at_magic)
qed

definition frame_stream :: "frame list \<Rightarrow> bytes" where
  "frame_stream fs = concat (map encode_frame fs)"

lemma scan_frames:
  "list_all (acceptable v m) fs \<Longrightarrow>
     scan v m (frame_stream fs @ rest) = (fs @ fst (scan v m rest), snd (scan v m rest))"
proof (induction fs)
  case (Cons f fs)
  then show ?case
    using head_verdict_frame [of v m f "frame_stream fs @ rest"]
    by (simp add: scan_Good frame_stream_def apfst_def map_prod_def)
qed (simp add: frame_stream_def)

lemma scan_end_frames:
  "list_all (acceptable v m) fs \<Longrightarrow>
     scan_end v m (frame_stream fs @ rest) = fs @ scan_end v m rest"
proof (induction fs)
  case (Cons f fs)
  then show ?case
    using head_verdict_frame [of v m f "frame_stream fs @ rest"]
    by (simp add: scan_end_Good frame_stream_def)
qed (simp add: frame_stream_def)


definition noisy_stream :: "(bytes \<times> frame) list \<Rightarrow> bytes" where
  "noisy_stream zs = concat (map (\<lambda>(noise, f). noise @ encode_frame f) zs)"

lemma magic_free_prefix:
  assumes "find_sub MAGIC noise = None" "j < length noise" "2 \<le> length tl'" "starts_with MAGIC tl'"
  shows "head_verdict v m (drop j (noise @ tl')) = Bad"
proof (rule head_verdict_no_magic)
  show "2 \<le> length (drop j (noise @ tl'))" using assms(2,3) by simp
  show "\<not> starts_with MAGIC (drop j (noise @ tl'))"
  proof (cases "j + 2 \<le> length noise")
    case True
    with find_sub_None [OF assms(1), of j] show ?thesis
      by (simp add: starts_with_append_iff MAGIC_def)
  next
    case False
    with assms(2) obtain x where "drop j noise = [x]"
      by (cases "drop j noise"; cases "tl (drop j noise)")
        (auto dest!: arg_cong [where f = length])
    moreover from assms(4) obtain ys where "tl' = 0x4D # ys" by (cases tl') (auto simp: starts_with_def MAGIC_def)
    ultimately show ?thesis using assms(2) by (simp add: starts_with_def MAGIC_def)
  qed
qed

lemma encode_frame_magic: "starts_with MAGIC (encode_frame f @ rest)"
  by (simp add: encode_frame_def pack_header_def Let_def starts_with_def MAGIC_def)

lemma scan_noisy:
  "list_all (\<lambda>(noise, f). find_sub MAGIC noise = None \<and> acceptable v m f) zs \<Longrightarrow>
     scan v m (noisy_stream zs) = (map snd zs, [])"
proof (induction zs)
  case (Cons z zs)
  obtain noise f where z: "z = (noise, f)" by (cases z)
  let ?t = "encode_frame f @ noisy_stream zs"
  have "scan v m (noise @ ?t) = scan v m (drop (length noise) (noise @ ?t))"
  proof (rule scan_skip)
    fix j assume "j < length noise"
    then show "head_verdict v m (drop j (noise @ ?t)) = Bad"
      by (rule magic_free_prefix [rotated])
        (use Cons.prems z starts_with_length [OF encode_frame_magic] in
          \<open>auto simp: encode_frame_magic length_encode_frame HEADER_SIZE_def\<close>)
  qed simp
  then show ?case
    using Cons z by (simp add: noisy_stream_def scan_Good head_verdict_frame)
qed (simp add: noisy_stream_def)

lemma sample_frame_acceptable: "acceptable 3 512 sample_frame" by code_simp

subsection \<open>Properties of the parser\<close>

lemma new_parser_waiting:
  "new_parser v m = Inr p \<Longrightarrow>
     wf_parser p \<and> pr_version p = v \<and> pr_max_payload p = m \<and> pr_buffer p = [] \<and> pr_errors p = []"
  using new_parser_wf [of v m p] by (auto simp: new_parser_def wire_int_def result_simps split: if_splits)

text \<open>
  C3: How a transport fragments a stream cannot be observed: two ways of cutting the same bytes
  into chunks make a new parser return the same frames and keep the same bytes buffered.
\<close>

theorem parser_fragmentation:
  assumes "new_parser v m = Inr p" and "concat cs = concat ds"
  shows "map_sum id (map_prod id pr_buffer) (feed_all p cs) =
    map_sum id (map_prod id pr_buffer) (feed_all p ds)"
  using new_parser_waiting [OF assms(1)] feed_all_scan [of p cs] feed_all_scan [of p ds] assms(2)
  by fastforce

theorem parser_fragmentation_witness:
  "map_sum id (map_prod id pr_buffer) (bindE (new_parser 3 512) (\<lambda>p.
     feed_all p [[1, 0x4D], take 7 (encode_frame sample_frame), drop 7 (encode_frame sample_frame)])) =
   map_sum id (map_prod id pr_buffer) (bindE (new_parser 3 512) (\<lambda>p.
     feed_all p [[1], 0x4D # encode_frame sample_frame, []]))"
proof -
  obtain p where p: "new_parser 3 512 = Inr p"
    by (simp add: new_parser_def wire_int_def MAX_WIRE_PAYLOAD_def)
  show ?thesis
    using parser_fragmentation [OF p, of
        "[[1, 0x4D], take 7 (encode_frame sample_frame), drop 7 (encode_frame sample_frame)]"
        "[[1], 0x4D # encode_frame sample_frame, []]"] p
    by simp
qed

text \<open>
  C4: Noise on the line does not cost a frame. Acceptable frames separated by arbitrary bytes that
  contain no magic are all returned, in order and exactly once, whatever the fragmentation, and
  nothing stays buffered.
\<close>

theorem parser_resynchronises:
  assumes "new_parser v m = Inr p"
    and "list_all (\<lambda>(noise, f). find_sub MAGIC noise = None \<and> acceptable v m f) zs"
    and "concat cs = noisy_stream zs"
  shows "map_sum id (map_prod id pr_buffer) (feed_all p cs) = Inr (map snd zs, [])"
  using new_parser_waiting [OF assms(1)] feed_all_scan [of p cs] scan_noisy [OF assms(2)] assms(3)
  by fastforce

theorem parser_resynchronises_witness:
  "map_sum id (map_prod id pr_buffer) (bindE (new_parser 3 512) (\<lambda>p.
     feed_all p [[0x58, 0x4D], encode_frame sample_frame, 0x0D # encode_frame sample_frame])) =
   Inr ([sample_frame, sample_frame], [])"
proof -
  obtain p where p: "new_parser 3 512 = Inr p"
    by (simp add: new_parser_def wire_int_def MAX_WIRE_PAYLOAD_def)
  show ?thesis
    using parser_resynchronises [OF p, of "[([0x58, 0x4D], sample_frame), ([0x0D], sample_frame)]"
        "[[0x58, 0x4D], encode_frame sample_frame, 0x0D # encode_frame sample_frame]"] p
    by (simp add: noisy_stream_def sample_frame_acceptable MAGIC_def starts_with_def)
qed

text \<open>
  C6: Nothing disappears silently. On a well-formed parser \<open>feed\<close> and \<open>finish\<close> never raise, and
  every byte is in a returned frame, in the buffer, or in the error records they append, where a
  garbage or truncation record stands for the bytes it names and any other record for the one
  byte skipped; after \<open>finish\<close> the buffer is empty.
\<close>

theorem parser_accounts_for_bytes:
  assumes "wf_parser p"
  shows "(\<exists>fs p' errs. feed p data = Inr (fs, p') \<and> pr_errors p' = pr_errors p @ errs \<and>
      length (pr_buffer p) + length data =
        frame_bytes fs + errors_cost errs + length (pr_buffer p')) \<and>
    (\<exists>fs p' errs. finish p = Inr (fs, p') \<and> pr_errors p' = pr_errors p @ errs \<and>
      pr_buffer p' = [] \<and> length (pr_buffer p) = frame_bytes fs + errors_cost errs)"
proof
  show "\<exists>fs p' errs. feed p data = Inr (fs, p') \<and> pr_errors p' = pr_errors p @ errs \<and>
      length (pr_buffer p) + length data =
        frame_bytes fs + errors_cost errs + length (pr_buffer p')"
    using feed_feeds [OF assms, of data] by (fastforce simp: feeds_def)
  show "\<exists>fs p' errs. finish p = Inr (fs, p') \<and> pr_errors p' = pr_errors p @ errs \<and>
      pr_buffer p' = [] \<and> length (pr_buffer p) = frame_bytes fs + errors_cost errs"
    using finish_spec [OF assms] by (fastforce simp: conserves_def)
qed

theorem parser_accounts_for_bytes_witness:
  "\<exists>fs p' errs. feed \<lparr>pr_version = 3, pr_max_payload = 512, pr_buffer = [0x4D], pr_errors = []\<rparr>
       [0x58, 3, 9] = Inr (fs, p') \<and> pr_errors p' = errs \<and>
     4 = frame_bytes fs + errors_cost errs + length (pr_buffer p')"
  using parser_accounts_for_bytes [of
      "\<lparr>pr_version = 3, pr_max_payload = 512, pr_buffer = [0x4D], pr_errors = []\<rparr>" "[0x58, 3, 9]"]
  by (auto simp: wf_parser_def MAX_WIRE_PAYLOAD_def numeral_eq_Suc)

text \<open>
  C5: A reconnect burst survives a severed frame. When the buffer holds any bytes in which no
  complete valid frame starts, such as the beginning of a frame whose rest never came, followed by
  acceptable frames, then \<open>finish\<close> returns exactly those frames, empties the buffer, and its error
  records account for exactly the bytes before them.
\<close>

theorem finish_recovers_burst:
  assumes "wf_parser p" and buf: "pr_buffer p = severed @ frame_stream gs"
    and "list_all (acceptable (pr_version p) (pr_max_payload p)) gs"
    and "\<And>j. j < length severed \<Longrightarrow> \<not> good_at p j"
  shows "\<exists>p' errs. finish p = Inr (gs, p') \<and> pr_buffer p' = [] \<and>
    pr_errors p' = pr_errors p @ errs \<and> errors_cost errs = length severed"
proof -
  have "rest_frames p = scan_end (pr_version p) (pr_max_payload p) (frame_stream gs)"
    using scan_end_skip [of "length severed" "pr_version p" "pr_max_payload p" "pr_buffer p"] assms
    by (simp add: good_at_def)
  also have "\<dots> = gs" using scan_end_frames [OF assms(3), of "[]"] by simp
  finally have gs: "rest_frames p = gs" .
  have len: "length (frame_stream gs) = frame_bytes gs"
    by (simp add: frame_stream_def frame_bytes_def length_concat comp_def)
  obtain p' where p': "finish p = Inr (gs, p')" "conserves p gs p'" "pr_buffer p' = []"
    using finish_spec [OF assms(1)] gs by auto
  from p'(2) obtain errs where "pr_errors p' = pr_errors p @ errs"
    "length (pr_buffer p) = frame_bytes gs + errors_cost errs + length (pr_buffer p')"
    by (auto simp: conserves_def)
  with p' len buf show ?thesis by auto
qed

definition severed_parser :: parser where
  "severed_parser = \<lparr>pr_version = 3, pr_max_payload = 512,
     pr_buffer = [0x4D, 0x58, 3, 2, 0, 7, 0, 1, 0, 200, 0, 0x4D, 0] @ frame_stream [sample_frame],
     pr_errors = []\<rparr>"

theorem finish_recovers_burst_witness:
  "\<exists>p' errs. finish severed_parser = Inr ([sample_frame], p') \<and> pr_buffer p' = [] \<and>
    pr_errors p' = pr_errors severed_parser @ errs \<and> errors_cost errs = 13"
proof -
  have len: "length (frame_stream [sample_frame]) = 14"
    by (simp add: frame_stream_def length_encode_frame sample_frame_def frame_consts)
  have hdr: "decode_header 3 512 (pr_buffer severed_parser) = Inr (RESPONSE, 0, 7, 1, 0, 200)"
    by (simp add: severed_parser_def decode_header_def slice_def Let_def frame_consts
        frame_type_of_int_def wire_simps)
  have head: "\<not> good_at severed_parser 0"
    using hdr len by (simp add: good_at_def head_verdict_def Let_def severed_parser_def frame_consts)
  have "list_all (\<lambda>j. \<not> starts_with MAGIC (drop j (pr_buffer severed_parser))) [1..<13]"
    by (simp add: severed_parser_def starts_with_def MAGIC_def upt_rec)
  then have tail: "\<not> good_at severed_parser j" if "0 < j" "j < 13" for j
    using that good_at_magic [of severed_parser j] by (auto simp: list_all_iff)
  have "\<not> good_at severed_parser j" if "j < 13" for j
    using head tail [of j] that by (cases "j = 0") simp_all
  then show ?thesis
    using finish_recovers_burst [of severed_parser
        "[0x4D, 0x58, 3, 2, 0, 7, 0, 1, 0, 200, 0, 0x4D, 0]" "[sample_frame]"]
    by (simp add: severed_parser_def wf_parser_def MAX_WIRE_PAYLOAD_def sample_frame_acceptable eval_nat_numeral)
qed

end
