(* ===== verification/Transfer_Wire.thy ===== *)
theory Transfer_Wire
  imports Codec
begin

text \<open>
  The file-transfer payloads of \<open>server/msx_transfer.py\<close>: the transfer descriptor with the checks
  of its constructor, the OPEN payload in both directions, the other request encoders and the
  reply parsers. Integers are unbounded as in Python and are checked against their wire width
  where the code checks them; \<open>struct\<close> formats are written as concatenations of little-endian
  fields, and unpacking reads the fields by offset. The typed model has no value for the branches
  that reject a wrong Python type. Paths are strings of 8-bit characters; a character from 80h on
  stands for any character outside ASCII.
\<close>

unbundle bit_operations_syntax

subsection \<open>Enumerations\<close>

definition UINT32_MAX :: int where "UINT32_MAX = 0xFFFFFFFF"
definition MAX_PATH_BYTES :: nat where "MAX_PATH_BYTES = 255"
definition TRANSFER_PROTOCOL_VERSION :: int where "TRANSFER_PROTOCOL_VERSION = 1"

datatype transfer_direction = PUT | GET

definition direction_of_int :: "int \<Rightarrow> transfer_direction option" where
  "direction_of_int v = (if v = 0 then Some PUT else if v = 1 then Some GET else None)"

primrec int_of_direction :: "transfer_direction \<Rightarrow> int" where
  "int_of_direction PUT = 0"
| "int_of_direction GET = 1"

datatype transfer_encoding = RAW | PACKBITS

definition encoding_of_int :: "int \<Rightarrow> transfer_encoding option" where
  "encoding_of_int v = (if v = 0 then Some RAW else if v = 1 then Some PACKBITS else None)"

primrec int_of_encoding :: "transfer_encoding \<Rightarrow> int" where
  "int_of_encoding RAW = 0"
| "int_of_encoding PACKBITS = 1"

datatype transfer_state =
  IDLE | STAGED | OPENING | READY | TRANSFERRING | VERIFYING | POSTPROCESS | COMPLETE
| SUSPENDED | FAILED | CANCELLED

definition state_of_int :: "int \<Rightarrow> transfer_state option" where
  "state_of_int v =
     (if v = 0 then Some IDLE else if v = 1 then Some STAGED else if v = 2 then Some OPENING
      else if v = 3 then Some READY else if v = 4 then Some TRANSFERRING
      else if v = 5 then Some VERIFYING else if v = 6 then Some POSTPROCESS
      else if v = 7 then Some COMPLETE else if v = 8 then Some SUSPENDED
      else if v = 9 then Some FAILED else if v = 10 then Some CANCELLED else None)"

datatype remote_error =
  NO_ERROR | BINDING | IO | CRC | EXISTS | TIMEOUT | UNSUPPORTED | METADATA | RANGE

definition remote_error_of_int :: "int \<Rightarrow> remote_error option" where
  "remote_error_of_int v =
     (if v = 0 then Some NO_ERROR else if v = 1 then Some BINDING else if v = 2 then Some IO
      else if v = 3 then Some CRC else if v = 4 then Some EXISTS else if v = 5 then Some TIMEOUT
      else if v = 6 then Some UNSUPPORTED else if v = 7 then Some METADATA
      else if v = 8 then Some RANGE else None)"

lemma direction_of_int_iff [simp]: "(direction_of_int v = Some d) = (v = int_of_direction d)"
  by (cases d) (auto simp: direction_of_int_def)

lemma encoding_of_int_iff [simp]: "(encoding_of_int v = Some e) = (v = int_of_encoding e)"
  by (cases e) (auto simp: encoding_of_int_def)

lemma int_of_direction_bounds [simp]:
  "0 \<le> int_of_direction d" "int_of_direction d \<le> 1" "int_of_direction d < 256"
  by (cases d; simp)+

lemma int_of_encoding_bounds [simp]:
  "0 \<le> int_of_encoding e" "int_of_encoding e \<le> 1" "int_of_encoding e < 256"
  by (cases e; simp)+

subsection \<open>Descriptors and exceptions\<close>

record descriptor =
  td_direction :: transfer_direction
  td_encoding :: transfer_encoding
  td_id :: bytes
  td_wire_size :: int
  td_wire_crc :: int
  td_final_size :: int
  td_final_crc :: int
  td_path :: string
  td_resume_offset :: int
  td_resume_crc :: int
  td_resume :: bool
  td_replay :: bool

record journal_record =
  jr_descriptor :: descriptor
  jr_offset :: int
  jr_prefix_crc :: int
  jr_caller :: "string option"
  jr_close_intent :: bool

text \<open>
  The exception classes of the module, with the record the legacy error stores. \<open>FileNotFound\<close> and
  \<open>OSFailure\<close> are the operating system's errors the module handles.
\<close>

datatype transfer_error =
    TransferError
  | TransferPayloadError
  | TransferBindingError
  | TransferCancelledError
  | TransferJournalError
  | TransferJournalLegacyError journal_record
  | PackBitsWireLimit
  | FileNotFound
  | OSFailure

definition u32 :: "int \<Rightarrow> transfer_error + int" where
  "u32 v = (if 0 \<le> v \<and> v \<le> UINT32_MAX then Inr v else Inl TransferError)"

definition u16 :: "int \<Rightarrow> transfer_error + int" where
  "u16 v = (if 0 \<le> v \<and> v \<le> 0xFFFF then Inr v else Inl TransferError)"

definition transfer_id :: "bytes \<Rightarrow> transfer_error + bytes" where
  "transfer_id v = (if length v \<noteq> 16 then Inl TransferError else Inr v)"

definition byte_of_char :: "char \<Rightarrow> byte" where
  "byte_of_char c = of_nat (of_char c)"

definition char_of_byte :: "byte \<Rightarrow> char" where
  "char_of_byte b = char_of (unat b)"

lemma unat_byte_of_char [simp]: "unat (byte_of_char c) = of_char c"
  by (simp add: byte_of_char_def unat_of_nat)

lemma of_char_of_byte [simp]: "of_char (char_of_byte b) = unat b"
proof -
  have "unat b < 256" using unsigned_less [of b] by simp
  then show ?thesis by (simp add: char_of_byte_def)
qed

lemma char_byte_inverse [simp]:
  "char_of_byte (byte_of_char c) = c"
  "byte_of_char (char_of_byte b) = b"
  by (simp add: char_of_byte_def) (rule word_unat_eq_iff [THEN iffD2], simp)

definition ascii_encode :: "string \<Rightarrow> bytes option" where
  "ascii_encode s =
     (if list_all (\<lambda>c. of_char c < (128 :: nat)) s then Some (map byte_of_char s) else None)"

definition ascii_decode :: "bytes \<Rightarrow> string option" where
  "ascii_decode bs = (if list_all (\<lambda>b. b < 128) bs then Some (map char_of_byte bs) else None)"

definition path_bytes :: "string \<Rightarrow> transfer_error + bytes" where
  "path_bytes path =
     (case ascii_encode path of
        None \<Rightarrow> Inl TransferError
      | Some encoded \<Rightarrow>
          if encoded = [] then Inl TransferError
          else if length encoded > MAX_PATH_BYTES then Inl TransferError
          else if list_ex (\<lambda>b. b < 0x20 \<or> b > 0x7E) encoded then Inl TransferError
          else Inr encoded)"

definition mk_descriptor ::
  "int \<Rightarrow> int \<Rightarrow> bytes \<Rightarrow> int \<Rightarrow> int \<Rightarrow> int \<Rightarrow> int \<Rightarrow> string \<Rightarrow> int \<Rightarrow> int \<Rightarrow> bool \<Rightarrow> bool \<Rightarrow>
   transfer_error + descriptor" where
  "mk_descriptor direction encoding tid wire_size wire_crc final_size final_crc path
       resume_offset resume_crc resume replay =
     (case direction_of_int direction of None \<Rightarrow> Inl TransferError | Some direction \<Rightarrow>
      case encoding_of_int encoding of None \<Rightarrow> Inl TransferError | Some encoding \<Rightarrow>
      bindE (transfer_id tid) (\<lambda>tid.
      bindE (u32 wire_size) (\<lambda>wire_size.
      bindE (u32 wire_crc) (\<lambda>wire_crc.
      bindE (u32 final_size) (\<lambda>final_size.
      bindE (u32 final_crc) (\<lambda>final_crc.
      bindE (u32 resume_offset) (\<lambda>resume_offset.
      bindE (u32 resume_crc) (\<lambda>resume_crc.
      bindE (path_bytes path) (\<lambda>_.
        let get_metadata_unknown =
              (direction = GET \<and> wire_size = 0 \<and> wire_crc = 0 \<and> final_size = 0 \<and> final_crc = 0)
        in if resume_offset > wire_size \<and> \<not> get_metadata_unknown then Inl TransferError
        else if resume_offset = 0 \<and> resume_crc \<noteq> 0 then Inl TransferError
        else if direction = GET \<and> encoding \<noteq> RAW then Inl TransferError
        else if encoding = RAW \<and> \<not> get_metadata_unknown \<and>
                (wire_size \<noteq> final_size \<or> wire_crc \<noteq> final_crc) then Inl TransferError
        else
          let resume = (resume \<or> resume_offset > 0)
          in if replay \<and> (direction \<noteq> PUT \<or> \<not> resume \<or> resume_offset \<noteq> wire_size \<or>
                resume_crc \<noteq> wire_crc) then Inl TransferError
          else Inr \<lparr>td_direction = direction, td_encoding = encoding, td_id = tid,
                 td_wire_size = wire_size, td_wire_crc = wire_crc, td_final_size = final_size,
                 td_final_crc = final_crc, td_path = path, td_resume_offset = resume_offset,
                 td_resume_crc = resume_crc, td_resume = resume, td_replay = replay\<rparr>)))))))))"

text \<open>\<open>dataclasses.replace\<close> runs the constructor again on the old fields and the new ones.\<close>

definition replace_resume ::
  "descriptor \<Rightarrow> int \<Rightarrow> int \<Rightarrow> bool \<Rightarrow> bool \<Rightarrow> transfer_error + descriptor" where
  "replace_resume d offset crc resume replay =
     mk_descriptor (int_of_direction (td_direction d)) (int_of_encoding (td_encoding d)) (td_id d)
       (td_wire_size d) (td_wire_crc d) (td_final_size d) (td_final_crc d) (td_path d)
       offset crc resume replay"

definition with_resume :: "descriptor \<Rightarrow> int \<Rightarrow> int \<Rightarrow> transfer_error + descriptor" where
  "with_resume d offset prefix_crc =
     bindE (u32 offset) (\<lambda>offset. bindE (u32 prefix_crc) (\<lambda>prefix_crc.
       replace_resume d offset prefix_crc (td_resume d) (td_replay d)))"

definition binding ::
  "descriptor \<Rightarrow> transfer_direction \<times> transfer_encoding \<times> bytes \<times> int \<times> int \<times> int \<times> int \<times> string" where
  "binding d = (td_direction d, td_encoding d, td_id d, td_wire_size d, td_wire_crc d,
     td_final_size d, td_final_crc d, td_path d)"

definition metadata_unknown :: "descriptor \<Rightarrow> bool" where
  "metadata_unknown d \<longleftrightarrow> td_direction d = GET \<and> td_wire_size d = 0 \<and> td_wire_crc d = 0 \<and>
     td_final_size d = 0 \<and> td_final_crc d = 0"

subsection \<open>OPEN\<close>

definition OPEN_HEADER_SIZE :: nat where "OPEN_HEADER_SIZE = 47"

definition open_flags :: "descriptor \<Rightarrow> int" where
  "open_flags d = 4 + (if td_resume d then 1 else 0) + (if td_replay d then 2 else 0)"

definition open_header ::
  "int \<Rightarrow> int \<Rightarrow> int \<Rightarrow> int \<Rightarrow> int \<Rightarrow> bytes \<Rightarrow> int \<Rightarrow> int \<Rightarrow> int \<Rightarrow> int \<Rightarrow> int \<Rightarrow> int \<Rightarrow> int \<Rightarrow> bytes" where
  "open_header command version direction encoding flags tid wire_size wire_crc final_size final_crc
       resume_offset resume_crc path_length =
     le_bytes 1 command @ le_bytes 1 version @ le_bytes 1 direction @ le_bytes 1 encoding @
     le_bytes 1 flags @ tid @ le_bytes 4 wire_size @ le_bytes 4 wire_crc @ le_bytes 4 final_size @
     le_bytes 4 final_crc @ le_bytes 4 resume_offset @ le_bytes 4 resume_crc @
     le_bytes 2 path_length"

definition encode_open :: "descriptor \<Rightarrow> transfer_error + bytes" where
  "encode_open d =
     bindE (path_bytes (td_path d)) (\<lambda>path.
       Inr (open_header 1 TRANSFER_PROTOCOL_VERSION (int_of_direction (td_direction d))
         (int_of_encoding (td_encoding d)) (open_flags d) (td_id d) (td_wire_size d)
         (td_wire_crc d) (td_final_size d) (td_final_crc d) (td_resume_offset d)
         (td_resume_crc d) (int (length path)) @ path))"

definition field :: "nat \<Rightarrow> nat \<Rightarrow> bytes \<Rightarrow> int" where
  "field off n bs = le_value (slice off n bs)"

definition decode_open :: "bytes \<Rightarrow> transfer_error + descriptor" where
  "decode_open payload =
     (if length payload < OPEN_HEADER_SIZE then Inl TransferPayloadError
      else
        let command = field 0 1 payload; version = field 1 1 payload;
            direction = field 2 1 payload; encoding = field 3 1 payload;
            flags = field 4 1 payload; tid = slice 5 16 payload;
            wire_size = field 21 4 payload; wire_crc = field 25 4 payload;
            final_size = field 29 4 payload; final_crc = field 33 4 payload;
            resume_offset = field 37 4 payload; resume_crc = field 41 4 payload;
            path_length = field 45 2 payload
        in if command \<noteq> 1 then Inl TransferPayloadError
        else if version \<noteq> TRANSFER_PROTOCOL_VERSION then Inl TransferPayloadError
        else if flags AND NOT 7 \<noteq> 0 then Inl TransferPayloadError
        else if flags AND 4 = 0 then Inl TransferPayloadError
        else if length payload \<noteq> OPEN_HEADER_SIZE + nat path_length then Inl TransferPayloadError
        else case ascii_decode (drop OPEN_HEADER_SIZE payload) of
          None \<Rightarrow> Inl TransferPayloadError
        | Some path \<Rightarrow>
            case mk_descriptor direction encoding tid wire_size wire_crc final_size final_crc path
                   resume_offset resume_crc (flags AND 1 \<noteq> 0) (flags AND 2 \<noteq> 0) of
              Inl _ \<Rightarrow> Inl TransferPayloadError
            | Inr d \<Rightarrow> Inr d)"

subsection \<open>Other requests\<close>

definition encode_capabilities_request :: bytes where
  "encode_capabilities_request = [0x00]"

definition encode_fast_capabilities_request :: bytes where
  "encode_fast_capabilities_request = [0x08]"

definition encode_fast_begin :: "bytes \<Rightarrow> transfer_error + bytes" where
  "encode_fast_begin tid = bindE (transfer_id tid) (\<lambda>tid. Inr (le_bytes 1 0x09 @ tid))"

definition PUT_DATA_HEADER_SIZE :: nat where "PUT_DATA_HEADER_SIZE = 21"

definition encode_put_data :: "bytes \<Rightarrow> int \<Rightarrow> bytes \<Rightarrow> transfer_error + bytes" where
  "encode_put_data tid offset data =
     (if data = [] then Inl TransferError
      else if length data > 0xFFFF - PUT_DATA_HEADER_SIZE then Inl TransferError
      else bindE (transfer_id tid) (\<lambda>tid. bindE (u32 offset) (\<lambda>offset.
        Inr (le_bytes 1 0x03 @ tid @ le_bytes 4 offset @ data))))"

definition encode_get_read :: "bytes \<Rightarrow> int \<Rightarrow> int \<Rightarrow> transfer_error + bytes" where
  "encode_get_read tid offset maximum =
     bindE (u16 maximum) (\<lambda>maximum.
       if maximum = 0 then Inl TransferError
       else bindE (transfer_id tid) (\<lambda>tid. bindE (u32 offset) (\<lambda>offset.
         Inr (le_bytes 1 0x04 @ tid @ le_bytes 4 offset @ le_bytes 2 maximum))))"

definition encode_get_ack :: "bytes \<Rightarrow> int \<Rightarrow> int \<Rightarrow> transfer_error + bytes" where
  "encode_get_ack tid next_offset prefix_crc =
     bindE (transfer_id tid) (\<lambda>tid. bindE (u32 next_offset) (\<lambda>next_offset.
     bindE (u32 prefix_crc) (\<lambda>prefix_crc.
       Inr (le_bytes 1 0x05 @ tid @ le_bytes 4 next_offset @ le_bytes 4 prefix_crc))))"

definition encode_status :: "bytes \<Rightarrow> transfer_error + bytes" where
  "encode_status tid = bindE (transfer_id tid) (\<lambda>tid. Inr (le_bytes 1 0x02 @ tid))"

definition encode_close :: "bytes \<Rightarrow> int \<Rightarrow> transfer_error + bytes" where
  "encode_close tid rate_bps =
     bindE (transfer_id tid) (\<lambda>tid. bindE (u16 rate_bps) (\<lambda>rate.
       Inr (le_bytes 1 0x06 @ tid @ le_bytes 2 rate)))"

definition encode_cancel :: "bytes \<Rightarrow> transfer_error + bytes" where
  "encode_cancel tid = bindE (transfer_id tid) (\<lambda>tid. Inr (le_bytes 1 0x07 @ tid))"

subsection \<open>Replies\<close>

record capabilities_reply =
  cr_version :: int
  cr_capabilities :: int
  cr_max_put :: int
  cr_max_get :: int
  cr_max_path :: int

record fast_capabilities_reply =
  fc_version :: int
  fc_capabilities :: int
  fc_max_put :: int
  fc_max_get :: int

record open_reply =
  or_state :: transfer_state
  or_error :: remote_error

record progress_reply =
  pg_accepted :: int
  pg_accepted_end :: int
  pg_durable_end :: int
  pg_credit :: int
  pg_state :: transfer_state
  pg_error :: remote_error

record data_reply =
  dr_offset :: int
  dr_data :: bytes
  dr_state :: transfer_state
  dr_error :: remote_error

record ack_reply =
  ak_durable :: int
  ak_state :: transfer_state
  ak_error :: remote_error

record status_reply =
  sr_state :: transfer_state
  sr_direction :: transfer_direction
  sr_encoding :: transfer_encoding
  sr_error :: remote_error
  sr_flags :: int
  sr_id :: bytes
  sr_wire_size :: int
  sr_wire_crc :: int
  sr_final_size :: int
  sr_final_crc :: int
  sr_durable :: int
  sr_accepted :: int
  sr_prefix_crc :: int
  sr_credit :: int

record terminal_reply =
  tr_state :: transfer_state
  tr_error :: remote_error

definition payload_exact :: "bytes \<Rightarrow> nat \<Rightarrow> transfer_error + bytes" where
  "payload_exact payload n =
     (if length payload \<noteq> n then Inl TransferPayloadError else Inr payload)"

definition expected_id :: "bytes \<Rightarrow> bytes option \<Rightarrow> transfer_error + bytes" where
  "expected_id actual expected =
     bindE (transfer_id actual) (\<lambda>actual.
       case expected of
         None \<Rightarrow> Inr actual
       | Some e \<Rightarrow> bindE (transfer_id e) (\<lambda>e.
           if actual \<noteq> e then Inl TransferBindingError else Inr actual))"

definition reply_state :: "int \<Rightarrow> transfer_error + transfer_state" where
  "reply_state v = (case state_of_int v of None \<Rightarrow> Inl TransferPayloadError | Some s \<Rightarrow> Inr s)"

definition reply_error :: "int \<Rightarrow> transfer_error + remote_error" where
  "reply_error v =
     (case remote_error_of_int v of None \<Rightarrow> Inl TransferPayloadError | Some e \<Rightarrow> Inr e)"

definition reply_flags :: "int \<Rightarrow> transfer_error + int" where
  "reply_flags v = (if v AND NOT 0x1F \<noteq> 0 then Inl TransferPayloadError else Inr v)"

definition parse_capabilities_reply :: "bytes \<Rightarrow> transfer_error + capabilities_reply" where
  "parse_capabilities_reply payload =
     bindE (payload_exact payload 11) (\<lambda>p.
       let version = field 0 1 p; bits = field 1 4 p; put_chunk = field 5 2 p;
           get_chunk = field 7 2 p; max_path = field 9 2 p
       in if version \<noteq> TRANSFER_PROTOCOL_VERSION then Inl TransferPayloadError
       else if bits AND NOT 0x7F \<noteq> 0 then Inl TransferPayloadError
       else if bits AND 2 \<noteq> 0 \<and> put_chunk = 0 then Inl TransferPayloadError
       else if bits AND 4 \<noteq> 0 \<and> get_chunk = 0 then Inl TransferPayloadError
       else if bits AND 6 \<noteq> 0 \<and> max_path = 0 then Inl TransferPayloadError
       else Inr \<lparr>cr_version = version, cr_capabilities = bits, cr_max_put = put_chunk,
              cr_max_get = get_chunk, cr_max_path = max_path\<rparr>)"

definition parse_fast_capabilities_reply :: "bytes \<Rightarrow> transfer_error + fast_capabilities_reply" where
  "parse_fast_capabilities_reply payload =
     bindE (payload_exact payload 6) (\<lambda>p.
       let version = field 0 1 p; bits = field 1 1 p; put_chunk = field 2 2 p;
           get_chunk = field 4 2 p
       in if version \<noteq> 1 then Inl TransferPayloadError
       else if bits AND NOT 3 \<noteq> 0 then Inl TransferPayloadError
       else if bits AND 1 \<noteq> 0 \<and> (put_chunk = 0 \<or> get_chunk = 0) then Inl TransferPayloadError
       else Inr \<lparr>fc_version = version, fc_capabilities = bits, fc_max_put = put_chunk,
              fc_max_get = get_chunk\<rparr>)"

definition parse_open_reply :: "bytes \<Rightarrow> transfer_error + open_reply" where
  "parse_open_reply payload =
     bindE (payload_exact payload 2) (\<lambda>p.
     bindE (reply_state (field 0 1 p)) (\<lambda>s.
     bindE (reply_error (field 1 1 p)) (\<lambda>e.
       Inr \<lparr>or_state = s, or_error = e\<rparr>)))"

definition parse_put_data_reply :: "bytes \<Rightarrow> transfer_error + progress_reply" where
  "parse_put_data_reply payload =
     bindE (payload_exact payload 14) (\<lambda>p.
       let accepted = field 0 2 p; accepted_end = field 2 4 p; durable_end = field 6 4 p;
           credit = field 10 2 p
       in if durable_end > accepted_end then Inl TransferPayloadError
       else bindE (reply_state (field 12 1 p)) (\<lambda>s.
            bindE (reply_error (field 13 1 p)) (\<lambda>e.
              Inr \<lparr>pg_accepted = accepted, pg_accepted_end = accepted_end,
                pg_durable_end = durable_end, pg_credit = credit, pg_state = s, pg_error = e\<rparr>)))"

definition GET_READ_HEADER_SIZE :: nat where "GET_READ_HEADER_SIZE = 8"

definition parse_get_read_reply :: "bytes \<Rightarrow> transfer_error + data_reply" where
  "parse_get_read_reply p =
     (if length p < GET_READ_HEADER_SIZE then Inl TransferPayloadError
      else
        let offset = field 0 4 p; len = field 4 2 p
        in if length p \<noteq> GET_READ_HEADER_SIZE + nat len then Inl TransferPayloadError
        else bindE (reply_state (field 6 1 p)) (\<lambda>s.
             bindE (reply_error (field 7 1 p)) (\<lambda>e.
               Inr \<lparr>dr_offset = offset, dr_data = drop GET_READ_HEADER_SIZE p, dr_state = s,
                 dr_error = e\<rparr>)))"

definition parse_get_ack_reply :: "bytes \<Rightarrow> transfer_error + ack_reply" where
  "parse_get_ack_reply payload =
     bindE (payload_exact payload 6) (\<lambda>p.
     bindE (reply_state (field 4 1 p)) (\<lambda>s.
     bindE (reply_error (field 5 1 p)) (\<lambda>e.
       Inr \<lparr>ak_durable = field 0 4 p, ak_state = s, ak_error = e\<rparr>)))"

definition STATUS_REPLY_SIZE :: nat where "STATUS_REPLY_SIZE = 51"

definition parse_status_reply :: "bytes \<Rightarrow> bytes option \<Rightarrow> transfer_error + status_reply" where
  "parse_status_reply payload expected =
     bindE (payload_exact payload STATUS_REPLY_SIZE) (\<lambda>p.
       let state = field 0 1 p; direction = field 1 1 p; encoding = field 2 1 p;
           error = field 3 1 p; flags = field 4 1 p; tid = slice 5 16 p;
           wire_size = field 21 4 p; wire_crc = field 25 4 p; final_size = field 29 4 p;
           final_crc = field 33 4 p; durable = field 37 4 p; accepted = field 41 4 p;
           prefix_crc = field 45 4 p; credit = field 49 2 p
       in case direction_of_int direction of None \<Rightarrow> Inl TransferPayloadError | Some direction \<Rightarrow>
          case encoding_of_int encoding of None \<Rightarrow> Inl TransferPayloadError | Some encoding \<Rightarrow>
          if durable > accepted then Inl TransferPayloadError
          else if accepted > wire_size then Inl TransferPayloadError
          else bindE (reply_state state) (\<lambda>state.
               bindE (reply_error error) (\<lambda>error.
               bindE (reply_flags flags) (\<lambda>flags.
               bindE (expected_id tid expected) (\<lambda>tid.
                 Inr \<lparr>sr_state = state, sr_direction = direction, sr_encoding = encoding,
                   sr_error = error, sr_flags = flags, sr_id = tid, sr_wire_size = wire_size,
                   sr_wire_crc = wire_crc, sr_final_size = final_size, sr_final_crc = final_crc,
                   sr_durable = durable, sr_accepted = accepted, sr_prefix_crc = prefix_crc,
                   sr_credit = credit\<rparr>)))))"

definition parse_terminal_reply :: "bytes \<Rightarrow> transfer_error + terminal_reply" where
  "parse_terminal_reply payload =
     bindE (payload_exact payload 2) (\<lambda>p.
     bindE (reply_state (field 0 1 p)) (\<lambda>s.
     bindE (reply_error (field 1 1 p)) (\<lambda>e.
       Inr \<lparr>tr_state = s, tr_error = e\<rparr>)))"

definition parse_close_reply :: "bytes \<Rightarrow> transfer_error + terminal_reply" where
  "parse_close_reply payload = parse_terminal_reply payload"

definition parse_cancel_reply :: "bytes \<Rightarrow> transfer_error + terminal_reply" where
  "parse_cancel_reply payload = parse_terminal_reply payload"

subsection \<open>Well-formed descriptors and the OPEN round trip\<close>

lemma ascii_roundtrip:
  "ascii_encode s = Some bs \<longleftrightarrow> ascii_decode bs = Some s"
proof
  assume "ascii_encode s = Some bs"
  then show "ascii_decode bs = Some s"
    by (auto simp: ascii_encode_def ascii_decode_def list_all_iff word_less_nat_alt comp_def split: if_splits)
next
  assume "ascii_decode bs = Some s"
  then show "ascii_encode s = Some bs"
    by (auto simp: ascii_encode_def ascii_decode_def list_all_iff word_less_nat_alt comp_def map_idI o_def split: if_splits)
qed

definition wf_path :: "string \<Rightarrow> bool" where
  "wf_path path \<longleftrightarrow> path \<noteq> [] \<and> length path \<le> MAX_PATH_BYTES \<and>
     list_all (\<lambda>c. (0x20 :: nat) \<le> of_char c \<and> of_char c \<le> (0x7E :: nat)) path"

lemma path_bytes_iff: "path_bytes path = Inr bs \<longleftrightarrow> wf_path path \<and> ascii_encode path = Some bs"
  by (auto simp: path_bytes_def wf_path_def ascii_encode_def list_all_iff list_ex_iff
      word_less_nat_alt not_less MAX_PATH_BYTES_def split: option.splits if_splits)
    (force simp: not_less)+


definition wf_descriptor :: "descriptor \<Rightarrow> bool" where
  "wf_descriptor d \<longleftrightarrow>
     length (td_id d) = 16 \<and>
     0 \<le> td_wire_size d \<and> td_wire_size d \<le> UINT32_MAX \<and>
     0 \<le> td_wire_crc d \<and> td_wire_crc d \<le> UINT32_MAX \<and>
     0 \<le> td_final_size d \<and> td_final_size d \<le> UINT32_MAX \<and>
     0 \<le> td_final_crc d \<and> td_final_crc d \<le> UINT32_MAX \<and>
     0 \<le> td_resume_offset d \<and> td_resume_offset d \<le> UINT32_MAX \<and>
     0 \<le> td_resume_crc d \<and> td_resume_crc d \<le> UINT32_MAX \<and>
     wf_path (td_path d) \<and>
     (td_resume_offset d \<le> td_wire_size d \<or> metadata_unknown d) \<and>
     (td_resume_offset d = 0 \<longrightarrow> td_resume_crc d = 0) \<and>
     (td_direction d = GET \<longrightarrow> td_encoding d = RAW) \<and>
     (td_encoding d = RAW \<longrightarrow> td_wire_size d = td_final_size d \<and> td_wire_crc d = td_final_crc d) \<and>
     (td_resume_offset d > 0 \<longrightarrow> td_resume d) \<and>
     (td_replay d \<longrightarrow> td_direction d = PUT \<and> td_resume d \<and>
        td_resume_offset d = td_wire_size d \<and> td_resume_crc d = td_wire_crc d)"

lemma u32_iff [result_simps]: "(u32 v = Inr w) = (w = v \<and> 0 \<le> v \<and> v \<le> UINT32_MAX)"
  by (auto simp: u32_def)

lemma u16_iff [result_simps]: "(u16 v = Inr w) = (w = v \<and> 0 \<le> v \<and> v \<le> 0xFFFF)"
  by (auto simp: u16_def)

lemma transfer_id_iff [result_simps]: "(transfer_id v = Inr w) = (w = v \<and> length v = 16)"
  by (auto simp: transfer_id_def)

lemma wf_path_ok: "(\<exists>bs. path_bytes path = Inr bs) = wf_path path"
proof -
  have "wf_path path \<Longrightarrow> ascii_encode path = Some (map byte_of_char path)"
    by (force simp: ascii_encode_def wf_path_def list_all_iff)
  then show ?thesis by (auto simp: path_bytes_iff)
qed

lemma direction_of_int_cases: "(case direction_of_int v of None \<Rightarrow> Inl e | Some d \<Rightarrow> k d) = Inr r \<longleftrightarrow>
   (\<exists>d. v = int_of_direction d \<and> k d = Inr r)"
  by (auto split: option.splits simp flip: direction_of_int_iff)

lemma encoding_of_int_cases: "(case encoding_of_int v of None \<Rightarrow> Inl e | Some d \<Rightarrow> k d) = Inr r \<longleftrightarrow>
   (\<exists>d. v = int_of_encoding d \<and> k d = Inr r)"
  by (auto split: option.splits simp flip: encoding_of_int_iff)

lemma int_of_direction_inj [simp]: "(int_of_direction a = int_of_direction b) = (a = b)"
  by (cases a; cases b; simp)

lemma int_of_encoding_inj [simp]: "(int_of_encoding a = int_of_encoding b) = (a = b)"
  by (cases a; cases b; simp)

lemma guard_Inr: "((if c then Inl e else m) = Inr r) = (\<not> c \<and> m = Inr r)"
  by simp

lemma mk_descriptor_Inr:
  "mk_descriptor dir enc tid ws wc fs fc path ro rc res rep = Inr d \<longleftrightarrow>
     (\<exists>D E. dir = int_of_direction D \<and> enc = int_of_encoding E \<and>
        wf_descriptor \<lparr>td_direction = D, td_encoding = E, td_id = tid,
           td_wire_size = ws, td_wire_crc = wc, td_final_size = fs, td_final_crc = fc,
           td_path = path, td_resume_offset = ro, td_resume_crc = rc, td_resume = res \<or> ro > 0,
           td_replay = rep\<rparr> \<and>
        d = \<lparr>td_direction = D, td_encoding = E, td_id = tid,
           td_wire_size = ws, td_wire_crc = wc, td_final_size = fs, td_final_crc = fc,
           td_path = path, td_resume_offset = ro, td_resume_crc = rc, td_resume = res \<or> ro > 0,
           td_replay = rep\<rparr>)"
proof -
  have wf: "wf_descriptor \<lparr>td_direction = D, td_encoding = E, td_id = tid,
           td_wire_size = ws, td_wire_crc = wc, td_final_size = fs, td_final_crc = fc,
           td_path = path, td_resume_offset = ro, td_resume_crc = rc, td_resume = res \<or> ro > 0,
           td_replay = rep\<rparr> \<longleftrightarrow>
    length tid = 16 \<and> (0 \<le> ws \<and> ws \<le> UINT32_MAX) \<and> (0 \<le> wc \<and> wc \<le> UINT32_MAX) \<and>
    (0 \<le> fs \<and> fs \<le> UINT32_MAX) \<and> (0 \<le> fc \<and> fc \<le> UINT32_MAX) \<and>
    (0 \<le> ro \<and> ro \<le> UINT32_MAX) \<and> (0 \<le> rc \<and> rc \<le> UINT32_MAX) \<and>
    wf_path path \<and>
    \<not> (ro > ws \<and> \<not> (D = GET \<and> ws = 0 \<and> wc = 0 \<and> fs = 0 \<and> fc = 0)) \<and>
    \<not> (ro = 0 \<and> rc \<noteq> 0) \<and> \<not> (D = GET \<and> E \<noteq> RAW) \<and>
    \<not> (E = RAW \<and> \<not> (D = GET \<and> ws = 0 \<and> wc = 0 \<and> fs = 0 \<and> fc = 0) \<and> (ws \<noteq> fs \<or> wc \<noteq> fc)) \<and>
    \<not> (rep \<and> (D \<noteq> PUT \<or> \<not> (res \<or> ro > 0) \<or> ro \<noteq> ws \<or> rc \<noteq> wc))" for D E
  proof -
    have "(E = RAW \<longrightarrow> ws = fs \<and> wc = fc) \<longleftrightarrow>
      \<not> (E = RAW \<and> \<not> (D = GET \<and> ws = 0 \<and> wc = 0 \<and> fs = 0 \<and> fc = 0) \<and> (ws \<noteq> fs \<or> wc \<noteq> fc))"
      by auto
    then show ?thesis
      unfolding wf_descriptor_def metadata_unknown_def descriptor.simps by (simp only: not_less conj_assoc de_Morgan_conj de_Morgan_disj not_not) (safe; simp)
  qed
  show ?thesis
    unfolding mk_descriptor_def direction_of_int_cases encoding_of_int_cases bindE_eq_Inr u32_iff
      transfer_id_iff Let_def guard_Inr sum.inject wf
    by (simp only: simp_thms conj_assoc ex_simps wf_path_ok eq_commute [of _ d])
qed

definition open_image :: "bool \<Rightarrow> descriptor \<Rightarrow> bytes" where
  "open_image r d =
     open_header 1 TRANSFER_PROTOCOL_VERSION (int_of_direction (td_direction d))
       (int_of_encoding (td_encoding d)) (4 + of_bool r + 2 * of_bool (td_replay d)) (td_id d)
       (td_wire_size d) (td_wire_crc d) (td_final_size d) (td_final_crc d) (td_resume_offset d)
       (td_resume_crc d) (int (length (td_path d))) @ map byte_of_char (td_path d)"

lemma path_bytes_wf: "wf_path path \<Longrightarrow> path_bytes path = Inr (map byte_of_char path)"
  by (force simp: path_bytes_iff ascii_encode_def wf_path_def list_all_iff)

lemma ascii_decode_wf: "wf_path path \<Longrightarrow> ascii_decode (map byte_of_char path) = Some path"
  using path_bytes_wf [of path] by (simp add: path_bytes_iff ascii_roundtrip)

lemma encode_open_image: "wf_descriptor d \<Longrightarrow> encode_open d = Inr (open_image (td_resume d) d)"
  by (simp add: encode_open_def path_bytes_wf wf_descriptor_def open_image_def open_flags_def)

lemma length_open_image: "wf_descriptor d \<Longrightarrow> length (open_image r d) = OPEN_HEADER_SIZE + length (td_path d)"
  by (simp add: open_image_def open_header_def wf_descriptor_def OPEN_HEADER_SIZE_def)

lemma open_fields:
  assumes "wf_descriptor d"
  shows "field 0 1 (open_image r d) = 1" "field 1 1 (open_image r d) = TRANSFER_PROTOCOL_VERSION"
    "field 2 1 (open_image r d) = int_of_direction (td_direction d)"
    "field 3 1 (open_image r d) = int_of_encoding (td_encoding d)"
    "field 4 1 (open_image r d) = 4 + of_bool r + 2 * of_bool (td_replay d)"
    "slice 5 16 (open_image r d) = td_id d"
    "field 21 4 (open_image r d) = td_wire_size d" "field 25 4 (open_image r d) = td_wire_crc d"
    "field 29 4 (open_image r d) = td_final_size d" "field 33 4 (open_image r d) = td_final_crc d"
    "field 37 4 (open_image r d) = td_resume_offset d"
    "field 41 4 (open_image r d) = td_resume_crc d"
    "field 45 2 (open_image r d) = int (length (td_path d))"
    "drop OPEN_HEADER_SIZE (open_image r d) = map byte_of_char (td_path d)"
  using assms by (simp_all add: open_image_def open_header_def field_def slice_concat wf_descriptor_def
      TRANSFER_PROTOCOL_VERSION_def UINT32_MAX_def wf_path_def MAX_PATH_BYTES_def OPEN_HEADER_SIZE_def)

lemma open_flag_bits:
  fixes r p :: bool
  shows "(4 + of_bool r + 2 * of_bool p :: int) AND NOT 7 = 0"
    "(4 + of_bool r + 2 * of_bool p :: int) AND 4 \<noteq> 0"
    "((4 + of_bool r + 2 * of_bool p :: int) AND 1 \<noteq> 0) = r"
    "((4 + of_bool r + 2 * of_bool p :: int) AND 2 \<noteq> 0) = p"
  by (cases r; cases p; simp)+

lemma decode_open_image:
  assumes "wf_descriptor d" "td_resume d = (r \<or> td_resume_offset d > 0)"
  shows "decode_open (open_image r d) = Inr d"
proof -
  have "mk_descriptor (int_of_direction (td_direction d)) (int_of_encoding (td_encoding d)) (td_id d)
      (td_wire_size d) (td_wire_crc d) (td_final_size d) (td_final_crc d) (td_path d)
      (td_resume_offset d) (td_resume_crc d) r (td_replay d) = Inr d"
    using assms by (cases d) (simp add: mk_descriptor_Inr)
  then show ?thesis
    using assms(1) length_open_image [OF assms(1), of r] open_fields [OF assms(1), of r]
    by (simp add: decode_open_def Let_def open_flag_bits ascii_decode_wf wf_descriptor_def)
qed

lemma open_flags_cases:
  assumes "0 \<le> (f :: int)" "f \<le> 255" "f AND NOT 7 = 0" "f AND 4 \<noteq> 0"
  shows "f = 4 + of_bool (f AND 1 \<noteq> 0) + 2 * of_bool (f AND 2 \<noteq> 0)"
proof -
  have "f = f AND 7" using assms(3) by (metis and.right_neutral and.commute bit.conj_disj_distrib bit.disj_cancel_right or.right_neutral)
  then have "f = f mod 8" using take_bit_eq_mod [of 3 f] by (simp add: take_bit_eq_mask mask_eq_exp_minus_1)
  then have "f \<in> {0..<8}" by (metis atLeastLessThan_iff pos_mod_bound pos_mod_sign zero_less_numeral)
  then have "f = 0 \<or> f = 1 \<or> f = 2 \<or> f = 3 \<or> f = 4 \<or> f = 5 \<or> f = 6 \<or> f = 7" by auto
  with assms(4) show ?thesis by auto
qed


lemma decode_open_sound:
  assumes "decode_open bs = Inr d"
  shows "wf_descriptor d \<and> (\<exists>r. td_resume d = (r \<or> td_resume_offset d > 0) \<and> bs = open_image r d)"
proof -
  let ?f = "field 4 1 bs"
  from assms have len: "OPEN_HEADER_SIZE \<le> length bs"
    and hd: "field 0 1 bs = 1" "field 1 1 bs = TRANSFER_PROTOCOL_VERSION"
    and fl: "?f AND NOT 7 = 0" "?f AND 4 \<noteq> 0"
    and total: "length bs = OPEN_HEADER_SIZE + nat (field 45 2 bs)"
    by (simp_all add: decode_open_def Let_def split: if_splits)
  from assms len hd fl total obtain path where
    path: "ascii_decode (drop OPEN_HEADER_SIZE bs) = Some path"
    and mk: "mk_descriptor (field 2 1 bs) (field 3 1 bs) (slice 5 16 bs) (field 21 4 bs) (field 25 4 bs)
       (field 29 4 bs) (field 33 4 bs) path (field 37 4 bs) (field 41 4 bs) (?f AND 1 \<noteq> 0) (?f AND 2 \<noteq> 0)
       = Inr d"
    by (auto simp: decode_open_def Let_def split: option.splits sum.splits)
  define r p where "r = (?f AND 1 \<noteq> 0)" and "p = (?f AND 2 \<noteq> 0)"
  have f: "?f = 4 + of_bool r + 2 * of_bool p" unfolding r_def p_def
    using fl len by (intro open_flags_cases) (simp_all add: field_def OPEN_HEADER_SIZE_def)
  from mk [folded r_def p_def] obtain D E where de: "field 2 1 bs = int_of_direction D" "field 3 1 bs = int_of_encoding E"
    and wf: "wf_descriptor d" and d: "d = \<lparr>td_direction = D, td_encoding = E, td_id = slice 5 16 bs,
       td_wire_size = field 21 4 bs, td_wire_crc = field 25 4 bs, td_final_size = field 29 4 bs,
       td_final_crc = field 33 4 bs, td_path = path, td_resume_offset = field 37 4 bs,
       td_resume_crc = field 41 4 bs, td_resume = r \<or> field 37 4 bs > 0, td_replay = p\<rparr>"
    unfolding mk_descriptor_Inr by blast
  have bytes: "map byte_of_char path = drop OPEN_HEADER_SIZE bs"
    using path by (simp add: ascii_encode_def split: if_splits flip: ascii_roundtrip)
  then have plen: "int (length path) = field 45 2 bs"
    using total by (metis add_diff_cancel_left' int_nat_eq le_value_nonneg field_def length_drop length_map)
  have "open_image r d = bs"
    unfolding open_image_def open_header_def d descriptor.simps plen bytes hd [symmetric] de [symmetric]
      f [symmetric]
    using len by (simp add: field_def OPEN_HEADER_SIZE_def slice_join slice_drop)
  then show ?thesis using wf d by (intro conjI exI [of _ r]) auto
qed

lemma decode_open_image_iff:
  "decode_open bs = Inr d \<longleftrightarrow>
     wf_descriptor d \<and> (\<exists>r. td_resume d = (r \<or> td_resume_offset d > 0) \<and> bs = open_image r d)"
  using decode_open_image [of d] decode_open_sound [of bs d] by blast

lemma open_image_resume_bit: "open_image True d = (open_image False d)[4 := open_image False d ! 4 OR 1]"
  by (cases "td_replay d") (simp_all add: open_image_def open_header_def le_bytes_small)

subsection \<open>All requests\<close>

datatype request =
    CapabilitiesRequest
  | FastCapabilitiesRequest
  | OpenRequest descriptor
  | FastBeginRequest bytes
  | PutDataRequest bytes int bytes
  | GetReadRequest bytes int int
  | GetAckRequest bytes int int
  | StatusRequest bytes
  | CloseRequest bytes int
  | CancelRequest bytes

primrec encode_request :: "request \<Rightarrow> transfer_error + bytes" where
  "encode_request CapabilitiesRequest = Inr encode_capabilities_request"
| "encode_request FastCapabilitiesRequest = Inr encode_fast_capabilities_request"
| "encode_request (OpenRequest d) = encode_open d"
| "encode_request (FastBeginRequest tid) = encode_fast_begin tid"
| "encode_request (PutDataRequest tid off data) = encode_put_data tid off data"
| "encode_request (GetReadRequest tid off maximum) = encode_get_read tid off maximum"
| "encode_request (GetAckRequest tid off crc) = encode_get_ack tid off crc"
| "encode_request (StatusRequest tid) = encode_status tid"
| "encode_request (CloseRequest tid rate) = encode_close tid rate"
| "encode_request (CancelRequest tid) = encode_cancel tid"

primrec subcommand :: "request \<Rightarrow> byte" where
  "subcommand CapabilitiesRequest = 0"
| "subcommand FastCapabilitiesRequest = 8"
| "subcommand (OpenRequest d) = 1"
| "subcommand (FastBeginRequest tid) = 9"
| "subcommand (PutDataRequest tid off data) = 3"
| "subcommand (GetReadRequest tid off maximum) = 4"
| "subcommand (GetAckRequest tid off crc) = 5"
| "subcommand (StatusRequest tid) = 2"
| "subcommand (CloseRequest tid rate) = 6"
| "subcommand (CancelRequest tid) = 7"

primrec wf_request :: "request \<Rightarrow> bool" where
  "wf_request CapabilitiesRequest = True"
| "wf_request FastCapabilitiesRequest = True"
| "wf_request (OpenRequest d) = wf_descriptor d"
| "wf_request (FastBeginRequest tid) = True"
| "wf_request (PutDataRequest tid off data) = True"
| "wf_request (GetReadRequest tid off maximum) = True"
| "wf_request (GetAckRequest tid off crc) = True"
| "wf_request (StatusRequest tid) = True"
| "wf_request (CloseRequest tid rate) = True"
| "wf_request (CancelRequest tid) = True"

lemmas request_encoders =
  encode_capabilities_request_def encode_fast_capabilities_request_def encode_fast_begin_def
  encode_put_data_def encode_get_read_def encode_get_ack_def encode_status_def encode_close_def
  encode_cancel_def

lemma encode_request_head:
  "encode_request r = Inr bs \<Longrightarrow> wf_request r \<Longrightarrow> \<exists>t. bs = subcommand r # t"
  by (cases r)
    (auto simp: request_encoders result_simps encode_open_image open_image_def open_header_def
      le_bytes_small split: if_splits)

lemma le_bytes_4_inj: "0 \<le> v \<Longrightarrow> v \<le> UINT32_MAX \<Longrightarrow> 0 \<le> w \<Longrightarrow> w \<le> UINT32_MAX \<Longrightarrow>
   (le_bytes 4 v = le_bytes 4 w) = (v = w)"
  using le_bytes_inj [of v 4 w] by (auto simp: UINT32_MAX_def)

lemma le_bytes_2_inj: "0 \<le> v \<Longrightarrow> v \<le> 65535 \<Longrightarrow> 0 \<le> w \<Longrightarrow> w \<le> 65535 \<Longrightarrow>
   (le_bytes 2 v = le_bytes 2 w) = (v = w)"
  using le_bytes_inj [of v 2 w] by auto

lemma decode_encode_open: "wf_descriptor d \<Longrightarrow> encode_open d = Inr bs \<Longrightarrow> decode_open bs = Inr d"
  using decode_open_image [of d "td_resume d"] encode_open_image [of d]
  by (auto simp: wf_descriptor_def)

lemma encode_open_inj:
  "wf_descriptor d \<Longrightarrow> wf_descriptor e \<Longrightarrow> encode_open d = Inr bs \<Longrightarrow> encode_open e = Inr bs \<Longrightarrow> d = e"
  using decode_encode_open [of d bs] decode_encode_open [of e bs] by simp

lemma encode_request_inj:
  assumes "encode_request r = Inr bs" "encode_request s = Inr bs" "wf_request r" "wf_request s"
  shows "r = s"
proof -
  have "subcommand r = subcommand s"
    using encode_request_head [OF assms(1,3)] encode_request_head [OF assms(2,4)] by auto
  then show ?thesis
    using assms encode_open_inj
    by (cases r; cases s)
      (auto simp: request_encoders result_simps le_bytes_4_inj le_bytes_2_inj split: if_splits)
qed


lemma parse_status_reply_sound:
  assumes "parse_status_reply p expected = Inr s"
  shows "length p = STATUS_REPLY_SIZE" "0 \<le> sr_durable s" "sr_durable s \<le> sr_accepted s"
    "sr_accepted s \<le> sr_wire_size s" "sr_wire_size s \<le> UINT32_MAX" "length (sr_id s) = 16"
    "expected \<in> {None, Some (sr_id s)}" "sr_flags s AND NOT 0x1F = 0"
  using assms
  by (auto simp: parse_status_reply_def payload_exact_def result_simps Let_def expected_id_def
      reply_flags_def UINT32_MAX_def field_def STATUS_REPLY_SIZE_def
      split: if_splits option.splits)

lemma parse_put_data_reply_sound:
  assumes "parse_put_data_reply p = Inr s"
  shows "0 \<le> pg_accepted s" "pg_accepted s \<le> 65535" "0 \<le> pg_durable_end s"
    "pg_durable_end s \<le> pg_accepted_end s" "pg_accepted_end s \<le> UINT32_MAX" "0 \<le> pg_credit s" "pg_credit s \<le> 65535"
  using assms
  by (auto simp: parse_put_data_reply_def payload_exact_def result_simps Let_def UINT32_MAX_def
      field_def split: if_splits)

lemma parse_get_read_reply_sound:
  assumes "parse_get_read_reply p = Inr s"
  shows "p = le_bytes 4 (dr_offset s) @ le_bytes 2 (int (length (dr_data s))) @ slice 6 2 p @ dr_data s"
    "length (dr_data s) \<le> 65535" "0 \<le> dr_offset s" "dr_offset s \<le> UINT32_MAX"
proof -
  from assms have len: "GET_READ_HEADER_SIZE \<le> length p"
    "length p = GET_READ_HEADER_SIZE + nat (field 4 2 p)" and s: "dr_offset s = field 0 4 p" "dr_data s = drop GET_READ_HEADER_SIZE p"
    by (auto simp: parse_get_read_reply_def result_simps Let_def split: if_splits)
  have "int (length (dr_data s)) = field 4 2 p"
    using len by (simp add: s field_def)
  then show "p = le_bytes 4 (dr_offset s) @ le_bytes 2 (int (length (dr_data s))) @ slice 6 2 p @ dr_data s"
    using len by (simp add: s field_def GET_READ_HEADER_SIZE_def slice_join slice_drop)
  have "field 4 2 p \<le> 65535" using len by (simp add: field_def GET_READ_HEADER_SIZE_def)
  with \<open>int (length (dr_data s)) = field 4 2 p\<close> show "length (dr_data s) \<le> 65535" by simp
  show "0 \<le> dr_offset s" "dr_offset s \<le> UINT32_MAX"
    using len by (simp_all add: s field_def UINT32_MAX_def GET_READ_HEADER_SIZE_def)
qed

subsection \<open>Properties\<close>


definition sample_descriptor :: descriptor where
  "sample_descriptor = \<lparr>td_direction = PUT, td_encoding = PACKBITS, td_id = replicate 16 7,
     td_wire_size = 300, td_wire_crc = 77, td_final_size = 4096, td_final_crc = 99,
     td_path = ''A:GAME.ROM'', td_resume_offset = 128, td_resume_crc = 5, td_resume = True,
     td_replay = False\<rparr>"

lemma sample_descriptor_wf: "wf_descriptor sample_descriptor"
  by (simp add: wf_descriptor_def sample_descriptor_def UINT32_MAX_def wf_path_def MAX_PATH_BYTES_def)


text \<open>
  C8: Requests cannot be mistaken for one another. Two requests, of any subcommands, with the same
  payload are the same request with the same arguments.
\<close>

theorem requests_unambiguous:
  assumes "encode_request r = Inr bs" and "encode_request s = Inr bs"
    and "wf_request r" and "wf_request s"
  shows "r = s"
  by (rule encode_request_inj [OF assms])

theorem requests_unambiguous_witness:
  "\<exists>bs. encode_request (GetReadRequest (replicate 16 7) 512 128) = Inr bs \<and>
     (\<forall>s. encode_request s = Inr bs \<and> wf_request s \<longleftrightarrow> s = GetReadRequest (replicate 16 7) 512 128)"
proof -
  have "is_ok (encode_request (GetReadRequest (replicate 16 7) 512 128))"
    by (simp add: encode_get_read_def u16_def u32_def transfer_id_def UINT32_MAX_def)
  then obtain bs where "encode_request (GetReadRequest (replicate 16 7) 512 128) = Inr bs"
    by (auto simp: is_ok_iff)
  with requests_unambiguous [OF _ this] show ?thesis by auto
qed

text \<open>
  What the engine relies on in a STATUS reply holds for every reply the parser accepts: the
  durable offset is at most the accepted one and that at most the wire size, the identifier is the
  expected one, and no unknown flag is set.
\<close>

theorem status_reply_consistent:
  assumes "parse_status_reply p expected = Inr s"
  shows "0 \<le> sr_durable s \<and> sr_durable s \<le> sr_accepted s \<and> sr_accepted s \<le> sr_wire_size s \<and>
    sr_wire_size s \<le> UINT32_MAX \<and> length p = STATUS_REPLY_SIZE \<and>
    expected \<in> {None, Some (sr_id s)} \<and> sr_flags s AND NOT 0x1F = 0"
  using parse_status_reply_sound [OF assms] by blast

definition sample_status :: bytes where
  "sample_status = [4, 0, 1, 0, 1] @ replicate 16 7 @ le_bytes 4 300 @ le_bytes 4 77 @
     le_bytes 4 4096 @ le_bytes 4 99 @ le_bytes 4 128 @ le_bytes 4 256 @ le_bytes 4 5 @ le_bytes 2 4"

lemma status_reply_consistent_example:
  "\<exists>s. parse_status_reply sample_status (Some (replicate 16 7)) = Inr s \<and> sr_durable s = 128 \<and>
     sr_durable s \<le> sr_accepted s \<and> sr_accepted s \<le> sr_wire_size s"
proof -
  have "map_sum id sr_durable (parse_status_reply sample_status (Some (replicate 16 7))) = Inr 128"
    by code_simp
  then obtain s where "parse_status_reply sample_status (Some (replicate 16 7)) = Inr s" "sr_durable s = 128"
    by (cases "parse_status_reply sample_status (Some (replicate 16 7))") auto
  then show ?thesis using status_reply_consistent by blast
qed

end
