(* ===== verification/Effects.thy ===== *)
theory Effects
  imports Prelude
begin

text \<open>
  Computations of the stateful components. A computation takes the state of its component and
  returns a result, or the exception it raises, together with the state it leaves, so that what an
  exception leaves behind is visible. The weakest preconditions at the end step through the binds of
  a translated function.
\<close>

type_synonym ('s, 'e, 'a) comp = "'s \<Rightarrow> ('e + 'a) \<times> 's"

definition ret :: "'a \<Rightarrow> ('s, 'e, 'a) comp" where
  "ret x h = (Inr x, h)"

definition raise :: "'e \<Rightarrow> ('s, 'e, 'a) comp" where
  "raise e h = (Inl e, h)"

definition bindIO :: "('s, 'e, 'a) comp \<Rightarrow> ('a \<Rightarrow> ('s, 'e, 'b) comp) \<Rightarrow> ('s, 'e, 'b) comp" where
  "bindIO m k h = (case m h of (Inl e, h1) \<Rightarrow> (Inl e, h1) | (Inr x, h1) \<Rightarrow> k x h1)"

text \<open>\<open>lift_result\<close> raises the exception of a pure check; \<open>on_error\<close> is \<open>except BaseException:
  cleanup; raise\<close>.\<close>

definition lift_result :: "'e + 'a \<Rightarrow> ('s, 'e, 'a) comp" where
  "lift_result r h = (r, h)"

definition on_error :: "('s, 'e, 'a) comp \<Rightarrow> ('s \<Rightarrow> 's) \<Rightarrow> ('s, 'e, 'a) comp" where
  "on_error m cleanup h = (case m h of (Inl e, h1) \<Rightarrow> (Inl e, cleanup h1) | (Inr x, h1) \<Rightarrow> (Inr x, h1))"

definition guard :: "bool \<Rightarrow> 'e \<Rightarrow> ('s, 'e, unit) comp" where
  "guard c e h = (if c then Inr () else Inl e, h)"

text \<open>\<open>catch m handler\<close> is \<open>try: m except ... : handler\<close>: the handler gets the exception.\<close>

definition catch :: "('s, 'e, 'a) comp \<Rightarrow> ('e \<Rightarrow> ('s, 'e, 'a) comp) \<Rightarrow> ('s, 'e, 'a) comp" where
  "catch m handler h = (case m h of (Inl e, h1) \<Rightarrow> handler e h1 | (Inr x, h1) \<Rightarrow> (Inr x, h1))"

lemma bindIO_cong [fundef_cong]:
  "m h = m' h' \<Longrightarrow> (\<And>x h1. m' h' = (Inr x, h1) \<Longrightarrow> k x h1 = k' x h1) \<Longrightarrow>
     bindIO m k h = bindIO m' k' h'"
  by (auto simp: bindIO_def split: prod.splits sum.splits)

lemma io_simps [simp]:
  "ret x h = (Inr x, h)"
  "raise e h = (Inl e, h)"
  "lift_result r h = (r, h)"
  by (simp_all add: ret_def raise_def lift_result_def)

lemma guard_simps [simp]: "guard True e = ret ()" "guard False e = raise e"
  by (simp_all add: guard_def fun_eq_iff)

lemma bindIO_simps [simp]:
  "bindIO (ret x) k h = k x h"
  "bindIO (raise e) k h = (Inl e, h)"
  "m h = (Inr x, h1) \<Longrightarrow> bindIO m k h = k x h1"
  "m h = (Inl e, h1) \<Longrightarrow> bindIO m k h = (Inl e, h1)"
  by (simp_all add: bindIO_def)

lemma bindIO_Inr [result_simps]:
  "(bindIO m k h = (Inr y, h2)) = (\<exists>x h1. m h = (Inr x, h1) \<and> k x h1 = (Inr y, h2))"
  by (auto simp: bindIO_def split: prod.splits sum.splits)

lemma bindIO_Inl [result_simps]:
  "(bindIO m k h = (Inl e, h2)) =
     (m h = (Inl e, h2) \<or> (\<exists>x h1. m h = (Inr x, h1) \<and> k x h1 = (Inl e, h2)))"
  by (auto simp: bindIO_def split: prod.splits sum.splits)

subsection \<open>Weakest preconditions\<close>

lemma io_unit [simp]:
  "bindIO (ret x) k = k x"
  "bindIO (raise e) k = raise e"
  "lift_result (Inr x) = ret x"
  "lift_result (Inl e) = raise e"
  by (simp_all add: fun_eq_iff)

text \<open>
  \<open>wp m Q h\<close>: run from \<open>h\<close>, the computation ends with a result, or exception, and a state that
  satisfy \<open>Q\<close>. The rules below step through the binds of a translated function.
\<close>

definition wp :: "('s, 'e, 'a) comp \<Rightarrow> ('e + 'a \<Rightarrow> 's \<Rightarrow> bool) \<Rightarrow> 's \<Rightarrow> bool" where
  "wp m Q h = (case m h of (r, h') \<Rightarrow> Q r h')"

lemma wpI: "(\<And>r h'. m h = (r, h') \<Longrightarrow> Q r h') \<Longrightarrow> wp m Q h"
  by (auto simp: wp_def)

lemma wpD: "wp m Q h \<Longrightarrow> m h = (r, h') \<Longrightarrow> Q r h'"
  by (simp add: wp_def)

lemma wp_mono: "wp m P h \<Longrightarrow> (\<And>r h'. P r h' \<Longrightarrow> Q r h') \<Longrightarrow> wp m Q h"
  by (auto simp: wp_def)

lemma wp_bind:
  assumes "wp m P h" "\<And>e h1. P (Inl e) h1 \<Longrightarrow> Q (Inl e) h1"
    and "\<And>x h1. P (Inr x) h1 \<Longrightarrow> wp (k x) Q h1"
  shows "wp (bindIO m k) Q h"
proof (cases "m h")
  case (Pair r h1)
  then show ?thesis using assms by (cases r) (auto simp: wp_def bindIO_def)
qed

lemma wp_on_error:
  assumes "wp m P h" "\<And>e h1. P (Inl e) h1 \<Longrightarrow> Q (Inl e) (cleanup h1)"
    and "\<And>x h1. P (Inr x) h1 \<Longrightarrow> Q (Inr x) h1"
  shows "wp (on_error m cleanup) Q h"
  using assms by (auto simp: wp_def on_error_def split: prod.splits sum.splits)

lemma wp_catch:
  assumes "wp m P h" "\<And>e h1. P (Inl e) h1 \<Longrightarrow> wp (handler e) Q h1"
    and "\<And>x h1. P (Inr x) h1 \<Longrightarrow> Q (Inr x) h1"
  shows "wp (catch m handler) Q h"
proof (cases "m h")
  case (Pair r h1)
  then show ?thesis using assms by (cases r) (auto simp: wp_def catch_def)
qed

lemma wp_simps [simp]:
  "wp (ret x) Q h = Q (Inr x) h"
  "wp (raise e) Q h = Q (Inl e) h"
  "wp (lift_result r) Q h = Q r h"
  "wp (Pair r) Q h = Q r h"
  by (simp_all add: wp_def)

lemma wp_lift:
  "(\<And>e. r = Inl e \<Longrightarrow> Q (Inl e) s) \<Longrightarrow> (\<And>x. r = Inr x \<Longrightarrow> wp (k x) Q s) \<Longrightarrow>
     wp (bindIO (lift_result r) k) Q s"
  by (cases r) (simp_all add: wp_def)

lemma wp_guard:
  "(\<not> c \<Longrightarrow> Q (Inl e) s) \<Longrightarrow> (c \<Longrightarrow> wp (k ()) Q s) \<Longrightarrow> wp (bindIO (guard c e) k) Q s"
  by (cases c) (simp_all add: wp_def)

end
