(* ===== verification/Host_IO.thy ===== *)
theory Host_IO
  imports Transfer_Wire Effects
begin

text \<open>
  The host side effects of the preparation code in \<open>server/msx_transfer.py\<close>: reading a source
  file in blocks, polling for cancellation, reporting progress, and writing one staging file. What
  the operating system and the callbacks decide is a script the state carries: how many bytes a
  \<open>read\<close> or a \<open>write\<close> moves at most and what the next polls of \<open>cancelled()\<close> answer; an exhausted
  script means full transfers and no cancellation. A computation returns its result or exception
  together with the state it leaves, so that clean-up after an exception is visible.
\<close>

subsection \<open>State and computations\<close>

text \<open>\<open>st_dev\<close>, \<open>st_ino\<close>, \<open>st_size\<close> and \<open>st_mtime_ns\<close>.\<close>

type_synonym file_stat = "int \<times> int \<times> nat \<times> int"

record host =
  h_file :: bytes                       \<comment> \<open>contents of the source file\<close>
  h_stats :: "file_stat list"           \<comment> \<open>answers of the coming \<open>stat\<close> calls on it\<close>
  h_src :: bytes                        \<comment> \<open>unread rest of the open source\<close>
  h_reads :: "nat list"                 \<comment> \<open>most bytes the coming reads return\<close>
  h_writes :: "int option list"         \<comment> \<open>results of the coming writes\<close>
  h_cancel :: "bool list"               \<comment> \<open>answers of the coming polls of \<open>cancelled()\<close>\<close>
  h_temp :: "bytes option"              \<comment> \<open>the staging file, when it exists\<close>
  h_progress :: "(int \<times> int option) list"

type_synonym 'a io = "(host, transfer_error, 'a) comp"

subsection \<open>Operations of the environment\<close>

text \<open>\<open>stream.read(n)\<close> for \<open>n > 0\<close>: nothing at the end of the file, else at least one byte.\<close>

definition read_block :: "nat \<Rightarrow> bytes io" where
  "read_block n h =
     (let k = (case h_reads h of [] \<Rightarrow> n | r # _ \<Rightarrow> min n (max 1 r))
      in (Inr (take k (h_src h)), h\<lparr>h_src := drop k (h_src h), h_reads := tl (h_reads h)\<rparr>))"

definition open_source :: "unit io" where
  "open_source h = (Inr (), h\<lparr>h_src := h_file h\<rparr>)"

definition stat_source :: "file_stat io" where
  "stat_source h =
     (Inr (case h_stats h of [] \<Rightarrow> (0, 0, length (h_file h), 0) | s # _ \<Rightarrow> s),
      h\<lparr>h_stats := tl (h_stats h)\<rparr>)"

definition stat_size :: "int io" where
  "stat_size = bindIO stat_source (\<lambda>(_, _, n, _). ret (int n))"

definition make_temp :: "unit io" where
  "make_temp h = (Inr (), h\<lparr>h_temp := Some []\<rparr>)"

definition unlink_temp :: "host \<Rightarrow> host" where
  "unlink_temp h = h\<lparr>h_temp := None\<rparr>"

definition append_temp :: "bytes \<Rightarrow> host \<Rightarrow> host" where
  "append_temp bs h = h\<lparr>h_temp := map_option (\<lambda>out. out @ bs) (h_temp h)\<rparr>"

text \<open>\<open>output.write(view)\<close> on the staging file; no file object reports more than it was given.\<close>

definition write_some :: "bytes \<Rightarrow> (int option) io" where
  "write_some view h =
     (let r = (case h_writes h of [] \<Rightarrow> None | w # _ \<Rightarrow> map_option (\<lambda>i. min i (int (length view))) w);
          n = (case r of None \<Rightarrow> length view | Some i \<Rightarrow> nat i)
      in (Inr r, append_temp (take n view) (h\<lparr>h_writes := tl (h_writes h)\<rparr>)))"

subsection \<open>Helpers of the module\<close>

definition check_cancelled :: "unit io" where
  "check_cancelled h =
     (case h_cancel h of
        [] \<Rightarrow> (Inr (), h)
      | b # bs \<Rightarrow> (if b then Inl TransferCancelledError else Inr (), h\<lparr>h_cancel := bs\<rparr>))"

definition report_progress :: "int \<Rightarrow> int option \<Rightarrow> unit io" where
  "report_progress completed goal h = (Inr (), h\<lparr>h_progress := h_progress h @ [(completed, goal)]\<rparr>)"

function write_exact :: "bytes \<Rightarrow> unit io" where
  "write_exact view h =
     (if view = [] then (Inr (), h)
      else bindIO (write_some view) (\<lambda>written h.
        let n = (case written of None \<Rightarrow> int (length view) | Some i \<Rightarrow> i)
        in if n \<le> 0 then raise OSFailure h else write_exact (drop (nat n) view) h) h)"
  by pat_completeness auto
termination
  by (relation "measure (\<lambda>(view, _). length view)") auto

declare write_exact.simps [simp del]

subsection \<open>Effects\<close>

text \<open>\<open>keeps h h'\<close>: nothing but reading, polling and reporting happened between the two states.\<close>

definition keeps :: "host \<Rightarrow> host \<Rightarrow> bool" where
  "keeps h h' \<longleftrightarrow> h_file h' = h_file h \<and> h_temp h' = h_temp h \<and> h_writes h' = h_writes h \<and>
     set (h_cancel h') \<subseteq> set (h_cancel h)"

lemma keeps_refl [simp]: "keeps h h"
  by (simp add: keeps_def)

lemma keeps_trans [trans]: "keeps h1 h2 \<Longrightarrow> keeps h2 h3 \<Longrightarrow> keeps h1 h3"
  by (auto simp: keeps_def)

lemma keeps_cancel: "keeps h h' \<Longrightarrow> True \<in> set (h_cancel h') \<Longrightarrow> True \<in> set (h_cancel h)"
  by (auto simp: keeps_def)

lemma check_cancelled_outcome:
  "check_cancelled h = (r, h') \<Longrightarrow>
     keeps h h' \<and> h_src h' = h_src h \<and>
     (r = Inr () \<or> r = Inl TransferCancelledError \<and> True \<in> set (h_cancel h))"
  by (auto simp: check_cancelled_def keeps_def split: list.splits if_splits)

lemma report_progress_outcome:
  "report_progress n t h = (r, h') \<Longrightarrow> keeps h h' \<and> h_src h' = h_src h \<and> r = Inr ()"
  by (auto simp: report_progress_def keeps_def)

lemma read_block_outcome:
  "read_block n h = (r, h') \<Longrightarrow> 0 < n \<Longrightarrow>
     \<exists>block. r = Inr block \<and> keeps h h' \<and> h_src h = block @ h_src h' \<and> length block \<le> n \<and>
       (block = [] \<longrightarrow> h_src h = [])"
  by (auto simp: read_block_def keeps_def Let_def min_def max_def split: list.splits if_splits)

lemma check_cancelled_src: "check_cancelled h = (r, h') \<Longrightarrow> h_src h' = h_src h"
  by (simp add: check_cancelled_outcome)

lemma report_progress_src: "report_progress n t h = (r, h') \<Longrightarrow> h_src h' = h_src h"
  by (simp add: report_progress_outcome)

lemma read_block_shorter:
  "read_block n h = (Inr block, h') \<Longrightarrow> block \<noteq> [] \<Longrightarrow> length (h_src h') < length (h_src h)"
  by (auto simp: read_block_def Let_def split: list.splits)

lemma stat_size_outcome: "stat_size h = (r, h') \<Longrightarrow> \<exists>n\<ge>0. r = Inr n \<and> keeps h h' \<and> h_src h' = h_src h"
  by (auto simp: stat_size_def stat_source_def bindIO_def keeps_def split: list.splits prod.splits)

text \<open>\<open>writes h out h'\<close>: \<open>out\<close> went to the staging file, nothing else happened.\<close>

definition writes :: "host \<Rightarrow> bytes \<Rightarrow> host \<Rightarrow> bool" where
  "writes h out h' \<longleftrightarrow>
     (\<exists>ws. set ws \<subseteq> set (h_writes h) \<and> h' = append_temp out (h\<lparr>h_writes := ws\<rparr>))"

text \<open>The device will report a write that moves nothing.\<close>

definition short_write :: "host \<Rightarrow> bool" where
  "short_write h \<longleftrightarrow> list_ex (\<lambda>w. case w of None \<Rightarrow> False | Some i \<Rightarrow> i \<le> 0) (h_writes h)"

lemma writes_nil: "writes h [] h"
proof -
  have "map_option (\<lambda>out. out @ []) (h_temp h) = h_temp h"
    by (cases "h_temp h") simp_all
  then show ?thesis by (auto simp: writes_def append_temp_def intro!: exI [of _ "h_writes h"])
qed

lemma writes_trans: "writes h a h1 \<Longrightarrow> writes h1 b h2 \<Longrightarrow> writes h (a @ b) h2"
  by (auto simp: writes_def append_temp_def option.map_comp comp_def) blast

lemma writes_fields:
  "writes h out h' \<Longrightarrow> h_file h' = h_file h \<and> h_src h' = h_src h \<and> h_cancel h' = h_cancel h \<and>
     set (h_writes h') \<subseteq> set (h_writes h) \<and> h_temp h' = map_option (\<lambda>t. t @ out) (h_temp h)"
  by (auto simp: writes_def append_temp_def)

lemma short_write_mono: "set (h_writes h') \<subseteq> set (h_writes h) \<Longrightarrow> short_write h' \<Longrightarrow> short_write h"
  by (auto simp: short_write_def list_ex_iff)

lemma write_exact_outcome:
  "write_exact view h = (r, h') \<Longrightarrow>
     \<exists>out. writes h out h' \<and> (r = Inr () \<and> out = view \<or> r = Inl OSFailure \<and> short_write h)"
proof (induction view h arbitrary: r h' rule: write_exact.induct)
  case (1 view h)
  show ?case
  proof (cases "view = []")
    case True
    with "1.prems" show ?thesis using writes_nil by (auto simp: write_exact.simps)
  next
    case False
    obtain w h1 where w: "write_some view h = (Inr w, h1)"
      by (auto simp: write_some_def Let_def)
    let ?n = "case w of None \<Rightarrow> int (length view) | Some i \<Rightarrow> i"
    have h1: "writes h (take (nat ?n) view) h1" and n: "?n \<le> int (length view)"
      using w by (auto simp: write_some_def Let_def writes_def split: list.splits option.splits
        dest: list.set_sel(2) [rotated] intro!: exI [of _ "tl (h_writes h)"])
    have short: "?n \<le> 0 \<Longrightarrow> short_write h"
      using w False by (auto simp: write_some_def Let_def short_write_def min_def
        split: list.splits option.splits if_splits)
    show ?thesis
    proof (cases "?n \<le> 0")
      case True
      with "1.prems" False w h1 short show ?thesis
        by (subst (asm) write_exact.simps) (auto simp: Let_def)
    next
      case pos: False
      then have rest: "write_exact (drop (nat ?n) view) h1 = (r, h')"
        using "1.prems" False w by (subst (asm) write_exact.simps) (simp add: Let_def)
      from "1.IH" [OF False w refl pos rest] obtain out where
        "writes h1 out h'"
        "r = Inr () \<and> out = drop (nat ?n) view \<or> r = Inl OSFailure \<and> short_write h1" by blast
      with writes_trans [OF h1] short_write_mono writes_fields [OF h1] show ?thesis
        by (metis append_take_drop_id)
    qed
  qed
qed

subsection \<open>Rules for the operations\<close>

lemma wp_check:
  "wp check_cancelled (\<lambda>r h'. keeps h h' \<and> h_src h' = h_src h \<and>
     (r = Inr () \<or> r = Inl TransferCancelledError \<and> True \<in> set (h_cancel h))) h"
  by (rule wpI) (rule check_cancelled_outcome)

lemma wp_report: "wp (report_progress n t) (\<lambda>r h'. keeps h h' \<and> h_src h' = h_src h \<and> r = Inr ()) h"
  by (rule wpI) (rule report_progress_outcome)

lemma wp_read:
  "0 < n \<Longrightarrow> wp (read_block n) (\<lambda>r h'. \<exists>block. r = Inr block \<and> keeps h h' \<and>
     h_src h = block @ h_src h' \<and> length block \<le> n \<and> (block = [] \<longrightarrow> h_src h = [])) h"
  by (rule wpI) (rule read_block_outcome)

lemma wp_stat_size:
  "wp stat_size (\<lambda>r h'. \<exists>n\<ge>0. r = Inr n \<and> keeps h h' \<and> h_src h' = h_src h) h"
  by (rule wpI) (rule stat_size_outcome)

lemma wp_write_exact:
  "wp (write_exact view) (\<lambda>r h'. \<exists>out. writes h out h' \<and>
     (r = Inr () \<and> out = view \<or> r = Inl OSFailure \<and> short_write h)) h"
  by (rule wpI) (rule write_exact_outcome)

end
