(* ===== verification/Digest.thy ===== *)
theory Digest
  imports Host_IO
begin

text \<open>
  The streaming digests of \<open>server/msx_transfer.py\<close>: \<open>crc32_update\<close>, \<open>crc32_stream\<close>,
  \<open>crc32_file\<close> and \<open>crc32_file_prefix\<close>, over CRC-32/ISO-HDLC as \<open>zlib.crc32\<close> computes it. The
  loops are translated with their polls, reports and size checks; the lemmas give each one's
  outcome whatever the reads return.
\<close>

unbundle bit_operations_syntax

subsection \<open>CRC-32\<close>

definition crc32_bit :: "32 word \<Rightarrow> 32 word" where
  "crc32_bit c = (if c AND 1 \<noteq> 0 then drop_bit 1 c XOR 0xEDB88320 else drop_bit 1 c)"

definition crc32_byte :: "32 word \<Rightarrow> byte \<Rightarrow> 32 word" where
  "crc32_byte c b = (crc32_bit ^^ 8) (c XOR ucast b)"

definition zlib_crc32 :: "bytes \<Rightarrow> int \<Rightarrow> int" where
  "zlib_crc32 data checksum = uint (NOT (foldl crc32_byte (NOT (word_of_int checksum)) data))"

definition crc32_update :: "bytes \<Rightarrow> int \<Rightarrow> transfer_error + int" where
  "crc32_update data checksum = bindE (u32 checksum) (\<lambda>checksum. Inr (zlib_crc32 data checksum))"

lemma zlib_crc32_bounds [simp]: "0 \<le> zlib_crc32 data c" "zlib_crc32 data c \<le> UINT32_MAX"
  using uint_lt2p [of "NOT (foldl crc32_byte (NOT (word_of_int c)) data)"]
  by (simp_all add: zlib_crc32_def UINT32_MAX_def)

lemma zlib_crc32_Nil: "0 \<le> c \<Longrightarrow> c \<le> UINT32_MAX \<Longrightarrow> zlib_crc32 [] c = c"
  by (simp add: zlib_crc32_def UINT32_MAX_def uint_word_of_int)

lemma zlib_crc32_append: "zlib_crc32 (xs @ ys) c = zlib_crc32 ys (zlib_crc32 xs c)"
  by (simp add: zlib_crc32_def)

lemma crc32_update_ok [simp]:
  "0 \<le> c \<Longrightarrow> c \<le> UINT32_MAX \<Longrightarrow> crc32_update data c = Inr (zlib_crc32 data c)"
  by (simp add: crc32_update_def u32_def)

subsection \<open>Streams\<close>

record file_digest =
  fd_size :: int
  fd_crc :: int

function crc32_loop :: "int \<Rightarrow> int \<Rightarrow> int option \<Rightarrow> int \<Rightarrow> int \<Rightarrow> (int \<times> int) io" where
  "crc32_loop chunk_size max_size goal sz checksum h =
     bindIO check_cancelled (\<lambda>_ h.
       let remaining = max_size - sz in
       bindIO (read_block (nat (min chunk_size (remaining + 1)))) (\<lambda>block h.
         if block = [] then ret (sz, checksum) h
         else if int (length block) > remaining then raise TransferError h
         else
           let sz = sz + int (length block) in
           bindIO (lift_result (crc32_update block checksum)) (\<lambda>checksum h.
           bindIO (report_progress sz goal) (\<lambda>_ h.
             crc32_loop chunk_size max_size goal sz checksum h) h) h) h) h"
  by pat_completeness auto
termination
  by (relation "measure (\<lambda>(_, _, _, _, _, h). length (h_src h))")
    (auto dest!: check_cancelled_src report_progress_src dest: read_block_shorter)

declare crc32_loop.simps [simp del]

definition crc32_stream :: "int \<Rightarrow> int \<Rightarrow> int option \<Rightarrow> file_digest io" where
  "crc32_stream chunk_size max_size progress_total =
     bindIO (guard (chunk_size > 0) TransferError) (\<lambda>_.
     bindIO (lift_result (u32 max_size)) (\<lambda>max_size.
     bindIO (guard (case progress_total of None \<Rightarrow> True | Some t \<Rightarrow> t \<ge> 0) TransferError) (\<lambda>_.
     bindIO check_cancelled (\<lambda>_.
     bindIO (report_progress 0 progress_total) (\<lambda>_.
     bindIO (crc32_loop chunk_size max_size progress_total 0 0) (\<lambda>(sz, checksum).
     bindIO check_cancelled (\<lambda>_.
       ret \<lparr>fd_size = sz, fd_crc = checksum\<rparr>)))))))"

definition crc32_file :: "int \<Rightarrow> int \<Rightarrow> file_digest io" where
  "crc32_file chunk_size max_size =
     bindIO stat_size (\<lambda>n.
     bindIO open_source (\<lambda>_.
       crc32_stream chunk_size max_size (Some n)))"

function crc32_prefix_loop :: "int \<Rightarrow> int \<Rightarrow> int \<Rightarrow> int \<Rightarrow> (int \<times> int) io" where
  "crc32_prefix_loop chunk_size len sz checksum h =
     (if sz < len then
        bindIO check_cancelled (\<lambda>_ h.
        bindIO (read_block (nat (min chunk_size (len - sz)))) (\<lambda>block h.
          if block = [] then raise TransferError h
          else
            let sz = sz + int (length block) in
            bindIO (lift_result (crc32_update block checksum)) (\<lambda>checksum h.
            bindIO (report_progress sz (Some len)) (\<lambda>_ h.
              crc32_prefix_loop chunk_size len sz checksum h) h) h) h) h
      else ret (sz, checksum) h)"
  by pat_completeness auto
termination
  by (relation "measure (\<lambda>(_, len, sz, _, _). nat (len - sz))") auto

declare crc32_prefix_loop.simps [simp del]

definition crc32_file_prefix :: "int \<Rightarrow> int \<Rightarrow> file_digest io" where
  "crc32_file_prefix len chunk_size =
     bindIO (lift_result (u32 len)) (\<lambda>len.
     bindIO (guard (chunk_size > 0) TransferError) (\<lambda>_.
     bindIO check_cancelled (\<lambda>_.
     bindIO (report_progress 0 (Some len)) (\<lambda>_.
     bindIO open_source (\<lambda>_.
     bindIO (crc32_prefix_loop chunk_size len 0 0) (\<lambda>(sz, checksum).
     bindIO check_cancelled (\<lambda>_.
       ret \<lparr>fd_size = sz, fd_crc = checksum\<rparr>)))))))"

subsection \<open>Outcomes\<close>

lemma read_block_cases:
  assumes "0 < n"
  obtains block h' where "read_block n h = (Inr block, h')" "keeps h h'" "h_src h = block @ h_src h'"
    "length block \<le> n" "block = [] \<Longrightarrow> h_src h = []"
  using read_block_outcome [OF _ assms, of h] by (metis surj_pair)

lemma crc32_loop_outcome:
  "crc32_loop chunk_size max_size goal sz c h = (r, h') \<Longrightarrow> 0 < chunk_size \<Longrightarrow> sz \<le> max_size \<Longrightarrow>
     0 \<le> c \<Longrightarrow> c \<le> UINT32_MAX \<Longrightarrow>
     keeps h h' \<and>
     (r = Inr (sz + int (length (h_src h)), zlib_crc32 (h_src h) c) \<and>
        sz + int (length (h_src h)) \<le> max_size
      \<or> r = Inl TransferCancelledError \<and> True \<in> set (h_cancel h)
      \<or> r = Inl TransferError \<and> sz + int (length (h_src h)) > max_size)"
proof (induction chunk_size max_size goal sz c h arbitrary: r h' rule: crc32_loop.induct)
  case (1 chunk_size max_size goal sz c h)
  obtain p h1 where p: "check_cancelled h = (p, h1)" by (cases "check_cancelled h")
  note po = check_cancelled_outcome [OF p]
  show ?case
  proof (cases "p = Inr ()")
    case False
    with po have pc: "p = Inl TransferCancelledError" "True \<in> set (h_cancel h)" "keeps h h1" by auto
    have "r = Inl TransferCancelledError \<and> h' = h1"
      using "1.prems"(1) unfolding crc32_loop.simps [of chunk_size max_size goal sz c h] p [unfolded pc]
      by (simp add: p pc)
    with pc show ?thesis by simp
  next
    case True
    let ?rem = "max_size - sz"
    let ?n = "nat (min chunk_size (?rem + 1))"
    have "0 < ?n" using "1.prems" by simp
    then obtain block h2 where b: "read_block ?n h1 = (Inr block, h2)" "keeps h1 h2"
      "h_src h1 = block @ h_src h2" "length block \<le> ?n" "block = [] \<Longrightarrow> h_src h1 = []"
      by (rule read_block_cases) blast
    have src: "h_src h = block @ h_src h2" and k2: "keeps h h2"
      using po b keeps_trans by auto
    note step = crc32_loop.simps [of chunk_size max_size goal sz c h]
    show ?thesis
    proof (cases "block = []")
      case True
      then have "r = Inr (sz, c)" "h' = h2"
        using "1.prems"(1) p \<open>p = Inr ()\<close> b(1) by (simp_all add: step Let_def)
      with True src b "1.prems" k2 po show ?thesis by (simp add: zlib_crc32_Nil)
    next
      case ne: False
      show ?thesis
      proof (cases "int (length block) > ?rem")
        case True
        then have "r = Inl TransferError" "h' = h2"
          using "1.prems"(1) p \<open>p = Inr ()\<close> b(1) ne by (simp_all add: step Let_def)
        with True src k2 show ?thesis by auto
      next
        case False
        let ?sz = "sz + int (length block)" and ?c = "zlib_crc32 block c"
        obtain q h3 where q: "report_progress ?sz goal h2 = (Inr (), h3)" "keeps h2 h3" "h_src h3 = h_src h2"
          using report_progress_outcome [of ?sz goal h2] by (metis surj_pair)
        have rest: "crc32_loop chunk_size max_size goal ?sz ?c h3 = (r, h')"
          using "1.prems" p \<open>p = Inr ()\<close> b(1) ne False q(1) by (simp add: step Let_def)
        have k3: "keeps h h3" using k2 q(2) keeps_trans by blast
        have "keeps h3 h' \<and>
          (r = Inr (?sz + int (length (h_src h3)), zlib_crc32 (h_src h3) ?c) \<and>
             ?sz + int (length (h_src h3)) \<le> max_size
           \<or> r = Inl TransferCancelledError \<and> True \<in> set (h_cancel h3)
           \<or> r = Inl TransferError \<and> ?sz + int (length (h_src h3)) > max_size)"
          by (rule "1.IH" [of "()" h1 ?rem block h2 ?sz ?c h2 "()" h3])
            (use p \<open>p = Inr ()\<close> b(1) ne False q(1) rest "1.prems" in simp_all)
        then show ?thesis
          using k3 keeps_trans [OF k3] keeps_cancel [OF k3] q(3) src
          by (auto simp: zlib_crc32_append add.assoc)
      qed
    qed
  qed
qed

definition digest_outcome :: "int \<Rightarrow> bytes \<Rightarrow> host \<Rightarrow> (transfer_error + file_digest) \<Rightarrow> bool" where
  "digest_outcome max_size data h r \<longleftrightarrow>
     r = Inr \<lparr>fd_size = int (length data), fd_crc = zlib_crc32 data 0\<rparr> \<and> int (length data) \<le> max_size
     \<or> r = Inl TransferCancelledError \<and> True \<in> set (h_cancel h)
     \<or> r = Inl TransferError \<and> int (length data) > max_size"

lemma wp_crc32_loop:
  assumes "0 < chunk_size" "0 \<le> max_size"
  shows "wp (crc32_loop chunk_size max_size goal 0 0) (\<lambda>r h'. keeps h h' \<and>
     (r = Inr (int (length (h_src h)), zlib_crc32 (h_src h) 0) \<and> int (length (h_src h)) \<le> max_size
      \<or> r = Inl TransferCancelledError \<and> True \<in> set (h_cancel h)
      \<or> r = Inl TransferError \<and> int (length (h_src h)) > max_size)) h"
  using crc32_loop_outcome [of chunk_size max_size goal 0 0 h] assms
  by (intro wpI) (auto simp: UINT32_MAX_def)

lemma crc32_stream_wp:
  assumes "0 < chunk_size" "0 \<le> max_size" "max_size \<le> UINT32_MAX" "\<And>t. goal = Some t \<Longrightarrow> 0 \<le> t"
  shows "wp (crc32_stream chunk_size max_size goal)
     (\<lambda>r h'. keeps h h' \<and> digest_outcome max_size (h_src h) h r) h"
proof -
  have "crc32_stream chunk_size max_size goal = bindIO check_cancelled (\<lambda>_.
     bindIO (report_progress 0 goal) (\<lambda>_.
     bindIO (crc32_loop chunk_size max_size goal 0 0) (\<lambda>(sz, checksum).
     bindIO check_cancelled (\<lambda>_. ret \<lparr>fd_size = sz, fd_crc = checksum\<rparr>))))"
    using assms by (cases goal) (simp_all add: crc32_stream_def u32_def)
  then show ?thesis
    by (auto intro!: wp_bind [OF wp_check] wp_bind [OF wp_report] wp_bind [OF wp_crc32_loop] assms
        simp: digest_outcome_def dest: keeps_trans keeps_cancel) (blast intro: keeps_trans)
qed


lemma wp_open:
  "wp open_source (\<lambda>r h'. r = Inr () \<and> keeps h h' \<and> h_src h' = h_file h) h"
  by (rule wpI) (auto simp: open_source_def keeps_def)

lemma digest_outcome_keeps: "keeps h h1 \<Longrightarrow> digest_outcome m d h1 r \<Longrightarrow> digest_outcome m d h r"
  by (auto simp: digest_outcome_def dest: keeps_cancel)

lemma keeps_file: "keeps h h' \<Longrightarrow> h_file h' = h_file h"
  by (simp add: keeps_def)

lemma crc32_file_wp:
  assumes "0 < chunk_size" "0 \<le> max_size" "max_size \<le> UINT32_MAX"
  shows "wp (crc32_file chunk_size max_size)
     (\<lambda>r h'. keeps h h' \<and> digest_outcome max_size (h_file h) h r) h"
  unfolding crc32_file_def
proof (rule wp_bind [OF wp_stat_size])
  fix n :: int and h1
  assume "\<exists>na\<ge>0. Inr n = Inr na \<and> keeps h h1 \<and> h_src h1 = h_src h"
  then have n: "0 \<le> n" "keeps h h1" by auto
  show "wp (bindIO open_source (\<lambda>_. crc32_stream chunk_size max_size (Some n)))
     (\<lambda>r h'. keeps h h' \<and> digest_outcome max_size (h_file h) h r) h1"
  proof (rule wp_bind [OF wp_open])
    fix u h2
    assume h2: "Inr u = Inr () \<and> keeps h1 h2 \<and> h_src h2 = h_file h1"
    with n have k: "keeps h h2" "h_src h2 = h_file h"
      by (auto intro: keeps_trans simp: keeps_file)
    show "wp (crc32_stream chunk_size max_size (Some n))
       (\<lambda>r h'. keeps h h' \<and> digest_outcome max_size (h_file h) h r) h2"
      by (rule wp_mono [OF crc32_stream_wp])
        (use assms n k in \<open>auto intro: keeps_trans digest_outcome_keeps\<close>)
  qed simp
qed auto

lemma crc32_prefix_loop_wp:
  "0 < chunk_size \<Longrightarrow> sz \<le> len \<Longrightarrow> 0 \<le> c \<Longrightarrow> c \<le> UINT32_MAX \<Longrightarrow>
     wp (crc32_prefix_loop chunk_size len sz c) (\<lambda>r h'. keeps h h' \<and>
       (r = Inr (len, zlib_crc32 (take (nat (len - sz)) (h_src h)) c) \<and> len - sz \<le> int (length (h_src h))
        \<or> r = Inl TransferCancelledError \<and> True \<in> set (h_cancel h)
        \<or> r = Inl TransferError \<and> int (length (h_src h)) < len - sz)) h"
proof (induction "nat (len - sz)" arbitrary: sz c h rule: less_induct)
  case less
  have unfold_loop: "crc32_prefix_loop chunk_size len sz c =
     (if sz < len then
        bindIO check_cancelled (\<lambda>_.
        bindIO (read_block (nat (min chunk_size (len - sz)))) (\<lambda>block.
          if block = [] then raise TransferError
          else bindIO (lift_result (crc32_update block c)) (\<lambda>checksum.
            bindIO (report_progress (sz + int (length block)) (Some len)) (\<lambda>_.
              crc32_prefix_loop chunk_size len (sz + int (length block)) checksum))))
      else ret (sz, c))"
    by (rule ext, subst crc32_prefix_loop.simps) (auto simp: Let_def bindIO_def split: prod.splits sum.splits)
  show ?case
  proof (cases "sz < len")
    case False
    with less.prems show ?thesis
      unfolding unfold_loop if_not_P [OF False] by (simp add: zlib_crc32_Nil)
  next
    case True
    let ?n = "nat (min chunk_size (len - sz))"
    have n: "0 < ?n" using True less.prems by simp
    show ?thesis
      unfolding unfold_loop if_P [OF True]
    proof (rule wp_bind [OF wp_check], goal_cases)
      case (2 u h1)
      show ?case
      proof (rule wp_bind [OF wp_read [OF n]], goal_cases)
        case (2 block h2)
        then have b: "keeps h h2" "h_src h = block @ h_src h2" "length block \<le> ?n"
          "block = [] \<Longrightarrow> h_src h = []" using \<open>keeps h h1 \<and> _\<close> by (auto intro: keeps_trans)
        show ?case
        proof (cases "block = []")
          case True
          with b \<open>sz < len\<close> show ?thesis by simp
        next
          case ne: False
          let ?sz = "sz + int (length block)" and ?c = "zlib_crc32 block c"
          have sz: "nat (len - ?sz) < nat (len - sz)" "?sz \<le> len"
            using ne b(3) True by auto
          have tk: "take (nat (len - sz)) (block @ h_src h2) = block @ take (nat (len - ?sz)) (h_src h2)"
          proof -
            have "nat (len - sz) - length block = nat (len - ?sz)" by linarith
            moreover have "length block \<le> nat (len - sz)" using sz(2) by linarith
            ultimately show ?thesis by simp
          qed
          show ?thesis
            unfolding if_not_P [OF ne] crc32_update_ok [OF less.prems(3,4)] io_unit
          proof (rule wp_bind [OF wp_report], goal_cases)
            case (2 v h3)
            then have k: "keeps h h3" "h_src h3 = h_src h2" using b(1) by (auto intro: keeps_trans)
            show ?case
              by (rule wp_mono [OF less.hyps [OF sz(1) less.prems(1) sz(2)]])
                (use k b(2) tk in \<open>auto simp: zlib_crc32_append dest: keeps_cancel intro: keeps_trans\<close>)
          qed simp
        qed
      qed simp
    qed auto
  qed
qed


definition prefix_outcome :: "int \<Rightarrow> bytes \<Rightarrow> host \<Rightarrow> (transfer_error + file_digest) \<Rightarrow> bool" where
  "prefix_outcome len data h r \<longleftrightarrow>
     r = Inr \<lparr>fd_size = len, fd_crc = zlib_crc32 (take (nat len) data) 0\<rparr> \<and> len \<le> int (length data)
     \<or> r = Inl TransferCancelledError \<and> True \<in> set (h_cancel h)
     \<or> r = Inl TransferError \<and> int (length data) < len"

lemma crc32_file_prefix_wp:
  assumes "0 < chunk_size" "0 \<le> len" "len \<le> UINT32_MAX"
  shows "wp (crc32_file_prefix len chunk_size)
     (\<lambda>r h'. keeps h h' \<and> prefix_outcome len (h_file h) h r) h"
proof -
  have eq: "crc32_file_prefix len chunk_size = bindIO check_cancelled (\<lambda>_.
     bindIO (report_progress 0 (Some len)) (\<lambda>_. bindIO open_source (\<lambda>_.
     bindIO (crc32_prefix_loop chunk_size len 0 0) (\<lambda>(sz, checksum).
     bindIO check_cancelled (\<lambda>_. ret \<lparr>fd_size = sz, fd_crc = checksum\<rparr>)))))"
    using assms by (simp add: crc32_file_prefix_def u32_def)
  have rest: "wp (bindIO (crc32_prefix_loop chunk_size len 0 0) (\<lambda>(sz, checksum).
     bindIO check_cancelled (\<lambda>_. ret \<lparr>fd_size = sz, fd_crc = checksum\<rparr>)))
     (\<lambda>r h'. keeps h h' \<and> prefix_outcome len (h_src h) h r) h" for h
    using crc32_prefix_loop_wp [of chunk_size 0 len 0 h] assms
    by (intro wp_bind [OF crc32_prefix_loop_wp])
      (auto intro!: wp_bind [OF wp_check] simp: prefix_outcome_def UINT32_MAX_def
        dest: keeps_trans keeps_cancel)
  show ?thesis
    unfolding eq
  proof (rule wp_bind [OF wp_check], goal_cases)
    case (2 u h1)
    show ?case
    proof (rule wp_bind [OF wp_report], goal_cases)
      case (2 v h2)
      show ?case
      proof (rule wp_bind [OF wp_open], goal_cases)
        case (2 w h3)
        then have "keeps h h3" "h_src h3 = h_file h"
          using \<open>keeps h h1 \<and> _\<close> \<open>keeps h1 h2 \<and> _\<close> by (auto intro: keeps_trans simp: keeps_file)
        then show ?case
          by (intro wp_mono [OF rest]) (auto simp: prefix_outcome_def intro: keeps_trans dest: keeps_cancel)
      qed simp
    qed simp
  qed (auto simp: prefix_outcome_def)
qed

subsection \<open>Properties\<close>

text \<open>
  The digest of a file. However the reads are split, \<open>crc32_file\<close> returns the exact size and the
  CRC-32 of the whole file if the file is within the limit and the caller does not cancel; it fails
  with \<open>TransferError\<close> only when the file exceeds the limit, and it changes nothing on disk.
\<close>

theorem crc32_file_exact:
  assumes "crc32_file chunk_size max_size h = (r, h')"
    and "0 < chunk_size" "0 \<le> max_size" "max_size \<le> UINT32_MAX"
  shows "h_file h' = h_file h \<and> h_temp h' = h_temp h \<and>
    (r = Inr \<lparr>fd_size = int (length (h_file h)), fd_crc = zlib_crc32 (h_file h) 0\<rparr> \<and>
       int (length (h_file h)) \<le> max_size
     \<or> r = Inl TransferCancelledError \<and> True \<in> set (h_cancel h)
     \<or> r = Inl TransferError \<and> int (length (h_file h)) > max_size)"
  using wpD [OF crc32_file_wp [OF assms(2-4)] assms(1)] by (auto simp: keeps_def digest_outcome_def)

definition sample_host :: "bytes \<Rightarrow> host" where
  "sample_host data = \<lparr>h_file = data, h_stats = [], h_src = [], h_reads = [1, 0, 3], h_writes = [Some 1],
     h_cancel = [False, False], h_temp = None, h_progress = []\<rparr>"

lemma crc32_file_exact_example:
  "fst (crc32_file 2 100 (sample_host [1, 2, 3, 4, 5])) =
     Inr \<lparr>fd_size = 5, fd_crc = zlib_crc32 [1, 2, 3, 4, 5] 0\<rparr>"
  using crc32_file_exact [of 2 100 "sample_host [1, 2, 3, 4, 5]"]
  by (cases "crc32_file 2 100 (sample_host [1, 2, 3, 4, 5])")
    (simp add: sample_host_def UINT32_MAX_def)

text \<open>
  Resume reconciliation hashes exactly the requested prefix: \<open>crc32_file_prefix\<close> returns the
  digest of the first \<open>len\<close> bytes when the file has them, and fails when it ends before.
\<close>

theorem crc32_file_prefix_exact:
  assumes "crc32_file_prefix len chunk_size h = (r, h')"
    and "0 < chunk_size" "0 \<le> len" "len \<le> UINT32_MAX"
  shows "h_file h' = h_file h \<and> h_temp h' = h_temp h \<and>
    (r = Inr \<lparr>fd_size = len, fd_crc = zlib_crc32 (take (nat len) (h_file h)) 0\<rparr> \<and>
       len \<le> int (length (h_file h))
     \<or> r = Inl TransferCancelledError \<and> True \<in> set (h_cancel h)
     \<or> r = Inl TransferError \<and> int (length (h_file h)) < len)"
  using wpD [OF crc32_file_prefix_wp [OF assms(2-4)] assms(1)] by (auto simp: keeps_def prefix_outcome_def)

end
