(* ===== verification/PackBits.thy ===== *)
theory PackBits
  imports Digest
begin

text \<open>
  The deterministic PackBits encoder of \<open>server/msx_transfer.py\<close> (\<open>_deterministic_packbits\<close>): the
  nested helpers \<open>emit\<close>, \<open>flush_literals\<close> and \<open>settle_run\<close>, the per-byte step, the block loop and
  the staging file with its clean-up. The specification is an independent decoder of the format
  and a grammar of canonical packets.
\<close>

subsection \<open>The encoder\<close>

record packer =
  pk_wire_size :: int
  pk_wire_crc :: int
  pk_literal :: bytes
  pk_run_byte :: "byte option"
  pk_run_length :: nat

definition new_packer :: packer where
  "new_packer = \<lparr>pk_wire_size = 0, pk_wire_crc = 0, pk_literal = [], pk_run_byte = None,
     pk_run_length = 0\<rparr>"

definition emit :: "int \<Rightarrow> bytes \<Rightarrow> packer \<Rightarrow> packer io" where
  "emit max_size packet p =
     (if int (length packet) > max_size - pk_wire_size p then raise PackBitsWireLimit
      else bindIO (write_exact packet) (\<lambda>_.
        ret (p\<lparr>pk_wire_size := pk_wire_size p + int (length packet),
               pk_wire_crc := zlib_crc32 packet (pk_wire_crc p)\<rparr>)))"

function flush_literals :: "int \<Rightarrow> bool \<Rightarrow> packer \<Rightarrow> packer io" where
  "flush_literals max_size final p h =
     (if length (pk_literal p) \<ge> 128 \<or> final \<and> pk_literal p \<noteq> [] then
        let count = min 128 (length (pk_literal p));
            packet = of_nat (count - 1) # take count (pk_literal p)
        in bindIO (emit max_size packet (p\<lparr>pk_literal := drop count (pk_literal p)\<rparr>))
             (\<lambda>p h. flush_literals max_size final p h) h
      else ret p h)"
  by pat_completeness auto
termination
  by (relation "measure (\<lambda>(_, _, p, _). length (pk_literal p))")
    (auto simp: emit_def bindIO_def split: if_splits prod.splits sum.splits)

declare flush_literals.simps [simp del]

definition settle_run :: "int \<Rightarrow> packer \<Rightarrow> packer io" where
  "settle_run max_size p =
     bindIO
       (if pk_run_length p \<ge> 3 then
          bindIO (flush_literals max_size True p) (\<lambda>p.
            emit max_size [of_nat (257 - pk_run_length p), the (pk_run_byte p)] p)
        else if pk_run_length p > 0 then
          flush_literals max_size False
            (p\<lparr>pk_literal := pk_literal p @ replicate (pk_run_length p) (the (pk_run_byte p))\<rparr>)
        else ret p)
       (\<lambda>p. ret (p\<lparr>pk_run_byte := None, pk_run_length := 0\<rparr>))"

definition pack_byte :: "int \<Rightarrow> byte \<Rightarrow> packer \<Rightarrow> packer io" where
  "pack_byte max_size v p =
     (if pk_run_length p > 0 \<and> pk_run_byte p = Some v then
        if pk_run_length p = 128 then
          bindIO (settle_run max_size p) (\<lambda>p. ret (p\<lparr>pk_run_byte := Some v, pk_run_length := 1\<rparr>))
        else ret (p\<lparr>pk_run_length := pk_run_length p + 1\<rparr>)
      else
        bindIO (settle_run max_size p) (\<lambda>p. ret (p\<lparr>pk_run_byte := Some v, pk_run_length := 1\<rparr>)))"

text \<open>\<open>for index, value in enumerate(block)\<close>, with a poll at every 4096th index.\<close>

fun pack_block :: "int \<Rightarrow> nat \<Rightarrow> bytes \<Rightarrow> packer \<Rightarrow> packer io" where
  "pack_block max_size index [] p = ret p"
| "pack_block max_size index (v # vs) p =
     bindIO (if index mod 4096 = 0 then check_cancelled else ret ()) (\<lambda>_.
     bindIO (pack_byte max_size v p) (\<lambda>p.
       pack_block max_size (index + 1) vs p))"

subsection \<open>Staging effects\<close>

text \<open>\<open>stages h out h'\<close>: \<open>out\<close> went to the staging file and polls were made, nothing was read.\<close>

definition stages :: "host \<Rightarrow> bytes \<Rightarrow> host \<Rightarrow> bool" where
  "stages h out h' \<longleftrightarrow> h_file h' = h_file h \<and> h_src h' = h_src h \<and>
     set (h_cancel h') \<subseteq> set (h_cancel h) \<and> set (h_writes h') \<subseteq> set (h_writes h) \<and>
     h_temp h' = map_option (\<lambda>t. t @ out) (h_temp h)"

lemma stages_nil [simp]: "stages h [] h"
  by (simp add: stages_def option.map_ident)

lemma stages_trans: "stages h a h1 \<Longrightarrow> stages h1 b h2 \<Longrightarrow> stages h (a @ b) h2"
  by (auto simp: stages_def option.map_comp comp_def)

lemma stages_writes: "writes h out h' \<Longrightarrow> stages h out h'"
  by (drule writes_fields) (simp add: stages_def)

lemma stages_keeps: "keeps h h' \<Longrightarrow> h_src h' = h_src h \<Longrightarrow> stages h [] h'"
  by (auto simp: stages_def keeps_def option.map_ident)

lemma stages_cancel: "stages h out h' \<Longrightarrow> True \<in> set (h_cancel h') \<Longrightarrow> True \<in> set (h_cancel h)"
  by (auto simp: stages_def)

lemma stages_short: "stages h out h' \<Longrightarrow> short_write h' \<Longrightarrow> short_write h"
  by (auto simp: stages_def intro: short_write_mono)

subsection \<open>Packets\<close>

text \<open>The packets of the format, their wire image and the data they stand for.\<close>

datatype packet = Lit bytes | Run nat byte

primrec encode_packet :: "packet \<Rightarrow> bytes" where
  "encode_packet (Lit bs) = of_nat (length bs - 1) # bs"
| "encode_packet (Run n b) = [of_nat (257 - n), b]"

primrec packet_data :: "packet \<Rightarrow> bytes" where
  "packet_data (Lit bs) = bs"
| "packet_data (Run n b) = replicate n b"

primrec canonical :: "packet \<Rightarrow> bool" where
  "canonical (Lit bs) = (1 \<le> length bs \<and> length bs \<le> 128)"
| "canonical (Run n b) = (3 \<le> n \<and> n \<le> 128)"

abbreviation encode_packets :: "packet list \<Rightarrow> bytes" where
  "encode_packets ps \<equiv> concat (map encode_packet ps)"

abbreviation packets_data :: "packet list \<Rightarrow> bytes" where
  "packets_data ps \<equiv> concat (map packet_data ps)"

text \<open>The packets each helper emits, and the literal it leaves pending.\<close>

function flush_packets :: "bool \<Rightarrow> bytes \<Rightarrow> packet list \<times> bytes" where
  "flush_packets final lit =
     (if length lit \<ge> 128 \<or> final \<and> lit \<noteq> [] then
        apfst (Cons (Lit (take 128 lit))) (flush_packets final (drop 128 lit))
      else ([], lit))"
  by pat_completeness auto
termination
  by (relation "measure (\<lambda>(_, lit). length lit)") auto

declare flush_packets.simps [simp del]

definition settle_packets :: "bytes \<Rightarrow> byte option \<Rightarrow> nat \<Rightarrow> packet list \<times> bytes" where
  "settle_packets lit rb n =
     (if n \<ge> 3 then (fst (flush_packets True lit) @ [Run n (the rb)], snd (flush_packets True lit))
      else if n > 0 then flush_packets False (lit @ replicate n (the rb))
      else ([], lit))"

type_synonym pending = "bytes \<times> byte option \<times> nat"

definition step_packets :: "byte \<Rightarrow> pending \<Rightarrow> packet list \<times> pending" where
  "step_packets v st =
     (case st of (lit, rb, n) \<Rightarrow>
        if n > 0 \<and> rb = Some v \<and> n \<noteq> 128 then ([], (lit, rb, n + 1))
        else let (ps, lit') = settle_packets lit rb n in (ps, (lit', Some v, 1)))"

fun block_packets :: "bytes \<Rightarrow> pending \<Rightarrow> packet list \<times> pending" where
  "block_packets [] st = ([], st)"
| "block_packets (v # vs) st =
     (let (ps, st1) = step_packets v st; (qs, st2) = block_packets vs st1 in (ps @ qs, st2))"

definition last_packets :: "pending \<Rightarrow> packet list" where
  "last_packets st =
     (case st of (lit, rb, n) \<Rightarrow>
        let (ps, lit') = settle_packets lit rb n in ps @ fst (flush_packets True lit'))"

definition packets_from :: "bytes \<Rightarrow> pending \<Rightarrow> packet list" where
  "packets_from bs st = (let (ps, st') = block_packets bs st in ps @ last_packets st')"

definition packets_of :: "bytes \<Rightarrow> packet list" where
  "packets_of bs = packets_from bs ([], None, 0)"

lemma block_packets_append:
  "block_packets (xs @ ys) st =
     (let (ps, st1) = block_packets xs st; (qs, st2) = block_packets ys st1 in (ps @ qs, st2))"
  by (induction xs arbitrary: st) (auto simp: Let_def split: prod.splits)

lemma packets_from_append:
  "packets_from (xs @ ys) st = fst (block_packets xs st) @ packets_from ys (snd (block_packets xs st))"
  by (simp add: packets_from_def block_packets_append Let_def split: prod.splits)

subsection \<open>The encoder emits these packets\<close>

definition charge :: "bytes \<Rightarrow> packer \<Rightarrow> packer" where
  "charge out p = p\<lparr>pk_wire_size := pk_wire_size p + int (length out),
     pk_wire_crc := zlib_crc32 out (pk_wire_crc p)\<rparr>"

definition pending_of :: "packer \<Rightarrow> pending" where
  "pending_of p = (pk_literal p, pk_run_byte p, pk_run_length p)"

definition set_pending :: "pending \<Rightarrow> packer \<Rightarrow> packer" where
  "set_pending st p = (case st of (lit, rb, n) \<Rightarrow>
     p\<lparr>pk_literal := lit, pk_run_byte := rb, pk_run_length := n\<rparr>)"

definition wf_packer :: "packer \<Rightarrow> bool" where
  "wf_packer p \<longleftrightarrow> 0 \<le> pk_wire_crc p \<and> pk_wire_crc p \<le> UINT32_MAX"

text \<open>
  \<open>emits max p ps st h r h'\<close>: the operation, from encoder state \<open>p\<close>, put the packets \<open>ps\<close> on the
  staging file and left \<open>st\<close> pending, or failed for one of the reasons it can fail for.
\<close>

definition emits ::
  "int \<Rightarrow> packer \<Rightarrow> packet list \<Rightarrow> pending \<Rightarrow> host \<Rightarrow> transfer_error + packer \<Rightarrow> host \<Rightarrow> bool" where
  "emits max_size p ps st h r h' \<longleftrightarrow>
     (\<exists>out. stages h out h' \<and>
        (case r of
           Inr p' \<Rightarrow> out = encode_packets ps \<and> p' = set_pending st (charge out p) \<and>
             pk_wire_size p + int (length out) \<le> max_size
         | Inl e \<Rightarrow> e = OSFailure \<and> short_write h \<or> e = TransferCancelledError \<and> True \<in> set (h_cancel h) \<or>
             e = PackBitsWireLimit \<and> pk_wire_size p + int (length (encode_packets ps)) > max_size))"

lemma charge_append: "charge (a @ b) p = charge b (charge a p)"
  by (simp add: charge_def zlib_crc32_append add.assoc)

lemma charge_nil: "wf_packer p \<Longrightarrow> charge [] p = p"
  by (simp add: charge_def wf_packer_def zlib_crc32_Nil)

lemma wf_packer_charge [simp]: "wf_packer (charge out p)"
  by (simp add: charge_def wf_packer_def)

lemma packer_simps [simp]:
  "pending_of (set_pending st p) = st"
  "set_pending st (set_pending st' p) = set_pending st p"
  "set_pending (pending_of p) p = p"
  "charge out (set_pending st p) = set_pending st (charge out p)"
  "pk_wire_size (set_pending st p) = pk_wire_size p"
  "wf_packer (set_pending st p) = wf_packer p"
  "pending_of (charge out p) = pending_of p"
  "pk_wire_size (charge out p) = pk_wire_size p + int (length out)"
  by (cases st; cases st'; auto simp: pending_of_def set_pending_def charge_def wf_packer_def)+

lemma emits_Inl_mono:
  "emits max_size p ps st h (Inl e) h' \<Longrightarrow> emits max_size p (ps @ qs) st' h (Inl e) h'"
  by (auto simp: emits_def)

lemma emits_Inr:
  "emits max_size p ps st h (Inr p') h' \<longleftrightarrow>
     stages h (encode_packets ps) h' \<and> p' = set_pending st (charge (encode_packets ps) p) \<and>
     pk_wire_size p + int (length (encode_packets ps)) \<le> max_size"
  by (auto simp: emits_def)

lemma emits_seq:
  assumes "emits max_size p ps st h (Inr p1) h1" "emits max_size p1 qs st' h1 r h2"
  shows "emits max_size p (ps @ qs) st' h r h2"
proof -
  have p1: "stages h (encode_packets ps) h1" "p1 = set_pending st (charge (encode_packets ps) p)"
    using assms(1) by (simp_all add: emits_Inr)
  obtain out where "stages h1 out h2" "case r of
      Inr p' \<Rightarrow> out = encode_packets qs \<and> p' = set_pending st' (charge out p1) \<and>
        pk_wire_size p1 + int (length out) \<le> max_size
    | Inl e \<Rightarrow> e = OSFailure \<and> short_write h1 \<or> e = TransferCancelledError \<and> True \<in> set (h_cancel h1) \<or>
        e = PackBitsWireLimit \<and> pk_wire_size p1 + int (length (encode_packets qs)) > max_size"
    using assms(2) unfolding emits_def by blast
  then show ?thesis
    unfolding emits_def p1(2) using stages_trans [OF p1(1)] stages_cancel [OF p1(1)] stages_short [OF p1(1)]
    by (intro exI [of _ "encode_packets ps @ out"])
      (auto simp: charge_append add.assoc split: sum.splits)
qed

lemma emit_wp:
  assumes "packet = encode_packet q"
  shows "wp (emit max_size packet p) (\<lambda>r h'. emits max_size p [q] (pending_of p) h r h') h"
proof (cases "int (length packet) > max_size - pk_wire_size p")
  case True
  then show ?thesis using assms
    by (auto simp: emit_def emits_def intro!: exI [of _ "[]"])
next
  case False
  then show ?thesis
    unfolding emit_def if_not_P [OF False]
    by (intro wp_bind [OF wp_write_exact])
      (auto simp: emits_def assms charge_def set_pending_def pending_of_def dest: stages_writes)
qed

lemma flush_literals_eq:
  "flush_literals max_size final p =
     (if length (pk_literal p) \<ge> 128 \<or> final \<and> pk_literal p \<noteq> [] then
        bindIO (emit max_size (encode_packet (Lit (take 128 (pk_literal p))))
            (p\<lparr>pk_literal := drop 128 (pk_literal p)\<rparr>))
          (flush_literals max_size final)
      else ret p)"
  by (rule ext, subst flush_literals.simps) (auto simp: Let_def min_def not_le)

lemma set_pending_literal:
  "p\<lparr>pk_literal := lit\<rparr> = set_pending (lit, pk_run_byte p, pk_run_length p) p"
  by (simp add: set_pending_def)

lemma pending_literal [simp]:
  "pk_literal (set_pending (lit, rb, n) p) = lit"
  "pk_run_byte (set_pending (lit, rb, n) p) = rb"
  "pk_run_length (set_pending (lit, rb, n) p) = n"
  by (simp_all add: set_pending_def)

lemma emits_set_pending:
  "emits max_size (set_pending st0 p) ps st h r h' = emits max_size p ps st h r h'"
  by (cases r) (auto simp: emits_def)

lemma flush_literals_wp:
  "wf_packer p \<Longrightarrow>
   wp (flush_literals max_size final p)
     (\<lambda>r h'. pk_wire_size p \<le> max_size \<longrightarrow> emits max_size p (fst (flush_packets final (pk_literal p)))
        (snd (flush_packets final (pk_literal p)), pk_run_byte p, pk_run_length p) h r h') h"
proof (induction "length (pk_literal p)" arbitrary: p h rule: less_induct)
  case less
  show ?case
  proof (cases "length (pk_literal p) \<ge> 128 \<or> final \<and> pk_literal p \<noteq> []")
    case False
    then show ?thesis using less.prems
      by (subst flush_literals_eq) (auto simp: flush_packets.simps emits_Inr charge_nil set_pending_def)
  next
    case True
    let ?q = "Lit (take 128 (pk_literal p))"
    let ?p = "p\<lparr>pk_literal := drop 128 (pk_literal p)\<rparr>"
    have fp: "flush_packets final (pk_literal p) = apfst (Cons ?q) (flush_packets final (drop 128 (pk_literal p)))"
      using True by (subst flush_packets.simps) simp
    show ?thesis
      unfolding flush_literals_eq [of _ _ p] if_P [OF True]
    proof (rule wp_bind [OF emit_wp [OF refl]], goal_cases)
      case (1 e h1)
      then have "emits max_size p [?q] (pending_of ?p) h (Inl e) h1"
        unfolding set_pending_literal emits_set_pending by simp
      from emits_Inl_mono [OF this, where qs = "fst (flush_packets final (drop 128 (pk_literal p)))"]
      show ?case by (simp add: fp)
    next
      case (2 p1 h1)
      then have e: "emits max_size p [?q] (pending_of ?p) h (Inr p1) h1"
        unfolding set_pending_literal emits_set_pending by simp
      then have p1: "pk_literal p1 = drop 128 (pk_literal p)" "pk_run_byte p1 = pk_run_byte p"
        "pk_run_length p1 = pk_run_length p" "wf_packer p1" "pk_wire_size p1 \<le> max_size"
        by (simp_all add: emits_Inr pending_of_def)
      have "length (pk_literal p1) < length (pk_literal p)" using True p1 by auto
      from less.hyps [OF this p1(4), of h1] show ?case
        by (rule wp_mono) (use p1 emits_seq [OF e] in \<open>simp add: fp\<close>)
    qed
  qed
qed

definition fits :: "int \<Rightarrow> packer \<Rightarrow> bool" where
  "fits max_size p \<longleftrightarrow> wf_packer p \<and> pk_wire_size p \<le> max_size"

lemma emits_fits: "emits max_size p ps st h (Inr p') h' \<Longrightarrow> fits max_size p' \<and> pending_of p' = st"
  by (simp add: emits_Inr fits_def)

lemma flush_wp:
  "fits max_size p \<Longrightarrow> flush_packets final (pk_literal p) = (ps, lit) \<Longrightarrow>
   wp (flush_literals max_size final p)
     (\<lambda>r h'. emits max_size p ps (lit, pk_run_byte p, pk_run_length p) h r h') h"
  using flush_literals_wp [of p max_size final h] by (auto simp: fits_def elim: wp_mono)

lemma set_pending_run:
  "p\<lparr>pk_run_byte := rb, pk_run_length := n\<rparr> = set_pending (pk_literal p, rb, n) p"
  by (simp add: set_pending_def)

lemma emits_set_result:
  "emits max_size p ps st h (Inr p') h' \<Longrightarrow> emits max_size p ps st' h (Inr (set_pending st' p')) h'"
  by (simp add: emits_Inr)

lemma fits_set_pending [simp]: "fits max_size (set_pending st p) = fits max_size p"
  by (simp add: fits_def)

lemma settle_body_wp:
  assumes "fits max_size p" "settle_packets (pk_literal p) (pk_run_byte p) (pk_run_length p) = (ps, lit)"
  shows "wp (if pk_run_length p \<ge> 3 then
          bindIO (flush_literals max_size True p) (\<lambda>p.
            emit max_size [of_nat (257 - pk_run_length p), the (pk_run_byte p)] p)
        else if pk_run_length p > 0 then
          flush_literals max_size False
            (p\<lparr>pk_literal := pk_literal p @ replicate (pk_run_length p) (the (pk_run_byte p))\<rparr>)
        else ret p) (\<lambda>r h'. emits max_size p ps (lit, pk_run_byte p, pk_run_length p) h r h') h"
proof -
  consider "pk_run_length p \<ge> 3" | "pk_run_length p < 3" "pk_run_length p > 0" | "pk_run_length p = 0"
    by linarith
  then show ?thesis
  proof cases
    case 1
    obtain qs l where f: "flush_packets True (pk_literal p) = (qs, l)" by force
    have ps: "ps = qs @ [Run (pk_run_length p) (the (pk_run_byte p))]" "lit = l"
      using assms(2) 1 f by (auto simp: settle_packets_def)
    show ?thesis
      unfolding if_P [OF 1] ps
    proof (rule wp_bind [OF flush_wp [OF assms(1) f]], goal_cases)
      case (1 e h1)
      then show ?case by (rule emits_Inl_mono)
    next
      case (2 p1 h1)
      then have "pk_run_length p1 = pk_run_length p" "pk_run_byte p1 = pk_run_byte p"
        "pending_of p1 = (l, pk_run_byte p, pk_run_length p)"
        using emits_fits [OF 2] by (auto simp: pending_of_def)
      then show ?case
        by (intro wp_mono [OF emit_wp]) (auto intro!: emits_seq [OF 2])
    qed
  next
    case 2
    then have f: "flush_packets False (pk_literal p @ replicate (pk_run_length p) (the (pk_run_byte p))) = (ps, lit)"
      using assms(2) by (simp add: settle_packets_def)
    have "wp (flush_literals max_size False
            (p\<lparr>pk_literal := pk_literal p @ replicate (pk_run_length p) (the (pk_run_byte p))\<rparr>))
        (\<lambda>r h'. emits max_size p ps (lit, pk_run_byte p, pk_run_length p) h r h') h"
      unfolding set_pending_literal
      by (rule wp_mono [OF flush_wp [of _ _ _ ps lit]])
        (use assms(1) f in \<open>simp_all add: emits_set_pending\<close>)
    with 2 show ?thesis by simp
  next
    case 3
    with assms show ?thesis
      by (auto simp: settle_packets_def emits_Inr fits_def charge_nil set_pending_def)
  qed
qed

lemma settle_run_wp:
  assumes "fits max_size p" "settle_packets (pk_literal p) (pk_run_byte p) (pk_run_length p) = (ps, lit)"
  shows "wp (settle_run max_size p) (\<lambda>r h'. emits max_size p ps (lit, None, 0) h r h') h"
  unfolding settle_run_def
  by (rule wp_bind [OF settle_body_wp [OF assms]])
    (auto simp: set_pending_run dest: emits_set_result emits_fits emits_Inl_mono [where qs = "[]"] simp: emits_Inr)

lemma pack_byte_wp:
  assumes "fits max_size p" "step_packets v (pending_of p) = (ps, st)"
  shows "wp (pack_byte max_size v p) (\<lambda>r h'. emits max_size p ps st h r h') h"
proof (cases "pk_run_length p > 0 \<and> pk_run_byte p = Some v \<and> pk_run_length p \<noteq> 128")
  case True
  with assms have "ps = []" "st = (pk_literal p, Some v, pk_run_length p + 1)"
    by (auto simp: step_packets_def pending_of_def)
  with True assms(1) show ?thesis
    by (auto simp: pack_byte_def emits_Inr fits_def charge_nil set_pending_def)
next
  case False
  obtain lit where s: "settle_packets (pk_literal p) (pk_run_byte p) (pk_run_length p) = (ps, lit)"
    and st: "st = (lit, Some v, 1)"
    using assms(2) False
    by (auto simp: step_packets_def pending_of_def Let_def split: prod.splits if_splits)
  have "pack_byte max_size v p =
      bindIO (settle_run max_size p) (\<lambda>p. ret (p\<lparr>pk_run_byte := Some v, pk_run_length := 1\<rparr>))"
    using False by (auto simp: pack_byte_def)
  moreover have "emits max_size p ps (lit, None, 0) h (Inr x) h1 \<Longrightarrow>
      emits max_size p ps st h (Inr (x\<lparr>pk_run_byte := Some v, pk_run_length := 1\<rparr>)) h1" for x h1
    unfolding st by (auto simp: set_pending_run emits_Inr)
  ultimately show ?thesis
    by (auto intro!: wp_bind [OF settle_run_wp [OF assms(1) s]] dest: emits_Inl_mono [where qs = "[]"])
qed

lemma emits_after_poll: "stages h [] h1 \<Longrightarrow> emits max_size p ps st h1 r h' \<Longrightarrow> emits max_size p ps st h r h'"
  unfolding emits_def
  by (elim exE conjE, rule exI, rule conjI, erule (1) stages_trans [of h "[]", simplified])
    (auto split: sum.splits dest: stages_cancel stages_short)

lemma pack_block_wp:
  "fits max_size p \<Longrightarrow> block_packets vs (pending_of p) = (ps, st) \<Longrightarrow>
     wp (pack_block max_size index vs p) (\<lambda>r h'. emits max_size p ps st h r h') h"
proof (induction vs arbitrary: index p ps h)
  case Nil
  then show ?case by (auto simp: emits_Inr fits_def charge_nil)
next
  case (Cons v vs)
  obtain ps1 st1 ps2 where s: "step_packets v (pending_of p) = (ps1, st1)"
    "block_packets vs st1 = (ps2, st)" "ps = ps1 @ ps2"
    using Cons.prems(2) by (auto simp: Let_def split: prod.splits)
  have poll: "wp (if index mod 4096 = 0 then check_cancelled else ret ())
      (\<lambda>r h'. stages h [] h' \<and> (r = Inr () \<or> r = Inl TransferCancelledError \<and> True \<in> set (h_cancel h))) h"
    by (auto intro: wp_mono [OF wp_check] simp: stages_keeps)
  show ?case
    unfolding pack_block.simps
  proof (rule wp_bind [OF poll], goal_cases)
    case (1 e h1)
    then show ?case by (auto simp: emits_def)
  next
    case (2 u h1)
    show ?case
    proof (rule wp_bind [OF pack_byte_wp [OF Cons.prems(1) s(1)]], goal_cases)
      case (1 e h2)
      with 2 show ?case unfolding s(3) by (blast intro: emits_after_poll emits_Inl_mono)
    next
      case (2 p1 h2)
      note p1 = emits_fits [OF 2]
      have e: "emits max_size p ps1 st1 h (Inr p1) h2"
        using \<open>stages h [] h1 \<and> _\<close> 2 by (blast intro: emits_after_poll)
      show ?case
        unfolding s(3)
        by (rule wp_mono [OF Cons.IH]) (use p1 s(2) in simp_all, rule emits_seq [OF e])
    qed
  qed
qed

subsection \<open>The block loop and the staging file\<close>

lemma emit_src: "wp (emit max_size packet p) (\<lambda>r h'. h_src h' = h_src h) h"
  by (auto simp: emit_def intro!: wp_bind [OF wp_write_exact] dest: writes_fields)

lemma flush_literals_src: "wp (flush_literals max_size final p) (\<lambda>r h'. h_src h' = h_src h) h"
proof (induction "length (pk_literal p)" arbitrary: p h rule: less_induct)
  case less
  show ?case
  proof (cases "length (pk_literal p) \<ge> 128 \<or> final \<and> pk_literal p \<noteq> []")
    case False
    then show ?thesis unfolding flush_literals_eq [of _ _ p] if_not_P [OF False] by simp
  next
    case True
    show ?thesis
      unfolding flush_literals_eq [of _ _ p] if_P [OF True]
    proof (rule wpI)
      fix r h'
      assume "bindIO (emit max_size (encode_packet (Lit (take 128 (pk_literal p))))
        (p\<lparr>pk_literal := drop 128 (pk_literal p)\<rparr>)) (flush_literals max_size final) h = (r, h')"
      then consider e where "emit max_size (encode_packet (Lit (take 128 (pk_literal p))))
          (p\<lparr>pk_literal := drop 128 (pk_literal p)\<rparr>) h = (Inl e, h')"
        | p1 h1 where "emit max_size (encode_packet (Lit (take 128 (pk_literal p))))
          (p\<lparr>pk_literal := drop 128 (pk_literal p)\<rparr>) h = (Inr p1, h1)"
          "flush_literals max_size final p1 h1 = (r, h')"
        by (auto simp: bindIO_def split: prod.splits sum.splits)
      then show "h_src h' = h_src h"
      proof cases
        case 1
        then show ?thesis using wpD [OF emit_src] by blast
      next
        case 2
        then have "pk_literal p1 = drop 128 (pk_literal p)"
          by (auto simp: emit_def result_simps split: if_splits)
        then have "length (pk_literal p1) < length (pk_literal p)" using True by auto
        from wpD [OF less.hyps [OF this] 2(2)] wpD [OF emit_src 2(1)] show ?thesis by simp
      qed
    qed
  qed
qed

lemma settle_run_src: "wp (settle_run max_size p) (\<lambda>r h'. h_src h' = h_src h) h"
  unfolding settle_run_def
  by (auto intro!: wp_bind [where P = "\<lambda>r h'. h_src h' = h_src h"] flush_literals_src
      wp_mono [OF emit_src] wp_mono [OF flush_literals_src])

lemma pack_byte_src: "wp (pack_byte max_size v p) (\<lambda>r h'. h_src h' = h_src h) h"
  by (auto simp: pack_byte_def intro!: wp_bind [OF settle_run_src])

lemma pack_block_src: "wp (pack_block max_size index vs p) (\<lambda>r h'. h_src h' = h_src h) h"
proof (induction vs arbitrary: index p h)
  case (Cons v vs)
  have poll: "wp (if index mod 4096 = 0 then check_cancelled else ret ()) (\<lambda>r h'. h_src h' = h_src h) h"
    by (auto intro: wp_mono [OF wp_check])
  show ?case
    unfolding pack_block.simps
    by (intro wp_bind [OF poll] wp_bind [OF pack_byte_src] wp_mono [OF Cons.IH]) simp_all
qed (simp add: wp_def)

lemma pack_block_src_eq: "pack_block max_size index vs p h = (r, h') \<Longrightarrow> h_src h' = h_src h"
  by (rule wpD [OF pack_block_src])

function pack_loop :: "int \<Rightarrow> int \<Rightarrow> int \<Rightarrow> int \<Rightarrow> int \<Rightarrow> packer \<Rightarrow> (int \<times> int \<times> packer) io" where
  "pack_loop chunk_size max_size source_total final_size final_crc p h =
     bindIO check_cancelled (\<lambda>_ h.
       let remaining = max_size - final_size in
       bindIO (read_block (nat (min chunk_size (remaining + 1)))) (\<lambda>block h.
         if block = [] then ret (final_size, final_crc, p) h
         else if int (length block) > remaining then raise TransferError h
         else
           let final_size = final_size + int (length block);
               final_crc = zlib_crc32 block final_crc in
           bindIO (pack_block max_size 0 block p) (\<lambda>p h.
           bindIO (report_progress final_size (Some source_total)) (\<lambda>_ h.
             pack_loop chunk_size max_size source_total final_size final_crc p h) h) h) h) h"
  by pat_completeness auto
termination
  by (relation "measure (\<lambda>(_, _, _, _, _, _, h). length (h_src h))")
    (auto dest!: check_cancelled_src report_progress_src pack_block_src_eq dest: read_block_shorter)

declare pack_loop.simps [simp del]

text \<open>The reason texts of a payload, as a value per message.\<close>

datatype payload_reason =
  RawRequested | AlreadyCompressed | ExpansionExceedsLimit | PackBitsRequested | Saves int
| SavingsBelow int int

record prepared_payload =
  pp_encoding :: transfer_encoding
  pp_final :: file_digest
  pp_wire :: file_digest
  pp_temporary :: bool
  pp_reason :: payload_reason

definition deterministic_packbits :: "int \<Rightarrow> int \<Rightarrow> prepared_payload io" where
  "deterministic_packbits chunk_size max_size =
     bindIO make_temp (\<lambda>_.
     bindIO stat_size (\<lambda>source_total.
     bindIO check_cancelled (\<lambda>_.
     bindIO (report_progress 0 (Some source_total)) (\<lambda>_.
     on_error
       (bindIO open_source (\<lambda>_.
        bindIO (pack_loop chunk_size max_size source_total 0 0 new_packer) (\<lambda>(final_size, final_crc, p).
        bindIO check_cancelled (\<lambda>_.
        bindIO (settle_run max_size p) (\<lambda>p.
        bindIO (flush_literals max_size True p) (\<lambda>p.
          ret \<lparr>pp_encoding = PACKBITS,
               pp_final = \<lparr>fd_size = final_size, fd_crc = final_crc\<rparr>,
               pp_wire = \<lparr>fd_size = pk_wire_size p, fd_crc = pk_wire_crc p\<rparr>,
               pp_temporary = True, pp_reason = PackBitsRequested\<rparr>))))))
       unlink_temp))))"


definition pack_outcome ::
  "int \<Rightarrow> bytes \<Rightarrow> packer \<Rightarrow> int \<Rightarrow> int \<Rightarrow> host \<Rightarrow> transfer_error + int \<times> int \<times> packer \<Rightarrow> host \<Rightarrow> bool" where
  "pack_outcome max_size data p sz c h r h' \<longleftrightarrow>
     h_file h' = h_file h \<and> set (h_cancel h') \<subseteq> set (h_cancel h) \<and>
     set (h_writes h') \<subseteq> set (h_writes h) \<and> (h_temp h \<noteq> None \<longrightarrow> h_temp h' \<noteq> None) \<and>
     (case r of
        Inr (sz', c', p') \<Rightarrow>
          sz' = sz + int (length data) \<and> c' = zlib_crc32 data c \<and> sz' \<le> max_size \<and>
          fits max_size p' \<and>
          (case block_packets data (pending_of p) of (ps, st) \<Rightarrow>
             p' = set_pending st (charge (encode_packets ps) p) \<and>
             h_temp h' = map_option (\<lambda>t. t @ encode_packets ps) (h_temp h))
      | Inl e \<Rightarrow> e = OSFailure \<and> short_write h \<or> e = TransferCancelledError \<and> True \<in> set (h_cancel h) \<or>
          e = TransferError \<and> sz + int (length data) > max_size \<or>
          e = PackBitsWireLimit \<and>
            pk_wire_size p + int (length (encode_packets (fst (block_packets data (pending_of p))))) > max_size)"

lemma pack_loop_eq:
  "pack_loop chunk_size max_size source_total sz c p =
     bindIO check_cancelled (\<lambda>_.
     bindIO (read_block (nat (min chunk_size (max_size - sz + 1)))) (\<lambda>block.
       if block = [] then ret (sz, c, p)
       else if int (length block) > max_size - sz then raise TransferError
       else
         bindIO (pack_block max_size 0 block p) (\<lambda>p.
         bindIO (report_progress (sz + int (length block)) (Some source_total)) (\<lambda>_.
           pack_loop chunk_size max_size source_total (sz + int (length block)) (zlib_crc32 block c) p))))"
  by (rule ext, subst pack_loop.simps) (auto simp: Let_def bindIO_def split: prod.splits sum.splits)

lemma pack_outcome_keeps:
  assumes "h_file h1 = h_file h" "set (h_cancel h1) \<subseteq> set (h_cancel h)" "h_temp h1 = h_temp h"
    "set (h_writes h1) \<subseteq> set (h_writes h)"
    "pack_outcome max_size data p sz c h1 r h'"
  shows "pack_outcome max_size data p sz c h r h'"
  using assms short_write_mono [OF assms(4)]
  by (auto simp: pack_outcome_def split: sum.splits prod.splits)

lemma emits_fields:
  "emits max_size p ps st h r h' \<Longrightarrow> h_file h' = h_file h \<and> h_src h' = h_src h \<and>
     set (h_cancel h') \<subseteq> set (h_cancel h) \<and> set (h_writes h') \<subseteq> set (h_writes h) \<and>
     (h_temp h \<noteq> None \<longrightarrow> h_temp h' \<noteq> None)"
  by (auto simp: emits_def stages_def)

lemma pack_outcome_block_error:
  assumes "emits max_size p ps st h (Inl e) h'" "block_packets block (pending_of p) = (ps, st)"
  shows "pack_outcome max_size (block @ rest) p sz c h (Inl e) h'"
  using assms emits_fields [OF assms(1)]
  by (auto simp: pack_outcome_def emits_def block_packets_append split: prod.splits)

lemma pack_outcome_cons:
  assumes e: "emits max_size p ps st h (Inr p1) h1" and b: "block_packets block (pending_of p) = (ps, st)"
    and k: "keeps h1 h2" and rest: "pack_outcome max_size rest p1 (sz + int (length block)) (zlib_crc32 block c) h2 r h'"
  shows "pack_outcome max_size (block @ rest) p sz c h r h'"
proof -
  have p1: "p1 = set_pending st (charge (encode_packets ps) p)" "pending_of p1 = st"
    using e by (simp_all add: emits_Inr)
  have h1: "h_temp h2 = map_option (\<lambda>t. t @ encode_packets ps) (h_temp h)" "h_file h2 = h_file h"
    "set (h_cancel h2) \<subseteq> set (h_cancel h)" "set (h_writes h2) \<subseteq> set (h_writes h)"
    using e k by (auto simp: emits_Inr stages_def keeps_def)
  obtain qs st' where q: "block_packets rest st = (qs, st')" by (metis surj_pair)
  have bp: "block_packets (block @ rest) (pending_of p) = (ps @ qs, st')"
    by (simp add: block_packets_append b q)
  show ?thesis
    using rest h1 short_write_mono [OF h1(4)] unfolding pack_outcome_def bp p1(2) q
    by (cases r)
      (auto simp: p1(1) zlib_crc32_append charge_append option.map_comp comp_def add.assoc)
qed

lemma pack_loop_wp:
  "0 < chunk_size \<Longrightarrow> sz \<le> max_size \<Longrightarrow> fits max_size p \<Longrightarrow> 0 \<le> c \<Longrightarrow> c \<le> UINT32_MAX \<Longrightarrow>
     wp (pack_loop chunk_size max_size source_total sz c p)
       (\<lambda>r h'. pack_outcome max_size (h_src h) p sz c h r h') h"
proof (induction "length (h_src h)" arbitrary: sz c p h rule: less_induct)
  case less
  let ?n = "nat (min chunk_size (max_size - sz + 1))"
  have n: "0 < ?n" using less.prems by simp
  show ?case
    unfolding pack_loop_eq [of _ _ _ sz]
  proof (rule wp_bind [OF wp_check], goal_cases)
    case (1 e h1)
    then show ?case by (auto simp: pack_outcome_def keeps_def)
  next
    case (2 u h1)
    show ?case
    proof (rule wp_bind [OF wp_read [OF n]], goal_cases)
      case (2 block h2)
      then have b: "keeps h h2" "h_src h = block @ h_src h2" "length block \<le> ?n"
        "block = [] \<Longrightarrow> h_src h = []"
        using \<open>keeps h h1 \<and> _\<close> by (auto intro: keeps_trans)
      then have kf: "h_file h2 = h_file h" "set (h_cancel h2) \<subseteq> set (h_cancel h)" "h_temp h2 = h_temp h"
        "set (h_writes h2) \<subseteq> set (h_writes h)"
        by (auto simp: keeps_def)
      show ?case
      proof (cases "block = []")
        case True
        with b kf less.prems show ?thesis
          by (auto simp: pack_outcome_def zlib_crc32_Nil charge_nil fits_def option.map_ident)
      next
        case ne: False
        show ?thesis
        proof (cases "int (length block) > max_size - sz")
          case True
          with ne b kf show ?thesis by (auto simp: pack_outcome_def)
        next
          case False
          obtain ps st where bp: "block_packets block (pending_of p) = (ps, st)" by (metis surj_pair)
          show ?thesis
            unfolding if_not_P [OF ne] if_not_P [OF False] b(2)
          proof (rule pack_outcome_keeps [OF kf, THEN wp_mono [rotated]], assumption,
              rule wp_bind [OF pack_block_wp [OF less.prems(3) bp]], goal_cases)
            case (1 e h3)
            then show ?case by (rule pack_outcome_block_error [OF _ bp])
          next
            case (2 p1 h3)
            note e = this
            show ?case
            proof (rule wp_bind [OF wp_report], goal_cases)
              case (2 v h4)
              then have k: "keeps h3 h4" "h_src h4 = h_src h2" using emits_fields [OF e] by auto
              have "length (h_src h4) < length (h_src h)" using k(2) b(2) ne by simp
              then show ?case
                by (rule wp_mono [OF less.hyps])
                  (use less.prems False emits_fits [OF e] k in
                    \<open>simp_all add: pack_outcome_cons [OF e bp k(1)]\<close>)
            qed simp
          qed
        qed
      qed
    qed simp
  qed
qed

definition packbits_of :: "bytes \<Rightarrow> bytes" where
  "packbits_of data = encode_packets (packets_of data)"

definition staging_outcome :: "int \<Rightarrow> host \<Rightarrow> transfer_error + prepared_payload \<Rightarrow> host \<Rightarrow> bool" where
  "staging_outcome max_size h r h' \<longleftrightarrow>
     h_file h' = h_file h \<and> set (h_cancel h') \<subseteq> set (h_cancel h) \<and>
     set (h_writes h') \<subseteq> set (h_writes h) \<and>
     (case r of
        Inr pp \<Rightarrow>
          pp = \<lparr>pp_encoding = PACKBITS,
            pp_final = \<lparr>fd_size = int (length (h_file h)), fd_crc = zlib_crc32 (h_file h) 0\<rparr>,
            pp_wire = \<lparr>fd_size = int (length (packbits_of (h_file h))),
              fd_crc = zlib_crc32 (packbits_of (h_file h)) 0\<rparr>,
            pp_temporary = True, pp_reason = PackBitsRequested\<rparr> \<and>
          h_temp h' = Some (packbits_of (h_file h)) \<and>
          int (length (h_file h)) \<le> max_size \<and> int (length (packbits_of (h_file h))) \<le> max_size
      | Inl e \<Rightarrow>
          (h_temp h' = None \<or> e = TransferCancelledError \<and> (\<exists>cs. h_cancel h = True # cs)) \<and>
          (e = OSFailure \<and> short_write h \<or> e = TransferCancelledError \<and> True \<in> set (h_cancel h) \<or>
           e = TransferError \<and> int (length (h_file h)) > max_size \<or>
           e = PackBitsWireLimit \<and> int (length (packbits_of (h_file h))) > max_size))"

lemma packets_of_split:
  "block_packets data (pending_of new_packer) = (ps, (lit, rb, n)) \<Longrightarrow>
   settle_packets lit rb n = (qs, lit') \<Longrightarrow> flush_packets True lit' = (rs, l) \<Longrightarrow>
     packets_of data = ps @ qs @ rs"
  by (simp add: packets_of_def packets_from_def last_packets_def pending_of_def new_packer_def)

lemma new_packer_facts: "wf_packer new_packer" "pk_wire_size new_packer = 0" "pk_wire_crc new_packer = 0"
  by (simp_all add: new_packer_def wf_packer_def UINT32_MAX_def)

lemma wire_crc_simps:
  "pk_wire_crc (set_pending st p) = pk_wire_crc p"
  "pk_wire_crc (charge out p) = zlib_crc32 out (pk_wire_crc p)"
  by (auto simp: set_pending_def charge_def split: prod.splits)

text \<open>The body of the \<open>try\<close>.\<close>

definition pack_body :: "int \<Rightarrow> int \<Rightarrow> int \<Rightarrow> prepared_payload io" where
  "pack_body chunk_size max_size source_total =
       bindIO open_source (\<lambda>_.
        bindIO (pack_loop chunk_size max_size source_total 0 0 new_packer) (\<lambda>(final_size, final_crc, p).
        bindIO check_cancelled (\<lambda>_.
        bindIO (settle_run max_size p) (\<lambda>p.
        bindIO (flush_literals max_size True p) (\<lambda>p.
          ret \<lparr>pp_encoding = PACKBITS,
               pp_final = \<lparr>fd_size = final_size, fd_crc = final_crc\<rparr>,
               pp_wire = \<lparr>fd_size = pk_wire_size p, fd_crc = pk_wire_crc p\<rparr>,
               pp_temporary = True, pp_reason = PackBitsRequested\<rparr>)))))"

definition body_outcome :: "int \<Rightarrow> host \<Rightarrow> transfer_error + prepared_payload \<Rightarrow> host \<Rightarrow> bool" where
  "body_outcome max_size h r h' \<longleftrightarrow> staging_outcome max_size h r
     (case r of Inl _ \<Rightarrow> unlink_temp h' | Inr _ \<Rightarrow> h')"

lemma emits_error_outcome:
  assumes "emits max_size p ps st h1 (Inl e) h2" "h_file h1 = h_file h" "set (h_cancel h1) \<subseteq> set (h_cancel h)"
    and w: "set (h_writes h1) \<subseteq> set (h_writes h)" and "packets_of (h_file h) = before @ ps @ after" "pk_wire_size p = int (length (encode_packets before))"
  shows "body_outcome max_size h (Inl e) h2"
  using assms emits_fields [OF assms(1)] short_write_mono [OF w]
  by (auto simp: body_outcome_def staging_outcome_def unlink_temp_def emits_def packbits_of_def)

lemma pack_body_wp:
  assumes "0 < chunk_size" "0 \<le> max_size" "h_temp h = Some []"
  shows "wp (pack_body chunk_size max_size source_total) (body_outcome max_size h) h"
  unfolding pack_body_def
proof (rule wp_bind [OF wp_open], goal_cases)
  case (2 u h1)
  then have h1: "h_src h1 = h_file h" "h_file h1 = h_file h" "set (h_cancel h1) \<subseteq> set (h_cancel h)"
    "set (h_writes h1) \<subseteq> set (h_writes h)" "h_temp h1 = Some []" using assms by (auto simp: keeps_def)
  have fits: "fits max_size new_packer" using assms by (simp add: fits_def new_packer_facts)
  obtain ps lit rb n where bp: "block_packets (h_file h) (pending_of new_packer) = (ps, (lit, rb, n))"
    by (metis surj_pair)
  obtain qs lit' where sp: "settle_packets lit rb n = (qs, lit')" by (metis surj_pair)
  obtain rs l where fp: "flush_packets True lit' = (rs, l)" by (metis surj_pair)
  note total = packets_of_split [OF bp sp fp]
  have loop: "wp (pack_loop chunk_size max_size source_total 0 0 new_packer)
     (\<lambda>r h'. pack_outcome max_size (h_file h) new_packer 0 0 h1 r h') h1"
    using pack_loop_wp [of chunk_size 0 max_size new_packer 0 source_total h1] assms fits h1
    by (simp add: UINT32_MAX_def)
  show ?case
  proof (rule wp_bind [OF loop], goal_cases)
    case (1 e h2)
    then show ?case using h1 short_write_mono [OF h1(4)]
      by (auto simp: pack_outcome_def body_outcome_def staging_outcome_def unlink_temp_def
          packbits_of_def total bp new_packer_facts)
  next
    case (2 x h2)
    obtain p where x: "x = (int (length (h_file h)), zlib_crc32 (h_file h) 0, p)"
      and p: "p = set_pending (lit, rb, n) (charge (encode_packets ps) new_packer)" "fits max_size p"
      and h2: "h_file h2 = h_file h" "set (h_cancel h2) \<subseteq> set (h_cancel h)"
        "set (h_writes h2) \<subseteq> set (h_writes h)"
        "h_temp h2 = Some (encode_packets ps)" "int (length (h_file h)) \<le> max_size"
      using 2 h1 bp by (cases x) (auto simp: pack_outcome_def)
    show ?case
      unfolding x prod.case
    proof (rule wp_bind [OF wp_check], goal_cases)
      case (1 e h3)
      then show ?case using h2
        by (auto simp: body_outcome_def staging_outcome_def unlink_temp_def keeps_def)
    next
      case (2 v h3)
      then have h3: "h_file h3 = h_file h" "set (h_cancel h3) \<subseteq> set (h_cancel h)"
        "set (h_writes h3) \<subseteq> set (h_writes h)"
        "h_temp h3 = Some (encode_packets ps)" using h2 by (auto simp: keeps_def)
      have sp': "settle_packets (pk_literal p) (pk_run_byte p) (pk_run_length p) = (qs, lit')"
        using sp by (simp add: p)
      show ?case
      proof (rule wp_bind [OF settle_run_wp [OF p(2) sp']], goal_cases)
        case (1 e h4)
        then show ?case
          by (rule emits_error_outcome [OF _ h3(1-3) total]) (simp add: p new_packer_facts)
      next
        case (2 p1 h4)
        note e1 = this and f1 = emits_fits [OF 2] emits_fields [OF 2]
        have h4: "h_file h4 = h_file h" "set (h_cancel h4) \<subseteq> set (h_cancel h)"
          "set (h_writes h4) \<subseteq> set (h_writes h)"
          "h_temp h4 = Some (encode_packets ps @ encode_packets qs)"
          using e1 h3 by (auto simp: emits_Inr stages_def)
        have fp': "flush_packets True (pk_literal p1) = (rs, l)"
          using f1 fp by (simp add: pending_of_def)
        show ?case
        proof (rule wp_bind [OF flush_wp [OF conjunct1 [OF f1(1)] fp']], goal_cases)
          case (1 e h5)
          then show ?case
            by (rule emits_error_outcome [OF _ h4(1-3), where before = "ps @ qs" and after = "[]"])
              (use e1 in \<open>simp_all add: total p emits_Inr new_packer_facts\<close>)
        next
          case (2 p2 h5)
          have pb: "packbits_of (h_file h) = encode_packets ps @ encode_packets qs @ encode_packets rs"
            by (simp add: packbits_of_def total)
          have "pk_wire_size p2 = int (length (packbits_of (h_file h)))"
            "int (length (packbits_of (h_file h))) \<le> max_size"
            using e1 2 by (simp_all add: emits_Inr p pb new_packer_facts)
          moreover have "pk_wire_crc p2 = zlib_crc32 (packbits_of (h_file h)) 0"
            using e1 2 by (simp add: emits_Inr p pb new_packer_facts zlib_crc32_append wire_crc_simps)
          moreover have "h_temp h5 = Some (packbits_of (h_file h))" "h_file h5 = h_file h"
            "set (h_cancel h5) \<subseteq> set (h_cancel h)" "set (h_writes h5) \<subseteq> set (h_writes h)"
            using 2 h4 by (auto simp: emits_Inr stages_def pb)
          ultimately show ?case
            using h2(5) by (simp add: body_outcome_def staging_outcome_def)
        qed
      qed
    qed
  qed
qed simp

lemma deterministic_packbits_body:
  "deterministic_packbits chunk_size max_size =
     bindIO make_temp (\<lambda>_. bindIO stat_size (\<lambda>source_total. bindIO check_cancelled (\<lambda>_.
     bindIO (report_progress 0 (Some source_total)) (\<lambda>_.
     on_error (pack_body chunk_size max_size source_total) unlink_temp))))"
  by (simp add: deterministic_packbits_def pack_body_def)


lemma check_cancelled_first:
  "wp check_cancelled (\<lambda>r h'. keeps h h' \<and>
     (r = Inr () \<or> r = Inl TransferCancelledError \<and> (\<exists>cs. h_cancel h = True # cs))) h"
  by (rule wpI) (auto simp: check_cancelled_def keeps_def split: list.splits if_splits)

lemma wp_stat_cancel: "wp stat_size (\<lambda>r h'. is_ok r \<and> keeps h h' \<and> h_cancel h' = h_cancel h) h"
  by (rule wpI)
    (auto simp: stat_size_def stat_source_def bindIO_def keeps_def split: list.splits prod.splits)

lemma wp_make_temp: "wp make_temp (\<lambda>r h'. r = Inr () \<and> h' = h\<lparr>h_temp := Some []\<rparr>) h"
  by (rule wpI) (simp add: make_temp_def)

lemma staging_outcome_mono:
  "staging_outcome max_size h1 r h' \<Longrightarrow> h_file h1 = h_file h \<Longrightarrow> set (h_cancel h1) \<subseteq> set (h_cancel h) \<Longrightarrow>
   set (h_writes h1) \<subseteq> set (h_writes h) \<Longrightarrow> (\<And>e. r = Inl e \<Longrightarrow> h_temp h' = None) \<Longrightarrow> staging_outcome max_size h r h'"
  by (auto simp: staging_outcome_def split: sum.splits dest: short_write_mono)

lemma deterministic_packbits_wp:
  assumes "0 < chunk_size" "0 \<le> max_size"
  shows "wp (deterministic_packbits chunk_size max_size) (staging_outcome max_size h) h"
  unfolding deterministic_packbits_body
proof (rule wp_bind [OF wp_make_temp], goal_cases)
  case (2 u h1)
  then have h1: "h_file h1 = h_file h" "h_cancel h1 = h_cancel h" "h_temp h1 = Some []"
    "h_writes h1 = h_writes h" by simp_all
  show ?case
  proof (rule wp_bind [OF wp_stat_cancel], goal_cases)
    case (2 n h2)
    then have h2: "h_file h2 = h_file h" "h_cancel h2 = h_cancel h" "h_temp h2 = Some []"
      "h_writes h2 = h_writes h"
      using h1 by (auto simp: keeps_def)
    show ?case
    proof (rule wp_bind [OF check_cancelled_first], goal_cases)
      case (1 e h3)
      with h2 show ?case by (auto simp: staging_outcome_def keeps_def)
    next
      case (2 v h3)
      then have h3: "h_file h3 = h_file h" "set (h_cancel h3) \<subseteq> set (h_cancel h)" "h_temp h3 = Some []"
        "h_writes h3 = h_writes h"
        using h2 by (auto simp: keeps_def)
      show ?case
      proof (rule wp_bind [OF wp_report], goal_cases)
        case (2 w h4)
        then have h4: "h_file h4 = h_file h" "set (h_cancel h4) \<subseteq> set (h_cancel h)" "h_temp h4 = Some []"
          "h_writes h4 = h_writes h"
          using h3 by (auto simp: keeps_def)
        show ?case
          by (rule wp_on_error [OF pack_body_wp [OF assms h4(3)]])
            (auto simp: body_outcome_def unlink_temp_def intro: staging_outcome_mono [OF _ h4(1,2)] simp: h4(4))
      qed simp
    qed
  qed auto
qed simp

subsection \<open>The format\<close>

text \<open>The decoder of the format, as the target runs it; 80h is reserved.\<close>

function unpackbits :: "bytes \<Rightarrow> bytes option" where
  "unpackbits [] = Some []"
| "unpackbits (c # rest) =
     (if c < 128 then
        let n = unat c + 1
        in if length rest < n then None
           else map_option (\<lambda>out. take n rest @ out) (unpackbits (drop n rest))
      else if c = 128 then None
      else case rest of
             [] \<Rightarrow> None
           | b # rest' \<Rightarrow> map_option (\<lambda>out. replicate (257 - unat c) b @ out) (unpackbits rest'))"
  by pat_completeness auto
termination
  by (relation "measure length") auto

lemma unpack_packet:
  assumes "canonical q"
  shows "unpackbits (encode_packet q @ rest) = map_option (\<lambda>out. packet_data q @ out) (unpackbits rest)"
proof (cases q)
  case (Lit bs)
  then have bs: "1 \<le> length bs" "length bs \<le> 128" using assms by auto
  define k where "k = length bs - 1"
  have k: "length bs = k + 1" "k < 128" using bs by (simp_all add: k_def)
  have u: "unat (of_nat k :: byte) = k" using k by (simp add: unat_of_nat)
  then have "(of_nat k :: byte) < 128" using k by (simp add: word_less_nat_alt)
  then show ?thesis using Lit k u by (simp flip: k_def)
next
  case (Run n b)
  then have n: "3 \<le> n" "n \<le> 128" using assms by auto
  define m where "m = 257 - n"
  have m: "129 \<le> m" "m < 256" "257 - m = n" using n by (simp_all add: m_def)
  have u: "unat (of_nat m :: byte) = m" using m by (simp add: unat_of_nat)
  have "\<not> (of_nat m :: byte) < 128" "(of_nat m :: byte) \<noteq> 128"
    unfolding word_less_nat_alt word_unat_eq_iff u using m by simp_all
  with u m Run show ?thesis by (simp flip: m_def)
qed

lemma unpack_packets:
  "list_all canonical ps \<Longrightarrow> unpackbits (encode_packets ps) = Some (packets_data ps)"
  by (induction ps) (simp_all add: unpack_packet)

fun pending_data :: "pending \<Rightarrow> bytes" where
  "pending_data (lit, rb, n) = lit @ replicate n (the rb)"

fun wf_pending :: "pending \<Rightarrow> bool" where
  "wf_pending (lit, rb, n) \<longleftrightarrow> length lit < 128 \<and> n \<le> 128"

text \<open>The wire bytes of these packets exceed neither 129/128 of the data nor, for runs, the data.\<close>

definition dense :: "packet list \<Rightarrow> bool" where
  "dense ps \<longleftrightarrow> 128 * length (encode_packets ps) \<le> 129 * length (packets_data ps)"

lemma dense_append: "dense ps \<Longrightarrow> dense qs \<Longrightarrow> dense (ps @ qs)"
  by (simp add: dense_def)

lemma flush_packets_spec:
  "flush_packets final lit = (ps, lit') \<Longrightarrow>
     packets_data ps @ lit' = lit \<and> list_all canonical ps \<and> length lit' < 128 \<and>
     (final \<longrightarrow> lit' = []) \<and> (\<not> final \<longrightarrow> dense ps) \<and>
     128 * length (encode_packets ps) \<le> 129 * length (packets_data ps) + 128 \<and>
     (length lit < 128 \<longrightarrow> final \<longrightarrow> length (encode_packets ps) \<le> length lit + 1)"
proof (induction final lit arbitrary: ps lit' rule: flush_packets.induct)
  case (1 final lit)
  show ?case
  proof (cases "length lit \<ge> 128 \<or> final \<and> lit \<noteq> []")
    case False
    with "1.prems" have "ps = []" "lit' = lit" by (simp_all add: flush_packets.simps)
    with False show ?thesis by (auto simp: dense_def)
  next
    case True
    obtain qs l where q: "flush_packets final (drop 128 lit) = (qs, l)" by (metis surj_pair)
    with "1.prems" True have ps: "ps = Lit (take 128 lit) # qs" "lit' = l"
      by (simp_all add: flush_packets.simps [of final lit])
    note IH = "1.IH" [OF True q]
    have can: "canonical (Lit (take 128 lit))" using True by (auto simp: Suc_le_eq)
    show ?thesis
    proof (cases "length lit \<ge> 128")
      case True
      with IH can show ?thesis by (auto simp: ps dense_def)
    next
      case False
      with True have "final" "lit \<noteq> []" "drop 128 lit = []" by auto
      with q have "qs = []" "l = []" by (simp_all add: flush_packets.simps)
      with False can \<open>final\<close> show ?thesis by (simp add: ps)
    qed
  qed
qed

lemma settle_packets_spec:
  assumes "settle_packets lit rb n = (ps, lit')" "wf_pending (lit, rb, n)"
  shows "packets_data ps @ lit' = pending_data (lit, rb, n) \<and> list_all canonical ps \<and>
    length lit' < 128 \<and> dense ps"
proof -
  consider "n \<ge> 3" | "n < 3" "n > 0" | "n = 0" by linarith
  then show ?thesis
  proof cases
    case 1
    obtain qs l where q: "flush_packets True lit = (qs, l)" by (metis surj_pair)
    with assms 1 flush_packets_spec [OF q] show ?thesis
      by (auto simp: settle_packets_def dense_def)
  next
    case 2
    then have f: "flush_packets False (lit @ replicate n (the rb)) = (ps, lit')"
      using assms(1) by (simp add: settle_packets_def)
    with flush_packets_spec [OF f] show ?thesis by simp
  next
    case 3
    with assms show ?thesis by (auto simp: settle_packets_def dense_def)
  qed
qed

lemma step_packets_spec:
  assumes "step_packets v st = (ps, st')" "wf_pending st"
  shows "packets_data ps @ pending_data st' = pending_data st @ [v] \<and> list_all canonical ps \<and>
    wf_pending st' \<and> dense ps"
proof -
  obtain lit rb n where st: "st = (lit, rb, n)" by (metis surj_pair)
  show ?thesis
  proof (cases "n > 0 \<and> rb = Some v \<and> n \<noteq> 128")
    case True
    with assms st show ?thesis
      by (auto simp: step_packets_def dense_def replicate_append_same)
  next
    case False
    obtain qs l where s: "settle_packets lit rb n = (qs, l)" by (metis surj_pair)
    with assms False st have "ps = qs" "st' = (l, Some v, 1)"
      by (auto simp: step_packets_def)
    with settle_packets_spec [OF s] assms(2) st show ?thesis by simp
  qed
qed

lemma block_packets_spec:
  "block_packets bs st = (ps, st') \<Longrightarrow> wf_pending st \<Longrightarrow>
     packets_data ps @ pending_data st' = pending_data st @ bs \<and> list_all canonical ps \<and>
     wf_pending st' \<and> dense ps"
proof (induction bs arbitrary: st ps)
  case Nil
  then show ?case by (simp add: dense_def)
next
  case (Cons v vs)
  obtain ps1 st1 where s: "step_packets v st = (ps1, st1)" by (metis surj_pair)
  obtain ps2 where b: "block_packets vs st1 = (ps2, st')" "ps = ps1 @ ps2"
    using Cons.prems(1) s by (auto simp: Let_def split: prod.splits)
  note S = step_packets_spec [OF s Cons.prems(2)]
  note B = Cons.IH [OF b(1)]
  have "packets_data ps @ pending_data st' = packets_data ps1 @ pending_data st1 @ vs"
    using B S b(2) by simp
  also have "\<dots> = pending_data st @ v # vs" using S by (metis append.assoc append_Cons append_Nil)
  finally show ?case using S B b(2) by (simp add: dense_append)
qed

lemma packets_of_spec:
  "packets_data (packets_of data) = data \<and> list_all canonical (packets_of data) \<and>
   128 * length (encode_packets (packets_of data)) \<le> 129 * length data + 128"
proof -
  obtain ps st where b: "block_packets data ([], None, 0) = (ps, st)" by (metis surj_pair)
  note B = block_packets_spec [OF b]
  obtain lit rb n where st: "st = (lit, rb, n)" by (metis surj_pair)
  obtain qs lit' where s: "settle_packets lit rb n = (qs, lit')" by (metis surj_pair)
  obtain rs l where f: "flush_packets True lit' = (rs, l)" by (metis surj_pair)
  have S: "packets_data qs @ lit' = pending_data st \<and> list_all canonical qs \<and> length lit' < 128 \<and> dense qs"
    using settle_packets_spec [OF s] B st by simp
  note F = flush_packets_spec [OF f]
  have p: "packets_of data = ps @ qs @ rs"
    using b st s f by (simp add: packets_of_def packets_from_def last_packets_def)
  have d: "packets_data ps @ packets_data qs @ packets_data rs = data"
    using B S F by (metis append_Nil append_Nil2 pending_data.simps replicate_0 wf_pending.simps zero_le list.size(3) zero_less_numeral)
  have "128 * length (encode_packets ps) \<le> 129 * length (packets_data ps)"
    "128 * length (encode_packets qs) \<le> 129 * length (packets_data qs)"
    "128 * length (encode_packets rs) \<le> 129 * length (packets_data rs) + 128"
    using B S F by (simp_all add: dense_def)
  moreover have "length data = length (packets_data ps) + length (packets_data qs) + length (packets_data rs)"
    using arg_cong [OF d, of length] by simp
  ultimately show ?thesis using B S F d unfolding p by simp
qed

lemma unpack_packbits_of: "unpackbits (packbits_of data) = Some data"
  using packets_of_spec [of data] by (simp add: packbits_of_def unpack_packets)

lemma packbits_of_bound: "length (packbits_of data) \<le> length data + length data div 128 + 1"
  using packets_of_spec [of data] by (simp add: packbits_of_def) linarith

subsection \<open>Properties\<close>

text \<open>
  C17: Lossless staging. When the encoder returns, the staging file holds a stream of canonical
  packets that the format's decoder turns back into the source file, at most one byte per 128
  plus one longer, and the two digests of the result are those of the source and of the staging
  file.
\<close>

theorem packbits_roundtrip:
  assumes "deterministic_packbits chunk_size max_size h = (Inr pp, h')"
    and "0 < chunk_size" "0 \<le> max_size"
  shows "\<exists>ps. h_temp h' = Some (encode_packets ps) \<and> list_all canonical ps \<and>
    unpackbits (encode_packets ps) = Some (h_file h) \<and>
    length (encode_packets ps) \<le> length (h_file h) + length (h_file h) div 128 + 1 \<and>
    pp_final pp = \<lparr>fd_size = int (length (h_file h)), fd_crc = zlib_crc32 (h_file h) 0\<rparr> \<and>
    pp_wire pp = \<lparr>fd_size = int (length (encode_packets ps)),
      fd_crc = zlib_crc32 (encode_packets ps) 0\<rparr> \<and>
    fd_size (pp_wire pp) \<le> max_size"
  using wpD [OF deterministic_packbits_wp [OF assms(2,3)] assms(1)] packets_of_spec [of "h_file h"]
    unpack_packbits_of [of "h_file h"] packbits_of_bound [of "h_file h"]
  by (auto simp: staging_outcome_def packbits_of_def)

text \<open>
  The encoder fails only for a reason. Without cancellation, without a failing write and with a
  source and a staged stream within the limit it returns, whatever the block sizes; and the result
  depends only on the file: two such runs, with any chunk sizes, reads and writes, stage the same
  bytes and return the same payload.
\<close>

lemma deterministic_packbits_total:
  assumes "0 < chunk_size" "0 \<le> max_size" "True \<notin> set (h_cancel h)" "\<not> short_write h"
    and "int (length (h_file h)) \<le> max_size" "int (length (packbits_of (h_file h))) \<le> max_size"
  shows "\<exists>h'. deterministic_packbits chunk_size max_size h =
    (Inr \<lparr>pp_encoding = PACKBITS,
       pp_final = \<lparr>fd_size = int (length (h_file h)), fd_crc = zlib_crc32 (h_file h) 0\<rparr>,
       pp_wire = \<lparr>fd_size = int (length (packbits_of (h_file h))),
         fd_crc = zlib_crc32 (packbits_of (h_file h)) 0\<rparr>,
       pp_temporary = True, pp_reason = PackBitsRequested\<rparr>, h') \<and>
    h_temp h' = Some (packbits_of (h_file h))"
proof -
  obtain r h' where run: "deterministic_packbits chunk_size max_size h = (r, h')" by force
  from wpD [OF deterministic_packbits_wp [OF assms(1,2)] run] assms(3-) show ?thesis
    by (cases r) (auto simp: staging_outcome_def run)
qed

theorem packbits_deterministic:
  assumes "h_file h = h_file g" "0 < n" "0 < m"
    and "True \<notin> set (h_cancel h)" "\<not> short_write h" "True \<notin> set (h_cancel g)" "\<not> short_write g"
    and "int (length (h_file h)) + int (length (h_file h) div 128) + 1 \<le> max_size"
  shows "\<exists>pp h' g'. deterministic_packbits n max_size h = (Inr pp, h') \<and>
    deterministic_packbits m max_size g = (Inr pp, g') \<and> h_temp h' = h_temp g' \<and>
    h_temp h' \<noteq> None"
proof -
  have "int (length (packbits_of (h_file h))) \<le> max_size"
    using packbits_of_bound [of "h_file h"] assms(8) by linarith
  with deterministic_packbits_total [of n max_size h] deterministic_packbits_total [of m max_size g]
    assms show ?thesis by fastforce
qed

theorem packbits_roundtrip_witness:
  "\<exists>pp h' ps. deterministic_packbits 2 100 (sample_host [7, 7, 7, 7, 1]) = (Inr pp, h') \<and>
    h_temp h' = Some (encode_packets ps) \<and> unpackbits (encode_packets ps) = Some [7, 7, 7, 7, 1]"
proof -
  have "length (packbits_of [7, 7, 7, 7, 1]) \<le> 6"
    using packbits_of_bound [of "[7, 7, 7, 7, 1]"] by simp
  then obtain pp h' where run: "deterministic_packbits 2 100 (sample_host [7, 7, 7, 7, 1]) = (Inr pp, h')"
    using deterministic_packbits_total [of 2 100 "sample_host [7, 7, 7, 7, 1]"]
    by (auto simp: sample_host_def short_write_def)
  from packbits_roundtrip [OF run] obtain ps where "h_temp h' = Some (encode_packets ps)"
    "unpackbits (encode_packets ps) = Some [7, 7, 7, 7, 1]" by (auto simp: sample_host_def)
  with run show ?thesis by blast
qed

lemma first_poll_cancels:
  assumes "h_cancel h = True # cs"
  shows "wp (deterministic_packbits chunk_size max_size)
    (\<lambda>r h'. r = Inl TransferCancelledError \<and> h_temp h' = Some []) h"
  unfolding deterministic_packbits_def
proof (rule wp_bind [OF wp_make_temp], goal_cases)
  case (2 u h1)
  show ?case
  proof (rule wp_bind [OF wp_stat_cancel], goal_cases)
    case (2 n h2)
    with \<open>Inr u = Inr () \<and> h1 = _\<close> assms have "h_cancel h2 = True # cs" "h_temp h2 = Some []"
      by (auto simp: keeps_def)
    then show ?case by (simp add: wp_def bindIO_def check_cancelled_def)
  qed simp
qed simp

text \<open>
  Failure leaves nothing behind, with one exception. If the encoder raises, the staging file is
  gone, the source untouched and the exception is a cancellation, a failed write, an over-long
  source or a staged stream over the limit; only a cancellation at the very first poll, before the
  guarded block is entered, leaves the empty staging file.
\<close>

theorem packbits_failure:
  assumes "deterministic_packbits chunk_size max_size h = (Inl e, h')"
    and "0 < chunk_size" "0 \<le> max_size"
  shows "h_file h' = h_file h \<and>
    h_temp h' = (if e = TransferCancelledError \<and> h_temp h' \<noteq> None then Some [] else None) \<and>
    (h_temp h' \<noteq> None \<longrightarrow> (\<exists>cs. h_cancel h = True # cs)) \<and>
    (e = OSFailure \<and> short_write h \<or> e = TransferCancelledError \<and> True \<in> set (h_cancel h) \<or>
     e = TransferError \<and> int (length (h_file h)) > max_size \<or>
     e = PackBitsWireLimit \<and> int (length (packbits_of (h_file h))) > max_size)"
proof -
  have first: "h_temp h' = Some []" if "h_cancel h = True # cs" for cs
    using wpD [OF first_poll_cancels [OF that] assms(1)] by simp
  with wpD [OF deterministic_packbits_wp [OF assms(2,3)] assms(1)] show ?thesis
    by (auto simp: staging_outcome_def)
qed

lemma packbits_failure_example:
  "\<exists>h'. deterministic_packbits 1 100 (sample_host [7]\<lparr>h_cancel := [True]\<rparr>) =
      (Inl TransferCancelledError, h') \<and> h_temp h' = Some []"
proof -
  obtain r h' where r: "deterministic_packbits 1 100 (sample_host [7]\<lparr>h_cancel := [True]\<rparr>) = (r, h')"
    by force
  from wpD [OF first_poll_cancels [of "sample_host [7]\<lparr>h_cancel := [True]\<rparr>" "[]"] r] r
  have run: "deterministic_packbits 1 100 (sample_host [7]\<lparr>h_cancel := [True]\<rparr>) =
      (Inl TransferCancelledError, h')" and left: "h_temp h' \<noteq> None" by auto
  from packbits_failure [OF run] left show ?thesis by (auto simp: run)
qed

end
