(* ===== verification/Basic_Text.thy ===== *)
theory Basic_Text
  imports PackBits
begin

text \<open>
  The MSX BASIC listing normaliser of \<open>server/msx_transfer.py\<close>
  (\<open>_normalize_msx_basic_stream\<close>, \<open>normalize_msx_basic_text\<close>) and \<open>prepare_msx_basic_source\<close>.
  The byte loop is translated with its output positions: a row that turns out to hold no program
  line is taken back by truncating the output to the start of the row. The specification reads a
  listing line by line.
\<close>

subsection \<open>The byte loop\<close>

record normalizer =
  nz_line_start :: nat
  nz_numbered :: bool
  nz_saw :: bool
  nz_cr :: bool
  nz_eof :: bool
  nz_pending :: bytes

definition new_normalizer :: normalizer where
  "new_normalizer = \<lparr>nz_line_start = 0, nz_numbered = False, nz_saw = False, nz_cr = False,
     nz_eof = False, nz_pending = []\<rparr>"

text \<open>\<open>output.tell()\<close> at the end of the file, and \<open>output.seek(n); output.truncate()\<close>.\<close>

definition tell_temp :: "nat io" where
  "tell_temp h = (Inr (case h_temp h of None \<Rightarrow> 0 | Some out \<Rightarrow> length out), h)"

definition truncate_temp :: "nat \<Rightarrow> unit io" where
  "truncate_temp n h = (Inr (), h\<lparr>h_temp := map_option (take n) (h_temp h)\<rparr>)"

definition flush_pending :: "normalizer \<Rightarrow> normalizer io" where
  "flush_pending nz =
     (if nz_pending nz \<noteq> [] then
        bindIO (write_exact (nz_pending nz)) (\<lambda>_. ret (nz\<lparr>nz_pending := []\<rparr>))
      else ret nz)"

definition finish_line :: "normalizer \<Rightarrow> normalizer io" where
  "finish_line nz =
     bindIO
       (if nz_numbered nz then
          bindIO (flush_pending nz) (\<lambda>nz.
          bindIO (write_exact [0x0D, 0x0A]) (\<lambda>_. ret (nz\<lparr>nz_saw := True\<rparr>)))
        else bindIO (truncate_temp (nz_line_start nz)) (\<lambda>_. ret nz))
       (\<lambda>nz. bindIO tell_temp (\<lambda>n. ret (nz\<lparr>nz_line_start := n, nz_numbered := False\<rparr>)))"

definition add_text :: "int \<Rightarrow> byte \<Rightarrow> normalizer \<Rightarrow> normalizer io" where
  "add_text chunk_size v nz =
     (let nz = nz\<lparr>nz_pending := nz_pending nz @ [v]\<rparr>
      in if int (length (nz_pending nz)) \<ge> chunk_size then flush_pending nz else ret nz)"

definition normalize_char :: "int \<Rightarrow> byte \<Rightarrow> normalizer \<Rightarrow> normalizer io" where
  "normalize_char chunk_size v nz =
     (if v = 0x1A then bindIO (finish_line nz) (\<lambda>nz. ret (nz\<lparr>nz_eof := True\<rparr>))
      else if v = 0x0D then ret (nz\<lparr>nz_cr := True\<rparr>)
      else if v = 0x0A then finish_line nz
      else if v < 0x20 \<and> v \<noteq> 0x09 then raise TransferError
      else if \<not> nz_numbered nz then
        if v = 0x09 \<or> v = 0x20 then bindIO (write_exact [v]) (\<lambda>_. ret nz)
        else if \<not> (0x30 \<le> v \<and> v \<le> 0x39) then raise TransferError
        else add_text chunk_size v (nz\<lparr>nz_numbered := True\<rparr>)
      else add_text chunk_size v nz)"

definition normalize_byte :: "int \<Rightarrow> byte \<Rightarrow> normalizer \<Rightarrow> normalizer io" where
  "normalize_byte chunk_size v nz =
     (if nz_eof nz then if v \<noteq> 0x1A then raise TransferError else ret nz
      else if nz_cr nz then
        bindIO (finish_line nz) (\<lambda>nz.
          let nz = nz\<lparr>nz_cr := False\<rparr>
          in if v = 0x0A then ret nz else normalize_char chunk_size v nz)
      else normalize_char chunk_size v nz)"

fun normalize_block :: "int \<Rightarrow> nat \<Rightarrow> bytes \<Rightarrow> normalizer \<Rightarrow> normalizer io" where
  "normalize_block chunk_size index [] nz = ret nz"
| "normalize_block chunk_size index (v # vs) nz =
     bindIO (if index mod 4096 = 0 then check_cancelled else ret ()) (\<lambda>_.
     bindIO (normalize_byte chunk_size v nz) (\<lambda>nz.
       normalize_block chunk_size (index + 1) vs nz))"

subsection \<open>Edits of the staging file\<close>

text \<open>\<open>edits h h'\<close>: only the staging file, the writes and the polls may differ.\<close>

definition edits :: "host \<Rightarrow> host \<Rightarrow> bool" where
  "edits h h' \<longleftrightarrow> h_file h' = h_file h \<and> h_src h' = h_src h \<and> h_stats h' = h_stats h \<and>
     set (h_cancel h') \<subseteq> set (h_cancel h) \<and> set (h_writes h') \<subseteq> set (h_writes h) \<and>
     (h_temp h \<noteq> None \<longrightarrow> h_temp h' \<noteq> None)"

lemma edits_refl [simp]: "edits h h"
  by (simp add: edits_def)

lemma edits_trans: "edits h1 h2 \<Longrightarrow> edits h2 h3 \<Longrightarrow> edits h1 h3"
  by (auto simp: edits_def)

lemma edits_short: "edits h h' \<Longrightarrow> short_write h' \<Longrightarrow> short_write h"
  by (auto simp: edits_def intro: short_write_mono)

lemma edits_cancel: "edits h h' \<Longrightarrow> True \<in> set (h_cancel h') \<Longrightarrow> True \<in> set (h_cancel h)"
  by (auto simp: edits_def)

lemma writes_edits:
  "writes h out h' \<Longrightarrow> h_temp h = Some t \<Longrightarrow> edits h h' \<and> h_temp h' = Some (t @ out)"
  by (auto simp: writes_def append_temp_def edits_def)

subsection \<open>A pure step\<close>

definition blank :: "bytes \<Rightarrow> bool" where
  "blank line \<longleftrightarrow> list_all (\<lambda>b. b = 0x09 \<or> b = 0x20) line"

record listing =
  ls_done :: bytes       \<comment> \<open>canonical lines so far\<close>
  ls_line :: bytes       \<comment> \<open>the current row\<close>
  ls_saw :: bool
  ls_cr :: bool
  ls_eof :: bool

definition end_line :: "listing \<Rightarrow> listing" where
  "end_line s =
     (if blank (ls_line s) then s\<lparr>ls_line := []\<rparr>
      else s\<lparr>ls_done := ls_done s @ ls_line s @ [0x0D, 0x0A], ls_line := [], ls_saw := True\<rparr>)"

definition char_step :: "byte \<Rightarrow> listing \<Rightarrow> listing option" where
  "char_step v s =
     (if v = 0x1A then Some ((end_line s)\<lparr>ls_eof := True\<rparr>)
      else if v = 0x0D then Some (s\<lparr>ls_cr := True\<rparr>)
      else if v = 0x0A then Some (end_line s)
      else if v < 0x20 \<and> v \<noteq> 0x09 then None
      else if blank (ls_line s) \<and> v \<noteq> 0x09 \<and> v \<noteq> 0x20 \<and> \<not> (0x30 \<le> v \<and> v \<le> 0x39) then None
      else Some (s\<lparr>ls_line := ls_line s @ [v]\<rparr>))"

definition byte_step :: "byte \<Rightarrow> listing \<Rightarrow> listing option" where
  "byte_step v s =
     (if ls_eof s then if v \<noteq> 0x1A then None else Some s
      else if ls_cr s then
        let s = (end_line s)\<lparr>ls_cr := False\<rparr>
        in if v = 0x0A then Some s else char_step v s
      else char_step v s)"

fun byte_steps :: "bytes \<Rightarrow> listing \<Rightarrow> listing option" where
  "byte_steps [] s = Some s"
| "byte_steps (v # vs) s = Option.bind (byte_step v s) (byte_steps vs)"

lemma byte_steps_append: "byte_steps (xs @ ys) s = Option.bind (byte_steps xs s) (byte_steps ys)"
  by (induction xs arbitrary: s) (auto split: bind_splits)

text \<open>How the loop's state represents a listing.\<close>

definition shows_listing :: "host \<Rightarrow> normalizer \<Rightarrow> listing \<Rightarrow> bool" where
  "shows_listing h nz s \<longleftrightarrow>
     (\<exists>out. h_temp h = Some out \<and> out @ nz_pending nz = ls_done s @ ls_line s) \<and>
     nz_line_start nz = length (ls_done s) \<and> nz_numbered nz = (\<not> blank (ls_line s)) \<and>
     (nz_pending nz \<noteq> [] \<longrightarrow> nz_numbered nz) \<and>
     nz_saw nz = ls_saw s \<and> nz_cr nz = ls_cr s \<and> nz_eof nz = ls_eof s"

definition step_outcome ::
  "host \<Rightarrow> listing option \<Rightarrow> transfer_error + normalizer \<Rightarrow> host \<Rightarrow> bool" where
  "step_outcome h s r h' \<longleftrightarrow> edits h h' \<and>
     (case r of
        Inr nz \<Rightarrow> (\<exists>s'. s = Some s' \<and> shows_listing h' nz s')
      | Inl e \<Rightarrow> e = OSFailure \<and> short_write h \<or>
          e = TransferCancelledError \<and> True \<in> set (h_cancel h) \<or> e = TransferError \<and> s = None)"

lemma step_outcome_after:
  "edits h h1 \<Longrightarrow> step_outcome h1 s r h' \<Longrightarrow> step_outcome h s r h'"
  by (auto simp: step_outcome_def split: sum.splits dest: edits_trans edits_short edits_cancel)

lemma flush_pending_wp:
  assumes "shows_listing h nz s"
  shows "wp (flush_pending nz) (\<lambda>r h'. step_outcome h (Some s) r h' \<and>
     (\<forall>nz'. r = Inr nz' \<longrightarrow> nz_pending nz' = [])) h"
proof (cases "nz_pending nz = []")
  case True
  with assms show ?thesis by (simp add: flush_pending_def step_outcome_def)
next
  case False
  from assms obtain out where "h_temp h = Some out" by (auto simp: shows_listing_def)
  with False assms show ?thesis
    unfolding flush_pending_def
    by (auto intro!: wp_bind [OF wp_write_exact] dest: writes_edits simp: step_outcome_def shows_listing_def)
qed

lemma wp_truncate:
  "wp (truncate_temp n) (\<lambda>r h'. r = Inr () \<and> h' = h\<lparr>h_temp := map_option (take n) (h_temp h)\<rparr>) h"
  by (rule wpI) (simp add: truncate_temp_def)

lemma wp_tell:
  "h_temp h = Some out \<Longrightarrow> wp tell_temp (\<lambda>r h'. r = Inr (length out) \<and> h' = h) h"
  by (rule wpI) (simp add: tell_temp_def)

lemma finish_line_wp:
  assumes s: "shows_listing h nz s"
  shows "wp (finish_line nz) (step_outcome h (Some (end_line s))) h"
proof -
  have tail: "wp (bindIO tell_temp (\<lambda>n. ret (nz1\<lparr>nz_line_start := n, nz_numbered := False\<rparr>)))
      (step_outcome h (Some (end_line s))) h1"
    if h1: "edits h h1" "h_temp h1 = Some (ls_done (end_line s))" and nz1: "nz_pending nz1 = []"
      "nz_saw nz1 = ls_saw (end_line s)" "nz_cr nz1 = ls_cr s" "nz_eof nz1 = ls_eof s" for h1 nz1
    by (rule wp_bind [OF wp_tell [OF h1(2)]])
      (use h1 nz1 in \<open>auto simp: step_outcome_def shows_listing_def end_line_def blank_def\<close>)
  show ?thesis
  proof (cases "nz_numbered nz")
    case True
    then have nb: "\<not> blank (ls_line s)" using s by (simp add: shows_listing_def)
    show ?thesis
      unfolding finish_line_def if_P [OF True]
    proof (rule wp_bind [where P = "\<lambda>r h1. edits h h1 \<and> (case r of
          Inr nz1 \<Rightarrow> h_temp h1 = Some (ls_done (end_line s)) \<and> nz_pending nz1 = [] \<and>
            nz_saw nz1 = ls_saw (end_line s) \<and> nz_cr nz1 = ls_cr s \<and> nz_eof nz1 = ls_eof s
        | Inl e \<Rightarrow> e = OSFailure \<and> short_write h \<or> e = TransferCancelledError \<and> True \<in> set (h_cancel h))"],
        goal_cases)
      case 1
      show ?case
      proof (rule wp_bind [OF flush_pending_wp [OF s]], goal_cases)
        case (1 e h1)
        then show ?case by (auto simp: step_outcome_def)
      next
        case (2 nz1 h1)
        then have e1: "edits h h1" and s1: "shows_listing h1 nz1 s" "nz_pending nz1 = []"
          by (auto simp: step_outcome_def)
        then have t1: "h_temp h1 = Some (ls_done s @ ls_line s)" by (auto simp: shows_listing_def)
        show ?case
          by (rule wp_bind [OF wp_write_exact])
            (use e1 s1 nb in \<open>auto dest!: writes_edits [OF _ t1] dest: edits_trans edits_short
              simp: end_line_def shows_listing_def\<close>)
      qed
    qed (auto simp: step_outcome_def intro: tail)
  next
    case False
    then have b: "blank (ls_line s)" "nz_pending nz = []" "h_temp h = Some (ls_done s @ ls_line s)"
      using s by (auto simp: shows_listing_def)
    show ?thesis
      unfolding finish_line_def if_not_P [OF False]
    proof (rule wp_bind [where P = "\<lambda>r h1. r = Inr nz \<and> edits h h1 \<and> h_temp h1 = Some (ls_done s)"],
        goal_cases)
      case 1
      show ?case
        by (rule wp_bind [OF wp_truncate]) (use s b in \<open>auto simp: edits_def shows_listing_def\<close>)
    next
      case (3 x h1)
      with tail [of h1 nz] s b show ?case by (auto simp: shows_listing_def end_line_def)
    qed simp
  qed
qed

lemma add_text_wp:
  assumes s: "shows_listing h nz s" and n: "nz_numbered nz" "\<not> blank (ls_line s)"
  shows "wp (add_text chunk_size v nz) (step_outcome h (Some (s\<lparr>ls_line := ls_line s @ [v]\<rparr>))) h"
proof -
  let ?nz = "nz\<lparr>nz_pending := nz_pending nz @ [v]\<rparr>" and ?s = "s\<lparr>ls_line := ls_line s @ [v]\<rparr>"
  have s': "shows_listing h ?nz ?s"
    using s n by (auto simp: shows_listing_def blank_def)
  show ?thesis
  proof (cases "int (length (nz_pending ?nz)) \<ge> chunk_size")
    case True
    with wp_mono [OF flush_pending_wp [OF s']] show ?thesis by (simp add: add_text_def)
  next
    case False
    with s' show ?thesis by (simp add: add_text_def step_outcome_def)
  qed
qed

lemma add_first_wp:
  assumes s: "shows_listing h nz s" and v: "v \<noteq> 0x09" "v \<noteq> 0x20" and n: "\<not> nz_numbered nz"
  shows "wp (add_text chunk_size v (nz\<lparr>nz_numbered := True\<rparr>))
    (step_outcome h (Some (s\<lparr>ls_line := ls_line s @ [v]\<rparr>))) h"
proof -
  let ?nz = "nz\<lparr>nz_numbered := True, nz_pending := nz_pending nz @ [v]\<rparr>"
  have s': "shows_listing h ?nz (s\<lparr>ls_line := ls_line s @ [v]\<rparr>)"
    using s n v by (auto simp: shows_listing_def blank_def)
  show ?thesis
  proof (cases "int (length (nz_pending ?nz)) \<ge> chunk_size")
    case True
    with wp_mono [OF flush_pending_wp [OF s']] show ?thesis by (simp add: add_text_def)
  next
    case False
    with s' show ?thesis by (simp add: add_text_def step_outcome_def)
  qed
qed

lemma normalize_char_wp:
  assumes s: "shows_listing h nz s"
  shows "wp (normalize_char chunk_size v nz) (step_outcome h (char_step v s)) h"
proof -
  consider "v = 0x1A" | "v = 0x0D" | "v = 0x0A" | "v \<notin> {0x1A, 0x0D, 0x0A}" "v < 0x20 \<and> v \<noteq> 0x09"
    | "v \<notin> {0x1A, 0x0D, 0x0A}" "\<not> (v < 0x20 \<and> v \<noteq> 0x09)" by blast
  then show ?thesis
  proof cases
    case 1
    then show ?thesis
      by (auto simp: normalize_char_def char_step_def step_outcome_def shows_listing_def
          intro!: wp_bind [OF finish_line_wp [OF s]])
  next
    case 2
    then show ?thesis using s
      by (auto simp: normalize_char_def char_step_def step_outcome_def shows_listing_def)
  next
    case 3
    then show ?thesis using finish_line_wp [OF s] by (simp add: normalize_char_def char_step_def)
  next
    case 4
    then show ?thesis by (simp add: normalize_char_def char_step_def step_outcome_def)
  next
    case 5
    let ?s = "s\<lparr>ls_line := ls_line s @ [v]\<rparr>"
    have num: "nz_numbered nz = (\<not> blank (ls_line s))" using s by (simp add: shows_listing_def)
    have n: "(v = 0x1A) = False" "(v = 0x0D) = False" "(v = 0x0A) = False" "(v < 0x20 \<and> v \<noteq> 0x09) = False"
      using 5 by blast+
    have nc: "normalize_char chunk_size v nz =
       (if \<not> nz_numbered nz then
          if v = 0x09 \<or> v = 0x20 then bindIO (write_exact [v]) (\<lambda>_. ret nz)
          else if \<not> (0x30 \<le> v \<and> v \<le> 0x39) then raise TransferError
          else add_text chunk_size v (nz\<lparr>nz_numbered := True\<rparr>)
        else add_text chunk_size v nz)"
      unfolding normalize_char_def n by (simp only: if_False)
    have cs: "char_step v s =
       (if blank (ls_line s) \<and> v \<noteq> 0x09 \<and> v \<noteq> 0x20 \<and> \<not> (0x30 \<le> v \<and> v \<le> 0x39) then None
        else Some ?s)"
      unfolding char_step_def n by (simp only: if_False)
    consider "nz_numbered nz" | "\<not> nz_numbered nz" "v = 0x09 \<or> v = 0x20"
      | "\<not> nz_numbered nz" "\<not> (v = 0x09 \<or> v = 0x20)" "0x30 \<le> v \<and> v \<le> 0x39"
      | "\<not> nz_numbered nz" "\<not> (v = 0x09 \<or> v = 0x20)" "\<not> (0x30 \<le> v \<and> v \<le> 0x39)" by blast
    then show ?thesis
    proof cases
      case 1
      with num add_text_wp [OF s 1] show ?thesis unfolding nc cs by simp
    next
      case 2
      obtain out where out: "h_temp h = Some out" using s by (auto simp: shows_listing_def)
      have "char_step v s = Some ?s" unfolding cs using 2(2) by auto
      moreover have "normalize_char chunk_size v nz = bindIO (write_exact [v]) (\<lambda>_. ret nz)"
        unfolding nc using 2 by simp
      moreover have "wp (bindIO (write_exact [v]) (\<lambda>_. ret nz)) (step_outcome h (Some ?s)) h"
      proof (rule wp_bind [OF wp_write_exact], goal_cases)
        case (1 e h1)
        then show ?case using writes_edits [OF _ out] by (auto simp: step_outcome_def)
      next
        case (2 u h1)
        then have "edits h h1" "h_temp h1 = Some (out @ [v])" using writes_edits [OF _ out] by auto
        moreover have "blank (ls_line s @ [v])"
          using num \<open>\<not> nz_numbered nz\<close> \<open>v = 0x09 \<or> v = 0x20\<close> by (simp add: blank_def)
        ultimately show ?case
          using s out num \<open>\<not> nz_numbered nz\<close> by (auto simp: step_outcome_def shows_listing_def)
      qed
      ultimately show ?thesis by simp
    next
      case 3
      have "v \<noteq> 0x09" "v \<noteq> 0x20" using 3(2) by simp_all
      from add_first_wp [OF s this 3(1)] 3 num show ?thesis unfolding nc cs by simp
    next
      case 4
      with num show ?thesis unfolding nc cs by (simp add: step_outcome_def)
    qed
  qed
qed

lemma normalize_byte_wp:
  assumes s: "shows_listing h nz s"
  shows "wp (normalize_byte chunk_size v nz) (step_outcome h (byte_step v s)) h"
proof -
  have f: "nz_eof nz = ls_eof s" "nz_cr nz = ls_cr s" using s by (simp_all add: shows_listing_def)
  show ?thesis
  proof (cases "ls_eof s \<or> \<not> ls_cr s")
    case True
    with f s normalize_char_wp [OF s] show ?thesis
      by (auto simp: normalize_byte_def byte_step_def step_outcome_def)
  next
    case False
    let ?s = "(end_line s)\<lparr>ls_cr := False\<rparr>"
    have "wp (bindIO (finish_line nz) (\<lambda>nz. let nz = nz\<lparr>nz_cr := False\<rparr>
          in if v = 0x0A then ret nz else normalize_char chunk_size v nz))
        (step_outcome h (byte_step v s)) h"
    proof (rule wp_bind [OF finish_line_wp [OF s]], goal_cases)
      case (1 e h1)
      then show ?case by (auto simp: step_outcome_def)
    next
      case (2 nz1 h1)
      then have e: "edits h h1" and "shows_listing h1 nz1 (end_line s)"
        by (auto simp: step_outcome_def)
      then have s1: "shows_listing h1 (nz1\<lparr>nz_cr := False\<rparr>) ?s"
        unfolding shows_listing_def by auto
      have "wp (normalize_char chunk_size v (nz1\<lparr>nz_cr := False\<rparr>))
          (step_outcome h (char_step v ?s)) h1"
        by (rule wp_mono [OF normalize_char_wp [OF s1]], erule step_outcome_after [OF e])
      with False e s1 show ?case
        by (simp add: byte_step_def Let_def step_outcome_def)
    qed
    with False f show ?thesis by (simp add: normalize_byte_def)
  qed
qed

lemma normalize_block_wp:
  "shows_listing h nz s \<Longrightarrow>
     wp (normalize_block chunk_size index vs nz) (step_outcome h (byte_steps vs s)) h"
proof (induction vs arbitrary: index nz s h)
  case Nil
  then show ?case by (simp add: step_outcome_def)
next
  case (Cons v vs)
  have poll: "wp (if index mod 4096 = 0 then check_cancelled else ret ())
      (\<lambda>r h'. edits h h' \<and> h_temp h' = h_temp h \<and>
        (r = Inr () \<or> r = Inl TransferCancelledError \<and> True \<in> set (h_cancel h))) h"
    by (auto intro!: wpI simp: check_cancelled_def edits_def split: list.splits if_splits)
  show ?case
    unfolding normalize_block.simps
  proof (rule wp_bind [OF poll], goal_cases)
    case (1 e h1)
    then show ?case by (auto simp: step_outcome_def)
  next
    case (2 u h1)
    then have e1: "edits h h1" and s1: "shows_listing h1 nz s"
      using Cons.prems by (auto simp: shows_listing_def)
    show ?case
    proof (rule wp_bind [OF normalize_byte_wp [OF s1]], goal_cases)
      case (1 e h2)
      then show ?case using e1
        by (auto simp: step_outcome_def dest: edits_trans edits_short edits_cancel)
    next
      case (2 nz2 h2)
      then obtain s2 where s2: "byte_step v s = Some s2" "shows_listing h2 nz2 s2" "edits h h2"
        using e1 by (auto simp: step_outcome_def dest: edits_trans)
      show ?case
        by (rule wp_mono [OF Cons.IH [OF s2(2)]]) (simp add: s2(1) step_outcome_after [OF s2(3)])
    qed
  qed
qed

subsection \<open>The stream\<close>

lemma write_exact_src: "wp (write_exact bs) (\<lambda>r h'. h_src h' = h_src h) h"
  by (rule wp_mono [OF wp_write_exact]) (auto dest: writes_fields)

lemma flush_pending_src: "wp (flush_pending nz) (\<lambda>r h'. h_src h' = h_src h) h"
  by (auto simp: flush_pending_def intro!: wp_bind [OF write_exact_src])

lemma finish_line_src: "wp (finish_line nz) (\<lambda>r h'. h_src h' = h_src h) h"
proof -
  have tail: "h_src h1 = h_src h \<Longrightarrow> wp (bindIO tell_temp
      (\<lambda>n. ret (nz1\<lparr>nz_line_start := n, nz_numbered := False\<rparr>))) (\<lambda>r h'. h_src h' = h_src h) h1" for nz1 h1
    by (simp add: wp_def tell_temp_def bindIO_def)
  show ?thesis
    unfolding finish_line_def
    by (rule wp_bind [where P = "\<lambda>r h1. h_src h1 = h_src h"])
      (auto intro!: tail wp_bind [OF flush_pending_src] wp_bind [OF write_exact_src] wp_bind [OF wp_truncate])
qed

lemma add_text_src: "wp (add_text chunk_size v nz) (\<lambda>r h'. h_src h' = h_src h) h"
  by (simp add: add_text_def Let_def flush_pending_src)

lemma normalize_char_src: "wp (normalize_char chunk_size v nz) (\<lambda>r h'. h_src h' = h_src h) h"
  unfolding normalize_char_def
  by (intro if_split [where P = "\<lambda>m. wp m _ _", THEN iffD2] conjI impI)
    (auto intro: wp_bind [OF finish_line_src] wp_bind [OF write_exact_src] finish_line_src add_text_src)

lemma normalize_byte_src: "wp (normalize_byte chunk_size v nz) (\<lambda>r h'. h_src h' = h_src h) h"
  unfolding normalize_byte_def
  by (auto simp: Let_def intro!: wp_bind [OF finish_line_src] normalize_char_src wp_mono [OF normalize_char_src])

lemma normalize_block_src: "wp (normalize_block chunk_size index vs nz) (\<lambda>r h'. h_src h' = h_src h) h"
proof (induction vs arbitrary: index nz h)
  case (Cons v vs)
  have poll: "wp (if index mod 4096 = 0 then check_cancelled else ret ()) (\<lambda>r h'. h_src h' = h_src h) h"
    by (auto intro: wp_mono [OF wp_check])
  show ?case
    unfolding normalize_block.simps
    by (intro wp_bind [OF poll] wp_bind [OF normalize_byte_src] wp_mono [OF Cons.IH]) simp_all
qed (simp add: wp_def)

lemma normalize_block_src_eq:
  "normalize_block chunk_size index vs nz h = (r, h') \<Longrightarrow> h_src h' = h_src h"
  by (rule wpD [OF normalize_block_src])

function normalize_loop ::
  "int \<Rightarrow> int option \<Rightarrow> int \<Rightarrow> normalizer \<Rightarrow> (int \<times> normalizer) io" where
  "normalize_loop chunk_size goal sz nz h =
     bindIO check_cancelled (\<lambda>_ h.
     bindIO (read_block (nat chunk_size)) (\<lambda>block h.
       if block = [] then ret (sz, nz) h
       else
         let sz = sz + int (length block) in
         bindIO (normalize_block chunk_size 0 block nz) (\<lambda>nz h.
         bindIO (report_progress sz goal) (\<lambda>_ h.
           normalize_loop chunk_size goal sz nz h) h) h) h) h"
  by pat_completeness auto
termination
  by (relation "measure (\<lambda>(_, _, _, _, h). length (h_src h))")
    (auto dest!: check_cancelled_src report_progress_src normalize_block_src_eq dest: read_block_shorter)

declare normalize_loop.simps [simp del]

definition normalize_msx_basic_stream :: "int \<Rightarrow> int option \<Rightarrow> int io" where
  "normalize_msx_basic_stream chunk_size progress_total =
     bindIO (guard (chunk_size > 0) TransferError) (\<lambda>_.
     bindIO tell_temp (\<lambda>line_start.
     bindIO check_cancelled (\<lambda>_.
     bindIO (report_progress 0 progress_total) (\<lambda>_.
     bindIO (normalize_loop chunk_size progress_total 0 (new_normalizer\<lparr>nz_line_start := line_start\<rparr>))
       (\<lambda>(source_size, nz).
     bindIO check_cancelled (\<lambda>_.
     bindIO (if nz_cr nz then finish_line nz
             else if \<not> nz_eof nz then finish_line nz else ret nz) (\<lambda>nz.
     bindIO (guard (nz_saw nz) TransferError) (\<lambda>_.
     bindIO (write_exact [0x1A]) (\<lambda>_.
     bindIO check_cancelled (\<lambda>_.
       ret source_size))))))))))"

text \<open>\<open>normalize_msx_basic_text\<close>: source and output are in-memory streams.\<close>

definition normalize_msx_basic_text :: "bytes \<Rightarrow> int \<Rightarrow> bool list \<Rightarrow> transfer_error + bytes" where
  "normalize_msx_basic_text data chunk_size cancels =
     (case normalize_msx_basic_stream chunk_size (Some (int (length data)))
             \<lparr>h_file = data, h_stats = [], h_src = data, h_reads = [], h_writes = [],
               h_cancel = cancels, h_temp = Some [], h_progress = []\<rparr> of
        (Inl e, _) \<Rightarrow> Inl e
      | (Inr _, h) \<Rightarrow> Inr (the (h_temp h)))"

text \<open>What the whole loop computes: the steps over the rest of the input.\<close>

definition loop_outcome ::
  "host \<Rightarrow> int \<Rightarrow> listing \<Rightarrow> transfer_error + int \<times> normalizer \<Rightarrow> host \<Rightarrow> bool" where
  "loop_outcome h sz s r h' \<longleftrightarrow>
     h_file h' = h_file h \<and> set (h_cancel h') \<subseteq> set (h_cancel h) \<and>
     set (h_writes h') \<subseteq> set (h_writes h) \<and> h_temp h' \<noteq> None \<and> h_stats h' = h_stats h \<and>
     (case r of
        Inr (n, nz) \<Rightarrow> n = sz + int (length (h_src h)) \<and>
          (\<exists>s'. byte_steps (h_src h) s = Some s' \<and> shows_listing h' nz s')
      | Inl e \<Rightarrow> e = OSFailure \<and> short_write h \<or>
          e = TransferCancelledError \<and> True \<in> set (h_cancel h) \<or>
          e = TransferError \<and> byte_steps (h_src h) s = None)"

lemma normalize_loop_eq:
  "normalize_loop chunk_size goal sz nz =
     bindIO check_cancelled (\<lambda>_.
     bindIO (read_block (nat chunk_size)) (\<lambda>block.
       if block = [] then ret (sz, nz)
       else
         bindIO (normalize_block chunk_size 0 block nz) (\<lambda>nz.
         bindIO (report_progress (sz + int (length block)) goal) (\<lambda>_.
           normalize_loop chunk_size goal (sz + int (length block)) nz))))"
  by (rule ext, subst normalize_loop.simps) (auto simp: Let_def bindIO_def split: prod.splits sum.splits)

text \<open>Reading and polling also leave the answers of \<open>stat\<close> alone.\<close>

definition polls :: "host \<Rightarrow> host \<Rightarrow> bool" where
  "polls h h' \<longleftrightarrow> keeps h h' \<and> h_stats h' = h_stats h"

lemma polls_trans: "polls h h1 \<Longrightarrow> polls h1 h2 \<Longrightarrow> polls h h2"
  by (auto simp: polls_def intro: keeps_trans)

lemma wp_check_polls:
  "wp check_cancelled (\<lambda>r h'. polls h h' \<and> h_src h' = h_src h \<and>
     (r = Inr () \<or> r = Inl TransferCancelledError \<and> True \<in> set (h_cancel h))) h"
  by (rule wpI) (auto simp: check_cancelled_def polls_def keeps_def split: list.splits if_splits)

lemma wp_report_polls:
  "wp (report_progress n t) (\<lambda>r h'. polls h h' \<and> h_src h' = h_src h \<and> r = Inr ()) h"
  by (rule wpI) (auto simp: report_progress_def polls_def keeps_def)

lemma wp_read_polls:
  "0 < n \<Longrightarrow> wp (read_block n) (\<lambda>r h'. \<exists>block. r = Inr block \<and> polls h h' \<and>
     h_src h = block @ h_src h' \<and> (block = [] \<longrightarrow> h_src h = [])) h"
  by (rule wpI) (auto simp: read_block_def polls_def keeps_def Let_def split: list.splits)

lemma polls_shows: "polls h h' \<Longrightarrow> shows_listing h nz s \<Longrightarrow> shows_listing h' nz s"
  by (auto simp: polls_def keeps_def shows_listing_def)

lemma loop_outcome_after:
  assumes "h_file h1 = h_file h" "set (h_cancel h1) \<subseteq> set (h_cancel h)"
    "set (h_writes h1) \<subseteq> set (h_writes h)" "h_stats h1 = h_stats h"
    and "h_src h = block @ h_src h1" "byte_steps block s = Some s1"
    and "loop_outcome h1 (sz + int (length block)) s1 r h'"
  shows "loop_outcome h sz s r h'"
  using assms short_write_mono [OF assms(3)]
  by (auto simp: loop_outcome_def byte_steps_append split: sum.splits)

lemma loop_outcome_error:
  assumes k: "h_file h2 = h_file h" "set (h_cancel h2) \<subseteq> set (h_cancel h)"
    "set (h_writes h2) \<subseteq> set (h_writes h)" "h_stats h2 = h_stats h"
    and src: "h_src h = block @ rest" and temp: "h_temp h2 \<noteq> None"
    and out: "step_outcome h2 (byte_steps block s) (Inl e) h3"
  shows "loop_outcome h sz s (Inl e) h3"
proof -
  have ed: "edits h2 h3" using out by (simp add: step_outcome_def)
  consider "e = OSFailure" "short_write h2" | "e = TransferCancelledError" "True \<in> set (h_cancel h2)"
    | "e = TransferError" "byte_steps block s = None"
    using out by (auto simp: step_outcome_def)
  then have "e = OSFailure \<and> short_write h \<or>
      e = TransferCancelledError \<and> True \<in> set (h_cancel h) \<or>
      e = TransferError \<and> byte_steps (h_src h) s = None"
    by cases (use short_write_mono [OF k(3)] k(2) in \<open>auto simp: src byte_steps_append\<close>)
  then show ?thesis
    using ed k temp by (auto simp: loop_outcome_def edits_def)
qed

lemma normalize_loop_wp:
  "0 < chunk_size \<Longrightarrow> shows_listing h nz s \<Longrightarrow>
     wp (normalize_loop chunk_size goal sz nz) (loop_outcome h sz s) h"
proof (induction "length (h_src h)" arbitrary: sz nz s h rule: less_induct)
  case less
  have n: "0 < nat chunk_size" using less.prems by simp
  have temp: "h_temp h \<noteq> None" using less.prems by (auto simp: shows_listing_def)
  show ?case
    unfolding normalize_loop_eq [of _ _ sz]
  proof (rule wp_bind [OF wp_check_polls], goal_cases)
    case (1 e h1)
    with temp show ?case by (auto simp: loop_outcome_def polls_def keeps_def)
  next
    case (2 u h1)
    show ?case
    proof (rule wp_bind [OF wp_read_polls [OF n]], goal_cases)
      case (2 block h2)
      then have b: "polls h h2" "h_src h = block @ h_src h2" "block = [] \<Longrightarrow> h_src h = []"
        using \<open>polls h h1 \<and> _\<close> by (auto intro: polls_trans)
      then have s2: "shows_listing h2 nz s" using less.prems polls_shows by blast
      have k2: "h_file h2 = h_file h" "set (h_cancel h2) \<subseteq> set (h_cancel h)"
        "set (h_writes h2) \<subseteq> set (h_writes h)" "h_stats h2 = h_stats h"
        using b(1) by (auto simp: polls_def keeps_def)
      show ?case
      proof (cases "block = []")
        case True
        with b s2 k2 show ?thesis by (auto simp: loop_outcome_def shows_listing_def)
      next
        case ne: False
        show ?thesis
          unfolding if_not_P [OF ne]
        proof (rule wp_bind [OF normalize_block_wp [OF s2]], goal_cases)
          case (1 e h3)
          have "h_temp h2 \<noteq> None" using s2 by (auto simp: shows_listing_def)
          with 1 show ?case by (intro loop_outcome_error [OF k2 b(2)])
        next
          case (2 nz3 h3)
          then obtain s3 where s3: "byte_steps block s = Some s3" "shows_listing h3 nz3 s3" "edits h2 h3"
            by (auto simp: step_outcome_def)
          show ?case
          proof (rule wp_bind [OF wp_report_polls], goal_cases)
            case (2 v h4)
            then have p: "polls h3 h4" "h_src h4 = h_src h2" using s3(3) by (auto simp: edits_def)
            have k4: "h_file h4 = h_file h" "set (h_cancel h4) \<subseteq> set (h_cancel h)"
              "set (h_writes h4) \<subseteq> set (h_writes h)" "h_stats h4 = h_stats h" "h_src h = block @ h_src h4"
              using p s3(3) k2 b(2) by (auto simp: polls_def keeps_def edits_def)
            have "length (h_src h4) < length (h_src h)" using k4(5) ne by simp
            from less.hyps [OF this less.prems(1) polls_shows [OF p(1) s3(2)]] show ?case
              by (rule wp_mono) (rule loop_outcome_after [OF k4 s3(1)])
          qed simp
        qed
      qed
    qed simp
  qed
qed

subsection \<open>Listings read line by line\<close>

text \<open>Rows end at a carriage return, a line feed or both; the last row needs no end.\<close>

fun split_rows :: "bytes \<Rightarrow> bytes list" where
  "split_rows [] = [[]]"
| "split_rows (v # vs) =
     (if v = 0x0A then [] # split_rows vs
      else if v = 0x0D then
        [] # (case vs of [] \<Rightarrow> [[]] | w # ws \<Rightarrow> if w = 0x0A then split_rows ws else split_rows vs)
      else (v # hd (split_rows vs)) # tl (split_rows vs))"

definition valid_row :: "bytes \<Rightarrow> bool" where
  "valid_row row \<longleftrightarrow> list_all (\<lambda>b. b = 0x09 \<or> \<not> b < 0x20) row \<and>
     (case dropWhile (\<lambda>b. b = 0x09 \<or> b = 0x20) row of
        [] \<Rightarrow> True | b # _ \<Rightarrow> 0x30 \<le> b \<and> b \<le> 0x39)"

definition render :: "bytes list \<Rightarrow> bytes" where
  "render rows = concat (map (\<lambda>row. row @ [0x0D, 0x0A]) (filter (\<lambda>row. \<not> blank row) rows))"

definition normal_form :: "bytes \<Rightarrow> bytes option" where
  "normal_form data =
     (let body = takeWhile (\<lambda>b. b \<noteq> 0x1A) data;
          rest = dropWhile (\<lambda>b. b \<noteq> 0x1A) data;
          rows = split_rows body
      in if list_all (\<lambda>b. b = 0x1A) rest \<and> list_all valid_row rows \<and> \<not> list_all blank rows
         then Some (render rows @ [0x1A]) else None)"

lemma split_rows_nonempty [simp]: "split_rows vs \<noteq> []"
  by (cases vs) auto

lemma render_simps [simp]:
  "render [] = []"
  "render (row # rows) = (if blank row then [] else row @ [0x0D, 0x0A]) @ render rows"
  "render (rows @ rows') = render rows @ render rows'"
  by (simp_all add: render_def)

fun glue :: "bytes \<Rightarrow> bytes list \<Rightarrow> bytes list" where
  "glue cur [] = []"
| "glue cur (row # rows) = (cur @ row) # rows"

lemma glue_Nil [simp]: "glue [] rows = rows"
  by (cases rows) simp_all

lemma glue_hd: "glue cur ((v # hd (split_rows vs)) # tl (split_rows vs)) = glue (cur @ [v]) (split_rows vs)"
  by (cases "split_rows vs") (use split_rows_nonempty [of vs] in auto)

lemma blank_append [simp]: "blank (xs @ ys) = (blank xs \<and> blank ys)"
  by (simp add: blank_def)

lemma valid_row_append:
  "valid_row (cur @ rest) \<longleftrightarrow> valid_row cur \<and> list_all (\<lambda>b. b = 0x09 \<or> \<not> b < 0x20) rest \<and>
     (blank cur \<longrightarrow> valid_row rest)"
proof (cases "blank cur")
  case True
  then have d: "dropWhile (\<lambda>b. b = 0x09 \<or> b = 0x20) (cur @ rest) = dropWhile (\<lambda>b. b = 0x09 \<or> b = 0x20) rest"
    "dropWhile (\<lambda>b. b = 0x09 \<or> b = 0x20) cur = []"
    by (simp_all add: blank_def list_all_iff)
  show ?thesis unfolding valid_row_def d using True by auto
next
  case False
  then obtain b where "b \<in> set cur" "\<not> (b = 0x09 \<or> b = 0x20)"
    by (auto simp: blank_def list_all_iff)
  then have "dropWhile (\<lambda>b. b = 0x09 \<or> b = 0x20) (cur @ rest) =
      dropWhile (\<lambda>b. b = 0x09 \<or> b = 0x20) cur @ rest"
    and "dropWhile (\<lambda>b. b = 0x09 \<or> b = 0x20) cur \<noteq> []"
    by (auto simp: dropWhile_append1)
  then show ?thesis using False by (auto simp: valid_row_def split: list.splits)
qed

lemma valid_row_Nil [simp]: "valid_row []"
  by (simp add: valid_row_def)

lemma valid_row_single:
  "valid_row [v] \<longleftrightarrow> (v = 0x09 \<or> \<not> v < 0x20) \<and>
     (v = 0x09 \<or> v = 0x20 \<or> 0x30 \<le> v \<and> v \<le> 0x39)"
  by (auto simp: valid_row_def)

lemma valid_row_prefix: "valid_row (xs @ ys) \<Longrightarrow> valid_row xs"
  by (simp add: valid_row_append)

lemma valid_glue_prefix:
  "list_all valid_row (glue (cur @ [v]) (split_rows vs)) \<Longrightarrow> valid_row (cur @ [v])"
  using valid_row_prefix [of "cur @ [v]" "hd (split_rows vs)"] by (cases "split_rows vs") simp_all

lemma char_step_text:
  assumes "v \<noteq> 0x1A" "v \<noteq> 0x0D" "v \<noteq> 0x0A" "valid_row (ls_line s)"
  shows "char_step v s =
    (if valid_row (ls_line s @ [v]) then Some (s\<lparr>ls_line := ls_line s @ [v]\<rparr>) else None)"
proof -
  have n: "(v = 0x1A) = False" "(v = 0x0D) = False" "(v = 0x0A) = False"
    using assms by blast+
  have "valid_row (ls_line s @ [v]) \<longleftrightarrow> \<not> (v < 0x20 \<and> v \<noteq> 0x09) \<and>
      \<not> (blank (ls_line s) \<and> v \<noteq> 0x09 \<and> v \<noteq> 0x20 \<and> \<not> (0x30 \<le> v \<and> v \<le> 0x39))"
    unfolding valid_row_append valid_row_single using assms(4) by (simp only: list.pred_inject) blast
  then show ?thesis
    unfolding char_step_def n if_False by (simp only: split: if_split) blast
qed

definition open_row :: "listing \<Rightarrow> bool" where
  "open_row s \<longleftrightarrow> \<not> ls_eof s \<and> \<not> ls_cr s \<and> valid_row (ls_line s)"

definition reads_rows :: "bytes list \<Rightarrow> listing \<Rightarrow> listing option \<Rightarrow> bool" where
  "reads_rows rows s r \<longleftrightarrow>
     (case r of
        None \<Rightarrow> \<not> list_all valid_row rows
      | Some s' \<Rightarrow> list_all valid_row rows \<and> \<not> ls_eof s' \<and>
          ls_done (end_line s') = ls_done s @ render rows \<and>
          ls_saw (end_line s') = (ls_saw s \<or> \<not> list_all blank rows))"

lemma end_line_simps [simp]:
  "ls_line (end_line s) = []" "ls_cr (end_line s) = ls_cr s" "ls_eof (end_line s) = ls_eof s"
  "ls_done (end_line s) = ls_done s @ (if blank (ls_line s) then [] else ls_line s @ [0x0D, 0x0A])"
  "ls_saw (end_line s) = (ls_saw s \<or> \<not> blank (ls_line s))"
  "end_line (s\<lparr>ls_cr := c\<rparr>) = (end_line s)\<lparr>ls_cr := c\<rparr>"
  by (simp_all add: end_line_def)

lemma open_end_line: "open_row s \<Longrightarrow> open_row (end_line s)"
  by (simp add: open_row_def)

lemma reads_rows_end:
  "open_row s \<Longrightarrow> reads_rows rows (end_line s) r \<Longrightarrow> reads_rows (ls_line s # rows) s r"
  by (auto simp: reads_rows_def open_row_def split: option.splits)

lemma reset_cr: "\<not> ls_cr s \<Longrightarrow> (end_line s)\<lparr>ls_cr := False\<rparr> = end_line s"
  by (simp add: end_line_def)

lemma byte_steps_cr:
  assumes "open_row s" "w \<noteq> 0x0A"
  shows "byte_steps (w # ws) (s\<lparr>ls_cr := True\<rparr>) = byte_steps (w # ws) (end_line s)"
proof -
  have "byte_step w (s\<lparr>ls_cr := True\<rparr>) = byte_step w (end_line s)"
    using assms by (simp add: byte_step_def open_row_def Let_def reset_cr)
  then show ?thesis by simp
qed

lemma byte_steps_rows:
  "open_row s \<Longrightarrow> 0x1A \<notin> set body \<Longrightarrow>
     reads_rows (glue (ls_line s) (split_rows body)) s (byte_steps body s)"
proof (induction body arbitrary: s rule: split_rows.induct)
  case 1
  then show ?case by (auto simp: reads_rows_def open_row_def)
next
  case (2 v vs)
  have v: "v \<noteq> 0x1A" using "2.prems" by simp
  have step: "byte_step v s = char_step v s" using "2.prems" by (simp add: byte_step_def open_row_def)
  consider "v = 0x0A" | "v \<noteq> 0x0A" "v = 0x0D" | "v \<noteq> 0x0A" "v \<noteq> 0x0D" by blast
  then show ?case
  proof cases
    case 1
    have "byte_steps (v # vs) s = byte_steps vs (end_line s)"
      using step 1 by (simp add: char_step_def)
    moreover have "reads_rows (split_rows vs) (end_line s) (byte_steps vs (end_line s))"
      using "2.IH"(1) [OF 1, of "end_line s"] "2.prems" open_end_line [of s] by simp
    ultimately show ?thesis using 1 reads_rows_end "2.prems" by simp
  next
    case 2
    have cr: "byte_steps (v # vs) s = byte_steps vs (s\<lparr>ls_cr := True\<rparr>)"
      using step 2 by (simp add: char_step_def)
    show ?thesis
    proof (cases vs)
      case Nil
      have "reads_rows [[]] (end_line s) (Some (s\<lparr>ls_cr := True\<rparr>))"
        using "2.prems" by (simp add: reads_rows_def open_row_def blank_def)
      with reads_rows_end [OF "2.prems"(1), of "[[]]"] Nil 2 cr show ?thesis by simp
    next
      case (Cons w ws)
      show ?thesis
      proof (cases "w = 0x0A")
        case True
        have "byte_steps vs (s\<lparr>ls_cr := True\<rparr>) = byte_steps ws (end_line s)"
          using "2.prems"(1) True Cons by (simp add: byte_step_def open_row_def Let_def reset_cr)
        moreover have "reads_rows (split_rows ws) (end_line s) (byte_steps ws (end_line s))"
          using "2.IH"(2) [OF 2 Cons True, of "end_line s"] "2.prems" Cons open_end_line [of s] by simp
        ultimately show ?thesis using 2 cr Cons True reads_rows_end "2.prems"(1) by simp
      next
        case False
        have "reads_rows (split_rows vs) (end_line s) (byte_steps vs (end_line s))"
          using "2.IH"(3) [OF 2 Cons False, of "end_line s"] "2.prems" open_end_line [of s] by simp
        with byte_steps_cr [OF "2.prems"(1) False, of ws] 2 cr Cons False reads_rows_end "2.prems"(1)
        show ?thesis by simp
      qed
    qed
  next
    case 3
    let ?s = "s\<lparr>ls_line := ls_line s @ [v]\<rparr>"
    have rows: "glue (ls_line s) (split_rows (v # vs)) = glue (ls_line s @ [v]) (split_rows vs)"
      using 3 glue_hd by simp
    have cs: "char_step v s = (if valid_row (ls_line s @ [v]) then Some ?s else None)"
      using char_step_text [OF v 3(2,1)] "2.prems"(1) by (simp add: open_row_def)
    show ?thesis
    proof (cases "valid_row (ls_line s @ [v])")
      case True
      then have "open_row ?s" using "2.prems"(1) by (simp add: open_row_def)
      with "2.IH"(4) [OF 3, of ?s] "2.prems"(2)
      have "reads_rows (glue (ls_line s @ [v]) (split_rows vs)) ?s (byte_steps vs ?s)" by simp
      then have "reads_rows (glue (ls_line s @ [v]) (split_rows vs)) s (byte_steps vs ?s)"
        by (cases "byte_steps vs ?s") (simp_all add: reads_rows_def)
      with rows cs True step show ?thesis by simp
    next
      case False
      with valid_glue_prefix [of "ls_line s" v vs] have "\<not> list_all valid_row (glue (ls_line s @ [v]) (split_rows vs))"
        by blast
      with rows cs False step show ?thesis by (simp add: reads_rows_def)
    qed
  qed
qed

definition empty_listing :: listing where
  "empty_listing = \<lparr>ls_done = [], ls_line = [], ls_saw = False, ls_cr = False, ls_eof = False\<rparr>"

definition close_listing :: "listing \<Rightarrow> listing" where
  "close_listing s = (if ls_cr s then end_line s else if \<not> ls_eof s then end_line s else s)"

definition listing_result :: "listing \<Rightarrow> bytes option" where
  "listing_result s = (if ls_saw s then Some (ls_done s @ [0x1A]) else None)"

lemma byte_steps_eof:
  "ls_eof s \<Longrightarrow> byte_steps vs s = (if list_all (\<lambda>b. b = 0x1A) vs then Some s else None)"
  by (induction vs) (auto simp: byte_step_def)

lemma eof_step:
  assumes "\<not> ls_eof s"
  shows "\<exists>s'. byte_step 0x1A s = Some s' \<and> ls_eof s' \<and> \<not> ls_cr s' \<and>
    ls_done s' = ls_done (end_line s) \<and> ls_saw s' = ls_saw (end_line s)"
  using assms by (auto simp: byte_step_def char_step_def Let_def blank_def)

lemma steps_normal_form:
  "Option.bind (byte_steps data empty_listing) (\<lambda>s. listing_result (close_listing s)) = normal_form data"
proof -
  let ?body = "takeWhile (\<lambda>b. b \<noteq> 0x1A) data" and ?rest = "dropWhile (\<lambda>b. b \<noteq> 0x1A) data"
  let ?rows = "split_rows ?body"
  have split: "byte_steps data empty_listing = Option.bind (byte_steps ?body empty_listing) (byte_steps ?rest)"
    using byte_steps_append [of ?body ?rest empty_listing] by simp
  have "0x1A \<notin> set ?body" by (auto dest: set_takeWhileD)
  moreover have "open_row empty_listing" by (simp add: open_row_def empty_listing_def)
  ultimately have rows: "reads_rows ?rows empty_listing (byte_steps ?body empty_listing)"
    using byte_steps_rows [of empty_listing ?body] by (simp add: empty_listing_def)
  show ?thesis
  proof (cases "byte_steps ?body empty_listing")
    case None
    with rows split show ?thesis by (simp add: reads_rows_def normal_form_def Let_def)
  next
    case (Some s)
    with rows have s: "list_all valid_row ?rows" "\<not> ls_eof s" "ls_done (end_line s) = render ?rows"
      "ls_saw (end_line s) = (\<not> list_all blank ?rows)"
      by (simp_all add: reads_rows_def empty_listing_def)
    show ?thesis
    proof (cases ?rest)
      case Nil
      have nf: "normal_form data =
          (if list_all blank ?rows then None else Some (render ?rows @ [0x1A]))"
        unfolding normal_form_def Let_def Nil using s(1) by simp
      have "close_listing s = end_line s" using s(2) by (simp add: close_listing_def)
      then show ?thesis
        unfolding split Some Nil nf using s(3,4) by (simp add: listing_result_def del: end_line_simps)
    next
      case (Cons v t)
      have v: "v = 0x1A" using hd_dropWhile [of "\<lambda>b. b \<noteq> 0x1A" data] Cons by simp
      obtain s' where s': "byte_step 0x1A s = Some s'" "ls_eof s'" "\<not> ls_cr s'"
        "ls_done s' = render ?rows" "ls_saw s' = (\<not> list_all blank ?rows)"
        using eof_step [OF s(2)] s(3,4) by auto
      have nf: "normal_form data =
          (if list_all (\<lambda>b. b = 0x1A) t \<and> \<not> list_all blank ?rows then Some (render ?rows @ [0x1A]) else None)"
        unfolding normal_form_def Let_def Cons v using s(1) by simp
      have "byte_steps (v # t) s = (if list_all (\<lambda>b. b = 0x1A) t then Some s' else None)"
        using s' v by (simp add: byte_steps_eof)
      then show ?thesis
        unfolding split Some Cons nf using s'
        by (simp add: listing_result_def close_listing_def)
    qed
  qed
qed

subsection \<open>Canonical listings\<close>

lemma valid_row_chars: "valid_row row \<Longrightarrow> b \<in> set row \<Longrightarrow> b \<noteq> 0x0A \<and> b \<noteq> 0x0D \<and> b \<noteq> 0x1A"
  by (auto simp: valid_row_def list_all_iff)

lemma split_rows_row:
  "(\<And>b. b \<in> set row \<Longrightarrow> b \<noteq> 0x0A \<and> b \<noteq> 0x0D) \<Longrightarrow>
     split_rows (row @ 0x0D # 0x0A # rest) = row # split_rows rest"
  by (induction row) auto

lemma split_rows_render:
  "list_all valid_row rows \<Longrightarrow> split_rows (render rows) = filter (\<lambda>row. \<not> blank row) rows @ [[]]"
proof (induction rows)
  case (Cons row rows)
  then show ?case
    using split_rows_row [of row "render rows"] valid_row_chars [of row] by auto
qed simp

lemma render_no_eof: "list_all valid_row rows \<Longrightarrow> 0x1A \<notin> set (render rows)"
  by (induction rows) (auto dest: valid_row_chars)

lemma split_at_eof:
  "0x1A \<notin> set xs \<Longrightarrow> takeWhile (\<lambda>b. b \<noteq> 0x1A) (xs @ (0x1A :: byte) # ys) = xs \<and>
     dropWhile (\<lambda>b. b \<noteq> 0x1A) (xs @ (0x1A :: byte) # ys) = 0x1A # ys"
  by (induction xs) auto

lemma normal_form_canonical:
  assumes "normal_form data = Some out"
  shows "normal_form out = Some out"
proof -
  obtain rows where rows: "list_all valid_row rows" "\<not> list_all blank rows" "out = render rows @ [0x1A]"
    using assms by (auto simp: normal_form_def Let_def split: if_splits)
  have tw: "takeWhile (\<lambda>b. b \<noteq> 0x1A) out = render rows" "dropWhile (\<lambda>b. b \<noteq> 0x1A) out = [0x1A]"
    using split_at_eof [OF render_no_eof [OF rows(1)], of "[]"] unfolding rows(3) by blast+
  have sr: "split_rows (render rows) = filter (\<lambda>row. \<not> blank row) rows @ [[]]"
    by (rule split_rows_render [OF rows(1)])
  have "list_all valid_row (filter (\<lambda>row. \<not> blank row) rows @ [[]])"
    "\<not> list_all blank (filter (\<lambda>row. \<not> blank row) rows @ [[]])"
    using rows by (auto simp: list_all_iff)
  moreover have "render (filter (\<lambda>row. \<not> blank row) rows @ [[]]) = render rows"
    by (simp add: render_def blank_def)
  ultimately show ?thesis
    unfolding normal_form_def Let_def tw sr by (simp add: rows(3))
qed

subsection \<open>The stream function\<close>

definition stream_outcome :: "host \<Rightarrow> transfer_error + int \<Rightarrow> host \<Rightarrow> bool" where
  "stream_outcome h r h' \<longleftrightarrow>
     h_file h' = h_file h \<and> set (h_cancel h') \<subseteq> set (h_cancel h) \<and>
     set (h_writes h') \<subseteq> set (h_writes h) \<and> h_stats h' = h_stats h \<and>
     (case r of
        Inr n \<Rightarrow> n = int (length (h_src h)) \<and> (\<exists>t. normal_form (h_src h) = Some t \<and> h_temp h' = Some t)
      | Inl e \<Rightarrow> e = OSFailure \<and> short_write h \<or>
          e = TransferCancelledError \<and> True \<in> set (h_cancel h) \<or>
          e = TransferError \<and> normal_form (h_src h) = None)"

definition close_stream :: "normalizer \<Rightarrow> int \<Rightarrow> int io" where
  "close_stream nz n =
     bindIO check_cancelled (\<lambda>_.
     bindIO (if nz_cr nz then finish_line nz
             else if \<not> nz_eof nz then finish_line nz else ret nz) (\<lambda>nz.
     bindIO (guard (nz_saw nz) TransferError) (\<lambda>_.
     bindIO (write_exact [0x1A]) (\<lambda>_.
     bindIO check_cancelled (\<lambda>_.
       ret n)))))"

definition close_outcome :: "host \<Rightarrow> bytes option \<Rightarrow> int \<Rightarrow> transfer_error + int \<Rightarrow> host \<Rightarrow> bool" where
  "close_outcome h out n r h' \<longleftrightarrow>
     h_file h' = h_file h \<and> set (h_cancel h') \<subseteq> set (h_cancel h) \<and>
     set (h_writes h') \<subseteq> set (h_writes h) \<and> h_stats h' = h_stats h \<and>
     (case r of
        Inr m \<Rightarrow> m = n \<and> (\<exists>t. out = Some t \<and> h_temp h' = Some t)
      | Inl e \<Rightarrow> e = OSFailure \<and> short_write h \<or>
          e = TransferCancelledError \<and> True \<in> set (h_cancel h) \<or>
          e = TransferError \<and> out = None)"

lemma close_outcome_after:
  assumes "edits h h1" "close_outcome h1 out n r h'"
  shows "close_outcome h out n r h'"
  using assms edits_short [OF assms(1)] by (auto simp: close_outcome_def edits_def split: sum.splits)

lemma polls_edits: "polls h h1 \<Longrightarrow> h_src h1 = h_src h \<Longrightarrow> edits h h1"
  by (auto simp: polls_def keeps_def edits_def)

lemma close_tail_wp:
  assumes "shows_listing h nz s" "nz_pending nz = []" "ls_line s = []"
  shows "wp (bindIO (guard (nz_saw nz) TransferError) (\<lambda>_. bindIO (write_exact [0x1A]) (\<lambda>_.
     bindIO check_cancelled (\<lambda>_. ret n)))) (close_outcome h (listing_result s) n) h"
proof -
  have t: "h_temp h = Some (ls_done s)" "nz_saw nz = ls_saw s"
    using assms by (auto simp: shows_listing_def)
  show ?thesis
  proof (cases "ls_saw s")
    case False
    with t show ?thesis by (simp add: close_outcome_def listing_result_def)
  next
    case True
    with t have "bindIO (guard (nz_saw nz) TransferError) (\<lambda>_. bindIO (write_exact [0x1A]) (\<lambda>_.
       bindIO check_cancelled (\<lambda>_. ret n))) = bindIO (write_exact [0x1A]) (\<lambda>_.
       bindIO check_cancelled (\<lambda>_. ret n))" by simp
    moreover have "wp (bindIO (write_exact [0x1A]) (\<lambda>_. bindIO check_cancelled (\<lambda>_. ret n)))
        (close_outcome h (listing_result s) n) h"
    proof (rule wp_bind [OF wp_write_exact], goal_cases)
      case (1 e h1)
      then obtain out where "writes h out h1" "e = OSFailure" "short_write h" by auto
      with writes_edits [OF this(1) t(1)] show ?case by (simp add: close_outcome_def edits_def)
    next
      case (2 u h1)
      then have h1: "edits h h1" "h_temp h1 = Some (ls_done s @ [0x1A])" using writes_edits [OF _ t(1)] by auto
      show ?case
        by (rule wp_bind [OF wp_check_polls])
          (use h1 True in \<open>auto simp: close_outcome_def listing_result_def polls_def keeps_def edits_def\<close>)
    qed
    ultimately show ?thesis by simp
  qed
qed


lemma close_stream_wp:
  assumes s: "shows_listing h nz s" and eof: "ls_eof s \<Longrightarrow> ls_line s = []"
  shows "wp (close_stream nz n) (close_outcome h (listing_result (close_listing s)) n) h"
  unfolding close_stream_def
proof (rule wp_bind [OF wp_check_polls], goal_cases)
  case (1 e h1)
  then show ?case by (auto simp: close_outcome_def polls_def keeps_def)
next
  case (2 u h1)
  then have e1: "edits h h1" and s1: "shows_listing h1 nz s"
    using s polls_edits polls_shows by blast+
  have f: "nz_cr nz = ls_cr s" "nz_eof nz = ls_eof s" using s by (simp_all add: shows_listing_def)
  have fin: "wp (finish_line nz) (\<lambda>r h'. step_outcome h1 (Some (end_line s)) r h') h1"
    by (rule finish_line_wp [OF s1])
  show ?case
  proof (cases "ls_cr s \<or> \<not> ls_eof s")
    case True
    then have b: "(if nz_cr nz then finish_line nz else if \<not> nz_eof nz then finish_line nz else ret nz) =
        finish_line nz" "close_listing s = end_line s"
      using f by (auto simp: close_listing_def)
    show ?thesis
      unfolding b
    proof (rule wp_bind [OF finish_line_wp [OF s1]], goal_cases)
      case (1 e h2)
      then have "close_outcome h1 (listing_result (end_line s)) n (Inl e) h2"
        by (auto simp: close_outcome_def step_outcome_def edits_def)
      then show ?case by (rule close_outcome_after [OF e1])
    next
      case (2 nz2 h2)
      then have e2: "edits h h2" and s2: "shows_listing h2 nz2 (end_line s)"
        using e1 by (auto simp: step_outcome_def dest: edits_trans)
      have "nz_pending nz2 = []" using s2 by (auto simp: shows_listing_def blank_def)
      then show ?case
        by (intro wp_mono [OF close_tail_wp [OF s2]] close_outcome_after [OF e2]) simp_all
    qed
  next
    case False
    have b: "(if nz_cr nz then finish_line nz else if \<not> nz_eof nz then finish_line nz else ret nz) = ret nz"
      "close_listing s = s" using False f by (auto simp: close_listing_def)
    have l: "ls_line s = []" using eof False by simp
    then have "nz_pending nz = []" using s by (auto simp: shows_listing_def blank_def)
    with l show ?thesis
      unfolding b io_unit by (intro wp_mono [OF close_tail_wp [OF s1]] close_outcome_after [OF e1])
  qed
qed


definition eof_clean :: "listing \<Rightarrow> bool" where
  "eof_clean s \<longleftrightarrow> (ls_eof s \<longrightarrow> ls_line s = [])"

lemma eof_clean_step: "byte_step v s = Some s' \<Longrightarrow> eof_clean s \<Longrightarrow> eof_clean s'"
  by (auto simp: byte_step_def char_step_def eof_clean_def Let_def split: if_splits)

lemma eof_clean_steps: "byte_steps vs s = Some s' \<Longrightarrow> eof_clean s \<Longrightarrow> eof_clean s'"
  by (induction vs arbitrary: s) (auto simp: bind_eq_Some_conv dest: eof_clean_step)

lemma normalize_stream_eq:
  "0 < chunk_size \<Longrightarrow> normalize_msx_basic_stream chunk_size goal =
     bindIO tell_temp (\<lambda>line_start. bindIO check_cancelled (\<lambda>_. bindIO (report_progress 0 goal) (\<lambda>_.
     bindIO (normalize_loop chunk_size goal 0 (new_normalizer\<lparr>nz_line_start := line_start\<rparr>))
       (\<lambda>(n, nz). close_stream nz n))))"
  by (simp add: normalize_msx_basic_stream_def close_stream_def)

lemma normalize_stream_wp:
  assumes "0 < chunk_size" "h_temp h = Some []"
  shows "wp (normalize_msx_basic_stream chunk_size goal) (stream_outcome h) h"
  unfolding normalize_stream_eq [OF assms(1)]
proof (rule wp_bind [OF wp_tell [OF assms(2)]], goal_cases)
  case (2 x h0)
  then have x: "x = 0" "h0 = h" by simp_all
  show ?case
    unfolding x
  proof (rule wp_bind [OF wp_check_polls], goal_cases)
    case (1 e h1)
    then show ?case by (auto simp: stream_outcome_def polls_def keeps_def)
  next
    case (2 u h1)
    show ?case
    proof (rule wp_bind [OF wp_report_polls], goal_cases)
      case (2 v h2)
      then have p: "polls h h2" "h_src h2 = h_src h"
        using \<open>polls h h1 \<and> _\<close> by (auto intro: polls_trans)
      then have s: "shows_listing h2 (new_normalizer\<lparr>nz_line_start := 0\<rparr>) empty_listing"
        using assms(2)
        by (auto simp: polls_def keeps_def shows_listing_def new_normalizer_def empty_listing_def blank_def)
      have k: "h_file h2 = h_file h" "set (h_cancel h2) \<subseteq> set (h_cancel h)"
        "set (h_writes h2) \<subseteq> set (h_writes h)" "h_stats h2 = h_stats h"
        using p(1) by (auto simp: polls_def keeps_def)
      note nf = steps_normal_form [of "h_src h"]
      show ?case
      proof (rule wp_bind [OF normalize_loop_wp [OF assms(1) s]], goal_cases)
        case (1 e h3)
        then show ?case
          using k short_write_mono [OF k(3)] nf
          by (auto simp: stream_outcome_def loop_outcome_def p(2))
      next
        case (2 y h3)
        obtain nz s' where y: "y = (int (length (h_src h)), nz)"
          and s': "byte_steps (h_src h) empty_listing = Some s'" "shows_listing h3 nz s'"
          and k3: "h_file h3 = h_file h" "set (h_cancel h3) \<subseteq> set (h_cancel h)"
            "set (h_writes h3) \<subseteq> set (h_writes h)" "h_stats h3 = h_stats h"
          using 2 k p(2) by (cases y) (auto simp: loop_outcome_def)
        have ec: "eof_clean s'" by (rule eof_clean_steps [OF s'(1)]) (simp add: eof_clean_def empty_listing_def)
        have nf': "listing_result (close_listing s') = normal_form (h_src h)"
          using nf s'(1) by simp
        show ?case
          unfolding y prod.case
          by (rule wp_mono [OF close_stream_wp [OF s'(2)]])
            (use ec k3 short_write_mono [OF k3(3)] nf' in
              \<open>auto simp: stream_outcome_def close_outcome_def eof_clean_def split: sum.splits\<close>)
      qed
    qed simp
  qed
qed simp

subsection \<open>Preparing a source file\<close>

record prepared_basic =
  pb_temporary :: bool
  pb_source_size :: int
  pb_format :: "string option"
  pb_normalization :: "string option"

definition lower_char :: "char \<Rightarrow> char" where
  "lower_char c =
     (if of_char c \<ge> (65 :: nat) \<and> of_char c \<le> (90 :: nat) then char_of (of_char c + 32 :: nat) else c)"

definition ends_with :: "string \<Rightarrow> string \<Rightarrow> bool" where
  "ends_with suffix s = (drop (length s - length suffix) s = suffix)"

text \<open>\<open>str(target).replace(backslash, slash).rsplit(slash, 1)[-1]\<close>\<close>

definition target_name :: "string \<Rightarrow> string" where
  "target_name target =
     rev (takeWhile (\<lambda>c. c \<noteq> CHR ''/'')
       (rev (map (\<lambda>c. if c = CHR 0x5C then CHR ''/'' else c) target)))"

definition prepare_msx_basic_source :: "string \<Rightarrow> int \<Rightarrow> prepared_basic io" where
  "prepare_msx_basic_source target chunk_size =
     bindIO check_cancelled (\<lambda>_.
     bindIO stat_source (\<lambda>source_stat.
     let source_size = int (fst (snd (snd source_stat))) in
     if \<not> ends_with ''.bas'' (map lower_char (target_name target)) then
       bindIO check_cancelled (\<lambda>_.
       bindIO (report_progress source_size (Some source_size)) (\<lambda>_.
       bindIO check_cancelled (\<lambda>_.
         ret \<lparr>pb_temporary = False, pb_source_size = source_size, pb_format = None,
              pb_normalization = None\<rparr>)))
     else
       bindIO open_source (\<lambda>_.
       bindIO check_cancelled (\<lambda>_.
       bindIO (read_block 1) (\<lambda>first.
       if first = [0xFF] then
         bindIO check_cancelled (\<lambda>_.
         bindIO (report_progress source_size (Some source_size)) (\<lambda>_.
         bindIO check_cancelled (\<lambda>_.
           ret \<lparr>pb_temporary = False, pb_source_size = source_size,
                pb_format = Some ''tokenized'', pb_normalization = Some ''none''\<rparr>)))
       else
         bindIO make_temp (\<lambda>_.
         on_error
           (bindIO open_source (\<lambda>_.
            bindIO (normalize_msx_basic_stream chunk_size (Some source_size)) (\<lambda>counted_size.
            bindIO check_cancelled (\<lambda>_.
            bindIO stat_source (\<lambda>final_stat.
              if counted_size \<noteq> source_size \<or> final_stat \<noteq> source_stat
              then raise TransferBindingError
              else ret \<lparr>pb_temporary = True, pb_source_size = source_size,
                     pb_format = Some ''ascii-msx-dos'',
                     pb_normalization = Some ''crlf-plus-0x1a''\<rparr>)))))
           unlink_temp))))))"

definition is_basic_target :: "string \<Rightarrow> bool" where
  "is_basic_target target \<longleftrightarrow> ends_with ''.bas'' (map lower_char (target_name target))"

definition basic_outcome :: "string \<Rightarrow> host \<Rightarrow> transfer_error + prepared_basic \<Rightarrow> host \<Rightarrow> bool" where
  "basic_outcome target h r h' \<longleftrightarrow>
     h_file h' = h_file h \<and>
     (case r of
        Inr pb \<Rightarrow>
          if pb_temporary pb
          then is_basic_target target \<and> take 1 (h_file h) \<noteq> [0xFF] \<and>
            pb_source_size pb = int (length (h_file h)) \<and>
            (\<exists>out. normal_form (h_file h) = Some out \<and> h_temp h' = Some out)
          else h_temp h' = h_temp h \<and> (is_basic_target target \<longrightarrow> take 1 (h_file h) = [0xFF])
      | Inl e \<Rightarrow> h_temp h' = None \<and>
          (e = TransferCancelledError \<and> True \<in> set (h_cancel h) \<or> e = OSFailure \<and> short_write h \<or>
           e = TransferBindingError \<or> e = TransferError \<and> normal_form (h_file h) = None))"

lemma wp_stat: "wp stat_source (\<lambda>r h'. is_ok r \<and> keeps h h' \<and> h_src h' = h_src h) h"
  by (rule wpI) (auto simp: stat_source_def keeps_def split: list.splits)

lemma wp_read_one:
  "wp (read_block 1) (\<lambda>r h'. r = Inr (take 1 (h_src h)) \<and> keeps h h') h"
  by (rule wpI) (auto simp: read_block_def keeps_def Let_def min_def max_def split: list.splits)

lemma unguarded_tail_wp:
  assumes "keeps h h1" "h_temp h = None" "pb_temporary pb = False"
    "is_basic_target target \<longrightarrow> take 1 (h_file h) = [0xFF]"
  shows "wp (bindIO check_cancelled (\<lambda>_. bindIO (report_progress n t) (\<lambda>_. bindIO check_cancelled (\<lambda>_. ret pb))))
    (basic_outcome target h) h1"
proof (rule wp_bind [OF wp_check], goal_cases)
  case (1 e h2)
  with assms show ?case by (auto simp: basic_outcome_def keeps_def)
next
  case (2 u h2)
  then have k2: "keeps h h2" using assms(1) by (auto intro: keeps_trans)
  show ?case
  proof (rule wp_bind [OF wp_report], goal_cases)
    case (2 v h3)
    then have k3: "keeps h h3" using k2 by (auto intro: keeps_trans)
    show ?case
      by (rule wp_bind [OF wp_check]) (use k3 assms in \<open>auto simp: basic_outcome_def keeps_def\<close>)
  qed simp
qed

lemma guarded_body_wp:
  assumes "h_file h1 = h_file h" "set (h_cancel h1) \<subseteq> set (h_cancel h)"
    "set (h_writes h1) \<subseteq> set (h_writes h)" "h_temp h1 = Some []" "0 < chunk_size"
    and basic: "is_basic_target target" "take 1 (h_file h) \<noteq> [0xFF]"
  shows "wp (bindIO open_source (\<lambda>_.
            bindIO (normalize_msx_basic_stream chunk_size (Some n)) (\<lambda>counted_size.
            bindIO check_cancelled (\<lambda>_.
            bindIO stat_source (\<lambda>final_stat.
              if counted_size \<noteq> n \<or> final_stat \<noteq> st
              then raise TransferBindingError
              else ret \<lparr>pb_temporary = True, pb_source_size = n,
                     pb_format = Some ''ascii-msx-dos'',
                     pb_normalization = Some ''crlf-plus-0x1a''\<rparr>)))))
     (\<lambda>r h'. basic_outcome target h r (case r of Inl _ \<Rightarrow> unlink_temp h' | Inr _ \<Rightarrow> h')) h1"
proof (rule wp_bind [OF wp_open], goal_cases)
  case (2 u h2)
  then have h2: "h_file h2 = h_file h" "set (h_cancel h2) \<subseteq> set (h_cancel h)"
    "set (h_writes h2) \<subseteq> set (h_writes h)" "h_temp h2 = Some []" "h_src h2 = h_file h"
    using assms by (auto simp: keeps_def)
  show ?case
  proof (rule wp_bind [OF normalize_stream_wp [OF assms(5) h2(4)]], goal_cases)
    case (1 e h3)
    then show ?case
      using h2 short_write_mono [OF h2(3)] by (auto simp: stream_outcome_def basic_outcome_def unlink_temp_def)
  next
    case (2 m h3)
    then obtain out where h3: "m = int (length (h_file h))" "h_file h3 = h_file h"
      "set (h_cancel h3) \<subseteq> set (h_cancel h)" "normal_form (h_file h) = Some out" "h_temp h3 = Some out"
      using h2 by (auto simp: stream_outcome_def)
    show ?case
    proof (rule wp_bind [OF wp_check], goal_cases)
      case (1 e h4)
      with h3 show ?case by (auto simp: basic_outcome_def keeps_def unlink_temp_def)
    next
      case (2 v h4)
      then have h4: "h_file h4 = h_file h" "h_temp h4 = Some out" using h3 by (auto simp: keeps_def)
      show ?case
        by (rule wp_bind [OF wp_stat])
          (use h3(1,4) h4 basic in \<open>auto simp: basic_outcome_def keeps_def unlink_temp_def\<close>)
    qed
  qed
qed simp

lemma prepare_basic_wp:
  assumes "0 < chunk_size" "h_temp h = None"
  shows "wp (prepare_msx_basic_source target chunk_size) (basic_outcome target h) h"
  unfolding prepare_msx_basic_source_def is_basic_target_def [symmetric]
proof (rule wp_bind [OF wp_check], goal_cases)
  case (1 e h1)
  with assms show ?case by (auto simp: basic_outcome_def keeps_def)
next
  case (2 u h1)
  show ?case
  proof (rule wp_bind [OF wp_stat], goal_cases)
    case (2 st h2)
    then have k2: "keeps h h2" using \<open>keeps h h1 \<and> _\<close> by (auto intro: keeps_trans)
    show ?case
    proof (cases "is_basic_target target")
      case False
      with unguarded_tail_wp [OF k2 assms(2)] show ?thesis by (simp add: Let_def)
    next
      case basic: True
      then have nb: "\<not> \<not> is_basic_target target" by simp
      show ?thesis
        unfolding Let_def if_not_P [OF nb]
      proof (rule wp_bind [OF wp_open], goal_cases)
        case (2 v h3)
        then have k3: "keeps h h3" "h_src h3 = h_file h"
          using k2 by (auto intro: keeps_trans simp: keeps_file)
        show ?case
        proof (rule wp_bind [OF wp_check], goal_cases)
          case (1 e h4)
          with k3 assms show ?case by (auto simp: basic_outcome_def keeps_def)
        next
          case (2 w h4)
          then have k4: "keeps h h4" "h_src h4 = h_file h" using k3 by (auto intro: keeps_trans)
          show ?case
          proof (rule wp_bind [OF wp_read_one], goal_cases)
            case (2 first h5)
            then have f: "first = take 1 (h_file h)" and k5: "keeps h h5"
              using k4 by (auto intro: keeps_trans)
            show ?case
            proof (cases "first = [0xFF]")
              case True
              then show ?thesis
                unfolding if_P [OF True] using f by (intro unguarded_tail_wp [OF k5 assms(2)]) simp_all
            next
              case False
              show ?thesis
                unfolding if_not_P [OF False]
              proof (rule wp_bind [OF wp_make_temp], goal_cases)
                case (2 x h6)
                then have h6: "h_file h6 = h_file h" "set (h_cancel h6) \<subseteq> set (h_cancel h)"
                  "set (h_writes h6) \<subseteq> set (h_writes h)" "h_temp h6 = Some []"
                  using k5 by (auto simp: keeps_def)
                have nf: "take 1 (h_file h) \<noteq> [0xFF]" using False f by simp
                show ?case
                  by (rule wp_on_error [OF guarded_body_wp [OF h6 assms(1) basic nf]]) simp_all
              qed simp
            qed
          qed simp
        qed
      qed simp
    qed
  qed auto
qed

subsection \<open>Properties\<close>

lemma basic_text_spec:
  assumes "0 < chunk_size"
  shows "normalize_msx_basic_text data chunk_size [] =
    (case normal_form data of None \<Rightarrow> Inl TransferError | Some out \<Rightarrow> Inr out)"
proof -
  let ?h = "\<lparr>h_file = data, h_stats = [], h_src = data, h_reads = [], h_writes = [],
     h_cancel = [], h_temp = Some [], h_progress = []\<rparr>"
  obtain r h' where run: "normalize_msx_basic_stream chunk_size (Some (int (length data))) ?h = (r, h')"
    by force
  have "stream_outcome ?h r h'"
    using wpD [OF normalize_stream_wp [OF assms] run] by simp
  then show ?thesis
    by (cases r) (auto simp: normalize_msx_basic_text_def run stream_outcome_def short_write_def)
qed

text \<open>
  C18: Normalisation means what it says. The text normaliser returns the canonical form of a listing:
  its non-blank rows in order, each ended by CR LF, and one end-of-file byte; it refuses exactly
  the inputs that have none: a row without a line number, a control byte, data behind the
  end-of-file mark, or no numbered row at all. The chunk size does not matter.
\<close>

theorem basic_text_normal_form:
  assumes "0 < chunk_size"
  shows "normalize_msx_basic_text data chunk_size [] =
    (case normal_form data of None \<Rightarrow> Inl TransferError | Some out \<Rightarrow> Inr out)"
  by (rule basic_text_spec [OF assms])

definition sample_listing :: bytes where
  "sample_listing = [0x31, 0x30, 0x20, 0x41, 0x0A, 0x20, 0x0D, 0x0A, 0x32, 0x30, 0x42]"

theorem basic_text_normal_form_witness:
  "normalize_msx_basic_text sample_listing 2 [] =
     Inr [0x31, 0x30, 0x20, 0x41, 0x0D, 0x0A, 0x32, 0x30, 0x42, 0x0D, 0x0A, 0x1A]"
proof -
  have "normal_form sample_listing =
     Some [0x31, 0x30, 0x20, 0x41, 0x0D, 0x0A, 0x32, 0x30, 0x42, 0x0D, 0x0A, 0x1A]"
    by code_simp
  then show ?thesis using basic_text_normal_form [of 2 sample_listing] by simp
qed

text \<open>
  Normalisation is idempotent: what it returns it returns again unchanged, under any chunk sizes.
\<close>

theorem basic_text_idempotent:
  assumes "normalize_msx_basic_text data n [] = Inr out" "0 < n" "0 < m"
  shows "normalize_msx_basic_text out m [] = Inr out"
proof -
  from assms(1) have "normal_form data = Some out"
    by (simp add: basic_text_spec [OF assms(2)] split: option.splits)
  then show ?thesis by (simp add: basic_text_spec [OF assms(3)] normal_form_canonical)
qed

text \<open>
  C19: Preparing a BASIC source. The staging file is used exactly for textual sources of \<open>.bas\<close>
  targets: there it holds the canonical form of the whole file, whose size is the one first seen;
  any other target, and a tokenised program, is left byte-exact with no staging file. On every
  exception the staging file is gone and the source is unchanged.
\<close>

theorem basic_source_prepared:
  assumes "prepare_msx_basic_source target chunk_size h = (r, h')"
    and "0 < chunk_size" "h_temp h = None"
  shows "h_file h' = h_file h \<and>
    (case r of
       Inr pb \<Rightarrow>
         if pb_temporary pb
         then is_basic_target target \<and> take 1 (h_file h) \<noteq> [0xFF] \<and>
           pb_source_size pb = int (length (h_file h)) \<and>
           (\<exists>out. normal_form (h_file h) = Some out \<and> h_temp h' = Some out)
         else h_temp h' = None \<and> (is_basic_target target \<longrightarrow> take 1 (h_file h) = [0xFF])
     | Inl e \<Rightarrow> h_temp h' = None)"
  using wpD [OF prepare_basic_wp [OF assms(2,3)] assms(1)] assms(3)
  by (auto simp: basic_outcome_def split: sum.splits)

theorem basic_source_prepared_witness:
  "\<exists>r h'. prepare_msx_basic_source ''A:HELLO.BAS'' 2 (sample_host sample_listing) = (r, h') \<and>
     is_ok r \<and> h_file h' = sample_listing \<and> (\<exists>out. h_temp h' = Some out)"
proof -
  obtain r h' where run: "prepare_msx_basic_source ''A:HELLO.BAS'' 2 (sample_host sample_listing) = (r, h')"
    by force
  have "map_sum id pb_temporary (fst (prepare_msx_basic_source ''A:HELLO.BAS'' 2 (sample_host sample_listing)))
      = Inr True"
    by code_simp
  then have "is_ok r" "\<And>pb. r = Inr pb \<Longrightarrow> pb_temporary pb" by (cases r; simp add: run)+
  moreover have "h_file (sample_host sample_listing) = sample_listing" "h_temp (sample_host sample_listing) = None"
    by (simp_all add: sample_host_def)
  ultimately show ?thesis
    using basic_source_prepared [OF run] by (cases r) (auto simp: run)
qed

end
