(* ===== verification/Put_Prepare.thy ===== *)
theory Put_Prepare
  imports Basic_Text
begin

text \<open>
  Choosing the wire representation of a PUT in \<open>server/msx_transfer.py\<close>:
  \<open>looks_already_compressed\<close> and \<open>prepare_put_payload\<close>. The source path is represented by its last
  component; its contents are the source file of the host state.
\<close>

subsection \<open>Definitions\<close>

definition compressed_extensions :: "string list" where
  "compressed_extensions =
     [''.7z'', ''.avi'', ''.bz2'', ''.flac'', ''.gif'', ''.gz'', ''.jpeg'', ''.jpg'',
      ''.lz4'', ''.mkv'', ''.mov'', ''.mp3'', ''.mp4'', ''.ogg'', ''.png'', ''.rar'',
      ''.tgz'', ''.webm'', ''.webp'', ''.xz'', ''.zip'', ''.zst'']"

definition compressed_magic :: "bytes list" where
  "compressed_magic =
     [[0x1F, 0x8B],
      [0x50, 0x4B, 0x03, 0x04], [0x50, 0x4B, 0x05, 0x06], [0x50, 0x4B, 0x07, 0x08],
      [0x42, 0x5A, 0x68],
      [0xFD, 0x37, 0x7A, 0x58, 0x5A, 0x00],
      [0x37, 0x7A, 0xBC, 0xAF, 0x27, 0x1C],
      [0x52, 0x61, 0x72, 0x21, 0x1A, 0x07],
      [0x89, 0x50, 0x4E, 0x47, 0x0D, 0x0A, 0x1A, 0x0A],
      [0xFF, 0xD8, 0xFF],
      [0x47, 0x49, 0x46, 0x38, 0x37, 0x61], [0x47, 0x49, 0x46, 0x38, 0x39, 0x61],
      [0x28, 0xB5, 0x2F, 0xFD],
      [0x04, 0x22, 0x4D, 0x18]]"

text \<open>\<open>Path.suffix\<close>: from the last dot of the name, unless the name starts or ends there.\<close>

definition path_suffix :: "string \<Rightarrow> string" where
  "path_suffix name =
     (let stem = length (dropWhile (\<lambda>c. c \<noteq> CHR ''.'') (rev name))
      in if 1 < stem \<and> stem < length name then drop (stem - 1) name else '''')"

definition looks_already_compressed :: "string \<Rightarrow> bool io" where
  "looks_already_compressed name =
     (if map lower_char (path_suffix name) \<in> set compressed_extensions then ret True
      else bindIO open_source (\<lambda>_.
           bindIO (read_block (Max (set (map length compressed_magic)))) (\<lambda>prefix.
             ret (list_ex (\<lambda>magic. starts_with magic prefix) compressed_magic))))"

definition raw_result :: "int \<Rightarrow> int \<Rightarrow> payload_reason \<Rightarrow> file_digest option \<Rightarrow> prepared_payload io" where
  "raw_result chunk_size max_size reason digest =
     bindIO check_cancelled (\<lambda>_.
     bindIO (case digest of Some d \<Rightarrow> ret d | None \<Rightarrow> crc32_file chunk_size max_size) (\<lambda>digest.
     bindIO check_cancelled (\<lambda>_.
       ret \<lparr>pp_encoding = RAW, pp_final = digest, pp_wire = digest, pp_temporary = False,
            pp_reason = reason\<rparr>)))"

definition cleanup_payload :: "prepared_payload \<Rightarrow> host \<Rightarrow> host" where
  "cleanup_payload pp h = (if pp_temporary pp then unlink_temp h else h)"

text \<open>\<open>except _PackBitsWireLimit\<close>\<close>

definition on_wire_limit :: "'a io \<Rightarrow> 'a io \<Rightarrow> 'a io" where
  "on_wire_limit m handler h =
     (case m h of
        (Inl e, h1) \<Rightarrow> if e = PackBitsWireLimit then handler h1 else (Inl e, h1)
      | (Inr x, h1) \<Rightarrow> (Inr x, h1))"

definition prepare_put_payload :: "string \<Rightarrow> string \<Rightarrow> int \<Rightarrow> int \<Rightarrow> prepared_payload io" where
  "prepare_put_payload name mode chunk_size max_size =
     bindIO (guard (mode \<in> {''auto'', ''raw'', ''packbits''}) TransferError) (\<lambda>_.
     bindIO (guard (chunk_size > 0) TransferError) (\<lambda>_.
     bindIO (lift_result (u32 max_size)) (\<lambda>max_size.
     bindIO check_cancelled (\<lambda>_.
     if mode = ''raw'' then raw_result chunk_size max_size RawRequested None
     else
       bindIO check_cancelled (\<lambda>_.
       bindIO (if mode = ''auto'' then looks_already_compressed name else ret False) (\<lambda>compressed.
       if compressed then raw_result chunk_size max_size AlreadyCompressed None
       else
         bindIO
           (on_wire_limit
             (bindIO (deterministic_packbits chunk_size max_size) (\<lambda>pp. ret (Inl pp)))
             (if mode = ''packbits'' then raise PackBitsWireLimit
              else bindIO (raw_result chunk_size max_size ExpansionExceedsLimit None) (\<lambda>pp. ret (Inr pp))))
           (\<lambda>r. case r of
              Inr raw \<Rightarrow> ret raw
            | Inl compressed \<Rightarrow>
                if mode = ''packbits'' then
                  bindIO (on_error check_cancelled (cleanup_payload compressed)) (\<lambda>_. ret compressed)
                else
                  let savings = fd_size (pp_final compressed) - fd_size (pp_wire compressed);
                      required = max 256 ((fd_size (pp_final compressed) * 3 + 99) div 100)
                  in if savings \<ge> required then
                       bindIO (on_error check_cancelled (cleanup_payload compressed)) (\<lambda>_.
                         ret (compressed\<lparr>pp_reason := Saves savings\<rparr>))
                     else
                       bindIO (\<lambda>h. (Inr (), cleanup_payload compressed h)) (\<lambda>_.
                         raw_result chunk_size max_size (SavingsBelow savings required)
                           (Some (pp_final compressed))))))))))"

subsection \<open>Outcomes\<close>

definition put_outcome :: "string \<Rightarrow> int \<Rightarrow> host \<Rightarrow> transfer_error + prepared_payload \<Rightarrow> host \<Rightarrow> bool" where
  "put_outcome mode max_size h r h' \<longleftrightarrow>
     h_file h' = h_file h \<and>
     (case r of
        Inr pp \<Rightarrow>
          pp_final pp = \<lparr>fd_size = int (length (h_file h)), fd_crc = zlib_crc32 (h_file h) 0\<rparr> \<and>
          fd_size (pp_wire pp) \<le> max_size \<and> pp_temporary pp = (pp_encoding pp = PACKBITS) \<and>
          (case pp_encoding pp of
             RAW \<Rightarrow> h_temp h' = None \<and> pp_wire pp = pp_final pp \<and> mode \<noteq> ''packbits''
           | PACKBITS \<Rightarrow> mode \<noteq> ''raw'' \<and> h_temp h' = Some (packbits_of (h_file h)) \<and>
               pp_wire pp = \<lparr>fd_size = int (length (packbits_of (h_file h))),
                 fd_crc = zlib_crc32 (packbits_of (h_file h)) 0\<rparr> \<and>
               (mode = ''auto'' \<longrightarrow>
                  fd_size (pp_final pp) - fd_size (pp_wire pp) \<ge> 256 \<and>
                  100 * (fd_size (pp_final pp) - fd_size (pp_wire pp)) \<ge> 3 * fd_size (pp_final pp)))
      | Inl e \<Rightarrow> (h_temp h' = None \<or> e = TransferCancelledError) \<and>
          (e = OSFailure \<and> short_write h \<or> e = TransferCancelledError \<and> True \<in> set (h_cancel h) \<or>
           e = TransferError \<and> int (length (h_file h)) > max_size \<or>
           e = PackBitsWireLimit \<and> mode = ''packbits'' \<and>
             int (length (packbits_of (h_file h))) > max_size))"

text \<open>The states before any staging: same source, fewer polls and writes to come, no staging file.\<close>

definition fresh :: "host \<Rightarrow> host \<Rightarrow> bool" where
  "fresh h h' \<longleftrightarrow> h_file h' = h_file h \<and> set (h_cancel h') \<subseteq> set (h_cancel h) \<and>
     set (h_writes h') \<subseteq> set (h_writes h) \<and> h_temp h' = None"

lemma fresh_keeps: "fresh h h1 \<Longrightarrow> keeps h1 h2 \<Longrightarrow> fresh h h2"
  by (auto simp: fresh_def keeps_def)

lemma put_cancelled:
  "fresh h h1 \<Longrightarrow> True \<in> set (h_cancel h1) \<Longrightarrow>
     put_outcome mode max_size h (Inl TransferCancelledError) h1"
  by (auto simp: fresh_def put_outcome_def)

lemma wp_check_fresh:
  assumes "fresh h h1" and "\<And>h2. fresh h h2 \<Longrightarrow> wp (k ()) (put_outcome mode max_size h) h2"
  shows "wp (bindIO check_cancelled k) (put_outcome mode max_size h) h1"
proof (rule wp_bind [OF wp_check], goal_cases)
  case (1 e h2)
  then show ?case
    using assms(1) by (auto intro: put_outcome_def [THEN iffD2] simp: fresh_def keeps_def put_outcome_def)
next
  case (2 u h2)
  then show ?case using assms by (auto intro: fresh_keeps)
qed

definition exact_digest :: "bytes \<Rightarrow> file_digest" where
  "exact_digest data = \<lparr>fd_size = int (length data), fd_crc = zlib_crc32 data 0\<rparr>"

lemma wp_raw_result:
  assumes "fresh h h1" "0 < chunk_size" "0 \<le> max_size" "max_size \<le> UINT32_MAX" "mode \<noteq> ''packbits''"
    and "\<And>d. digest = Some d \<Longrightarrow> d = exact_digest (h_file h) \<and> int (length (h_file h)) \<le> max_size"
  shows "wp (raw_result chunk_size max_size reason digest) (put_outcome mode max_size h) h1"
  unfolding raw_result_def
proof (rule wp_check_fresh [OF assms(1)])
  fix h2 assume h2: "fresh h h2"
  have final: "wp (bindIO check_cancelled (\<lambda>_. ret \<lparr>pp_encoding = RAW, pp_final = d, pp_wire = d,
      pp_temporary = False, pp_reason = reason\<rparr>)) (put_outcome mode max_size h) h3"
    if "fresh h h3" "d = exact_digest (h_file h)" "int (length (h_file h)) \<le> max_size" for d h3
    by (rule wp_check_fresh [OF that(1)])
      (use that assms(5) in \<open>auto simp: put_outcome_def exact_digest_def fresh_def\<close>)
  show "wp (bindIO (case digest of None \<Rightarrow> crc32_file chunk_size max_size | Some d \<Rightarrow> ret d)
     (\<lambda>digest. bindIO check_cancelled (\<lambda>_. ret \<lparr>pp_encoding = RAW, pp_final = digest,
        pp_wire = digest, pp_temporary = False, pp_reason = reason\<rparr>)))
     (put_outcome mode max_size h) h2"
  proof (cases digest)
    case (Some d)
    with final [OF h2] assms(6) show ?thesis by simp
  next
    case None
    show ?thesis
      unfolding None option.case
    proof (rule wp_bind [OF crc32_file_wp [OF assms(2-4)]], goal_cases)
      case (1 e h3)
      then show ?case using h2 by (auto simp: put_outcome_def digest_outcome_def fresh_def keeps_def)
    next
      case (2 d h3)
      then have "fresh h h3" "d = exact_digest (h_file h)" "int (length (h_file h)) \<le> max_size"
        using h2 fresh_keeps by (auto simp: digest_outcome_def exact_digest_def fresh_def keeps_def)
      then show ?case by (rule final)
    qed
  qed
qed

lemma magic_positive: "0 < Max (set (map length compressed_magic))"
  by (simp add: compressed_magic_def)

lemma wp_looks_compressed:
  "wp (looks_already_compressed name) (\<lambda>r h'. keeps h h' \<and> is_ok r) h"
proof -
  have "wp (bindIO open_source (\<lambda>_. bindIO (read_block (Max (set (map length compressed_magic))))
      (\<lambda>prefix. ret (list_ex (\<lambda>magic. starts_with magic prefix) compressed_magic))))
      (\<lambda>r h'. keeps h h' \<and> is_ok r) h"
  proof (rule wp_bind [OF wp_open], goal_cases)
    case (2 u h1)
    show ?case
    proof (rule wp_bind [OF wp_read [OF magic_positive]], goal_cases)
      case (2 prefix h2)
      with \<open>Inr u = Inr () \<and> keeps h h1 \<and> h_src h1 = h_file h\<close> show ?case
        by (auto intro: keeps_trans)
    qed auto
  qed simp
  then show ?thesis by (simp add: looks_already_compressed_def)
qed

lemma wp_last_poll:
  assumes "pp_temporary pp" "put_outcome mode max_size h (Inr pp') h2"
    "set (h_cancel h2) \<subseteq> set (h_cancel h)"
  shows "wp (bindIO (on_error check_cancelled (cleanup_payload pp)) (\<lambda>_. ret pp'))
      (put_outcome mode max_size h) h2"
proof (rule wp_bind [where P = "\<lambda>r h3. case r of Inl e \<Rightarrow> put_outcome mode max_size h (Inl e) h3
    | Inr _ \<Rightarrow> keeps h2 h3"])
  show "wp (on_error check_cancelled (cleanup_payload pp))
     (\<lambda>r h3. case r of Inl e \<Rightarrow> put_outcome mode max_size h (Inl e) h3 | Inr _ \<Rightarrow> keeps h2 h3) h2"
    by (rule wp_on_error [OF wp_check])
      (use assms in \<open>auto simp: put_outcome_def cleanup_payload_def unlink_temp_def keeps_def\<close>)
  fix x :: unit and h3
  assume "case Inr x of Inl e \<Rightarrow> put_outcome mode max_size h (Inl e) h3 | Inr _ \<Rightarrow> keeps h2 h3"
  then show "wp (ret pp') (put_outcome mode max_size h) h3"
    using assms(2) by (cases "pp_encoding pp'") (auto simp: put_outcome_def keeps_def)
qed simp

definition put_packed :: "string \<Rightarrow> int \<Rightarrow> int \<Rightarrow> prepared_payload \<Rightarrow> prepared_payload io" where
  "put_packed mode chunk_size max_size compressed =
     (if mode = ''packbits'' then
        bindIO (on_error check_cancelled (cleanup_payload compressed)) (\<lambda>_. ret compressed)
      else
        let savings = fd_size (pp_final compressed) - fd_size (pp_wire compressed);
            required = max 256 ((fd_size (pp_final compressed) * 3 + 99) div 100)
        in if savings \<ge> required then
             bindIO (on_error check_cancelled (cleanup_payload compressed)) (\<lambda>_.
               ret (compressed\<lparr>pp_reason := Saves savings\<rparr>))
           else
             bindIO (\<lambda>h. (Inr (), cleanup_payload compressed h)) (\<lambda>_.
               raw_result chunk_size max_size (SavingsBelow savings required)
                 (Some (pp_final compressed))))"

lemma wp_put_packed:
  assumes "0 < chunk_size" "0 \<le> max_size" "max_size \<le> UINT32_MAX" "mode \<in> {''auto'', ''packbits''}"
    and stg: "staging_outcome max_size h1 (Inr pp) h2" and fresh: "fresh h h1"
  shows "wp (put_packed mode chunk_size max_size pp) (put_outcome mode max_size h) h2"
proof -
  have h2: "h_file h2 = h_file h" "set (h_cancel h2) \<subseteq> set (h_cancel h)"
    "set (h_writes h2) \<subseteq> set (h_writes h)" "h_temp h2 = Some (packbits_of (h_file h))"
    and pp: "pp = \<lparr>pp_encoding = PACKBITS, pp_final = exact_digest (h_file h),
      pp_wire = exact_digest (packbits_of (h_file h)), pp_temporary = True, pp_reason = PackBitsRequested\<rparr>"
    and le: "int (length (h_file h)) \<le> max_size" "int (length (packbits_of (h_file h))) \<le> max_size"
    using stg fresh by (auto simp: staging_outcome_def fresh_def exact_digest_def)
  have kept: "put_outcome mode max_size h (Inr (pp\<lparr>pp_reason := r\<rparr>)) h2"
    if "mode = ''auto'' \<Longrightarrow> fd_size (pp_final pp) - fd_size (pp_wire pp) \<ge>
      max 256 ((fd_size (pp_final pp) * 3 + 99) div 100)" for r
    using that h2 pp le assms(4) by (auto simp: put_outcome_def exact_digest_def)
  show ?thesis
  proof (cases "mode = ''packbits''")
    case True
    have "put_outcome mode max_size h (Inr pp) h2"
      using kept [of "pp_reason pp"] True by simp
    then show ?thesis using True h2(2) pp by (simp add: put_packed_def wp_last_poll)
  next
    case False
    have raw: "wp (raw_result chunk_size max_size r (Some (pp_final pp))) (put_outcome mode max_size h)
        (cleanup_payload pp h2)" for r
      by (rule wp_raw_result [OF _ assms(1-3) False])
        (use h2 pp le in \<open>auto simp: fresh_def cleanup_payload_def unlink_temp_def\<close>)
    have bind: "wp (bindIO (\<lambda>h. (Inr (), cleanup_payload pp h)) k) Q h2 = wp (k ()) Q (cleanup_payload pp h2)"
      for k :: "unit \<Rightarrow> prepared_payload io" and Q
      by (simp add: wp_def bindIO_def)
    let ?savings = "fd_size (pp_final pp) - fd_size (pp_wire pp)"
      and ?required = "max 256 ((fd_size (pp_final pp) * 3 + 99) div 100)"
    have "pp_temporary pp" using pp by simp
    then show ?thesis
      unfolding put_packed_def if_not_P [OF False] Let_def
      using wp_last_poll [OF _ kept h2(2)] raw bind
      by (cases "?savings \<ge> ?required") (simp_all only: if_True if_False not_True_eq_False)
  qed
qed

lemma wp_on_wire_limit:
  assumes "wp m P h" "\<And>e h1. P (Inl e) h1 \<Longrightarrow> e \<noteq> PackBitsWireLimit \<Longrightarrow> Q (Inl e) h1"
    and "\<And>h1. P (Inl PackBitsWireLimit) h1 \<Longrightarrow> wp handler Q h1"
    and "\<And>x h1. P (Inr x) h1 \<Longrightarrow> Q (Inr x) h1"
  shows "wp (on_wire_limit m handler) Q h"
proof (cases "m h")
  case (Pair r h1)
  with wpD [OF assms(1)] have "P r h1" .
  show ?thesis
  proof (cases r)
    case (Inl e)
    then show ?thesis
      using \<open>P r h1\<close> assms(2) assms(3) [of h1] Pair
      by (cases "e = PackBitsWireLimit") (simp_all add: wp_def on_wire_limit_def)
  next
    case (Inr x)
    then show ?thesis using \<open>P r h1\<close> assms(4) Pair by (simp add: wp_def on_wire_limit_def)
  qed
qed

definition put_try :: "string \<Rightarrow> int \<Rightarrow> int \<Rightarrow> (prepared_payload + prepared_payload) io" where
  "put_try mode chunk_size max_size =
     on_wire_limit
       (bindIO (deterministic_packbits chunk_size max_size) (\<lambda>pp. ret (Inl pp)))
       (if mode = ''packbits'' then raise PackBitsWireLimit
        else bindIO (raw_result chunk_size max_size ExpansionExceedsLimit None) (\<lambda>pp. ret (Inr pp)))"

lemma prepare_put_payload_cases:
  "prepare_put_payload name mode chunk_size max_size =
     bindIO (guard (mode \<in> {''auto'', ''raw'', ''packbits''}) TransferError) (\<lambda>_.
     bindIO (guard (chunk_size > 0) TransferError) (\<lambda>_.
     bindIO (lift_result (u32 max_size)) (\<lambda>max_size.
     bindIO check_cancelled (\<lambda>_.
     if mode = ''raw'' then raw_result chunk_size max_size RawRequested None
     else
       bindIO check_cancelled (\<lambda>_.
       bindIO (if mode = ''auto'' then looks_already_compressed name else ret False) (\<lambda>compressed.
       if compressed then raw_result chunk_size max_size AlreadyCompressed None
       else bindIO (put_try mode chunk_size max_size)
              (\<lambda>r. case r of Inr raw \<Rightarrow> ret raw
                 | Inl compressed \<Rightarrow> put_packed mode chunk_size max_size compressed)))))))"
  unfolding prepare_put_payload_def put_try_def put_packed_def by (rule refl)

lemma wp_put_try:
  assumes "0 < chunk_size" "0 \<le> max_size" "max_size \<le> UINT32_MAX" "mode \<in> {''auto'', ''packbits''}"
    and fresh: "fresh h h1"
  shows "wp (put_try mode chunk_size max_size)
     (\<lambda>r h2. case r of
        Inl e \<Rightarrow> put_outcome mode max_size h (Inl e) h2
      | Inr (Inr raw) \<Rightarrow> put_outcome mode max_size h (Inr raw) h2
      | Inr (Inl pp) \<Rightarrow> staging_outcome max_size h1 (Inr pp) h2) h1"
    (is "wp _ ?Q h1")
  unfolding put_try_def
proof (rule wp_on_wire_limit [where P = "\<lambda>r h2. case r of
      Inl e \<Rightarrow> staging_outcome max_size h1 (Inl e) h2
    | Inr q \<Rightarrow> (\<exists>pp. q = Inl pp \<and> staging_outcome max_size h1 (Inr pp) h2)"])
  show "wp (bindIO (deterministic_packbits chunk_size max_size) (\<lambda>pp. ret (Inl pp)))
    (\<lambda>r h2. case r of
      Inl e \<Rightarrow> staging_outcome max_size h1 (Inl e) h2
    | Inr q \<Rightarrow> (\<exists>pp. q = Inl pp \<and> staging_outcome max_size h1 (Inr pp) h2)) h1"
    by (rule wp_bind [OF deterministic_packbits_wp [OF assms(1,2)]]) auto
next
  fix e h2
  assume "case Inl e of Inl e \<Rightarrow> staging_outcome max_size h1 (Inl e) h2
    | Inr q \<Rightarrow> (\<exists>pp. q = Inl pp \<and> staging_outcome max_size h1 (Inr pp) h2)" "e \<noteq> PackBitsWireLimit"
  then show "?Q (Inl e) h2"
    using fresh short_write_mono [of h1 h]
    by (auto simp: put_outcome_def staging_outcome_def fresh_def)
next
  fix h2
  assume "case Inl PackBitsWireLimit of Inl e \<Rightarrow> staging_outcome max_size h1 (Inl e) h2
    | Inr q \<Rightarrow> (\<exists>pp. q = Inl pp \<and> staging_outcome max_size h1 (Inr pp) h2)"
  then have limit: "fresh h h2" "int (length (packbits_of (h_file h))) > max_size"
    using fresh by (auto simp: staging_outcome_def fresh_def)
  show "wp (if mode = ''packbits'' then raise PackBitsWireLimit
      else bindIO (raw_result chunk_size max_size ExpansionExceedsLimit None) (\<lambda>pp. ret (Inr pp))) ?Q h2"
  proof (cases "mode = ''packbits''")
    case True
    with limit show ?thesis by (auto simp: put_outcome_def fresh_def)
  next
    case False
    show ?thesis
      unfolding if_not_P [OF False]
      by (rule wp_bind [OF wp_raw_result [OF limit(1) assms(1-3) False]]) auto
  qed
next
  fix q :: "prepared_payload + prepared_payload" and h2
  assume "case Inr q of Inl e \<Rightarrow> staging_outcome max_size h1 (Inl e) h2
    | Inr q \<Rightarrow> (\<exists>pp. q = Inl pp \<and> staging_outcome max_size h1 (Inr pp) h2)"
  then show "?Q (Inr q) h2" by auto
qed

lemma prepare_put_payload_wp:
  assumes "0 < chunk_size" "0 \<le> max_size" "max_size \<le> UINT32_MAX" "h_temp h = None"
    and mode: "mode \<in> {''auto'', ''raw'', ''packbits''}"
  shows "wp (prepare_put_payload name mode chunk_size max_size) (put_outcome mode max_size h) h"
proof -
  have start: "fresh h h" using assms(4) by (simp add: fresh_def)
  have guards: "guard (mode \<in> {''auto'', ''raw'', ''packbits''}) TransferError = ret ()"
    "guard (chunk_size > 0) TransferError = ret ()" "lift_result (u32 max_size) = ret max_size"
    using assms by (auto simp: guard_def u32_def fun_eq_iff)
  have packed: "wp (bindIO (put_try mode chunk_size max_size)
      (\<lambda>r. case r of Inr raw \<Rightarrow> ret raw | Inl pp \<Rightarrow> put_packed mode chunk_size max_size pp))
      (put_outcome mode max_size h) h1" if "fresh h h1" "mode \<noteq> ''raw''" for h1
    by (rule wp_bind [OF wp_put_try [OF assms(1-3) _ that(1)]])
      (use mode that in \<open>auto intro: wp_put_packed [OF assms(1-3) _ _ that(1)] split: sum.splits\<close>)
  show ?thesis
  proof (cases "mode = ''raw''")
    case True
    show ?thesis
      by (simp only: prepare_put_payload_cases guards io_unit if_P [OF True])
        (intro wp_check_fresh start wp_raw_result assms(1-3), use True in simp_all)
  next
    case False
    have choose: "wp (bindIO (if mode = ''auto'' then looks_already_compressed name else ret False)
      (\<lambda>compressed. if compressed then raw_result chunk_size max_size AlreadyCompressed None
         else bindIO (put_try mode chunk_size max_size)
           (\<lambda>r. case r of Inr raw \<Rightarrow> ret raw | Inl pp \<Rightarrow> put_packed mode chunk_size max_size pp)))
      (put_outcome mode max_size h) h1" if "fresh h h1" for h1
    proof (cases "mode = ''auto''")
      case True
      show ?thesis
        unfolding if_P [OF True]
      proof (rule wp_bind [OF wp_looks_compressed], goal_cases)
        case (2 x h2)
        then have "fresh h h2" using that by (blast intro: fresh_keeps)
        moreover have "mode \<noteq> ''packbits''" using True by simp
        ultimately show ?case
          using packed [OF _ False] wp_raw_result [OF _ assms(1-3), of h h2 mode None] by (cases x) simp_all
      qed simp
    next
      case no: False
      then show ?thesis using packed [OF that False] by simp
    qed
    show ?thesis
      by (simp only: prepare_put_payload_cases guards io_unit if_not_P [OF False])
        (intro wp_check_fresh choose start, assumption)
  qed
qed

subsection \<open>Properties\<close>



end
