(* ===== verification/Stores.thy ===== *)
theory Stores
  imports Prelude
begin

text \<open>
  The contract of a store whose contents only evolve: each step keeps what an observer sees, up to a
  reflexive and transitive relation. The client's fact is that every reachable state shows an
  evolution of what was seen first. The resume journal is the provider.
\<close>

locale evolving_store =
  fixes step :: "'s \<Rightarrow> 's \<Rightarrow> bool"
    and view :: "'s \<Rightarrow> 'v option"
    and evolves :: "'v \<Rightarrow> 'v \<Rightarrow> bool"
  assumes evolves_refl: "evolves v v"
    and evolves_trans: "evolves u v \<Longrightarrow> evolves v w \<Longrightarrow> evolves u w"
    and view_step: "step s s' \<Longrightarrow> view s = Some v \<Longrightarrow> \<exists>v'. view s' = Some v' \<and> evolves v v'"
begin

lemma view_reachable:
  assumes "step\<^sup>*\<^sup>* s s'" "view s = Some v"
  shows "\<exists>v'. view s' = Some v' \<and> evolves v v'"
  using assms(1)
proof (induction rule: rtranclp_induct)
  case base
  then show ?case using assms(2) evolves_refl by blast
next
  case (step s1 s2)
  then show ?case using view_step evolves_trans by blast
qed

end

end
