(* ===== verification/Python_Text.thy ===== *)
theory Python_Text
  imports Prelude
begin

text \<open>
  The values and the text functions of Python's standard library the components share: dynamically
  typed values, \<open>str.strip\<close>, \<open>str.lower\<close>, \<open>int(text, 0)\<close>, hexadecimal and base64 decoding and
  \<open>hashlib.sha256\<close>. Strings are sequences of code points below 256.
\<close>

unbundle bit_operations_syntax

subsection \<open>Hexadecimal digits\<close>

definition hex_digits :: string where "hex_digits = ''0123456789abcdef''"

definition hex_digit :: "nat \<Rightarrow> char" where "hex_digit n = hex_digits ! n"

definition is_hex :: "char \<Rightarrow> bool" where "is_hex c \<longleftrightarrow> c \<in> set hex_digits"

definition hex_value :: "char \<Rightarrow> nat" where
  "hex_value c = length (takeWhile (\<lambda>d. d \<noteq> c) hex_digits)"

definition bytes_hex :: "bytes \<Rightarrow> string" where
  "bytes_hex bs = concat (map (\<lambda>b. [hex_digit (unat b div 16), hex_digit (unat b mod 16)]) bs)"

lemma hex_cases: "n < 16 \<Longrightarrow> n \<in> {0, 1, 2, 3, 4, 5, 6, 7, 8, 9, 10, 11, 12, 13, 14, 15 :: nat}"
  by (simp, arith)

lemma hex_digit_ok [simp]: "n < 16 \<Longrightarrow> hex_value (hex_digit n) = n" "n < 16 \<Longrightarrow> is_hex (hex_digit n)"
  by (drule hex_cases, elim insertE emptyE;
      simp add: hex_value_def hex_digit_def hex_digits_def is_hex_def)+

lemma byte_nibbles [simp]:
  fixes b :: byte
  shows "unat b div 16 < 16" "unat b mod 16 < 16"
proof -
  have "unat b < 256" using unsigned_less [of b] by simp
  then show "unat b div 16 < 16" "unat b mod 16 < 16" by (simp_all add: div_less_iff_less_mult)
qed

lemma bytes_hex_shape [simp]:
  "length (bytes_hex bs) = 2 * length bs" "list_all is_hex (bytes_hex bs)"
  by (induction bs) (simp_all add: bytes_hex_def)

subsection \<open>Values\<close>

text \<open>
  A dynamically typed value: \<open>None\<close>, a boolean, an integer, a float (of which only its being nonzero
  matters), a string, a list or tuple, a dictionary in the order of its keys.
\<close>

datatype doc =
    DNull
  | DBool bool
  | DInt int
  | DFloat bool
  | DStr string
  | DList "doc list"
  | DMap "(string \<times> doc) list"

type_synonym members = "(string \<times> doc) list"

text \<open>\<open>m.get(key, default)\<close>, \<open>key in m\<close>, \<open>bool(v)\<close> and \<open>tuple(dict.fromkeys(xs))\<close>.\<close>

definition dict_get :: "members \<Rightarrow> string \<Rightarrow> doc \<Rightarrow> doc" where
  "dict_get m key absent = (case map_of m key of None \<Rightarrow> absent | Some v \<Rightarrow> v)"

definition has_key :: "members \<Rightarrow> string \<Rightarrow> bool" where
  "has_key m key \<longleftrightarrow> map_of m key \<noteq> None"

fun truthy :: "doc \<Rightarrow> bool" where
  "truthy DNull = False"
| "truthy (DBool b) = b"
| "truthy (DInt i) = (i \<noteq> 0)"
| "truthy (DFloat nonzero) = nonzero"
| "truthy (DStr s) = (s \<noteq> '''')"
| "truthy (DList xs) = (xs \<noteq> [])"
| "truthy (DMap m) = (m \<noteq> [])"

definition uniques :: "'a list \<Rightarrow> 'a list" where
  "uniques xs = rev (remdups (rev xs))"

subsection \<open>Strings\<close>

definition ord_char :: "char \<Rightarrow> nat" where "ord_char c = of_char c"

definition is_space :: "char \<Rightarrow> bool" where
  "is_space c =
     (let n = ord_char c
      in 9 \<le> n \<and> n \<le> 13 \<or> 28 \<le> n \<and> n \<le> 32 \<or> n = 0x85 \<or> n = 0xA0)"

definition strip :: "string \<Rightarrow> string" where
  "strip s = rev (dropWhile is_space (rev (dropWhile is_space s)))"

text \<open>\<open>"".join(s.split())\<close>\<close>

definition without_space :: "string \<Rightarrow> string" where
  "without_space s = filter (\<lambda>c. \<not> is_space c) s"

definition lower :: "string \<Rightarrow> string" where
  "lower s =
     map (\<lambda>c. let n = ord_char c
              in if 65 \<le> n \<and> n \<le> 90 \<or> 0xC0 \<le> n \<and> n \<le> 0xDE \<and> n \<noteq> 0xD7 then char_of (n + 32) else c) s"

subsection \<open>Integer literals\<close>

text \<open>The value of a digit in a base of at most 16.\<close>

definition digit_value :: "nat \<Rightarrow> char \<Rightarrow> nat option" where
  "digit_value base c =
     (let n = ord_char c;
          v = if 48 \<le> n \<and> n \<le> 57 then n - 48
              else if 97 \<le> n \<and> n \<le> 122 then n - 87
              else if 65 \<le> n \<and> n \<le> 90 then n - 55 else 99
      in if v < base then Some v else None)"

fun more_digits :: "nat \<Rightarrow> int \<Rightarrow> string \<Rightarrow> int option" where
  "more_digits base a [] = Some a"
| "more_digits base a (c # cs) =
     (if c = CHR ''_'' then
        (case cs of
           [] \<Rightarrow> None
         | d # ds \<Rightarrow>
             (case digit_value base d of
                None \<Rightarrow> None | Some v \<Rightarrow> more_digits base (a * int base + int v) ds))
      else
        (case digit_value base c of
           None \<Rightarrow> None | Some v \<Rightarrow> more_digits base (a * int base + int v) cs))"

definition digits :: "nat \<Rightarrow> string \<Rightarrow> int option" where
  "digits base s =
     (case s of
        [] \<Rightarrow> None
      | c # cs \<Rightarrow> (case digit_value base c of None \<Rightarrow> None | Some v \<Rightarrow> more_digits base (int v) cs))"

text \<open>\<open>int(s, 0)\<close>, with the interpreter's limit of 4300 decimal digits; \<open>None\<close> is \<open>ValueError\<close>.\<close>

definition after_prefix :: "string \<Rightarrow> string" where
  "after_prefix s = (case s of c # cs \<Rightarrow> if c = CHR ''_'' then cs else s | [] \<Rightarrow> [])"

definition decimal :: "string \<Rightarrow> int option" where
  "decimal s =
     (if length (filter (\<lambda>c. c \<noteq> CHR ''_'') s) > 4300 then None
      else case digits 10 s of
        None \<Rightarrow> None
      | Some v \<Rightarrow> if take 1 s = ''0'' \<and> v \<noteq> 0 then None else Some v)"

definition magnitude :: "string \<Rightarrow> int option" where
  "magnitude s =
     (let p = lower (take 2 s); body = after_prefix (drop 2 s)
      in if p = ''0x'' then digits 16 body
         else if p = ''0o'' then digits 8 body
         else if p = ''0b'' then digits 2 body
         else decimal s)"

definition int_literal :: "string \<Rightarrow> int option" where
  "int_literal text =
     (let s = strip text
      in if take 1 s = ''-'' then map_option uminus (magnitude (drop 1 s))
         else if take 1 s = ''+'' then magnitude (drop 1 s)
         else magnitude s)"

subsection \<open>Hexadecimal and base64 payloads\<close>

text \<open>\<open>bytes.fromhex\<close> of a string without white space.\<close>

fun from_hex :: "string \<Rightarrow> bytes option" where
  "from_hex [] = Some []"
| "from_hex [c] = None"
| "from_hex (c # d # cs) =
     (case (digit_value 16 c, digit_value 16 d, from_hex cs) of
        (Some h, Some l, Some bs) \<Rightarrow> Some (of_nat (16 * h + l) # bs)
      | _ \<Rightarrow> None)"

definition sextet :: "char \<Rightarrow> nat option" where
  "sextet c =
     (let n = ord_char c
      in if 65 \<le> n \<and> n \<le> 90 then Some (n - 65)
         else if 97 \<le> n \<and> n \<le> 122 then Some (n - 71)
         else if 48 \<le> n \<and> n \<le> 57 then Some (n + 4)
         else if c = CHR ''+'' then Some 62
         else if c = CHR ''/'' then Some 63
         else None)"

fun sextet_bytes :: "nat list \<Rightarrow> bytes" where
  "sextet_bytes (a # b # c # d # rest) =
     of_nat (4 * a + b div 16) # of_nat (16 * (b mod 16) + c div 4) # of_nat (64 * (c mod 4) + d)
       # sextet_bytes rest"
| "sextet_bytes [a, b, c] = [of_nat (4 * a + b div 16), of_nat (16 * (b mod 16) + c div 4)]"
| "sextet_bytes [a, b] = [of_nat (4 * a + b div 16)]"
| "sextet_bytes _ = []"

text \<open>
  \<open>base64.b64decode(s, validate=True)\<close> as CPython 3.11 decodes: the data characters, then padding
  that completes the last group; padding after a complete group is skipped.
\<close>

definition b64decode :: "string \<Rightarrow> bytes option" where
  "b64decode s =
     (let chars = takeWhile (\<lambda>c. c \<noteq> CHR ''='') s;
          padding = dropWhile (\<lambda>c. c \<noteq> CHR ''='') s;
          n = length chars mod 4
      in if \<not> list_all (\<lambda>c. sextet c \<noteq> None) chars \<or> \<not> list_all (\<lambda>c. c = CHR ''='') padding
         then None
         else if n = 0 \<and> (chars \<noteq> [] \<or> padding = []) \<or> n = 2 \<and> length padding = 2 \<or> n = 3 \<and> length padding = 1
         then Some (sextet_bytes (map (\<lambda>c. the (sextet c)) chars))
         else None)"

subsection \<open>SHA-256\<close>

definition sha_init :: "32 word list" where
  "sha_init = [1779033703, 3144134277, 1013904242, 2773480762, 1359893119, 2600822924,
     528734635, 1541459225]"

definition sha_constants :: "32 word list" where
  "sha_constants =
    [1116352408, 1899447441, 3049323471, 3921009573, 961987163, 1508970993,
     2453635748, 2870763221, 3624381080, 310598401, 607225278, 1426881987,
     1925078388, 2162078206, 2614888103, 3248222580, 3835390401, 4022224774,
     264347078, 604807628, 770255983, 1249150122, 1555081692, 1996064986,
     2554220882, 2821834349, 2952996808, 3210313671, 3336571891, 3584528711,
     113926993, 338241895, 666307205, 773529912, 1294757372, 1396182291,
     1695183700, 1986661051, 2177026350, 2456956037, 2730485921, 2820302411,
     3259730800, 3345764771, 3516065817, 3600352804, 4094571909, 275423344,
     430227734, 506948616, 659060556, 883997877, 958139571, 1322822218,
     1537002063, 1747873779, 1955562222, 2024104815, 2227730452, 2361852424,
     2428436474, 2756734187, 3204031479, 3329325298]"

definition sha_pad :: "bytes \<Rightarrow> bytes" where
  "sha_pad m =
     m @ [0x80] @ replicate (nat ((55 - int (length m)) mod 64)) 0 @ rev (le_bytes 8 (8 * int (length m)))"

fun sha_words :: "bytes \<Rightarrow> 32 word list" where
  "sha_words (a # b # c # d # rest) = word_of_int (le_value [d, c, b, a]) # sha_words rest"
| "sha_words _ = []"

definition sha_schedule :: "32 word list \<Rightarrow> 32 word list" where
  "sha_schedule block =
     fold (\<lambda>i w.
       let x = w ! (i - 15); y = w ! (i - 2);
           s0 = word_rotr 7 x XOR word_rotr 18 x XOR drop_bit 3 x;
           s1 = word_rotr 17 y XOR word_rotr 19 y XOR drop_bit 10 y
       in w @ [w ! (i - 16) + s0 + w ! (i - 7) + s1]) [16..<64] block"

fun sha_round :: "32 word \<times> 32 word \<Rightarrow> 32 word list \<Rightarrow> 32 word list" where
  "sha_round (k, w) [a, b, c, d, e, f, g, h] =
     (let s1 = word_rotr 6 e XOR word_rotr 11 e XOR word_rotr 25 e;
          ch = (e AND f) XOR (NOT e AND g);
          t1 = h + s1 + ch + k + w;
          s0 = word_rotr 2 a XOR word_rotr 13 a XOR word_rotr 22 a;
          maj = (a AND b) XOR (a AND c) XOR (b AND c)
      in [t1 + s0 + maj, a, b, c, d + t1, e, f, g])"
| "sha_round _ state = state"

definition sha_block :: "32 word list \<Rightarrow> 32 word list \<Rightarrow> 32 word list" where
  "sha_block block state = map2 (+) state (fold sha_round (zip sha_constants (sha_schedule block)) state)"

definition chunks_of :: "nat \<Rightarrow> 'a list \<Rightarrow> 'a list list" where
  "chunks_of n xs = map (\<lambda>i. take n (drop (n * i) xs)) [0..<length xs div n]"

text \<open>\<open>hashlib.sha256(data).hexdigest()\<close>\<close>

definition sha256_hex :: "bytes \<Rightarrow> string" where
  "sha256_hex m =
     bytes_hex (concat (map (\<lambda>w. rev (le_bytes 4 (uint w)))
       (fold sha_block (chunks_of 16 (sha_words (sha_pad m))) sha_init)))"

end
