(* ===== verification/Journal.thy ===== *)
theory Journal
  imports Basic_Text Stores Python_Text "HOL-Library.AList"
begin

text \<open>
  \<open>TransferJournal\<close> of \<open>server/msx_transfer.py\<close>: the resume metadata of a transfer, one JSON file per
  transfer in a state directory. The state is the directory, the temporary file a save is writing
  and a script telling which of the coming system calls fail. A file is its length and the value
  \<open>json.loads\<close> makes of it; \<open>json_size\<close> is the length \<open>json.dumps\<close> gives a document, so that the size
  limit is exact. Strings are sequences of code points below 256. The operations are \<open>journal_save\<close>,
  \<open>journal_load\<close>, \<open>find_matching\<close> and \<open>journal_remove\<close>; the steps of a history are
  \<open>journal_step\<close>. On Windows the code replaces the \<open>O_NOFOLLOW\<close> open by comparing directory
  entries, which has the outcomes of \<open>read_no_follow\<close> when no other process interferes.
\<close>

subsection \<open>Hexadecimal text\<close>

fun bytes_fromhex :: "string \<Rightarrow> bytes" where
  "bytes_fromhex (a # b # rest) = of_nat (hex_value a * 16 + hex_value b) # bytes_fromhex rest"
| "bytes_fromhex _ = []"

text \<open>\<open>f"{v:08x}"\<close> for a value of at most 32 bits, and \<open>int(text, 16)\<close>.\<close>

definition hex8 :: "int \<Rightarrow> string" where
  "hex8 v = map (\<lambda>i. hex_digit (nat (v div 16 ^ i mod 16))) [7, 6, 5, 4, 3, 2, 1, 0]"

definition hex_int :: "string \<Rightarrow> int" where
  "hex_int s = foldl (\<lambda>a c. a * 16 + int (hex_value c)) 0 s"

subsection \<open>Documents\<close>

text \<open>
  What \<open>json.loads\<close> may return, as far as the code distinguishes it: \<open>JOther\<close> stands for floats and
  arrays. An object lists its members; \<open>json_get\<close> is \<open>dict.get\<close>.
\<close>

datatype json =
    JNull
  | JBool bool
  | JInt int
  | JStr string
  | JObj "(string \<times> json) list"
  | JOther

definition json_get :: "(string \<times> json) list \<Rightarrow> string \<Rightarrow> json option" where
  "json_get doc key = map_of doc key"

text \<open>Lengths of the text \<open>json.dumps\<close> writes with compact separators and ASCII escapes.\<close>

definition escaped_size :: "char \<Rightarrow> nat" where
  "escaped_size c =
     (let n = of_char c :: nat
      in if n \<in> {0x22, 0x5C, 8, 9, 10, 12, 13} then 2
         else if 0x20 \<le> n \<and> n \<le> 0x7E then 1 else 6)"

definition string_size :: "string \<Rightarrow> nat" where
  "string_size s = 2 + sum_list (map escaped_size s)"

fun digits_size :: "nat \<Rightarrow> nat" where
  "digits_size n = (if n < 10 then 1 else 1 + digits_size (n div 10))"

declare digits_size.simps [simp del]

fun json_size :: "json \<Rightarrow> nat" where
  "json_size JNull = 4"
| "json_size (JBool b) = (if b then 4 else 5)"
| "json_size (JInt i) = (if i < 0 then 1 else 0) + digits_size (nat \<bar>i\<bar>)"
| "json_size (JStr s) = string_size s"
| "json_size (JObj ms) =
     2 + (length ms - 1) + sum_list (map (\<lambda>(k, v). string_size k + 1 + json_size v) ms)"
| "json_size JOther = 0"

text \<open>The content of a file: its length and what \<open>json.loads\<close> makes of its ASCII text, if anything.\<close>

type_synonym content = "nat \<times> json option"

subsection \<open>The state directory\<close>

text \<open>
  A directory entry is a readable regular file, a regular file that cannot be opened, or anything
  else (a symbolic link, a directory, a device). The entries are in the order \<open>os.scandir\<close> lists
  them; \<open>None\<close> is a missing directory. The file \<open>mkstemp\<close> made is kept apart, its name being one
  that no operation looks for. \<open>jd_faults\<close> tells which of the coming system calls fail.
\<close>

datatype entry = Regular content | Unreadable | Special

record journal_dir =
  jd_entries :: "(string \<times> entry) list option"
  jd_temp :: "content option"
  jd_faults :: "bool list"

type_synonym 'a jio = "(journal_dir, transfer_error, 'a) comp"

definition entries_of :: "journal_dir \<Rightarrow> (string \<times> entry) list" where
  "entries_of s = (case jd_entries s of None \<Rightarrow> [] | Some es \<Rightarrow> es)"

definition os_call :: "unit jio" where
  "os_call s =
     (case jd_faults s of
        [] \<Rightarrow> (Inr (), s)
      | f # fs \<Rightarrow> (if f then Inl OSFailure else Inr (), s\<lparr>jd_faults := fs\<rparr>))"

definition modify :: "(journal_dir \<Rightarrow> journal_dir) \<Rightarrow> unit jio" where
  "modify f s = (Inr (), f s)"

definition put_entry :: "string \<Rightarrow> entry \<Rightarrow> journal_dir \<Rightarrow> journal_dir" where
  "put_entry name e s = s\<lparr>jd_entries := Some (AList.update name e (entries_of s))\<rparr>"

definition delete_entry :: "string \<Rightarrow> journal_dir \<Rightarrow> journal_dir" where
  "delete_entry name s = s\<lparr>jd_entries := Some (AList.delete name (entries_of s))\<rparr>"

subsection \<open>Records and documents\<close>

definition MAX_JOURNAL_BYTES :: nat where "MAX_JOURNAL_BYTES = 4096"

definition resumed_descriptor :: "journal_record \<Rightarrow> transfer_error + descriptor" where
  "resumed_descriptor r =
     replace_resume (jr_descriptor r) (jr_offset r) (jr_prefix_crc r) True (jr_close_intent r)"

definition V1_KEYS :: "string list" where
  "V1_KEYS = [''version'', ''transfer_id'', ''direction'', ''encoding'', ''wire_size'',
     ''wire_crc32'', ''final_size'', ''final_crc32'', ''path'',
     ''confirmed_offset'', ''prefix_crc32'', ''caller_binding'']"

definition V2_KEYS :: "string list" where "V2_KEYS = V1_KEYS @ [''close_intent'']"

definition V3_KEYS :: "string list" where "V3_KEYS = V2_KEYS @ [''data_plane'']"

definition path_for :: "bytes \<Rightarrow> transfer_error + string" where
  "path_for tid = bindE (transfer_id tid) (\<lambda>tid. Inr (bytes_hex tid @ ''.json''))"

primrec direction_name :: "transfer_direction \<Rightarrow> string" where
  "direction_name PUT = ''put''"
| "direction_name GET = ''get''"

primrec encoding_name :: "transfer_encoding \<Rightarrow> string" where
  "encoding_name RAW = ''raw''"
| "encoding_name PACKBITS = ''packbits''"

definition journal_document ::
  "descriptor \<Rightarrow> int \<Rightarrow> int \<Rightarrow> string option \<Rightarrow> bool \<Rightarrow> (string \<times> json) list" where
  "journal_document d offset prefix_crc caller close_intent =
     [(''version'', JInt 4),
      (''transfer_id'', JStr (bytes_hex (td_id d))),
      (''direction'', JStr (direction_name (td_direction d))),
      (''encoding'', JStr (encoding_name (td_encoding d))),
      (''wire_size'', JInt (td_wire_size d)),
      (''wire_crc32'', JStr (hex8 (td_wire_crc d))),
      (''final_size'', JInt (td_final_size d)),
      (''final_crc32'', JStr (hex8 (td_final_crc d))),
      (''path'', JStr (td_path d)),
      (''confirmed_offset'', JInt offset),
      (''prefix_crc32'', JStr (hex8 prefix_crc)),
      (''caller_binding'', (case caller of None \<Rightarrow> JNull | Some c \<Rightarrow> JStr c)),
      (''close_intent'', JBool close_intent)]"

definition caller_binding :: "string option \<Rightarrow> transfer_error + string option" where
  "caller_binding v =
     (case v of
        None \<Rightarrow> Inr None
      | Some s \<Rightarrow>
          if s = '''' \<or> length s > 2048 \<or> char_of (0 :: nat) \<in> set s then Inl TransferJournalError else Inr (Some s))"

subsection \<open>Reading a journal\<close>

definition upper_char :: "char \<Rightarrow> char" where
  "upper_char c = (if (97::nat) \<le> of_char c \<and> of_char c \<le> (122::nat) then char_of (of_char c - 32 :: nat) else c)"

definition direction_named :: "string \<Rightarrow> transfer_error + transfer_direction" where
  "direction_named s =
     (if map upper_char s = ''PUT'' then Inr PUT
      else if map upper_char s = ''GET'' then Inr GET else Inl TransferJournalError)"

definition encoding_named :: "string \<Rightarrow> transfer_error + transfer_encoding" where
  "encoding_named s =
     (if map upper_char s = ''RAW'' then Inr RAW
      else if map upper_char s = ''PACKBITS'' then Inr PACKBITS else Inl TransferJournalError)"

text \<open>Typed access to the members of a document; a missing member or another type is rejected.\<close>

definition json_str :: "json option \<Rightarrow> transfer_error + string" where
  "json_str v = (case v of Some (JStr s) \<Rightarrow> Inr s | _ \<Rightarrow> Inl TransferJournalError)"

definition json_int :: "json option \<Rightarrow> transfer_error + int" where
  "json_int v = (case v of Some (JInt i) \<Rightarrow> Inr i | _ \<Rightarrow> Inl TransferJournalError)"

definition json_bool :: "json option \<Rightarrow> transfer_error + bool" where
  "json_bool v = (case v of Some (JBool b) \<Rightarrow> Inr b | _ \<Rightarrow> Inl TransferJournalError)"

definition json_caller :: "json option \<Rightarrow> transfer_error + string option" where
  "json_caller v =
     (case v of
        Some JNull \<Rightarrow> caller_binding None
      | Some (JStr s) \<Rightarrow> caller_binding (Some s)
      | _ \<Rightarrow> Inl TransferJournalError)"

definition hex_crc :: "(string \<times> json) list \<Rightarrow> string \<Rightarrow> transfer_error + int" where
  "hex_crc doc key =
     bindE (json_str (json_get doc key)) (\<lambda>value.
       if length value \<noteq> 8 \<or> \<not> list_all is_hex value then Inl TransferJournalError
       else Inr (hex_int value))"

definition as_journal_error :: "transfer_error + 'a \<Rightarrow> transfer_error + 'a" where
  "as_journal_error r = (case r of Inl e \<Rightarrow> Inl TransferJournalError | Inr x \<Rightarrow> Inr x)"

text \<open>The schema: the version decides the fields, and a retired protocol is noted.\<close>

definition same_keys :: "(string \<times> json) list \<Rightarrow> string list \<Rightarrow> bool" where
  "same_keys doc keys \<longleftrightarrow> set (map fst doc) = set keys"

definition journal_schema :: "(string \<times> json) list \<Rightarrow> transfer_error + (bool \<times> bool)" where
  "journal_schema doc =
     bindE (json_int (json_get doc ''version'')) (\<lambda>version.
     bindE
       (if version = 1 then Inr (V1_KEYS, False, True)
        else if version = 2 then
          bindE (json_bool (json_get doc ''close_intent'')) (\<lambda>close_intent.
            Inr (V2_KEYS, close_intent, True))
        else if version = 3 then
          if \<not> same_keys doc V3_KEYS then Inl TransferJournalError
          else
            let legacy = (json_get doc ''data_plane'' \<noteq> Some (JStr ''fast-v1''))
            in bindE (json_bool (json_get doc ''close_intent'')) (\<lambda>close_intent.
                 Inr (V3_KEYS, close_intent, legacy))
        else if version = 4 then
          bindE (json_bool (json_get doc ''close_intent'')) (\<lambda>close_intent.
            Inr (V2_KEYS, close_intent, False))
        else Inl TransferJournalError)
       (\<lambda>(expected_keys, close_intent, legacy_protocol).
          if \<not> same_keys doc expected_keys then Inl TransferJournalError
          else Inr (close_intent, legacy_protocol)))"

definition journal_values :: "string \<Rightarrow> (string \<times> json) list \<Rightarrow> bool \<Rightarrow> transfer_error + journal_record" where
  "journal_values name doc close_intent =
     bindE (json_str (json_get doc ''transfer_id'')) (\<lambda>tid_text.
     if length tid_text \<noteq> 32 \<or> \<not> list_all is_hex tid_text then Inl TransferJournalError
     else if length name = 37 \<and> ends_with ''.json'' name \<and> take 32 name \<noteq> tid_text
     then Inl TransferJournalError
     else
       bindE (json_str (json_get doc ''direction'')) (\<lambda>direction_name.
       bindE (json_str (json_get doc ''encoding'')) (\<lambda>encoding_name.
       bindE (direction_named direction_name) (\<lambda>direction.
       bindE (encoding_named encoding_name) (\<lambda>encoding.
       bindE (json_int (json_get doc ''wire_size'')) (\<lambda>wire_size.
       bindE (json_int (json_get doc ''final_size'')) (\<lambda>final_size.
       bindE (json_int (json_get doc ''confirmed_offset'')) (\<lambda>offset.
       bindE (json_caller (json_get doc ''caller_binding'')) (\<lambda>caller.
       bindE (hex_crc doc ''wire_crc32'') (\<lambda>wire_crc.
       bindE (hex_crc doc ''final_crc32'') (\<lambda>final_crc.
       bindE (json_str (json_get doc ''path'')) (\<lambda>path.
       bindE (mk_descriptor (int_of_direction direction) (int_of_encoding encoding)
                (bytes_fromhex tid_text) wire_size wire_crc final_size final_crc path 0 0 False False)
         (\<lambda>saved.
       bindE (hex_crc doc ''prefix_crc32'') (\<lambda>prefix_crc.
       bindE (u32 offset) (\<lambda>offset.
         Inr \<lparr>jr_descriptor = saved, jr_offset = offset, jr_prefix_crc = prefix_crc,
              jr_caller = caller, jr_close_intent = close_intent\<rparr>)))))))))))))))"

definition journal_bounds :: "journal_record \<Rightarrow> bool \<Rightarrow> transfer_error + journal_record" where
  "journal_bounds r legacy_protocol =
     (let saved = jr_descriptor r
      in if jr_offset r > td_wire_size saved \<and> \<not> metadata_unknown saved then Inl TransferJournalError
      else if jr_offset r = 0 \<and> jr_prefix_crc r \<noteq> 0 then Inl TransferJournalError
      else if jr_close_intent r \<and> (td_direction saved \<noteq> PUT \<or> jr_offset r \<noteq> td_wire_size saved \<or>
                jr_prefix_crc r \<noteq> td_wire_crc saved) then Inl TransferJournalError
      else if legacy_protocol then Inl (TransferJournalLegacyError r)
      else Inr r)"

definition parse_journal :: "string \<Rightarrow> content \<Rightarrow> transfer_error + journal_record" where
  "parse_journal name encoded =
     (if fst encoded > MAX_JOURNAL_BYTES then Inl TransferJournalError
      else case snd encoded of
        Some (JObj doc) \<Rightarrow>
          bindE (journal_schema doc) (\<lambda>(close_intent, legacy_protocol).
          bindE (as_journal_error (journal_values name doc close_intent)) (\<lambda>r.
            journal_bounds r legacy_protocol))
      | _ \<Rightarrow> Inl TransferJournalError)"

definition read_no_follow :: "string \<Rightarrow> content jio" where
  "read_no_follow name s =
     (case map_of (entries_of s) name of
        None \<Rightarrow> (Inl FileNotFound, s)
      | Some (Regular c) \<Rightarrow> (Inr c, s)
      | Some _ \<Rightarrow> (Inl TransferJournalError, s))"

definition load_path :: "string \<Rightarrow> journal_record jio" where
  "load_path name = bindIO (read_no_follow name) (\<lambda>encoded. lift_result (parse_journal name encoded))"

subsection \<open>Operations\<close>

definition existing_record :: "string \<Rightarrow> journal_record option jio" where
  "existing_record name =
     catch (bindIO (load_path name) (\<lambda>r. ret (Some r)))
       (\<lambda>e. if e = FileNotFound then ret None else raise e)"

text \<open>
  Writing the file: \<open>mkstemp\<close>, then \<open>fchmod\<close>, the write, \<open>fsync\<close> and \<open>os.replace\<close>, each of which may
  fail; synchronising the directory afterwards is best effort.
\<close>

definition publish :: "string \<Rightarrow> content \<Rightarrow> unit jio" where
  "publish destination encoded =
     bindIO os_call (\<lambda>_.
     bindIO (modify (\<lambda>s. s\<lparr>jd_temp := Some (0, None)\<rparr>)) (\<lambda>_.
     on_error
       (bindIO os_call (\<lambda>_.
        bindIO os_call (\<lambda>_.
        bindIO (modify (\<lambda>s. s\<lparr>jd_temp := Some encoded\<rparr>)) (\<lambda>_.
        bindIO os_call (\<lambda>_.
        bindIO os_call (\<lambda>_.
        bindIO (modify (\<lambda>s. put_entry destination (Regular encoded) (s\<lparr>jd_temp := None\<rparr>))) (\<lambda>_.
          catch os_call (\<lambda>_. ret ()))))))))
       (\<lambda>s. s\<lparr>jd_temp := None\<rparr>)))"

text \<open>The guards on the record a save would replace.\<close>

definition check_existing ::
  "descriptor \<Rightarrow> string option \<Rightarrow> bool \<Rightarrow> journal_record option \<Rightarrow> transfer_error + unit" where
  "check_existing d caller close_intent existing =
     (case existing of
        None \<Rightarrow> Inr ()
      | Some r \<Rightarrow>
          let old = jr_descriptor r;
              get_metadata_promotion =
                (td_direction old = GET \<and> td_direction d = GET \<and> td_encoding old = td_encoding d \<and>
                 td_id old = td_id d \<and> td_path old = td_path d \<and> metadata_unknown old)
          in if (binding old \<noteq> binding d \<and> \<not> get_metadata_promotion) \<or> jr_caller r \<noteq> caller
             then Inl TransferBindingError
             else if jr_close_intent r \<and> \<not> close_intent then Inl TransferJournalError
             else Inr ())"

definition journal_save ::
  "descriptor \<Rightarrow> int \<Rightarrow> int \<Rightarrow> string option \<Rightarrow> bool \<Rightarrow> string jio" where
  "journal_save d offset prefix_crc caller close_intent =
     bindIO (lift_result (u32 offset)) (\<lambda>offset.
     bindIO (lift_result (u32 prefix_crc)) (\<lambda>prefix_crc.
     bindIO (guard (\<not> (offset > td_wire_size d \<and> \<not> metadata_unknown d)) TransferJournalError) (\<lambda>_.
     bindIO (guard (\<not> (offset = 0 \<and> prefix_crc \<noteq> 0)) TransferJournalError) (\<lambda>_.
     bindIO (guard (\<not> (close_intent \<and> (td_direction d \<noteq> PUT \<or> offset \<noteq> td_wire_size d \<or>
               prefix_crc \<noteq> td_wire_crc d))) TransferJournalError) (\<lambda>_.
     bindIO os_call (\<lambda>_.
     bindIO (modify (\<lambda>s. s\<lparr>jd_entries := Some (entries_of s)\<rparr>)) (\<lambda>_.
     bindIO (lift_result (path_for (td_id d))) (\<lambda>destination.
     bindIO (lift_result (caller_binding caller)) (\<lambda>caller.
     bindIO (existing_record destination) (\<lambda>existing.
     bindIO (lift_result (check_existing d caller close_intent existing)) (\<lambda>_.
     let document = JObj (journal_document d offset prefix_crc caller close_intent);
         encoded = (json_size document + 1, Some document)
     in
     bindIO (guard (fst encoded \<le> MAX_JOURNAL_BYTES) TransferJournalError) (\<lambda>_.
     bindIO (publish destination encoded) (\<lambda>_.
       ret destination)))))))))))))"

definition journal_load :: "descriptor \<Rightarrow> string option \<Rightarrow> journal_record option jio" where
  "journal_load expected caller =
     bindIO (lift_result (path_for (td_id expected))) (\<lambda>name.
     bindIO (existing_record name) (\<lambda>found.
       case found of
         None \<Rightarrow> ret None
       | Some r \<Rightarrow>
           bindIO (guard (binding (jr_descriptor r) = binding expected) TransferBindingError) (\<lambda>_.
           bindIO (lift_result (caller_binding caller)) (\<lambda>caller.
           bindIO (guard (\<not> (caller \<noteq> None \<and> jr_caller r \<noteq> caller)) TransferBindingError) (\<lambda>_.
             ret (Some r))))))"

definition matches_without_id :: "descriptor \<Rightarrow> descriptor \<Rightarrow> bool" where
  "matches_without_id saved expected \<longleftrightarrow>
     (if td_direction saved \<noteq> td_direction expected \<or> td_encoding saved \<noteq> td_encoding expected \<or>
         td_path saved \<noteq> td_path expected then False
      else metadata_unknown expected \<or>
        td_wire_size saved = td_wire_size expected \<and> td_wire_crc saved = td_wire_crc expected \<and>
        td_final_size saved = td_final_size expected \<and> td_final_crc saved = td_final_crc expected)"

definition journal_name :: "string \<Rightarrow> bool" where
  "journal_name name \<longleftrightarrow>
     \<not> (length name \<noteq> 37 \<or> \<not> ends_with ''.json'' name \<or> \<not> list_all is_hex (take 32 name))"

definition scan_entry ::
  "descriptor \<Rightarrow> string option \<Rightarrow> string \<Rightarrow> entry \<Rightarrow> transfer_error + journal_record list" where
  "scan_entry expected caller name e =
     (case e of
        Special \<Rightarrow> Inr []
      | Unreadable \<Rightarrow> Inl TransferJournalError
      | Regular encoded \<Rightarrow>
          (case parse_journal name encoded of
             Inl (TransferJournalLegacyError r) \<Rightarrow>
               if matches_without_id (jr_descriptor r) expected \<and> (caller = None \<or> jr_caller r = caller)
               then Inl (TransferJournalLegacyError r) else Inr []
           | Inl e \<Rightarrow> Inl e
           | Inr r \<Rightarrow>
               if \<not> matches_without_id (jr_descriptor r) expected then Inr []
               else if caller \<noteq> None \<and> jr_caller r \<noteq> caller then Inr []
               else Inr [r]))"

fun scan_entries ::
  "descriptor \<Rightarrow> string option \<Rightarrow> int \<Rightarrow> (string \<times> entry) list \<Rightarrow> int \<Rightarrow> journal_record list \<Rightarrow>
   transfer_error + journal_record list" where
  "scan_entries expected caller max_entries [] inspected found = Inr found"
| "scan_entries expected caller max_entries ((name, e) # es) inspected found =
     (if \<not> journal_name name then scan_entries expected caller max_entries es inspected found
      else if inspected + 1 > max_entries then Inl TransferJournalError
      else bindE (scan_entry expected caller name e) (\<lambda>rs.
             scan_entries expected caller max_entries es (inspected + 1) (found @ rs)))"

definition find_matching :: "descriptor \<Rightarrow> string option \<Rightarrow> int \<Rightarrow> journal_record option jio" where
  "find_matching expected caller max_entries =
     bindIO (guard (1 \<le> max_entries \<and> max_entries \<le> 256) TransferJournalError) (\<lambda>_.
     bindIO (lift_result (caller_binding caller)) (\<lambda>caller s.
       (case jd_entries s of
          None \<Rightarrow> (Inr None, s)
        | Some es \<Rightarrow>
            (bindE (scan_entries expected caller max_entries es 0 []) (\<lambda>found.
               if length found > 1 then Inl TransferJournalError
               else Inr (case found of [] \<Rightarrow> None | r # _ \<Rightarrow> Some r)), s))))"

definition journal_remove :: "descriptor \<Rightarrow> string option \<Rightarrow> bool jio" where
  "journal_remove expected caller =
     bindIO (journal_load expected caller) (\<lambda>found.
       case found of
         None \<Rightarrow> ret False
       | Some _ \<Rightarrow>
           bindIO (lift_result (path_for (td_id expected))) (\<lambda>name.
           bindIO os_call (\<lambda>_.
           bindIO (modify (delete_entry name)) (\<lambda>_. ret True))))"

subsection \<open>Hexadecimal round trips\<close>

lemma bytes_fromhex_hex [simp]: "bytes_fromhex (bytes_hex bs) = bs"
  by (induction bs) (simp_all add: bytes_hex_def)

lemma bytes_hex_inj [simp]: "(bytes_hex a = bytes_hex b) = (a = b)"
  by (metis bytes_fromhex_hex)

lemma hex8_shape [simp]: "length (hex8 v) = 8" "list_all is_hex (hex8 v)"
  by (simp_all add: hex8_def nat_less_iff)

lemma hex_int_fold:
  "foldl (\<lambda>a c. a * 16 + int (hex_value c)) acc
     (map (\<lambda>i. hex_digit (nat (v div 16 ^ i mod 16))) (rev [0..<n])) = acc * 16 ^ n + v mod 16 ^ n"
proof (induction n arbitrary: acc)
  case (Suc n)
  have d: "int (hex_value (hex_digit (nat (v div 16 ^ n mod 16)))) = v div 16 ^ n mod 16"
    using pos_mod_bound [of 16 "v div 16 ^ n"] by (simp add: nat_less_iff)
  have "v mod 16 ^ Suc n = 16 ^ n * (v div 16 ^ n mod 16) + v mod 16 ^ n"
    using zmod_zmult2_eq [of 16 v "16 ^ n"] by (simp add: mult.commute)
  moreover have "(acc * 16 + v div 16 ^ n mod 16) * 16 ^ n + v mod 16 ^ n =
      acc * 16 ^ Suc n + (16 ^ n * (v div 16 ^ n mod 16) + v mod 16 ^ n)"
    by (simp add: algebra_simps)
  ultimately show ?case by (simp add: Suc.IH d)
qed simp

lemma hex_int_hex8 [simp]:
  assumes "0 \<le> v" "v \<le> UINT32_MAX"
  shows "hex_int (hex8 v) = v"
proof -
  have "[7, 6, 5, 4, 3, 2, 1, 0] = rev [0..<8]" by (simp add: upt_rec)
  then have "hex_int (hex8 v) = v mod 16 ^ 8"
    using hex_int_fold [of 0 v 8] by (simp only: hex_int_def hex8_def mult_zero_left add_0_left)
  then show ?thesis using assms by (simp add: UINT32_MAX_def)
qed

lemma hex_value_bound: "is_hex c \<Longrightarrow> hex_value c < 16"
  by (auto simp: is_hex_def hex_digits_def hex_value_def)

lemma hex_int_bounds: "list_all is_hex s \<Longrightarrow> 0 \<le> hex_int s \<and> hex_int s < 16 ^ length s"
proof (induction s rule: rev_induct)
  case (snoc c s)
  then have "int (hex_value c) \<le> 15" using hex_value_bound [of c] by simp
  then show ?case using snoc by (simp add: hex_int_def)
qed (simp add: hex_int_def)

subsection \<open>Records\<close>

text \<open>A record as the journal stores it: the descriptor without its resume fields.\<close>

definition base_descriptor :: "descriptor \<Rightarrow> descriptor" where
  "base_descriptor d =
     d\<lparr>td_resume_offset := 0, td_resume_crc := 0, td_resume := False, td_replay := False\<rparr>"

definition wf_caller :: "string option \<Rightarrow> bool" where
  "wf_caller c \<longleftrightarrow> caller_binding c = Inr c"

definition wf_record :: "journal_record \<Rightarrow> bool" where
  "wf_record r \<longleftrightarrow>
     wf_descriptor (jr_descriptor r) \<and> base_descriptor (jr_descriptor r) = jr_descriptor r \<and>
     0 \<le> jr_offset r \<and> jr_offset r \<le> UINT32_MAX \<and>
     0 \<le> jr_prefix_crc r \<and> jr_prefix_crc r \<le> UINT32_MAX \<and>
     (jr_offset r \<le> td_wire_size (jr_descriptor r) \<or> metadata_unknown (jr_descriptor r)) \<and>
     (jr_offset r = 0 \<longrightarrow> jr_prefix_crc r = 0) \<and>
     (jr_close_intent r \<longrightarrow> td_direction (jr_descriptor r) = PUT \<and>
        jr_offset r = td_wire_size (jr_descriptor r) \<and>
        jr_prefix_crc r = td_wire_crc (jr_descriptor r)) \<and>
     wf_caller (jr_caller r)"

lemma caller_binding_Inr [result_simps]: "(caller_binding c = Inr c') = (c' = c \<and> wf_caller c)"
  by (auto simp: wf_caller_def caller_binding_def split: option.splits if_splits)

lemma base_descriptor_simps [simp]:
  "td_direction (base_descriptor d) = td_direction d" "td_encoding (base_descriptor d) = td_encoding d"
  "td_id (base_descriptor d) = td_id d" "td_wire_size (base_descriptor d) = td_wire_size d"
  "td_wire_crc (base_descriptor d) = td_wire_crc d" "td_final_size (base_descriptor d) = td_final_size d"
  "td_final_crc (base_descriptor d) = td_final_crc d" "td_path (base_descriptor d) = td_path d"
  "binding (base_descriptor d) = binding d" "metadata_unknown (base_descriptor d) = metadata_unknown d"
  "base_descriptor (base_descriptor d) = base_descriptor d"
  by (simp_all add: base_descriptor_def binding_def metadata_unknown_def)

lemma wf_base_descriptor: "wf_descriptor d \<Longrightarrow> wf_descriptor (base_descriptor d)"
  by (simp add: wf_descriptor_def base_descriptor_def metadata_unknown_def)

lemma mk_base_descriptor:
  "wf_descriptor d \<Longrightarrow>
     mk_descriptor (int_of_direction (td_direction d)) (int_of_encoding (td_encoding d)) (td_id d)
       (td_wire_size d) (td_wire_crc d) (td_final_size d) (td_final_crc d) (td_path d) 0 0 False False
     = Inr (base_descriptor d)"
  using wf_base_descriptor [of d] by (cases d) (simp add: mk_descriptor_Inr base_descriptor_def)

text \<open>Whatever the journal returns can be resumed: the constructor accepts the resumed descriptor.\<close>

lemma resumed_descriptor_ok:
  assumes "wf_record r"
  shows "\<exists>d. resumed_descriptor r = Inr d \<and> wf_descriptor d \<and> binding d = binding (jr_descriptor r) \<and>
    td_resume d \<and> td_resume_offset d = jr_offset r \<and> td_resume_crc d = jr_prefix_crc r \<and>
    td_replay d = jr_close_intent r"
  using assms
  by (auto simp: resumed_descriptor_def replace_resume_def mk_descriptor_Inr wf_record_def
      wf_descriptor_def metadata_unknown_def binding_def)

subsection \<open>Parsing\<close>

lemma json_access_Inr [result_simps]:
  "(json_str v = Inr s) = (v = Some (JStr s))"
  "(json_int v = Inr i) = (v = Some (JInt i))"
  "(json_bool v = Inr b) = (v = Some (JBool b))"
  by (auto simp: json_str_def json_int_def json_bool_def split: option.splits json.splits)

lemma json_caller_Inr [result_simps]:
  "(json_caller v = Inr c) = (wf_caller c \<and> v = Some (case c of None \<Rightarrow> JNull | Some s \<Rightarrow> JStr s))"
  by (auto simp: json_caller_def result_simps split: option.splits json.splits)

lemma hex_crc_bounds: "hex_crc doc key = Inr v \<Longrightarrow> 0 \<le> v \<and> v \<le> UINT32_MAX"
  using hex_int_bounds by (auto simp: hex_crc_def result_simps UINT32_MAX_def split: if_splits) fastforce

lemma journal_values_wf:
  assumes "journal_values name doc close_intent = Inr r"
  shows "wf_descriptor (jr_descriptor r) \<and> base_descriptor (jr_descriptor r) = jr_descriptor r \<and>
     0 \<le> jr_offset r \<and> jr_offset r \<le> UINT32_MAX \<and> 0 \<le> jr_prefix_crc r \<and> jr_prefix_crc r \<le> UINT32_MAX \<and>
     wf_caller (jr_caller r) \<and> jr_close_intent r = close_intent \<and>
     (length name = 37 \<and> ends_with ''.json'' name \<longrightarrow>
        td_id (jr_descriptor r) = bytes_fromhex (take 32 name))"
  using assms
  by (auto simp: journal_values_def result_simps mk_descriptor_Inr base_descriptor_def
      dest: hex_crc_bounds split: if_splits)

lemma as_journal_error_Inr [result_simps]: "(as_journal_error r = Inr x) = (r = Inr x)"
  by (simp add: as_journal_error_def split: sum.splits)

lemma parse_journal_Inr:
  assumes "parse_journal name c = Inr r"
  obtains doc where "snd c = Some (JObj doc)" "journal_schema doc = Inr (jr_close_intent r, False)"
    "journal_values name doc (jr_close_intent r) = Inr r" "journal_bounds r False = Inr r"
    "fst c \<le> MAX_JOURNAL_BYTES"
proof -
  from assms obtain doc where doc: "snd c = Some (JObj doc)" "fst c \<le> MAX_JOURNAL_BYTES"
    "bindE (journal_schema doc) (\<lambda>(close_intent, legacy_protocol).
        bindE (as_journal_error (journal_values name doc close_intent)) (\<lambda>r.
          journal_bounds r legacy_protocol)) = Inr r"
    by (auto simp: parse_journal_def split: if_splits option.splits json.splits)
  then obtain ci legacy r0 where s: "journal_schema doc = Inr (ci, legacy)"
    "journal_values name doc ci = Inr r0" "journal_bounds r0 legacy = Inr r"
    by (auto simp: bindE_eq_Inr as_journal_error_Inr)
  then have "r0 = r" "\<not> legacy" by (auto simp: journal_bounds_def Let_def split: if_splits)
  with s journal_values_wf [OF s(2)] doc that show ?thesis by auto
qed

lemma parse_journal_wf: "parse_journal name c = Inr r \<Longrightarrow> wf_record r"
  by (elim parse_journal_Inr)
    (auto simp: journal_bounds_def Let_def wf_record_def dest: journal_values_wf split: if_splits)

lemma parse_journal_name:
  assumes "parse_journal (bytes_hex tid @ ''.json'') c = Inr r" "length tid = 16"
  shows "td_id (jr_descriptor r) = tid"
  using assms(1)
  by (elim parse_journal_Inr) (use assms(2) in \<open>auto simp: ends_with_def dest!: journal_values_wf\<close>)

lemma direction_named_name [simp]: "direction_named (direction_name d) = Inr d"
  by (cases d; simp only:; code_simp)

lemma encoding_named_name [simp]: "encoding_named (encoding_name e) = Inr e"
  by (cases e; simp only:; code_simp)

definition stored_record :: "descriptor \<Rightarrow> int \<Rightarrow> int \<Rightarrow> string option \<Rightarrow> bool \<Rightarrow> journal_record" where
  "stored_record d offset prefix_crc caller close_intent =
     \<lparr>jr_descriptor = base_descriptor d, jr_offset = offset, jr_prefix_crc = prefix_crc,
      jr_caller = caller, jr_close_intent = close_intent\<rparr>"

lemma parse_journal_document:
  assumes "wf_record (stored_record d offset prefix_crc caller close_intent)" "wf_descriptor d"
    and "size_ok \<le> MAX_JOURNAL_BYTES"
  shows "parse_journal (bytes_hex (td_id d) @ ''.json'')
      (size_ok, Some (JObj (journal_document d offset prefix_crc caller close_intent)))
    = Inr (stored_record d offset prefix_crc caller close_intent)"
proof -
  let ?doc = "journal_document d offset prefix_crc caller close_intent"
  have get: "map_of ?doc ''version'' = Some (JInt 4)"
    "map_of ?doc ''transfer_id'' = Some (JStr (bytes_hex (td_id d)))"
    "map_of ?doc ''direction'' = Some (JStr (direction_name (td_direction d)))"
    "map_of ?doc ''encoding'' = Some (JStr (encoding_name (td_encoding d)))"
    "map_of ?doc ''wire_size'' = Some (JInt (td_wire_size d))"
    "map_of ?doc ''wire_crc32'' = Some (JStr (hex8 (td_wire_crc d)))"
    "map_of ?doc ''final_size'' = Some (JInt (td_final_size d))"
    "map_of ?doc ''final_crc32'' = Some (JStr (hex8 (td_final_crc d)))"
    "map_of ?doc ''path'' = Some (JStr (td_path d))"
    "map_of ?doc ''confirmed_offset'' = Some (JInt offset)"
    "map_of ?doc ''prefix_crc32'' = Some (JStr (hex8 prefix_crc))"
    "map_of ?doc ''caller_binding'' = Some (case caller of None \<Rightarrow> JNull | Some c \<Rightarrow> JStr c)"
    "map_of ?doc ''close_intent'' = Some (JBool close_intent)"
    by (simp_all add: journal_document_def)
  have keys: "same_keys ?doc V2_KEYS"
    by (simp add: same_keys_def journal_document_def V2_KEYS_def V1_KEYS_def)
  have wf: "length (td_id d) = 16" "0 \<le> td_wire_crc d" "td_wire_crc d \<le> UINT32_MAX"
    "0 \<le> td_final_crc d" "td_final_crc d \<le> UINT32_MAX"
    using assms(2) by (auto simp: wf_descriptor_def)
  have rec: "0 \<le> offset" "offset \<le> UINT32_MAX" "0 \<le> prefix_crc" "prefix_crc \<le> UINT32_MAX" "wf_caller caller"
    "json_caller (Some (case caller of None \<Rightarrow> JNull | Some c \<Rightarrow> JStr c)) = Inr caller"
    using assms(1) by (auto simp: wf_record_def stored_record_def result_simps)
  have schema: "journal_schema ?doc = Inr (close_intent, False)"
    by (simp add: journal_schema_def json_get_def get keys json_int_def json_bool_def)
  have vals: "journal_values (bytes_hex (td_id d) @ ''.json'') ?doc close_intent =
      Inr (stored_record d offset prefix_crc caller close_intent)"
    using rec wf by (simp add: journal_values_def json_get_def get hex_crc_def json_str_def json_int_def
        mk_base_descriptor [OF assms(2)] u32_def stored_record_def)
  have "journal_bounds (stored_record d offset prefix_crc caller close_intent) False =
      Inr (stored_record d offset prefix_crc caller close_intent)"
    using assms(1) by (auto simp: journal_bounds_def wf_record_def stored_record_def Let_def)
  then show ?thesis
    using assms(3) schema vals by (simp add: parse_journal_def as_journal_error_def)
qed

subsection \<open>Rules for the operations\<close>

lemma wp_modify: "wp (k ()) Q (f s) \<Longrightarrow> wp (bindIO (modify f) k) Q s"
  by (simp add: wp_def bindIO_def modify_def)

text \<open>\<open>same_files\<close>: only pending system calls were used up.\<close>

definition same_files :: "journal_dir \<Rightarrow> journal_dir \<Rightarrow> bool" where
  "same_files s s' \<longleftrightarrow> jd_entries s' = jd_entries s \<and> jd_temp s' = jd_temp s"

lemma wp_os_call: "wp os_call (\<lambda>r s'. same_files s s' \<and> (r = Inr () \<or> r = Inl OSFailure)) s"
  by (rule wpI) (auto simp: os_call_def same_files_def split: list.splits if_splits)

lemma wp_bind_os_call:
  assumes "\<And>s'. same_files s s' \<Longrightarrow> Q (Inl OSFailure) s'"
    and "\<And>s'. same_files s s' \<Longrightarrow> wp (k ()) Q s'"
  shows "wp (bindIO os_call k) Q s"
  by (rule wp_bind [OF wp_os_call]) (use assms in auto)

definition read_record :: "string \<Rightarrow> (string \<times> entry) list \<Rightarrow> transfer_error + journal_record option" where
  "read_record name es =
     (case map_of es name of
        None \<Rightarrow> Inr None
      | Some (Regular c) \<Rightarrow> bindE (parse_journal name c) (\<lambda>r. Inr (Some r))
      | Some _ \<Rightarrow> Inl TransferJournalError)"

lemma json_access_Inl:
  "json_str v = Inl e \<Longrightarrow> e = TransferJournalError"
  "json_int v = Inl e \<Longrightarrow> e = TransferJournalError"
  "json_bool v = Inl e \<Longrightarrow> e = TransferJournalError"
  by (auto simp: json_str_def json_int_def json_bool_def split: option.splits json.splits)

lemma journal_schema_Inl: "journal_schema doc = Inl e \<Longrightarrow> e = TransferJournalError"
  by (auto simp: journal_schema_def bindE_eq_Inl Let_def dest: json_access_Inl split: if_splits)

lemma parse_journal_Inl:
  "parse_journal name c = Inl e \<Longrightarrow> e = TransferJournalError \<or> (\<exists>r. e = TransferJournalLegacyError r)"
  by (auto simp: parse_journal_def journal_bounds_def as_journal_error_def bindE_eq_Inl Let_def
      dest: journal_schema_Inl split: if_splits option.splits json.splits sum.splits)

lemma existing_record_eq: "existing_record name s = (read_record name (entries_of s), s)"
  using parse_journal_Inl [of name]
  by (auto simp: existing_record_def read_record_def load_path_def read_no_follow_def catch_def bindIO_def
      split: option.splits entry.splits sum.splits)

lemma wp_existing:
  assumes "\<And>e. read_record name (entries_of s) = Inl e \<Longrightarrow> Q (Inl e) s"
    and "\<And>x. read_record name (entries_of s) = Inr x \<Longrightarrow> wp (k x) Q s"
  shows "wp (bindIO (existing_record name) k) Q s"
  using assms by (cases "read_record name (entries_of s)") (simp_all add: wp_def bindIO_def existing_record_eq)

lemma read_record_wf: "read_record name es = Inr (Some r) \<Longrightarrow> wf_record r"
  by (auto simp: read_record_def bindE_eq_Inr dest: parse_journal_wf split: option.splits entry.splits)

lemma wp_publish:
  assumes "jd_temp s = None"
  shows "wp (publish name encoded)
     (\<lambda>r s'. jd_temp s' = None \<and>
        (r = Inl OSFailure \<and> jd_entries s' = jd_entries s \<or>
         r = Inr () \<and> jd_entries s' = Some (AList.update name (Regular encoded) (entries_of s)))) s"
proof -
  let ?Q = "\<lambda>r s'. jd_temp s' = None \<and>
        (r = Inl OSFailure \<and> jd_entries s' = jd_entries s \<or>
         r = Inr () \<and> jd_entries s' = Some (AList.update name (Regular encoded) (entries_of s)))"
  let ?P = "\<lambda>r s'. (r = Inl OSFailure \<and> jd_entries s' = jd_entries s \<or>
         r = Inr () \<and> jd_temp s' = None \<and>
         jd_entries s' = Some (AList.update name (Regular encoded) (entries_of s)))"
  have last: "wp (catch os_call (\<lambda>_. ret ())) ?P s1"
    if "jd_temp s1 = None" "jd_entries s1 = Some (AList.update name (Regular encoded) (entries_of s))" for s1
    by (rule wp_catch [OF wp_os_call]) (use that in \<open>auto simp: same_files_def\<close>)
  have body: "wp (bindIO os_call (\<lambda>_.
        bindIO os_call (\<lambda>_.
        bindIO (modify (\<lambda>s. s\<lparr>jd_temp := Some encoded\<rparr>)) (\<lambda>_.
        bindIO os_call (\<lambda>_.
        bindIO os_call (\<lambda>_.
        bindIO (modify (\<lambda>s. put_entry name (Regular encoded) (s\<lparr>jd_temp := None\<rparr>))) (\<lambda>_.
          catch os_call (\<lambda>_. ret ())))))))) ?P s1" if "jd_entries s1 = jd_entries s" for s1
    by (intro wp_bind_os_call wp_modify last)
      (use that in \<open>simp_all add: same_files_def put_entry_def entries_of_def\<close>)
  show ?thesis
    unfolding publish_def
    by (intro wp_bind_os_call wp_modify, simp_all add: same_files_def assms)
      (rule wp_on_error [OF body], auto)
qed

text \<open>What a save may do to the record it replaces.\<close>

definition evolves :: "journal_record \<Rightarrow> journal_record \<Rightarrow> bool" where
  "evolves r r' \<longleftrightarrow>
     jr_caller r' = jr_caller r \<and> (jr_close_intent r \<longrightarrow> jr_close_intent r') \<and>
     td_id (jr_descriptor r') = td_id (jr_descriptor r) \<and>
     td_direction (jr_descriptor r') = td_direction (jr_descriptor r) \<and>
     td_encoding (jr_descriptor r') = td_encoding (jr_descriptor r) \<and>
     td_path (jr_descriptor r') = td_path (jr_descriptor r) \<and>
     (binding (jr_descriptor r') = binding (jr_descriptor r) \<or> metadata_unknown (jr_descriptor r))"

definition save_outcome ::
  "descriptor \<Rightarrow> int \<Rightarrow> int \<Rightarrow> string option \<Rightarrow> bool \<Rightarrow> journal_dir \<Rightarrow>
   transfer_error + string \<Rightarrow> journal_dir \<Rightarrow> bool" where
  "save_outcome d offset prefix_crc caller close_intent s r s' \<longleftrightarrow>
     jd_temp s' = None \<and>
     (case r of
        Inl e \<Rightarrow> entries_of s' = entries_of s
      | Inr name \<Rightarrow>
          name = bytes_hex (td_id d) @ ''.json'' \<and>
          wf_record (stored_record d offset prefix_crc caller close_intent) \<and>
          (\<exists>n. n \<le> MAX_JOURNAL_BYTES \<and>
             jd_entries s' = Some (AList.update name
               (Regular (n, Some (JObj (journal_document d offset prefix_crc caller close_intent))))
               (entries_of s))) \<and>
          (\<exists>old. read_record name (entries_of s) = Inr old \<and>
             (case old of None \<Rightarrow> True
              | Some r \<Rightarrow> evolves r (stored_record d offset prefix_crc caller close_intent))))"

lemma check_existing_Inr:
  "check_existing d caller close_intent (Some r) = Inr u \<Longrightarrow>
     evolves r (stored_record d offset prefix_crc caller close_intent)"
  by (auto simp: check_existing_def evolves_def stored_record_def binding_def Let_def split: if_splits)

lemma read_record_id:
  "read_record (bytes_hex tid @ ''.json'') es = Inr (Some r) \<Longrightarrow> length tid = 16 \<Longrightarrow>
     td_id (jr_descriptor r) = tid"
  by (auto simp: read_record_def bindE_eq_Inr dest: parse_journal_name split: option.splits entry.splits)

lemma path_for_Inr: "(path_for tid = Inr name) = (length tid = 16 \<and> name = bytes_hex tid @ ''.json'')"
  by (auto simp: path_for_def result_simps)

lemma save_outcome_kept:
  "jd_temp s = None \<Longrightarrow> same_files s s' \<Longrightarrow> save_outcome d offset prefix_crc caller close_intent s (Inl e) s'"
  by (simp add: save_outcome_def same_files_def entries_of_def)

lemma wf_stored_record:
  assumes "wf_descriptor d" "0 \<le> offset \<and> offset \<le> UINT32_MAX" "0 \<le> prefix_crc \<and> prefix_crc \<le> UINT32_MAX"
    and "\<not> (offset > td_wire_size d \<and> \<not> metadata_unknown d)" "\<not> (offset = 0 \<and> prefix_crc \<noteq> 0)"
    and "\<not> (close_intent \<and> (td_direction d \<noteq> PUT \<or> offset \<noteq> td_wire_size d \<or> prefix_crc \<noteq> td_wire_crc d))"
    and "wf_caller caller"
  shows "wf_record (stored_record d offset prefix_crc caller close_intent)"
  using assms by (auto simp: wf_record_def stored_record_def wf_base_descriptor)

lemma journal_save_wp:
  assumes d: "wf_descriptor d" and temp: "jd_temp s = None"
  shows "wp (journal_save d offset prefix_crc caller close_intent)
    (save_outcome d offset prefix_crc caller close_intent s) s"
proof -
  let ?Q = "save_outcome d offset prefix_crc caller close_intent s"
  let ?doc = "JObj (journal_document d offset prefix_crc caller close_intent)"
  let ?name = "bytes_hex (td_id d) @ ''.json''"
  have id: "length (td_id d) = 16" using d by (simp add: wf_descriptor_def)
  have early: "?Q (Inl e) s" for e using temp by (simp add: save_outcome_def)
  have made: "?Q (Inl e) (s2\<lparr>jd_entries := Some (entries_of s2)\<rparr>)" if "same_files s s2" for e s2
    using that temp by (simp add: save_outcome_def same_files_def entries_of_def)
  have writing: "wp (bindIO (guard (n \<le> MAX_JOURNAL_BYTES) TransferJournalError) (\<lambda>_.
      bindIO (publish ?name (n, Some ?doc)) (\<lambda>_. ret ?name))) ?Q (s2\<lparr>jd_entries := Some (entries_of s2)\<rparr>)"
    if "same_files s s2" "wf_record (stored_record d offset prefix_crc caller close_intent)"
      "read_record ?name (entries_of s2) = Inr old"
      "\<And>r. old = Some r \<Longrightarrow> evolves r (stored_record d offset prefix_crc caller close_intent)" for n s2 old
  proof (rule wp_guard)
    show "?Q (Inl TransferJournalError) (s2\<lparr>jd_entries := Some (entries_of s2)\<rparr>)"
      by (rule made [OF that(1)])
    assume n: "n \<le> MAX_JOURNAL_BYTES"
    have e: "entries_of s2 = entries_of s" using that(1) by (simp add: same_files_def entries_of_def)
    show "wp (bindIO (publish ?name (n, Some ?doc)) (\<lambda>_. ret ?name)) ?Q (s2\<lparr>jd_entries := Some (entries_of s2)\<rparr>)"
    proof (rule wp_bind [OF wp_publish], goal_cases)
      case 1
      then show ?case using that(1) temp by (simp add: same_files_def)
    next
      case (2 err s3)
      then show ?case by (auto simp: save_outcome_def entries_of_def e) (simp add: e [unfolded entries_of_def])
    next
      case (3 u s3)
      then show ?case using that n
        by (auto simp: save_outcome_def e entries_of_def [of "s2\<lparr>jd_entries := x\<rparr>" for x] split: option.split)
    qed
  qed
  have checked: "wp (bindIO (lift_result (check_existing d caller close_intent old)) (\<lambda>_.
      bindIO (guard (n \<le> MAX_JOURNAL_BYTES) TransferJournalError) (\<lambda>_.
      bindIO (publish ?name (n, Some ?doc)) (\<lambda>_. ret ?name)))) ?Q (s2\<lparr>jd_entries := Some (entries_of s2)\<rparr>)"
    if "same_files s s2" "wf_record (stored_record d offset prefix_crc caller close_intent)"
      "read_record ?name (entries_of s2) = Inr old" for n s2 old
    by (rule wp_lift, rule made [OF that(1)], rule writing [OF that])
      (auto intro: check_existing_Inr)
  show ?thesis
    unfolding journal_save_def Let_def fst_conv
  proof (intro wp_lift wp_guard wp_bind_os_call wp_modify, goal_cases)
    case (1 e) show ?case by (rule early)
  next
    case (2 a e) show ?case by (rule early)
  next
    case (3 a b) show ?case by (rule early)
  next
    case (4 a b) show ?case by (rule early)
  next
    case (5 a b) show ?case by (rule early)
  next
    case (6 a b s2)
    then show ?case using temp by (auto simp: save_outcome_def same_files_def entries_of_def)
  next
    case (7 a b s2 e)
    then show ?case using id by (simp add: path_for_def transfer_id_def)
  next
    case (8 a b s2 name e)
    then show ?case by (blast intro: made)
  next
    case (9 a b s2 name c)
    have name: "name = ?name" using 9 by (simp add: path_for_Inr)
    have args: "a = offset" "b = prefix_crc" "c = caller" and
      wf: "wf_record (stored_record d offset prefix_crc caller close_intent)"
      using 9 by (auto simp: result_simps intro!: wf_stored_record [OF d])
    have e: "entries_of (s2\<lparr>jd_entries := Some (entries_of s2)\<rparr>) = entries_of s2"
      by (simp add: entries_of_def)
    show ?case
      unfolding args name
    proof (rule wp_existing, goal_cases)
      case (1 err) show ?case by (rule made [OF 9(6)])
    next
      case (2 old) then show ?case unfolding e by (rule checked [OF 9(6) wf])
    qed
  qed
qed

subsection \<open>Histories\<close>

text \<open>
  One call on the journal, by any caller, that does not remove the journal \<open>name\<close>: saves for any
  transfer, whether they succeed or fail, loads, discoveries, and removals of other journals.
\<close>

inductive journal_step :: "string \<Rightarrow> journal_dir \<Rightarrow> journal_dir \<Rightarrow> bool" for name where
  save: "journal_save d offset prefix_crc caller close_intent s = (r, s') \<Longrightarrow> wf_descriptor d \<Longrightarrow>
           journal_step name s s'"
| load: "journal_load d caller s = (r, s') \<Longrightarrow> journal_step name s s'"
| discover: "find_matching d caller max_entries s = (r, s') \<Longrightarrow> journal_step name s s'"
| remove: "journal_remove d caller s = (r, s') \<Longrightarrow> path_for (td_id d) \<noteq> Inr name \<Longrightarrow>
           journal_step name s s'"

definition journal_view :: "string \<Rightarrow> journal_dir \<Rightarrow> journal_record option" where
  "journal_view name s =
     (if jd_temp s \<noteq> None then None
      else case read_record name (entries_of s) of Inr (Some r) \<Rightarrow> Some r | _ \<Rightarrow> None)"

lemma journal_view_Some:
  "journal_view name s = Some r \<longleftrightarrow> jd_temp s = None \<and> read_record name (entries_of s) = Inr (Some r)"
  by (cases "jd_temp s") (auto simp: journal_view_def split: sum.splits option.splits)

lemma evolves_refl: "evolves r r"
  by (simp add: evolves_def)

lemma bindIO_existing:
  "bindIO (existing_record name) k s =
     (case read_record name (entries_of s) of Inl e \<Rightarrow> (Inl e, s) | Inr x \<Rightarrow> k x s)"
  by (simp add: bindIO_def existing_record_eq split: sum.splits)

lemma journal_load_unchanged: "journal_load d caller s = (r, s') \<Longrightarrow> s' = s"
  by (auto simp: journal_load_def existing_record_eq bindIO_def lift_result_def guard_def
      split: sum.splits option.splits prod.splits if_splits)

lemma find_matching_unchanged: "find_matching d caller m s = (r, s') \<Longrightarrow> s' = s"
  by (auto simp: find_matching_def bindIO_def lift_result_def guard_def
      split: sum.splits option.splits prod.splits if_splits)

lemma journal_remove_outcome:
  assumes "journal_remove d caller s = (r, s')"
  shows "jd_temp s' = jd_temp s \<and>
    (entries_of s' = entries_of s \<and> r \<noteq> Inr True \<or>
     (\<exists>name. path_for (td_id d) = Inr name \<and> r = Inr True \<and> entries_of s' = AList.delete name (entries_of s)))"
proof -
  have "wp (journal_remove d caller) (\<lambda>r s'. jd_temp s' = jd_temp s \<and>
    (entries_of s' = entries_of s \<and> r \<noteq> Inr True \<or>
     (\<exists>name. path_for (td_id d) = Inr name \<and> r = Inr True \<and> entries_of s' = AList.delete name (entries_of s)))) s"
    (is "wp _ ?Q s")
    unfolding journal_remove_def
  proof (rule wp_bind [where P = "\<lambda>r s'. s' = s"], goal_cases)
    case 1
    show ?case by (rule wpI) (rule journal_load_unchanged)
  next
    case (3 found s1)
    show ?case
    proof (cases found)
      case (Some x)
      show ?thesis
        unfolding Some option.case 3
        by (intro wp_lift wp_bind_os_call wp_modify)
          (auto simp: same_files_def entries_of_def delete_entry_def)
    qed (simp add: 3)
  qed simp
  from wpD [OF this assms] show ?thesis .
qed

lemma read_record_update [simp]:
  "name' \<noteq> name \<Longrightarrow> read_record name' (AList.update name e es) = read_record name' es"
  "name' \<noteq> name \<Longrightarrow> read_record name' (AList.delete name es) = read_record name' es"
  by (simp_all add: read_record_def update_conv' delete_conv')

lemma read_record_saved:
  assumes "wf_record (stored_record d offset prefix_crc caller close_intent)" "wf_descriptor d"
    "n \<le> MAX_JOURNAL_BYTES"
  shows "read_record (bytes_hex (td_id d) @ ''.json'') (AList.update (bytes_hex (td_id d) @ ''.json'')
      (Regular (n, Some (JObj (journal_document d offset prefix_crc caller close_intent)))) es)
    = Inr (Some (stored_record d offset prefix_crc caller close_intent))"
  using parse_journal_document [OF assms] by (simp add: read_record_def update_conv')

lemma journal_save_view:
  assumes "journal_save d offset prefix_crc caller close_intent s = (r, s')" "wf_descriptor d"
    and "journal_view name s = Some v"
  shows "\<exists>v'. journal_view name s' = Some v' \<and> evolves v v'"
proof -
  have v: "jd_temp s = None" "read_record name (entries_of s) = Inr (Some v)"
    using assms(3) by (simp_all add: journal_view_Some)
  have "save_outcome d offset prefix_crc caller close_intent s r s'"
    by (rule wpD [OF journal_save_wp [OF assms(2) v(1)] assms(1)])
  then show ?thesis
    using v read_record_saved [OF _ assms(2)]
    by (cases r; cases "name = bytes_hex (td_id d) @ ''.json''")
      (auto simp: save_outcome_def journal_view_Some evolves_def entries_of_def [of s'])
qed

interpretation history: evolving_store "journal_step name" "journal_view name" evolves
proof
  fix s s' v
  assume "journal_step name s s'" "journal_view name s = Some v"
  then show "\<exists>v'. journal_view name s' = Some v' \<and> evolves v v'"
  proof cases
    case save
    then show ?thesis using journal_save_view \<open>journal_view name s = Some v\<close> by blast
  next
    case (load d caller r)
    then show ?thesis
      using journal_load_unchanged [OF load] \<open>journal_view name s = Some v\<close> evolves_refl by blast
  next
    case (discover d caller max_entries r)
    then show ?thesis
      using find_matching_unchanged [OF discover] \<open>journal_view name s = Some v\<close> evolves_refl by blast
  next
    case (remove d caller r)
    then show ?thesis
      using journal_remove_outcome [OF remove(1)] \<open>journal_view name s = Some v\<close>
      by (auto simp: journal_view_Some evolves_def)
  qed
qed (auto simp: evolves_def binding_def metadata_unknown_def)

subsection \<open>Discovery\<close>

text \<open>The records of a directory that match, by themselves.\<close>

definition entry_matches :: "descriptor \<Rightarrow> string option \<Rightarrow> string \<times> entry \<Rightarrow> journal_record list" where
  "entry_matches expected caller = (\<lambda>(name, e).
     if \<not> journal_name name then []
     else case e of
       Regular c \<Rightarrow> (case parse_journal name c of
           Inr r \<Rightarrow> if matches_without_id (jr_descriptor r) expected \<and> (caller = None \<or> jr_caller r = caller)
                    then [r] else []
         | Inl _ \<Rightarrow> [])
     | _ \<Rightarrow> [])"

definition matching_records ::
  "descriptor \<Rightarrow> string option \<Rightarrow> (string \<times> entry) list \<Rightarrow> journal_record list" where
  "matching_records expected caller es = concat (map (entry_matches expected caller) es)"

definition journal_count :: "(string \<times> entry) list \<Rightarrow> nat" where
  "journal_count es = length (filter (\<lambda>(name, e). journal_name name) es)"

lemma scan_entry_Inr:
  "scan_entry expected caller name e = Inr rs \<Longrightarrow> journal_name name \<Longrightarrow>
     rs = entry_matches expected caller (name, e)"
  by (auto simp: scan_entry_def entry_matches_def
      split: entry.splits sum.splits transfer_error.splits if_splits)

lemma scan_entries_Inr:
  "scan_entries expected caller m es i acc = Inr found \<Longrightarrow>
     found = acc @ matching_records expected caller es \<and>
     (journal_count es = 0 \<or> i + int (journal_count es) \<le> m)"
proof (induction expected caller m es i acc rule: scan_entries.induct)
  case (2 expected caller m name e es i acc)
  show ?case
  proof (cases "journal_name name")
    case False
    with 2 show ?thesis by (simp add: matching_records_def journal_count_def entry_matches_def)
  next
    case True
    with "2.prems" obtain rs where rs: "i + 1 \<le> m" "scan_entry expected caller name e = Inr rs"
      "scan_entries expected caller m es (i + 1) (acc @ rs) = Inr found"
      by (auto simp: bindE_eq_Inr split: if_splits)
    with "2.IH"(2) True scan_entry_Inr [OF rs(2) True] show ?thesis
      by (auto simp: matching_records_def journal_count_def)
  qed
qed (simp add: matching_records_def journal_count_def)

lemma scan_entries_append:
  "scan_entries expected caller m (es @ fs) i acc =
     bindE (scan_entries expected caller m es i acc) (\<lambda>found.
       scan_entries expected caller m fs (i + int (journal_count es)) found)"
proof (induction expected caller m es i acc rule: scan_entries.induct)
  case (2 expected caller m name e es i acc)
  then show ?case
    by (cases "scan_entry expected caller name e")
      (auto simp: journal_count_def add.assoc)
qed (simp add: journal_count_def)

lemma entry_matches_wf:
  assumes "r \<in> set (entry_matches expected caller (name, e))"
  shows "wf_record r \<and> matches_without_id (jr_descriptor r) expected \<and> (caller = None \<or> jr_caller r = caller)"
proof (cases e)
  case (Regular c)
  with assms show ?thesis
    by (cases "parse_journal name c")
      (auto simp: entry_matches_def dest: parse_journal_wf split: if_splits)
qed (use assms in \<open>auto simp: entry_matches_def split: if_splits\<close>)

lemma matching_records_wf: "r \<in> set (matching_records expected caller es) \<Longrightarrow>
   wf_record r \<and> matches_without_id (jr_descriptor r) expected \<and> (caller = None \<or> jr_caller r = caller)"
  using entry_matches_wf by (fastforce simp: matching_records_def)

lemma find_matching_result:
  assumes "find_matching expected caller m s = (Inr res, s')"
  shows "s' = s \<and> matching_records expected caller (entries_of s) = (case res of None \<Rightarrow> [] | Some r \<Rightarrow> [r]) \<and>
    1 \<le> m \<and> m \<le> 256 \<and> int (journal_count (entries_of s)) \<le> m \<and> wf_caller caller"
proof (cases "jd_entries s")
  case None
  with assms show ?thesis
    by (auto simp: find_matching_def bindIO_Inr guard_def result_simps entries_of_def matching_records_def
        journal_count_def split: if_splits)
next
  case (Some es)
  from assms Some obtain found where "scan_entries expected caller m es 0 [] = Inr found"
    "length found \<le> 1" "res = (case found of [] \<Rightarrow> None | r # _ \<Rightarrow> Some r)" "s' = s" "1 \<le> m" "m \<le> 256"
    "wf_caller caller"
    by (auto simp: find_matching_def bindIO_Inr guard_def result_simps split: if_splits)
  moreover have "matching_records expected caller (entries_of s) = found"
    "int (journal_count (entries_of s)) \<le> m"
    using scan_entries_Inr [OF calculation(1)] Some \<open>1 \<le> m\<close> by (auto simp: entries_of_def)
  ultimately show ?thesis
    by (cases found) simp_all
qed

lemma journal_name_path [simp]: "length tid = 16 \<Longrightarrow> journal_name (bytes_hex tid @ ''.json'')"
  by (simp add: journal_name_def ends_with_def)

lemma update_fresh: "map_of es k = None \<Longrightarrow> AList.update k v es = es @ [(k, v)]"
  by (induction es) (auto split: if_splits)

lemma journal_view_wf: "journal_view name s = Some r \<Longrightarrow> wf_record r"
  by (auto simp: journal_view_Some dest: read_record_wf)

subsection \<open>Properties\<close>

lemma save_then_load:
  assumes "journal_save d offset prefix_crc caller close_intent s = (Inr name, s')"
    and "wf_descriptor d" "jd_temp s = None"
  shows "journal_load d caller s' = (Inr (Some (stored_record d offset prefix_crc caller close_intent)), s') \<and>
    jd_temp s' = None \<and>
    (\<forall>other. other \<noteq> name \<longrightarrow> map_of (entries_of s') other = map_of (entries_of s) other)"
proof -
  have out: "save_outcome d offset prefix_crc caller close_intent s (Inr name) s'"
    by (rule wpD [OF journal_save_wp [OF assms(2,3)] assms(1)])
  then obtain n where n: "n \<le> MAX_JOURNAL_BYTES" "jd_temp s' = None"
    "name = bytes_hex (td_id d) @ ''.json''" "wf_record (stored_record d offset prefix_crc caller close_intent)"
    "entries_of s' = AList.update name
       (Regular (n, Some (JObj (journal_document d offset prefix_crc caller close_intent)))) (entries_of s)"
    by (auto simp: save_outcome_def entries_of_def)
  have "read_record name (entries_of s') = Inr (Some (stored_record d offset prefix_crc caller close_intent))"
    unfolding n(3,5) by (rule read_record_saved [OF n(4) assms(2) n(1)])
  moreover have "path_for (td_id d) = Inr name" "caller_binding caller = Inr caller"
    using assms(2) n(3,4) by (auto simp: path_for_Inr wf_descriptor_def wf_record_def stored_record_def wf_caller_def)
  ultimately have "journal_load d caller s' =
      (Inr (Some (stored_record d offset prefix_crc caller close_intent)), s')"
    by (simp add: journal_load_def bindIO_existing guard_def) (simp add: stored_record_def)
  then show ?thesis using n by (simp add: update_conv')
qed

text \<open>
  C21: Saving and loading. A save that returns has made its journal durable: loading the same transfer
  for the same local file yields exactly the saved boundary and intent, every other journal is
  untouched and no temporary file is left.
\<close>

theorem journal_save_load:
  assumes "journal_save d offset prefix_crc caller close_intent s = (Inr name, s')"
    and "wf_descriptor d" "jd_temp s = None"
  shows "journal_load d caller s' = (Inr (Some (stored_record d offset prefix_crc caller close_intent)), s') \<and>
    jd_temp s' = None \<and>
    (\<forall>other. other \<noteq> name \<longrightarrow> map_of (entries_of s') other = map_of (entries_of s) other)"
  by (rule save_then_load [OF assms])

text \<open>
  C22: Failed saves are invisible. Whichever check or system call makes a save raise, the directory
  afterwards lists exactly what it listed before and the temporary file is gone.
\<close>

theorem journal_save_atomic:
  assumes "journal_save d offset prefix_crc caller close_intent s = (Inl e, s')"
    and "wf_descriptor d" "jd_temp s = None"
  shows "entries_of s' = entries_of s \<and> jd_temp s' = None"
  using wpD [OF journal_save_wp [OF assms(2,3)] assms(1)] by (simp add: save_outcome_def)


text \<open>
  C24: Whatever a journal returns can be resumed. A loaded record is well formed; the constructor
  accepts the resumed descriptor, its OPEN payload can be encoded, and the target reads from it
  exactly the saved boundary of the requested transfer.
\<close>

theorem loaded_journal_resumable:
  assumes "journal_load expected caller s = (Inr (Some r), s')"
  shows "\<exists>d payload. resumed_descriptor r = Inr d \<and> binding d = binding expected \<and>
    encode_open d = Inr payload \<and> decode_open payload = Inr d \<and>
    td_resume d \<and> td_resume_offset d = jr_offset r \<and> td_resume_crc d = jr_prefix_crc r \<and>
    td_replay d = jr_close_intent r \<and> (caller \<noteq> None \<longrightarrow> jr_caller r = caller)"
proof -
  from assms have r: "wf_record r" "binding (jr_descriptor r) = binding expected"
    "caller \<noteq> None \<longrightarrow> jr_caller r = caller"
    by (auto simp: journal_load_def bindIO_Inr existing_record_eq guard_def result_simps
        split: option.splits if_splits dest: read_record_wf)
  then obtain d where d: "resumed_descriptor r = Inr d" "wf_descriptor d" "binding d = binding expected"
    "td_resume d" "td_resume_offset d = jr_offset r" "td_resume_crc d = jr_prefix_crc r"
    "td_replay d = jr_close_intent r"
    using resumed_descriptor_ok [OF r(1)] by auto
  obtain payload where "encode_open d = Inr payload" "decode_open payload = Inr d"
    using d(2) decode_encode_open encode_open_image by blast
  with d r(3) show ?thesis by blast
qed

text \<open>
  Discovery is unambiguous. \<open>find_matching\<close> changes nothing; when it returns, at most
  \<open>max_entries\<close> journals were in the directory, and its answer is the only intact journal of a current
  protocol that matches the transfer and the local file, or the information that there is none.
\<close>

theorem journal_discovery_unique:
  assumes "find_matching expected caller m s = (Inr res, s')"
  shows "s' = s \<and> matching_records expected caller (entries_of s) = (case res of None \<Rightarrow> [] | Some r \<Rightarrow> [r]) \<and>
    int (journal_count (entries_of s)) \<le> m \<and> m \<le> 256"
  using find_matching_result [OF assms] by simp

subsection \<open>Saving succeeds\<close>

lemma string_size_le: "string_size s \<le> 2 + 6 * length s"
proof -
  have "sum_list (map escaped_size s) \<le> 6 * length s"
    by (induction s) (auto simp: escaped_size_def Let_def)
  then show ?thesis by (simp add: string_size_def)
qed

lemma digits_size_le: "n < 10 ^ Suc k \<Longrightarrow> digits_size n \<le> Suc k"
proof (induction k arbitrary: n)
  case (Suc k)
  then have "n div 10 < 10 ^ Suc k" by (simp add: div_less_iff_less_mult)
  from Suc.IH [OF this] show ?case by (simp add: digits_size.simps [of n])
qed (simp add: digits_size.simps)

lemma json_int_size_le: "0 \<le> v \<Longrightarrow> v \<le> UINT32_MAX \<Longrightarrow> json_size (JInt v) \<le> 10"
  using digits_size_le [of "nat v" 9] by (simp add: UINT32_MAX_def nat_less_iff)

lemma key_sizes:
  "string_size ''version'' = 9"
  "string_size ''transfer_id'' = 13"
  "string_size ''direction'' = 11"
  "string_size ''encoding'' = 10"
  "string_size ''wire_size'' = 11"
  "string_size ''wire_crc32'' = 12"
  "string_size ''final_size'' = 12"
  "string_size ''final_crc32'' = 13"
  "string_size ''path'' = 6"
  "string_size ''confirmed_offset'' = 18"
  "string_size ''prefix_crc32'' = 14"
  "string_size ''caller_binding'' = 16"
  "string_size ''close_intent'' = 14"
  by (simp_all add: string_size_def escaped_size_def)

text \<open>A name of at most 200 characters for the local file always leaves room in the document.\<close>

lemma journal_document_fits:
  assumes "wf_record (stored_record d offset prefix_crc caller close_intent)" "wf_descriptor d"
    and "case caller of None \<Rightarrow> True | Some c \<Rightarrow> length c \<le> 200"
  shows "json_size (JObj (journal_document d offset prefix_crc caller close_intent)) + 1 \<le> MAX_JOURNAL_BYTES"
proof -
  note le = string_size_le
  have range: "0 \<le> td_wire_size d" "td_wire_size d \<le> UINT32_MAX" "0 \<le> td_final_size d"
    "td_final_size d \<le> UINT32_MAX" "0 \<le> offset" "offset \<le> UINT32_MAX" "(4 :: int) \<le> UINT32_MAX"
    using assms(1,2) by (simp_all add: wf_record_def stored_record_def wf_descriptor_def UINT32_MAX_def)
  note ints = json_int_size_le [OF range(1,2)] json_int_size_le [OF range(3,4)]
    json_int_size_le [OF range(5,6)] json_int_size_le [OF zero_le_numeral range(7)]
  have path: "length (td_path d) \<le> 255" and id: "length (td_id d) = 16"
    using assms(2) by (simp_all add: wf_descriptor_def wf_path_def MAX_PATH_BYTES_def)
  have names: "length (direction_name (td_direction d)) \<le> 8" "length (encoding_name (td_encoding d)) \<le> 8"
    by (cases "td_direction d"; simp) (cases "td_encoding d"; simp)
  have caller: "json_size (case caller of None \<Rightarrow> JNull | Some c \<Rightarrow> JStr c) \<le> 1202"
    using assms(3) le [of "the caller"] by (cases caller) auto
  have bool: "json_size (JBool close_intent) \<le> 5" by simp
  show ?thesis
    unfolding journal_document_def json_size.simps(5) list.map prod.case sum_list.Cons sum_list.Nil
      json_size.simps(4) key_sizes MAX_JOURNAL_BYTES_def
    using ints path id names caller bool
      le [of "bytes_hex (td_id d)"] le [of "direction_name (td_direction d)"]
      le [of "encoding_name (td_encoding d)"] le [of "hex8 (td_wire_crc d)"] le [of "hex8 (td_final_crc d)"]
      le [of "td_path d"] le [of "hex8 prefix_crc"]
    by (simp del: json_size.simps)
qed

lemma publish_succeeds:
  assumes "jd_faults s = []"
  shows "\<exists>s'. publish name encoded s = (Inr (), s')"
  by (simp add: publish_def bindIO_def os_call_def modify_def on_error_def catch_def assms put_entry_def)

lemma journal_save_returns:
  assumes "wf_record (stored_record d offset prefix_crc caller close_intent)" "wf_descriptor d"
    and "case caller of None \<Rightarrow> True | Some c \<Rightarrow> length c \<le> 200"
    and "jd_faults s = []" "read_record (bytes_hex (td_id d) @ ''.json'') (entries_of s) = Inr old"
    and "check_existing d caller close_intent old = Inr ()"
  shows "\<exists>s'. journal_save d offset prefix_crc caller close_intent s =
    (Inr (bytes_hex (td_id d) @ ''.json''), s')"
proof -
  have args: "u32 offset = Inr offset" "u32 prefix_crc = Inr prefix_crc" "caller_binding caller = Inr caller"
    "path_for (td_id d) = Inr (bytes_hex (td_id d) @ ''.json'')"
    using assms(1,2) by (auto simp: wf_record_def stored_record_def result_simps path_for_Inr
        wf_descriptor_def)
  have guards: "\<not> (offset > td_wire_size d \<and> \<not> metadata_unknown d)" "\<not> (offset = 0 \<and> prefix_crc \<noteq> 0)"
    "\<not> (close_intent \<and> (td_direction d \<noteq> PUT \<or> offset \<noteq> td_wire_size d \<or> prefix_crc \<noteq> td_wire_crc d))"
    using assms(1) by (auto simp: wf_record_def stored_record_def)
  let ?doc = "JObj (journal_document d offset prefix_crc caller close_intent)"
  obtain s' where pub: "publish (bytes_hex (td_id d) @ ''.json'') (json_size ?doc + 1, Some ?doc)
      (s\<lparr>jd_entries := Some (entries_of s)\<rparr>) = (Inr (), s')"
    using publish_succeeds [of "s\<lparr>jd_entries := Some (entries_of s)\<rparr>"] assms(4)
    by (simp del: json_size.simps) blast
  have e: "entries_of (s\<lparr>jd_entries := Some (entries_of s)\<rparr>) = entries_of s"
    by (simp add: entries_of_def)
  have fits: "json_size ?doc + 1 \<le> MAX_JOURNAL_BYTES"
    by (rule journal_document_fits [OF assms(1-3)])
  have os: "bindIO os_call k s = k () s" for k :: "unit \<Rightarrow> string jio"
    by (simp add: bindIO_def os_call_def assms(4))
  have md: "bindIO (modify f) k s = k () (f s)" for f and k :: "unit \<Rightarrow> string jio" and s
    by (simp add: bindIO_def modify_def)
  show ?thesis
    using pub
    by (simp only: journal_save_def args io_unit guards guard_simps not_False_eq_True os md bindIO_existing
        e assms(5,6) sum.case Let_def fst_conv fits) simp
qed

definition sample_dir :: journal_dir where
  "sample_dir = \<lparr>jd_entries = None, jd_temp = None, jd_faults = []\<rparr>"

lemma sample_stored: "wf_record (stored_record sample_descriptor 128 5 (Some ''local'') False)"
  using sample_descriptor_wf
  by (simp add: wf_record_def stored_record_def wf_base_descriptor wf_caller_def caller_binding_def UINT32_MAX_def)
    (simp add: sample_descriptor_def char_of_eq_iff)

lemma sample_save: "\<exists>name s'. journal_save sample_descriptor 128 5 (Some ''local'') False sample_dir = (Inr name, s')"
  using journal_save_returns [OF sample_stored sample_descriptor_wf, of sample_dir None]
  by (auto simp: sample_dir_def read_record_def entries_of_def check_existing_def)

text \<open>
  A save that may succeed does. If no system call fails, the boundary is one a journal may hold,
  the local file's name has at most 200 characters and no journal of another binding is in the way,
  then the save returns the path of its journal; the size limit of the document never stands in the
  way.
\<close>

theorem journal_save_succeeds:
  assumes "wf_record (stored_record d offset prefix_crc caller close_intent)" "wf_descriptor d"
    and "case caller of None \<Rightarrow> True | Some c \<Rightarrow> length c \<le> 200"
    and "jd_faults s = []" "read_record (bytes_hex (td_id d) @ ''.json'') (entries_of s) = Inr old"
    and "check_existing d caller close_intent old = Inr ()"
  shows "\<exists>s'. journal_save d offset prefix_crc caller close_intent s =
    (Inr (bytes_hex (td_id d) @ ''.json''), s')"
  by (rule journal_save_returns [OF assms])

lemma sample_saved_dir:
  obtains s where "journal_save sample_descriptor 128 5 (Some ''local'') False sample_dir =
      (Inr (bytes_hex (td_id sample_descriptor) @ ''.json''), s)"
    "journal_load sample_descriptor (Some ''local'') s =
      (Inr (Some (stored_record sample_descriptor 128 5 (Some ''local'') False)), s)" "jd_temp s = None"
    "\<exists>n \<le> MAX_JOURNAL_BYTES. jd_entries s = Some [(bytes_hex (td_id sample_descriptor) @ ''.json'',
       Regular (n, Some (JObj (journal_document sample_descriptor 128 5 (Some ''local'') False))))]"
proof -
  obtain name s where s: "journal_save sample_descriptor 128 5 (Some ''local'') False sample_dir = (Inr name, s)"
    using sample_save by blast
  have temp: "jd_temp sample_dir = None" by (simp add: sample_dir_def)
  have "save_outcome sample_descriptor 128 5 (Some ''local'') False sample_dir (Inr name) s"
    by (rule wpD [OF journal_save_wp [OF sample_descriptor_wf temp] s])
  then show ?thesis
    using that s save_then_load [OF s sample_descriptor_wf temp]
    by (auto simp: save_outcome_def sample_dir_def entries_of_def)
qed

theorem journal_save_load_witness:
  "\<exists>s. journal_load sample_descriptor (Some ''local'') s =
     (Inr (Some (stored_record sample_descriptor 128 5 (Some ''local'') False)), s)"
  using sample_save journal_save_load [OF _ sample_descriptor_wf, of 128 5 "Some ''local''" False sample_dir]
  by (auto simp: sample_dir_def)

definition failing_dir :: journal_dir where
  "failing_dir = \<lparr>jd_entries = None, jd_temp = None, jd_faults = [False, False, True]\<rparr>"

lemma failing_save:
  "journal_save sample_descriptor 128 5 (Some ''local'') False failing_dir =
     (Inl OSFailure, \<lparr>jd_entries = Some [], jd_temp = None, jd_faults = []\<rparr>)"
proof -
  let ?doc = "JObj (journal_document sample_descriptor 128 5 (Some ''local'') False)"
  have fits: "Suc (json_size ?doc) \<le> MAX_JOURNAL_BYTES"
    using journal_document_fits [OF sample_stored sample_descriptor_wf] by simp
  have args: "u32 128 = Inr 128" "u32 5 = Inr 5" "caller_binding (Some ''local'') = Inr (Some ''local'')"
    "path_for (td_id sample_descriptor) = Inr (bytes_hex (td_id sample_descriptor) @ ''.json'')"
    using sample_stored sample_descriptor_wf by (auto simp: wf_record_def stored_record_def result_simps path_for_Inr
        wf_descriptor_def)
  have guards: "\<not> (128 > td_wire_size sample_descriptor \<and> \<not> metadata_unknown sample_descriptor)"
    by (simp add: sample_descriptor_def)
  show ?thesis
    unfolding journal_save_def args io_unit
    by (simp add: guards fits failing_dir_def bindIO_def os_call_def modify_def entries_of_def
        existing_record_eq read_record_def check_existing_def Let_def publish_def on_error_def
        del: json_size.simps)
qed

theorem journal_save_atomic_witness:
  "\<exists>e s'. journal_save sample_descriptor 128 5 (Some ''local'') False failing_dir = (Inl e, s') \<and>
     entries_of s' = entries_of failing_dir \<and> jd_temp s' = None"
  using failing_save journal_save_atomic [OF failing_save sample_descriptor_wf]
  by (auto simp: failing_dir_def)


theorem loaded_journal_resumable_witness:
  "\<exists>d payload. resumed_descriptor (stored_record sample_descriptor 128 5 (Some ''local'') False) = Inr d \<and>
     encode_open d = Inr payload \<and> decode_open payload = Inr d \<and> td_resume_offset d = 128"
proof -
  define r where "r = stored_record sample_descriptor 128 5 (Some ''local'') False"
  obtain s where "journal_load sample_descriptor (Some ''local'') s = (Inr (Some r), s)"
    unfolding r_def by (rule sample_saved_dir)
  from loaded_journal_resumable [OF this] obtain d payload where
    "resumed_descriptor r = Inr d" "encode_open d = Inr payload" "decode_open payload = Inr d"
    "td_resume_offset d = jr_offset r" by blast
  moreover have "jr_offset r = 128" by (simp add: r_def stored_record_def)
  ultimately show ?thesis unfolding r_def [symmetric] by simp
qed

lemma journal_discovery_unique_example:
  "\<exists>s r. find_matching (sample_descriptor\<lparr>td_id := replicate 16 9\<rparr>) None 256 s = (Inr (Some r), s) \<and>
     matching_records (sample_descriptor\<lparr>td_id := replicate 16 9\<rparr>) None (entries_of s) = [r]"
proof -
  obtain s :: journal_dir where
    "\<exists>n \<le> MAX_JOURNAL_BYTES. jd_entries s = Some [(bytes_hex (td_id sample_descriptor) @ ''.json'',
       Regular (n, Some (JObj (journal_document sample_descriptor 128 5 (Some ''local'') False))))]"
    by (rule sample_saved_dir) blast
  then obtain n where s: "n \<le> MAX_JOURNAL_BYTES"
    "jd_entries s = Some [(bytes_hex (td_id sample_descriptor) @ ''.json'',
       Regular (n, Some (JObj (journal_document sample_descriptor 128 5 (Some ''local'') False))))]"
    by blast
  let ?e = "sample_descriptor\<lparr>td_id := replicate 16 9\<rparr>"
    and ?r = "stored_record sample_descriptor 128 5 (Some ''local'') False"
  have id: "length (td_id sample_descriptor) = 16" by (simp add: sample_descriptor_def)
  have "matches_without_id (jr_descriptor ?r) ?e"
    by (simp add: matches_without_id_def stored_record_def)
  then have "scan_entry ?e None (bytes_hex (td_id sample_descriptor) @ ''.json'')
      (Regular (n, Some (JObj (journal_document sample_descriptor 128 5 (Some ''local'') False)))) = Inr [?r]"
    using parse_journal_document [OF sample_stored sample_descriptor_wf s(1)] by (simp add: scan_entry_def)
  then have found: "find_matching ?e None 256 s = (Inr (Some ?r), s)"
    using s(2) id by (simp add: find_matching_def guard_def caller_binding_def)
  with journal_discovery_unique [OF found] show ?thesis by auto
qed

end
