(* ===== verification/V3_Session.thy ===== *)
theory V3_Session
  imports Frame_Parser Effects Stores
begin

text \<open>
  \<open>V3Session\<close> of \<open>server/msx_v3.py\<close>: one request at a time over a byte stream, with retries, wake
  handshakes, routing of events and orphan responses, and the write quarantine. The state is the
  session with the scripts of its environment: how far the monotonic clock advances before each of
  its readings, which \<open>settimeout\<close> calls fail, what each \<open>sendall\<close> and each \<open>recv\<close> does; \<open>w_sent\<close> collects
  the bytes the stream took. Times are integers (a unit fine enough for the values at hand); an
  exception is a \<open>session_error\<close> and an operation a computation of \<open>Effects\<close>. The loop over received
  chunks ends because every chunk uses up the script of the stream, and an exhausted script times
  out. Locks are left out: every operation of the code runs under the one lock of the session, so
  that a history is a sequence of whole operations. The frame codec and parser are those of
  \<open>Frame_Codec\<close> and \<open>Frame_Parser\<close>.
\<close>

subsection \<open>Exceptions\<close>

datatype remote_class =
    RemoteStatus | RemoteInvalidOpcode | RemoteInvalidArgument | RemoteInvalidState | RemoteOutOfRange
  | RemoteCRC | RemoteBusy | RemoteUnsupported | RemoteInternal

text \<open>
  \<open>ProtocolFailure\<close> carries an exception of the frame layer; \<open>ArgumentError\<close> stands for the
  \<open>TypeError\<close> and \<open>ValueError\<close> of the argument checks.
\<close>

datatype session_error =
    V3TransportError
  | V3DisconnectedError
  | V3TimeoutError int int int int
  | V3WriteQuarantinedError session_error
  | UnexpectedFrameError frame
  | RemoteStatusError remote_class frame
  | ProtocolFailure protocol_error
  | ArgumentError
  | AssertionFailure
  | AttemptTimedOut
  | FrameWakeAckTimedOut

text \<open>\<open>except V3TransportError\<close>: the class and its two subclasses.\<close>

definition is_transport :: "session_error \<Rightarrow> bool" where
  "is_transport e =
     (case e of V3TransportError \<Rightarrow> True | V3DisconnectedError \<Rightarrow> True | V3TimeoutError _ _ _ _ \<Rightarrow> True
      | _ \<Rightarrow> False)"

definition CRC_ERROR :: int where "CRC_ERROR = 5"

definition status_class :: "int \<Rightarrow> remote_class" where
  "status_class status =
     (if status = 0x01 then RemoteInvalidOpcode else if status = 0x02 then RemoteInvalidArgument
      else if status = 0x03 then RemoteInvalidState else if status = 0x04 then RemoteOutOfRange
      else if status = 0x05 then RemoteCRC else if status = 0x06 then RemoteBusy
      else if status = 0x07 then RemoteUnsupported else if status = 0x7F then RemoteInternal
      else RemoteStatus)"

subsection \<open>State\<close>

text \<open>
  What the stream answers: how much of a chunk a failing \<open>sendall\<close> passed on, and the outcome of a
  \<open>recv\<close>; \<open>RecvOther\<close> is a value that is not bytes.
\<close>

datatype send_result = SendAll | SendTimedOut nat | SendFailed nat

datatype recv_result = RecvData bytes | RecvTimedOut | RecvFailed | RecvOther

record session =
  v_timeout :: int
  v_retries :: int
  v_local_max :: int
  v_peer_max :: int
  v_max_payload :: int
  v_recv_size :: int
  v_wake_delay :: int
  v_wake_ack :: "byte option"
  v_wake_optional :: bool
  v_wake_timeout :: int
  v_quarantine_on :: bool
  v_queue_limit :: nat
  v_sequence :: int
  v_parser :: parser
  v_events :: "frame list"
  v_orphans :: "frame list"
  v_errors :: "session_error list"
  v_reason :: "session_error option"
  w_clock :: int                       \<comment> \<open>the last reading of the monotonic clock\<close>
  w_ticks :: "nat list"                \<comment> \<open>how far it advances before the coming readings\<close>
  w_setters :: "bool list"             \<comment> \<open>which of the coming \<open>settimeout\<close> calls fail\<close>
  w_sends :: "send_result list"
  w_recvs :: "recv_result list"
  w_sent :: bytes                      \<comment> \<open>the bytes the stream took so far\<close>

type_synonym 'a ses = "(session, session_error, 'a) comp"

definition update_session :: "(session \<Rightarrow> session) \<Rightarrow> unit ses" where
  "update_session f s = (Inr (), f s)"

subsection \<open>Argument checks and construction\<close>

definition DEFAULT_RETRIES :: int where "DEFAULT_RETRIES = 2"
definition DEFAULT_MAX_PAYLOAD :: int where "DEFAULT_MAX_PAYLOAD = 4096"
definition DEFAULT_RECV_SIZE :: int where "DEFAULT_RECV_SIZE = 4096"

definition payload_limit :: "int \<Rightarrow> session_error + int" where
  "payload_limit v = (if \<not> (0 \<le> v \<and> v \<le> MAX_WIRE_PAYLOAD) then Inl ArgumentError else Inr v)"

definition positive_float :: "int \<Rightarrow> session_error + int" where
  "positive_float v = (if v \<le> 0 then Inl ArgumentError else Inr v)"

definition non_negative_float :: "int \<Rightarrow> session_error + int" where
  "non_negative_float v = (if v < 0 then Inl ArgumentError else Inr v)"

definition optional_single_byte :: "bytes option \<Rightarrow> session_error + byte option" where
  "optional_single_byte v =
     (case v of None \<Rightarrow> Inr None | Some bs \<Rightarrow> if length bs \<noteq> 1 then Inl ArgumentError else Inr (Some (hd bs)))"

definition retry_count :: "int \<Rightarrow> session_error + int" where
  "retry_count v = (if v < 0 then Inl ArgumentError else Inr v)"

definition protocol :: "protocol_error + 'a \<Rightarrow> session_error + 'a" where
  "protocol r = (case r of Inl e \<Rightarrow> Inl (ProtocolFailure e) | Inr x \<Rightarrow> Inr x)"

text \<open>\<open>V3Session.__init__\<close> up to the configuration of the stream, over the environment \<open>w\<close>.\<close>

definition mk_session ::
  "session \<Rightarrow> int \<Rightarrow> int \<Rightarrow> int \<Rightarrow> int option \<Rightarrow> int \<Rightarrow> int \<Rightarrow> int \<Rightarrow> bytes option \<Rightarrow> bool \<Rightarrow> int \<Rightarrow> bool \<Rightarrow> int \<Rightarrow>
   session_error + session" where
  "mk_session w timeout retries max_payload peer_max recv_size sequence_start wake_delay wake_ack
       wake_optional wake_timeout quarantine_on queue_limit =
     (if recv_size \<le> 0 then Inl ArgumentError
      else if queue_limit \<le> 0 then Inl ArgumentError
      else
        bindE (positive_float timeout) (\<lambda>timeout.
        bindE (retry_count retries) (\<lambda>retries.
        bindE (payload_limit max_payload) (\<lambda>local_max.
        bindE (case peer_max of None \<Rightarrow> Inr MAX_WIRE_PAYLOAD | Some p \<Rightarrow> payload_limit p) (\<lambda>peer_max.
        let max_payload = min local_max peer_max in
        bindE (non_negative_float wake_delay) (\<lambda>wake_delay.
        bindE (optional_single_byte wake_ack) (\<lambda>wake_ack.
        bindE (positive_float wake_timeout) (\<lambda>wake_timeout.
        bindE (protocol (sequence_counter sequence_start)) (\<lambda>sequence.
        bindE (protocol (new_parser PROTOCOL_VERSION max_payload)) (\<lambda>p.
          Inr (w\<lparr>v_timeout := timeout, v_retries := retries, v_local_max := local_max,
                 v_peer_max := peer_max, v_max_payload := max_payload, v_recv_size := recv_size,
                 v_wake_delay := wake_delay, v_wake_ack := wake_ack, v_wake_optional := wake_optional,
                 v_wake_timeout := wake_timeout, v_quarantine_on := quarantine_on,
                 v_queue_limit := nat queue_limit, v_sequence := sequence, v_parser := p,
                 v_events := [], v_orphans := [], v_errors := [], v_reason := None\<rparr>)))))))))))"

subsection \<open>Time and the stream\<close>

definition monotonic :: "int ses" where
  "monotonic s =
     (let now = w_clock s + (case w_ticks s of [] \<Rightarrow> 0 | t # _ \<Rightarrow> int t)
      in (Inr now, s\<lparr>w_clock := now, w_ticks := tl (w_ticks s)\<rparr>))"

definition sleep :: "int \<Rightarrow> unit ses" where
  "sleep d = update_session (\<lambda>s. s\<lparr>w_clock := w_clock s + d\<rparr>)"

definition set_stream_timeout :: "int \<Rightarrow> unit ses" where
  "set_stream_timeout v s =
     (case w_setters s of
        [] \<Rightarrow> (Inr (), s)
      | f # fs \<Rightarrow> (if f then Inl V3TransportError else Inr (), s\<lparr>w_setters := fs\<rparr>))"

definition remaining :: "int \<Rightarrow> int ses" where
  "remaining deadline =
     bindIO monotonic (\<lambda>now.
       let r = deadline - now in if r \<le> 0 then raise AttemptTimedOut else ret r)"

definition sendall :: "bytes \<Rightarrow> unit ses" where
  "sendall wire s =
     (case w_sends s of
        [] \<Rightarrow> (Inr (), s\<lparr>w_sent := w_sent s @ wire\<rparr>)
      | r # rs \<Rightarrow>
          (case r of
             SendAll \<Rightarrow> (Inr (), s\<lparr>w_sends := rs, w_sent := w_sent s @ wire\<rparr>)
           | SendTimedOut n \<Rightarrow> (Inl AttemptTimedOut, s\<lparr>w_sends := rs, w_sent := w_sent s @ take n wire\<rparr>)
           | SendFailed n \<Rightarrow> (Inl V3TransportError, s\<lparr>w_sends := rs, w_sent := w_sent s @ take n wire\<rparr>)))"

text \<open>A stream whose script is used up times out.\<close>

definition recv :: "recv_result ses" where
  "recv s = (case w_recvs s of [] \<Rightarrow> (Inr RecvTimedOut, s) | r # rs \<Rightarrow> (Inr r, s\<lparr>w_recvs := rs\<rparr>))"

definition send_wire_chunk :: "bytes \<Rightarrow> int \<Rightarrow> unit ses" where
  "send_wire_chunk wire deadline =
     bindIO (remaining deadline) (\<lambda>r.
     bindIO (set_stream_timeout r) (\<lambda>_.
       sendall wire))"

definition wait_for_frame_wake_ack :: "byte \<Rightarrow> int \<Rightarrow> unit ses" where
  "wait_for_frame_wake_ack ack deadline =
     bindIO (remaining deadline) (\<lambda>r.
     bindIO (set_stream_timeout r) (\<lambda>_.
     bindIO recv (\<lambda>chunk.
       case chunk of
         RecvTimedOut \<Rightarrow> raise FrameWakeAckTimedOut
       | RecvFailed \<Rightarrow> raise V3TransportError
       | RecvOther \<Rightarrow> raise V3TransportError
       | RecvData data \<Rightarrow>
           if data = [] then raise V3DisconnectedError
           else if length data \<noteq> 1 then raise V3TransportError
           else if data \<noteq> [ack] then raise AttemptTimedOut
           else ret ())))"

definition send_wire :: "bytes \<Rightarrow> int \<Rightarrow> unit ses" where
  "send_wire wire deadline s0 =
     (case v_wake_ack s0 of
        Some ack \<Rightarrow>
          bindIO (send_wire_chunk (take 1 wire) deadline) (\<lambda>_.
          bindIO
            (if v_wake_optional s0 then
               bindIO (remaining deadline) (\<lambda>r.
               let ack_wait = min (v_wake_timeout s0) (r div 2) in
               bindIO monotonic (\<lambda>now. ret (min deadline (now + ack_wait))))
             else ret deadline) (\<lambda>ack_deadline.
          bindIO
            (catch (wait_for_frame_wake_ack ack ack_deadline)
               (\<lambda>e. if e = FrameWakeAckTimedOut then
                        if \<not> v_wake_optional s0 then raise AttemptTimedOut else ret ()
                      else raise e)) (\<lambda>_.
            send_wire_chunk (drop 1 wire) deadline)))
      | None \<Rightarrow>
          if v_wake_delay s0 > 0 then
            bindIO (send_wire_chunk (take 1 wire) deadline) (\<lambda>_.
            bindIO (remaining deadline) (\<lambda>r.
              if v_wake_delay s0 \<ge> r then raise AttemptTimedOut
              else
                bindIO (sleep (v_wake_delay s0)) (\<lambda>_.
                  send_wire_chunk (drop 1 wire) deadline)))
          else send_wire_chunk wire deadline) s0"

subsection \<open>Routing\<close>

text \<open>\<open>deque(maxlen=n)\<close>: an append to a full queue drops the oldest element.\<close>

definition enqueue :: "nat \<Rightarrow> 'a list \<Rightarrow> 'a \<Rightarrow> 'a list" where
  "enqueue limit xs x = (let ys = xs @ [x] in drop (length ys - limit) ys)"

definition push_event :: "frame \<Rightarrow> session \<Rightarrow> session" where
  "push_event f s = s\<lparr>v_events := enqueue (v_queue_limit s) (v_events s) f\<rparr>"

definition push_orphan :: "frame \<Rightarrow> session \<Rightarrow> session" where
  "push_orphan f s = s\<lparr>v_orphans := enqueue (v_queue_limit s) (v_orphans s) f\<rparr>"

definition push_error :: "session_error \<Rightarrow> session \<Rightarrow> session" where
  "push_error e s = s\<lparr>v_errors := enqueue (v_queue_limit s) (v_errors s) e\<rparr>"

definition collect_parser_errors :: "session \<Rightarrow> session" where
  "collect_parser_errors s =
     (let (errors, p) = pop_errors (v_parser s)
      in fold (\<lambda>e. push_error (ProtocolFailure e)) errors (s\<lparr>v_parser := p\<rparr>))"

fun route_frames :: "frame list \<Rightarrow> frame \<Rightarrow> frame option \<Rightarrow> session \<Rightarrow> session_error + frame option \<times> session" where
  "route_frames [] req correlated s = Inr (correlated, s)"
| "route_frames (f # fs) req correlated s =
     (if fr_type f = EVENT then route_frames fs req correlated (push_event f s)
      else if fr_type f \<noteq> RESPONSE then
        route_frames fs req correlated (push_error (UnexpectedFrameError f) s)
      else case validate_response req f of
        Inl e \<Rightarrow>
          (case e of
             SequenceMismatchError _ _ \<Rightarrow>
               route_frames fs req correlated (push_orphan f (push_error (ProtocolFailure e) s))
           | OpcodeMismatchError _ _ \<Rightarrow>
               route_frames fs req correlated (push_orphan f (push_error (ProtocolFailure e) s))
           | _ \<Rightarrow> Inl (ProtocolFailure e))
      | Inr _ \<Rightarrow>
          (case correlated of
             None \<Rightarrow> route_frames fs req (Some f) s
           | Some _ \<Rightarrow> route_frames fs req correlated (push_orphan f s)))"

text \<open>\<open>self._route_frames(self._parser.<step>, request)\<close> and the collection of the parser's errors.\<close>

definition route_parsed :: "frame \<Rightarrow> (parser \<Rightarrow> protocol_error + frame list \<times> parser) \<Rightarrow> frame option ses" where
  "route_parsed req parse s =
     (case parse (v_parser s) of
        Inl e \<Rightarrow> (Inl (ProtocolFailure e), s)
      | Inr (frames, p) \<Rightarrow>
          (case route_frames frames req None (s\<lparr>v_parser := p\<rparr>) of
             Inl e \<Rightarrow> (Inl e, s\<lparr>v_parser := p\<rparr>)
           | Inr (response, s1) \<Rightarrow> (Inr response, collect_parser_errors s1)))"

lemma route_frames_recvs: "route_frames fs req c s = Inr (r, s') \<Longrightarrow> w_recvs s' = w_recvs s"
  by (induction fs req c s rule: route_frames.induct)
    (auto simp: push_event_def push_orphan_def push_error_def
      split: if_splits sum.splits protocol_error.splits option.splits)

lemma push_errors_recvs [simp]: "w_recvs (fold (\<lambda>e. push_error (ProtocolFailure e)) es s) = w_recvs s"
  by (induction es arbitrary: s) (simp_all add: push_error_def)

lemma route_parsed_recvs: "route_parsed req parse s = (Inr r, s') \<Longrightarrow> w_recvs s' = w_recvs s"
  by (auto simp: route_parsed_def collect_parser_errors_def pop_errors_def
      dest!: route_frames_recvs split: sum.splits prod.splits)

lemma remaining_recvs: "remaining d s = (r, s') \<Longrightarrow> w_recvs s' = w_recvs s"
  by (auto simp: remaining_def monotonic_def bindIO_def Let_def split: if_splits)

lemma set_stream_timeout_recvs: "set_stream_timeout v s = (r, s') \<Longrightarrow> w_recvs s' = w_recvs s"
  by (auto simp: set_stream_timeout_def split: list.splits)

lemma recv_recvs: "recv s = (Inr (RecvData d), s') \<Longrightarrow> length (w_recvs s') < length (w_recvs s)"
  by (auto simp: recv_def split: list.splits)

subsection \<open>Requests\<close>

function wait_for_response :: "frame \<Rightarrow> int \<Rightarrow> frame ses" where
  "wait_for_response req deadline s =
     bindIO (remaining deadline) (\<lambda>r s.
     bindIO (set_stream_timeout r) (\<lambda>_ s.
     bindIO recv (\<lambda>chunk s.
       case chunk of
         RecvTimedOut \<Rightarrow> raise AttemptTimedOut s
       | RecvFailed \<Rightarrow> raise V3TransportError s
       | RecvOther \<Rightarrow> raise V3TransportError s
       | RecvData data \<Rightarrow>
           if data = [] then raise V3DisconnectedError s
           else
             bindIO (route_parsed req (\<lambda>p. feed p data)) (\<lambda>response s.
               case response of
                 Some f \<Rightarrow> ret f s
               | None \<Rightarrow> wait_for_response req deadline s) s) s) s) s"
  by pat_completeness auto
termination
  by (relation "measure (\<lambda>(_, _, s). length (w_recvs s))")
    (auto dest!: remaining_recvs set_stream_timeout_recvs route_parsed_recvs dest: recv_recvs)

declare wait_for_response.simps [simp del]

definition finish_attempt :: "frame \<Rightarrow> frame option ses" where
  "finish_attempt req = route_parsed req finish"

definition quarantine_transport_failure :: "session_error \<Rightarrow> unit ses" where
  "quarantine_transport_failure e =
     update_session (\<lambda>s. if v_quarantine_on s \<and> v_reason s = None then s\<lparr>v_reason := Some e\<rparr> else s)"

definition successful :: "frame \<Rightarrow> frame ses" where
  "successful response =
     (if \<not> frame_ok response then raise (RemoteStatusError (status_class (fr_status response)) response)
      else ret response)"

text \<open>One pass through the \<open>try\<close> block of the loop: the response, or \<open>None\<close> after a timed-out attempt.\<close>

definition attempt :: "frame \<Rightarrow> bytes \<Rightarrow> int \<Rightarrow> frame option ses" where
  "attempt req wire request_timeout =
     bindIO monotonic (\<lambda>now.
     let deadline = now + request_timeout in
     catch
       (bindIO (send_wire wire deadline) (\<lambda>_.
        bindIO (wait_for_response req deadline) (\<lambda>response. ret (Some response))))
       (\<lambda>e. if e = AttemptTimedOut then finish_attempt req
             else if is_transport e then
               bindIO (quarantine_transport_failure e) (\<lambda>_. raise e)
             else raise e))"

fun attempt_loop :: "frame \<Rightarrow> bytes \<Rightarrow> int \<Rightarrow> int \<Rightarrow> nat \<Rightarrow> frame ses" where
  "attempt_loop req wire request_timeout attempts 0 = raise AssertionFailure"
| "attempt_loop req wire request_timeout attempts (Suc more_attempts) =
     bindIO (attempt req wire request_timeout) (\<lambda>response.
       case response of
         Some f \<Rightarrow>
           if fr_status f = CRC_ERROR \<and> more_attempts > 0
           then attempt_loop req wire request_timeout attempts more_attempts
           else successful f
       | None \<Rightarrow>
           if more_attempts > 0 then attempt_loop req wire request_timeout attempts more_attempts
           else
             let timeout_error = V3TimeoutError (fr_sequence req) (fr_opcode req) attempts request_timeout
             in bindIO (quarantine_transport_failure timeout_error) (\<lambda>_. raise timeout_error))"

text \<open>\<open>try: m finally: f\<close>: an exception of \<open>f\<close> replaces the outcome of \<open>m\<close>.\<close>

definition finally_do :: "'a ses \<Rightarrow> unit ses \<Rightarrow> 'a ses" where
  "finally_do m f s =
     (case m s of (r, s1) \<Rightarrow> (case f s1 of (Inl e, s2) \<Rightarrow> (Inl e, s2) | (Inr _, s2) \<Rightarrow> (r, s2)))"

definition restore_timeout :: "unit ses" where
  "restore_timeout s0 =
     catch (set_stream_timeout (v_timeout s0))
       (\<lambda>e. bindIO (quarantine_transport_failure e) (\<lambda>_. raise e)) s0"

definition request_frame :: "int \<Rightarrow> bytes \<Rightarrow> int option \<Rightarrow> int option \<Rightarrow> int \<Rightarrow> frame ses" where
  "request_frame opcode payload timeout retries flags s0 =
     bindIO (lift_result (case timeout of None \<Rightarrow> Inr (v_timeout s0) | Some t \<Rightarrow> positive_float t))
       (\<lambda>request_timeout.
     bindIO (lift_result (case retries of None \<Rightarrow> Inr (v_retries s0) | Some r \<Rightarrow> retry_count r))
       (\<lambda>retry_limit.
     bindIO (lift_result (protocol
       (mk_frame (int_of_frame_type REQUEST) 0 opcode payload flags 0 PROTOCOL_VERSION))) (\<lambda>request s.
     case v_reason s of
       Some reason \<Rightarrow> raise (V3WriteQuarantinedError reason) s
     | None \<Rightarrow>
         if int (length (fr_payload request)) > v_max_payload s
         then raise (ProtocolFailure (PayloadTooLargeError (int (length (fr_payload request))) (v_max_payload s))) s
         else
           let (sequence, next_value) = next_sequence (v_sequence s) in
           bindIO (update_session (\<lambda>s. s\<lparr>v_sequence := next_value\<rparr>)) (\<lambda>_.
           bindIO (lift_result (protocol
             (mk_frame (int_of_frame_type REQUEST) sequence (fr_opcode request) (fr_payload request)
                (fr_flags request) 0 PROTOCOL_VERSION))) (\<lambda>request.
             let wire = encode_frame request; attempts = retry_limit + 1
             in finally_do (attempt_loop request wire request_timeout attempts (nat attempts))
                  restore_timeout)) s))) s0"

definition request :: "int \<Rightarrow> bytes \<Rightarrow> int option \<Rightarrow> int option \<Rightarrow> int \<Rightarrow> bytes ses" where
  "request opcode payload timeout retries flags =
     bindIO (request_frame opcode payload timeout retries flags) (\<lambda>f. ret (fr_payload f))"

subsection \<open>Other operations\<close>

definition negotiate_max_payload :: "int \<Rightarrow> int ses" where
  "negotiate_max_payload peer_max_payload =
     bindIO (lift_result (payload_limit peer_max_payload)) (\<lambda>peer_limit s.
       let m = min (v_local_max s) peer_limit
       in (Inr m, s\<lparr>v_peer_max := peer_limit, v_max_payload := m,
             v_parser := (v_parser s)\<lparr>pr_max_payload := m\<rparr>\<rparr>))"

definition pop_events :: "frame list ses" where
  "pop_events s = (Inr (v_events s), s\<lparr>v_events := []\<rparr>)"

definition pop_orphan_responses :: "frame list ses" where
  "pop_orphan_responses s = (Inr (v_orphans s), s\<lparr>v_orphans := []\<rparr>)"

definition pop_protocol_errors :: "session_error list ses" where
  "pop_protocol_errors s = (Inr (v_errors s), s\<lparr>v_errors := []\<rparr>)"

definition write_quarantined :: "session \<Rightarrow> bool" where
  "write_quarantined s \<longleftrightarrow> v_reason s \<noteq> None"

definition set_quarantine_policy :: "bool \<Rightarrow> unit ses" where
  "set_quarantine_policy b = update_session (\<lambda>s. s\<lparr>v_quarantine_on := b\<rparr>)"

subsection \<open>Invariant and effects\<close>

definition wf_session :: "session \<Rightarrow> bool" where
  "wf_session s \<longleftrightarrow>
     0 < v_timeout s \<and> 0 \<le> v_retries s \<and>
     0 \<le> v_local_max s \<and> v_local_max s \<le> MAX_WIRE_PAYLOAD \<and>
     0 \<le> v_peer_max s \<and> v_peer_max s \<le> MAX_WIRE_PAYLOAD \<and>
     v_max_payload s = min (v_local_max s) (v_peer_max s) \<and>
     0 \<le> v_sequence s \<and> v_sequence s \<le> 0xFFFF \<and>
     wf_parser (v_parser s) \<and> pr_max_payload (v_parser s) = v_max_payload s \<and>
     length (v_events s) \<le> v_queue_limit s \<and> length (v_orphans s) \<le> v_queue_limit s \<and>
     length (v_errors s) \<le> v_queue_limit s \<and>
     (\<forall>e. v_reason s = Some e \<longrightarrow> is_transport e)"

text \<open>The fields a request reads or that only other operations change.\<close>

definition core :: "session \<Rightarrow>
  (int \<times> int \<times> int \<times> int \<times> int \<times> int) \<times> (int \<times> byte option \<times> bool \<times> int \<times> bool \<times> nat) \<times> int \<times> session_error option" where
  "core s = ((v_timeout s, v_retries s, v_local_max s, v_peer_max s, v_max_payload s, v_recv_size s),
     (v_wake_delay s, v_wake_ack s, v_wake_optional s, v_wake_timeout s, v_quarantine_on s, v_queue_limit s),
     v_sequence s, v_reason s)"

lemma core_updates [simp]:
  "core (s\<lparr>w_clock := a\<rparr>) = core s" "core (s\<lparr>w_ticks := b\<rparr>) = core s"
  "core (s\<lparr>w_setters := c\<rparr>) = core s" "core (s\<lparr>w_sends := d\<rparr>) = core s"
  "core (s\<lparr>w_recvs := f\<rparr>) = core s" "core (s\<lparr>w_sent := g\<rparr>) = core s"
  "core (s\<lparr>v_parser := p\<rparr>) = core s" "core (s\<lparr>v_events := h\<rparr>) = core s"
  "core (s\<lparr>v_orphans := i\<rparr>) = core s" "core (s\<lparr>v_errors := j\<rparr>) = core s"
  by (simp_all add: core_def)

lemma wf_session_world [simp]:
  "wf_session (s\<lparr>w_clock := a\<rparr>) = wf_session s" "wf_session (s\<lparr>w_ticks := b\<rparr>) = wf_session s"
  "wf_session (s\<lparr>w_setters := c\<rparr>) = wf_session s" "wf_session (s\<lparr>w_sends := d\<rparr>) = wf_session s"
  "wf_session (s\<lparr>w_recvs := f\<rparr>) = wf_session s" "wf_session (s\<lparr>w_sent := g\<rparr>) = wf_session s"
  by (simp_all add: wf_session_def)

text \<open>\<open>sends bs s s'\<close>: the stream took \<open>bs\<close>; apart from that only queues, parser and clock moved.\<close>

definition sends :: "bytes \<Rightarrow> session \<Rightarrow> session \<Rightarrow> bool" where
  "sends bs s s' \<longleftrightarrow> core s' = core s \<and> w_sent s' = w_sent s @ bs \<and> (wf_session s \<longrightarrow> wf_session s')"

lemma sends_refl [simp]: "sends [] s s"
  by (simp add: sends_def)

lemma sends_trans: "sends a s s1 \<Longrightarrow> sends b s1 s2 \<Longrightarrow> sends (a @ b) s s2"
  by (simp add: sends_def)

lemma sends_quiet: "sends a s s1 \<Longrightarrow> sends [] s1 s2 \<Longrightarrow> sends a s s2"
  by (simp add: sends_def)

lemma quiet_sends: "sends [] s s1 \<Longrightarrow> sends b s1 s2 \<Longrightarrow> sends b s s2"
  by (simp add: sends_def)

lemma length_enqueue: "length xs \<le> limit \<Longrightarrow> length (enqueue limit xs x) \<le> limit"
  by (simp add: enqueue_def)

lemma sends_push [simp]:
  "sends [] s (push_event f s)" "sends [] s (push_orphan f s)" "sends [] s (push_error e s)"
  by (auto simp: sends_def push_event_def push_orphan_def push_error_def wf_session_def length_enqueue)

subsection \<open>Rules\<close>

lemma wp_monotonic: "wp monotonic (\<lambda>r s'. sends [] s s' \<and> is_ok r) s"
  by (simp add: wp_def monotonic_def sends_def Let_def)

lemma wp_remaining:
  "wp (remaining deadline) (\<lambda>r s'. sends [] s s' \<and> (r = Inl AttemptTimedOut \<or> (\<exists>t > 0. r = Inr t))) s"
  by (auto simp: wp_def remaining_def monotonic_def bindIO_def sends_def Let_def)

lemma wp_set_stream_timeout:
  "wp (set_stream_timeout v) (\<lambda>r s'. sends [] s s' \<and> (r = Inr () \<or> r = Inl V3TransportError)) s"
  by (auto simp: wp_def set_stream_timeout_def sends_def split: list.splits)

lemma wp_recv: "wp recv (\<lambda>r s'. sends [] s s' \<and> is_ok r) s"
  by (auto simp: wp_def recv_def sends_def split: list.splits)

text \<open>The exceptions that end an attempt.\<close>

definition ends_attempt :: "session_error \<Rightarrow> bool" where
  "ends_attempt e \<longleftrightarrow> e \<in> {AttemptTimedOut, V3TransportError, V3DisconnectedError}"

lemma ends_attempt_simps [simp]:
  "ends_attempt AttemptTimedOut" "ends_attempt V3TransportError" "ends_attempt V3DisconnectedError"
  "\<not> ends_attempt FrameWakeAckTimedOut"
  by (simp_all add: ends_attempt_def)

definition sent_part :: "bytes \<Rightarrow> session \<Rightarrow> session_error + unit \<Rightarrow> session \<Rightarrow> bool" where
  "sent_part wire s r s' \<longleftrightarrow>
     (\<exists>n. sends (take n wire) s s' \<and>
        (r = Inr () \<and> take n wire = wire \<or> (\<exists>e. r = Inl e \<and> ends_attempt e)))"

lemma wp_sendall: "wp (sendall wire) (sent_part wire s) s"
  by (auto simp: wp_def sendall_def sends_def sent_part_def split: list.splits send_result.splits
      intro: exI [of _ "length wire"])

lemma sent_part_quiet: "sends [] s s1 \<Longrightarrow> sent_part wire s1 r s' \<Longrightarrow> sent_part wire s r s'"
  by (auto simp: sent_part_def intro: quiet_sends)

lemma wp_send_wire_chunk: "wp (send_wire_chunk wire deadline) (sent_part wire s) s"
  unfolding send_wire_chunk_def
proof (rule wp_bind [OF wp_remaining], goal_cases)
  case (1 e s1)
  then show ?case by (auto simp: sent_part_def intro!: exI [of _ 0])
next
  case (2 t s1)
  show ?case
  proof (rule wp_bind [OF wp_set_stream_timeout], goal_cases)
    case (1 e s2)
    with 2 have "sends [] s s2" by (blast intro: quiet_sends)
    with 1 show ?case by (auto simp: sent_part_def intro!: exI [of _ 0])
  next
    case (2 u s2)
    then have "sends [] s s2" using \<open>sends [] s s1 \<and> _\<close> by (blast intro: quiet_sends)
    then show ?case by (rule wp_mono [OF wp_sendall sent_part_quiet])
  qed
qed

lemma wp_wait_for_frame_wake_ack:
  "wp (wait_for_frame_wake_ack ack deadline)
     (\<lambda>r s'. sends [] s s' \<and> (\<forall>e. r = Inl e \<longrightarrow> ends_attempt e \<or> e = FrameWakeAckTimedOut)) s"
  unfolding wait_for_frame_wake_ack_def
proof (rule wp_bind [OF wp_remaining], goal_cases)
  case (2 t s1)
  show ?case
  proof (rule wp_bind [OF wp_set_stream_timeout], goal_cases)
    case (1 e s2)
    with 2 quiet_sends show ?case by fastforce
  next
    case (2 u s2)
    note s2 = this
    show ?case
    proof (rule wp_bind [OF wp_recv], goal_cases)
      case (2 chunk s3)
      have "sends [] s s3" using \<open>sends [] s s1 \<and> _\<close> s2 2 quiet_sends by blast
      then show ?case by (cases chunk) auto
    qed simp
  qed
qed auto

text \<open>Sending a prefix and then the rest, with anything quiet in between.\<close>

lemma sent_part_rest:
  assumes "sends (take 1 wire) s s1" "sent_part (drop 1 wire) s1 r s2"
  shows "sent_part wire s r s2"
proof -
  from assms(2) obtain n where n: "sends (take n (drop 1 wire)) s1 s2"
    "r = Inr () \<and> take n (drop 1 wire) = drop 1 wire \<or> (\<exists>e. r = Inl e \<and> ends_attempt e)"
    by (auto simp: sent_part_def)
  have t: "take 1 wire @ take n (drop 1 wire) = take (Suc n) wire"
    by (cases wire) simp_all
  from sends_trans [OF assms(1) n(1)] have "sends (take (Suc n) wire) s s2" by (simp only: t)
  moreover have "r = Inr () \<Longrightarrow> take (Suc n) wire = wire"
    using n(2) t by auto
  ultimately show ?thesis using n(2) by (auto simp: sent_part_def)
qed

lemma sent_part_first:
  "sends (take 1 wire) s s1 \<Longrightarrow> ends_attempt e \<Longrightarrow> sent_part wire s (Inl e) s1"
  by (auto simp: sent_part_def)

lemma sent_part_prefix: "sent_part (take 1 wire) s (Inl e) s' \<Longrightarrow> sent_part wire s (Inl e) s'"
  by (auto simp: sent_part_def)

lemma sent_part_done: "sent_part wire s (Inr u) s' \<Longrightarrow> sends wire s s'"
  by (auto simp: sent_part_def)

lemma wp_send_wire: "wp (send_wire wire deadline) (sent_part wire s) s"
proof (cases "v_wake_ack s")
  case None
  show ?thesis
  proof (cases "v_wake_delay s > 0")
    case False
    with None show ?thesis using wp_send_wire_chunk [of wire deadline s] by (simp add: send_wire_def wp_def)
  next
    case True
    have "wp (bindIO (send_wire_chunk (take 1 wire) deadline) (\<lambda>_.
            bindIO (remaining deadline) (\<lambda>r.
              if v_wake_delay s \<ge> r then raise AttemptTimedOut
              else bindIO (sleep (v_wake_delay s)) (\<lambda>_. send_wire_chunk (drop 1 wire) deadline))))
          (sent_part wire s) s"
    proof (rule wp_bind [OF wp_send_wire_chunk], goal_cases)
      case (1 e s1)
      then show ?case by (rule sent_part_prefix)
    next
      case (2 u s1)
      then have s1: "sends (take 1 wire) s s1" by (rule sent_part_done)
      show ?case
      proof (rule wp_bind [OF wp_remaining], goal_cases)
        case (1 e s2)
        then show ?case using s1 sends_quiet by (auto intro: sent_part_first)
      next
        case (2 t s2)
        then have s2: "sends (take 1 wire) s s2" using s1 sends_quiet by blast
        have s3: "sends (take 1 wire) s (s2\<lparr>w_clock := c\<rparr>)" for c
          using s2 by (simp add: sends_def)
        show ?case
          using wp_mono [OF wp_send_wire_chunk sent_part_rest [OF s3]] s2
          by (auto simp: wp_def sleep_def update_session_def bindIO_def intro: sent_part_first)
      qed
    qed
    with True None show ?thesis by (simp add: send_wire_def wp_def)
  qed
next
  case (Some ack)
  let ?deadline = "if v_wake_optional s then bindIO (remaining deadline) (\<lambda>r.
      let ack_wait = min (v_wake_timeout s) (r div 2)
      in bindIO monotonic (\<lambda>now. ret (min deadline (now + ack_wait)))) else ret deadline"
  have dl: "wp ?deadline (\<lambda>r s'. sends [] s1 s' \<and> (\<forall>e. r = Inl e \<longrightarrow> ends_attempt e)) s1" for s1
    by (auto simp: wp_def remaining_def monotonic_def bindIO_def sends_def Let_def)
  have "wp (bindIO (send_wire_chunk (take 1 wire) deadline) (\<lambda>_.
          bindIO ?deadline (\<lambda>ack_deadline.
          bindIO (catch (wait_for_frame_wake_ack ack ack_deadline)
               (\<lambda>e. if e = FrameWakeAckTimedOut then
                        if \<not> v_wake_optional s then raise AttemptTimedOut else ret ()
                      else raise e)) (\<lambda>_.
            send_wire_chunk (drop 1 wire) deadline))))
        (sent_part wire s) s"
  proof (rule wp_bind [OF wp_send_wire_chunk], goal_cases)
    case (1 e s1)
    then show ?case by (rule sent_part_prefix)
  next
    case (2 u s1)
    then have s1: "sends (take 1 wire) s s1" by (rule sent_part_done)
    show ?case
    proof (rule wp_bind [OF dl], goal_cases)
      case (1 e s2)
      then show ?case using s1 sends_quiet by (auto intro: sent_part_first)
    next
      case (2 ad s2)
      then have s2: "sends (take 1 wire) s s2" using s1 sends_quiet by blast
      have ack: "wp (catch (wait_for_frame_wake_ack ack ad)
               (\<lambda>e. if e = FrameWakeAckTimedOut then
                        if \<not> v_wake_optional s then raise AttemptTimedOut else ret ()
                      else raise e)) (\<lambda>r s'. sends [] s2 s' \<and> (\<forall>e. r = Inl e \<longrightarrow> ends_attempt e)) s2"
        by (rule wp_catch [OF wp_wait_for_frame_wake_ack]) auto
      show ?case
      proof (rule wp_bind [OF ack], goal_cases)
        case (1 e s3)
        then show ?case using s2 sends_quiet by (auto intro: sent_part_first)
      next
        case (2 v s3)
        then have s3: "sends (take 1 wire) s s3" using s2 sends_quiet by blast
        show ?case by (rule wp_mono [OF wp_send_wire_chunk sent_part_rest [OF s3]])
      qed
    qed
  qed
  with Some show ?thesis by (simp add: send_wire_def wp_def)
qed

subsection \<open>Correlation\<close>

definition answers :: "frame \<Rightarrow> frame \<Rightarrow> bool" where
  "answers req f \<longleftrightarrow> fr_type f = RESPONSE \<and> fr_sequence f = fr_sequence req \<and> fr_opcode f = fr_opcode req"

lemma answers_iff: "fr_type req = REQUEST \<Longrightarrow> (validate_response req f = Inr ()) = answers req f"
  by (auto simp: validate_response_ok answers_def)

lemma validate_response_Inl:
  "fr_type req = REQUEST \<Longrightarrow> fr_type f = RESPONSE \<Longrightarrow> validate_response req f = Inl e \<Longrightarrow>
     (\<exists>a b. e = SequenceMismatchError a b) \<or> (\<exists>a b. e = OpcodeMismatchError a b)"
  by (auto simp: validate_response_def split: if_splits)

lemma sends_route_frames:
  assumes "fr_type req = REQUEST" "\<And>f. c = Some f \<Longrightarrow> answers req f"
  shows "\<exists>r s'. route_frames fs req c s = Inr (r, s') \<and> sends [] s s' \<and> v_parser s' = v_parser s \<and>
    (\<forall>f. r = Some f \<longrightarrow> answers req f)"
  using assms
proof (induction fs req c s rule: route_frames.induct)
  case (2 f fs req c s)
  have quiet: "sends [] s s1 \<Longrightarrow> sends [] s1 s' \<Longrightarrow> sends [] s s'" for s1 s'
    by (rule quiet_sends)
  have parser [simp]: "v_parser (push_event f s) = v_parser s" "v_parser (push_orphan f s1) = v_parser s1"
    "v_parser (push_error e s) = v_parser s" for e s1
    by (simp_all add: push_event_def push_orphan_def push_error_def)
  have both: "sends [] s (push_orphan f (push_error e s))" for e
    by (rule quiet [OF sends_push(3) sends_push(2)])
  consider "fr_type f = EVENT" | "fr_type f = REQUEST" | "fr_type f = RESPONSE" by (cases "fr_type f") auto
  then show ?case
  proof cases
    case 1
    then show ?thesis using "2.IH"(1) "2.prems" quiet [OF sends_push(1)] by fastforce
  next
    case fr: 2
    then show ?thesis using "2.IH"(2) "2.prems" quiet [OF sends_push(3)] by fastforce
  next
    case 3
    show ?thesis
    proof (cases "validate_response req f")
      case (Inl e)
      then consider a b where "e = SequenceMismatchError a b" | a b where "e = OpcodeMismatchError a b"
        using validate_response_Inl [OF "2.prems"(1) 3] by blast
      then show ?thesis
      proof cases
        case (1 a b)
        then show ?thesis
          using "2.IH"(3) [of e a b] "2.prems" 3 Inl quiet [OF both] by fastforce
      next
        case (2 a b)
        then show ?thesis
          using "2.IH"(4) [of e a b] "2.prems" 3 Inl quiet [OF both] by fastforce
      qed
    next
      case (Inr u)
      then have f: "answers req f" using answers_iff "2.prems"(1) by simp
      show ?thesis
      proof (cases c)
        case None
        then show ?thesis using "2.IH"(5) [of u] "2.prems" 3 Inr f by fastforce
      next
        case (Some g)
        then show ?thesis
          using "2.IH"(6) [of u g] "2.prems" 3 Inr quiet [OF sends_push(2)] by fastforce
      qed
    qed
  qed
qed auto

lemma sends_parser:
  assumes "wf_session s" "wf_parser p" "pr_max_payload p = pr_max_payload (v_parser s)"
  shows "sends [] s (s\<lparr>v_parser := p\<rparr>)"
  using assms by (simp add: sends_def wf_session_def)

lemma sends_collect: "wf_session s \<Longrightarrow> sends [] s (collect_parser_errors s)"
proof -
  assume wf: "wf_session s"
  have push: "sends [] s1 (fold (\<lambda>e. push_error (ProtocolFailure e)) es s1)" for es s1
  proof (induction es arbitrary: s1)
    case (Cons e es)
    show ?case using quiet_sends [OF sends_push(3) Cons.IH] by simp
  qed simp
  have "sends [] s (s\<lparr>v_parser := snd (pop_errors (v_parser s))\<rparr>)"
    by (rule sends_parser [OF wf]) (use wf in \<open>simp_all add: pop_errors_def wf_session_def\<close>)
  from quiet_sends [OF this push] show ?thesis
    by (simp add: collect_parser_errors_def pop_errors_def)
qed

lemma wp_route_parsed:
  assumes "fr_type req = REQUEST" "wf_session s"
    and "\<exists>fs p'. parse (v_parser s) = Inr (fs, p') \<and> wf_parser p' \<and> pr_max_payload p' = pr_max_payload (v_parser s)"
  shows "wp (route_parsed req parse)
    (\<lambda>r s'. sends [] s s' \<and> (\<exists>c. r = Inr c \<and> (\<forall>f. c = Some f \<longrightarrow> answers req f))) s"
proof -
  obtain fs p where p: "parse (v_parser s) = Inr (fs, p)" "wf_parser p" "pr_max_payload p = pr_max_payload (v_parser s)"
    using assms(3) by blast
  have s1: "sends [] s (s\<lparr>v_parser := p\<rparr>)" by (rule sends_parser [OF assms(2) p(2,3)])
  obtain c s2 where r: "route_frames fs req None (s\<lparr>v_parser := p\<rparr>) = Inr (c, s2)"
    "sends [] (s\<lparr>v_parser := p\<rparr>) s2" "\<forall>f. c = Some f \<longrightarrow> answers req f"
    using sends_route_frames [OF assms(1), of None fs "s\<lparr>v_parser := p\<rparr>"] by auto
  have s2: "sends [] s s2" by (rule quiet_sends [OF s1 r(2)])
  then have "wf_session s2" using assms(2) by (simp add: sends_def)
  from quiet_sends [OF s2 sends_collect [OF this]] r(3) show ?thesis
    by (simp add: wp_def route_parsed_def p(1) r(1))
qed

lemma feed_ready:
  "wf_session s \<Longrightarrow> \<exists>fs p'. feed (v_parser s) data = Inr (fs, p') \<and> wf_parser p' \<and>
     pr_max_payload p' = pr_max_payload (v_parser s)"
  using feed_feeds [of "v_parser s" data] feeds_wf by (fastforce simp: wf_session_def feeds_def)

lemma finish_ready:
  "wf_session s \<Longrightarrow> \<exists>fs p'. finish (v_parser s) = Inr (fs, p') \<and> wf_parser p' \<and>
     pr_max_payload p' = pr_max_payload (v_parser s)"
proof -
  assume "wf_session s"
  then have wf: "wf_parser (v_parser s)" by (simp add: wf_session_def)
  obtain p' where p': "finish (v_parser s) = Inr (rest_frames (v_parser s), p')"
    "conserves (v_parser s) (rest_frames (v_parser s)) p'"
    using finish_spec [OF wf] by blast
  then have "wf_parser p'" "pr_max_payload p' = pr_max_payload (v_parser s)"
    using wf conserves_wf by (auto simp: conserves_def)
  with p' show ?thesis by blast
qed

lemma wp_route_feed:
  assumes "fr_type req = REQUEST" "wf_session s"
  shows "wp (route_parsed req (\<lambda>p. feed p data))
    (\<lambda>r s'. sends [] s s' \<and> (\<exists>c. r = Inr c \<and> (\<forall>f. c = Some f \<longrightarrow> answers req f))) s"
  by (rule wp_route_parsed [OF assms]) (rule feed_ready [OF assms(2)])

definition wait_outcome :: "frame \<Rightarrow> session \<Rightarrow> session_error + frame \<Rightarrow> session \<Rightarrow> bool" where
  "wait_outcome req s r s' \<longleftrightarrow> sends [] s s' \<and>
     (case r of Inr f \<Rightarrow> answers req f | Inl e \<Rightarrow> ends_attempt e)"

lemma wait_outcome_quiet: "sends [] s s1 \<Longrightarrow> wait_outcome req s1 r s' \<Longrightarrow> wait_outcome req s r s'"
  by (auto simp: wait_outcome_def intro: quiet_sends)

lemma wp_wait_for_response:
  assumes "fr_type req = REQUEST"
  shows "wf_session s \<Longrightarrow> wp (wait_for_response req deadline) (wait_outcome req s) s"
proof (induction "length (w_recvs s)" arbitrary: s rule: less_induct)
  case less
  have unfold_loop: "wait_for_response req deadline =
     bindIO (remaining deadline) (\<lambda>r.
     bindIO (set_stream_timeout r) (\<lambda>_.
     bindIO recv (\<lambda>chunk.
       case chunk of
         RecvTimedOut \<Rightarrow> raise AttemptTimedOut
       | RecvFailed \<Rightarrow> raise V3TransportError
       | RecvOther \<Rightarrow> raise V3TransportError
       | RecvData data \<Rightarrow>
           if data = [] then raise V3DisconnectedError
           else
             bindIO (route_parsed req (\<lambda>p. feed p data)) (\<lambda>response.
               case response of
                 Some f \<Rightarrow> ret f
               | None \<Rightarrow> wait_for_response req deadline))))"
    by (rule ext, subst wait_for_response.simps)
      (auto simp: bindIO_def split: prod.splits sum.splits recv_result.splits option.splits)
  show ?case
  proof (subst unfold_loop, rule wp_bind [where P = "\<lambda>r s1. sends [] s s1 \<and> w_recvs s1 = w_recvs s \<and> (\<forall>e. r = Inl e \<longrightarrow> ends_attempt e)"], goal_cases)
    case 1
    show ?case
      by (rule wpI) (use remaining_recvs wpD [OF wp_remaining] in fastforce)
  next
    case (2 e s1)
    then show ?case by (simp add: wait_outcome_def)
  next
    case (3 t s1)
    note s1 = this
    show ?case
    proof (rule wp_bind [where P = "\<lambda>r s2. sends [] s s2 \<and> w_recvs s2 = w_recvs s \<and> (\<forall>e. r = Inl e \<longrightarrow> ends_attempt e)"], goal_cases)
      case 1
      show ?case
        by (rule wpI) (use s1 set_stream_timeout_recvs wpD [OF wp_set_stream_timeout] quiet_sends in fastforce)
    next
      case (2 e s2)
      then show ?case by (simp add: wait_outcome_def)
    next
      case (3 u s2)
      show ?case
      proof (cases "w_recvs s2")
        case Nil
        then show ?thesis using 3 by (simp add: wp_def bindIO_def recv_def wait_outcome_def raise_def)
      next
        case (Cons chunk rest)
        define s3 where "s3 = s2\<lparr>w_recvs := rest\<rparr>"
        have s3: "sends [] s s3" using 3 by (simp add: s3_def sends_def)
        have "w_recvs s = chunk # rest" using 3 Cons by simp
        then have short: "length (w_recvs s3) < length (w_recvs s)" by (simp add: s3_def)
        have wf3: "wf_session s3" using s3 less.prems by (simp add: sends_def)
        have "wp (case chunk of
         RecvTimedOut \<Rightarrow> raise AttemptTimedOut
       | RecvFailed \<Rightarrow> raise V3TransportError
       | RecvOther \<Rightarrow> raise V3TransportError
       | RecvData data \<Rightarrow>
           if data = [] then raise V3DisconnectedError
           else
             bindIO (route_parsed req (\<lambda>p. feed p data)) (\<lambda>response.
               case response of
                 Some f \<Rightarrow> ret f
               | None \<Rightarrow> wait_for_response req deadline)) (wait_outcome req s) s3"
        proof (cases chunk)
          case (RecvData data)
          have "wp (bindIO (route_parsed req (\<lambda>p. feed p data)) (\<lambda>response.
               case response of Some f \<Rightarrow> ret f | None \<Rightarrow> wait_for_response req deadline))
              (wait_outcome req s) s3"
          proof (rule wp_bind [where P = "\<lambda>r s4. sends [] s3 s4 \<and> w_recvs s4 = w_recvs s3 \<and>
              (\<exists>c. r = Inr c \<and> (\<forall>f. c = Some f \<longrightarrow> answers req f))"], goal_cases)
            case 1
            show ?case
              by (rule wpI) (use route_parsed_recvs wpD [OF wp_route_feed [OF assms wf3]] in fastforce)
          next
            case (3 c s4)
            then have s4: "sends [] s s4" "wf_session s4"
              using quiet_sends [OF s3] wf3 by (auto simp: sends_def)
            show ?case
            proof (cases c)
              case None
              have "wp (wait_for_response req deadline) (wait_outcome req s4) s4"
                using less.hyps [of s4] short 3 s4(2) by simp
              then show ?thesis unfolding None by (auto intro: wp_mono wait_outcome_quiet [OF s4(1)])
            next
              case (Some f)
              then show ?thesis using 3 s4 by (simp add: wait_outcome_def)
            qed
          qed simp
          with RecvData s3 show ?thesis by (simp add: wait_outcome_def)
        qed (use s3 in \<open>simp_all add: wait_outcome_def\<close>)
        with Cons show ?thesis by (simp add: wp_def bindIO_def recv_def s3_def)
      qed
    qed
  qed
qed

subsection \<open>Attempts\<close>

text \<open>\<open>moves bs s s'\<close>: as \<open>sends\<close>, but the session may have been quarantined on the way.\<close>

definition moves :: "bytes \<Rightarrow> session \<Rightarrow> session \<Rightarrow> bool" where
  "moves bs s s' \<longleftrightarrow> core (s'\<lparr>v_reason := v_reason s\<rparr>) = core s \<and> w_sent s' = w_sent s @ bs \<and>
     (wf_session s \<longrightarrow> wf_session s')"

lemma sends_moves: "sends bs s s' \<Longrightarrow> moves bs s s' \<and> v_reason s' = v_reason s"
  by (simp add: sends_def moves_def core_def)

lemma moves_trans: "moves a s s1 \<Longrightarrow> moves b s1 s2 \<Longrightarrow> moves (a @ b) s s2"
  by (simp add: moves_def core_def)

lemma core_fields:
  "core (s'\<lparr>v_reason := v_reason s\<rparr>) = core s \<Longrightarrow>
     v_quarantine_on s' = v_quarantine_on s \<and> v_timeout s' = v_timeout s \<and> v_sequence s' = v_sequence s \<and>
     v_max_payload s' = v_max_payload s \<and> v_queue_limit s' = v_queue_limit s"
  by (simp add: core_def)

text \<open>A transport failure is recorded exactly when the policy asks for it; the first one stays.\<close>

definition noted :: "session_error \<Rightarrow> session \<Rightarrow> session \<Rightarrow> bool" where
  "noted e s s' \<longleftrightarrow>
     v_reason s' = (if v_quarantine_on s \<and> v_reason s = None then Some e else v_reason s)"

lemma wp_quarantine:
  assumes "is_transport e"
  shows "wp (quarantine_transport_failure e) (\<lambda>r s'. r = Inr () \<and> moves [] s s' \<and> noted e s s') s"
  using assms
  by (auto simp: wp_def quarantine_transport_failure_def update_session_def moves_def noted_def
      core_def wf_session_def)

lemma ends_attempt_transport: "ends_attempt e \<Longrightarrow> e \<noteq> AttemptTimedOut \<Longrightarrow> is_transport e"
  by (auto simp: ends_attempt_def is_transport_def)

definition attempt_outcome :: "frame \<Rightarrow> bytes \<Rightarrow> session \<Rightarrow> session_error + frame option \<Rightarrow> session \<Rightarrow> bool" where
  "attempt_outcome req wire s r s' \<longleftrightarrow>
     (\<exists>n. moves (take n wire) s s') \<and>
     (case r of
        Inr c \<Rightarrow> v_reason s' = v_reason s \<and> (\<forall>f. c = Some f \<longrightarrow> answers req f)
      | Inl e \<Rightarrow> is_transport e \<and> noted e s s')"

lemma wp_attempt:
  assumes req: "fr_type req = REQUEST" and wf: "wf_session s"
  shows "wp (attempt req wire request_timeout) (attempt_outcome req wire s) s"
  unfolding attempt_def Let_def
proof (rule wp_bind [OF wp_monotonic], goal_cases)
  case (2 now s1)
  then have s1: "sends [] s s1" "wf_session s1" using wf by (auto simp: sends_def)
  let ?tries = "bindIO (send_wire wire (now + request_timeout)) (\<lambda>_.
        bindIO (wait_for_response req (now + request_timeout)) (\<lambda>response. ret (Some response)))"
  have tries: "wp ?tries (\<lambda>r s2. (\<exists>n. sends (take n wire) s s2) \<and>
      (case r of Inr c \<Rightarrow> (\<exists>f. c = Some f \<and> answers req f) | Inl e \<Rightarrow> ends_attempt e)) s1"
  proof (rule wp_bind [OF wp_send_wire], goal_cases)
    case (1 e s2)
    then show ?case using quiet_sends [OF s1(1)] by (auto simp: sent_part_def)
  next
    case (2 u s2)
    then have s2: "sends wire s s2" using quiet_sends [OF s1(1) sent_part_done] by blast
    then have wf2: "wf_session s2" using wf by (simp add: sends_def)
    show ?case
    proof (rule wp_bind [OF wp_wait_for_response [OF req wf2]], goal_cases)
      case (1 e s3)
      then have "\<exists>n. sends (take n wire) s s3"
        using sends_quiet [OF s2] by (intro exI [of _ "length wire"]) (simp add: wait_outcome_def)
      with 1 show ?case by (auto simp: wait_outcome_def)
    next
      case (2 f s3)
      then have "\<exists>n. sends (take n wire) s s3"
        using sends_quiet [OF s2] by (intro exI [of _ "length wire"]) (simp add: wait_outcome_def)
      with 2 show ?case by (auto simp: wait_outcome_def)
    qed
  qed
  show ?case
  proof (rule wp_catch [OF tries], goal_cases)
    case (1 e s2)
    then obtain n where n: "sends (take n wire) s s2" and e: "ends_attempt e" by auto
    have wf2: "wf_session s2" using n wf by (simp add: sends_def)
    show ?case
    proof (cases "e = AttemptTimedOut")
      case True
      have fin: "wp (finish_attempt req)
          (\<lambda>r s'. sends [] s2 s' \<and> (\<exists>c. r = Inr c \<and> (\<forall>f. c = Some f \<longrightarrow> answers req f))) s2"
        unfolding finish_attempt_def by (rule wp_route_parsed [OF req wf2]) (rule finish_ready [OF wf2])
      show ?thesis
        unfolding if_P [OF True]
      proof (rule wp_mono [OF fin], elim conjE exE)
        fix r :: "session_error + frame option" and s3 c
        assume "sends [] s2 s3" and c: "r = Inr c" "\<forall>f. c = Some f \<longrightarrow> answers req f"
        then have "moves (take n wire) s s3" "v_reason s3 = v_reason s"
          using sends_moves [OF sends_quiet [OF n]] by blast+
        with c show "attempt_outcome req wire s r s3" by (auto simp: attempt_outcome_def)
      qed
    next
      case False
      then have t: "is_transport e" using ends_attempt_transport e by blast
      show ?thesis
        unfolding if_not_P [OF False] if_P [OF t]
      proof (rule wp_bind [OF wp_quarantine [OF t]], goal_cases)
        case (2 u s3)
        have m: "moves (take n wire) s s2" "v_reason s2 = v_reason s" "v_quarantine_on s2 = v_quarantine_on s"
          using sends_moves [OF n] by (auto simp: moves_def core_def)
        have "moves (take n wire) s s3" using moves_trans [OF m(1), of "[]" s3] 2 by simp
        with m 2 t show ?case
          by (auto simp: attempt_outcome_def noted_def)
      qed simp
    qed
  next
    case (2 c s2)
    then obtain n where "sends (take n wire) s s2" and "\<exists>f. c = Some f \<and> answers req f" by auto
    with sends_moves [OF this(1)] show ?case by (auto simp: attempt_outcome_def)
  qed
qed simp

text \<open>Several attempts: each sends a prefix of the one encoded frame.\<close>

definition loop_result :: "frame \<Rightarrow> bytes \<Rightarrow> nat \<Rightarrow> session \<Rightarrow> session_error + frame \<Rightarrow> session \<Rightarrow> bool" where
  "loop_result req wire k s r s' \<longleftrightarrow>
     (\<exists>ns. length ns \<le> k \<and> moves (concat (map (\<lambda>n. take n wire) ns)) s s') \<and>
     (case r of
        Inr f \<Rightarrow> v_reason s' = v_reason s \<and> answers req f \<and> frame_ok f
      | Inl e \<Rightarrow>
          (\<exists>f. e = RemoteStatusError (status_class (fr_status f)) f \<and> answers req f \<and> \<not> frame_ok f \<and>
             v_reason s' = v_reason s) \<or>
          is_transport e \<and> noted e s s')"

lemma loop_result_step:
  assumes "moves (take n wire) s s1" "v_reason s1 = v_reason s" "loop_result req wire k s1 r s'"
  shows "loop_result req wire (Suc k) s r s'"
proof -
  obtain ns where ns: "length ns \<le> k" "moves (concat (map (\<lambda>n. take n wire) ns)) s1 s'"
    using assms(3) by (auto simp: loop_result_def)
  have "v_quarantine_on s1 = v_quarantine_on s" using assms(1) by (simp add: moves_def core_def)
  moreover have "moves (concat (map (\<lambda>n. take n wire) (n # ns))) s s'"
    using moves_trans [OF assms(1) ns(2)] by simp
  ultimately show ?thesis
    using assms(2,3) ns(1) unfolding loop_result_def noted_def
    by (intro conjI exI [of _ "n # ns"]) (auto split: sum.splits)
qed

lemma loop_result_first:
  assumes "moves (take n wire) s s1" "v_reason s1 = v_reason s" "answers req f"
  shows "wp (successful f) (loop_result req wire (Suc k) s) s1"
  using assms
  by (auto simp: successful_def loop_result_def intro!: exI [of _ "[n]"])

lemma wp_attempt_loop:
  assumes req: "fr_type req = REQUEST"
  shows "wf_session s \<Longrightarrow> 0 < k \<Longrightarrow>
     wp (attempt_loop req wire request_timeout attempts k) (loop_result req wire k s) s"
proof (induction k arbitrary: s)
  case (Suc k)
  show ?case
    unfolding attempt_loop.simps
  proof (rule wp_bind [OF wp_attempt [OF req Suc.prems(1)]], goal_cases)
    case (1 e s1)
    then obtain n where "moves (take n wire) s s1" "is_transport e" "noted e s s1"
      by (auto simp: attempt_outcome_def)
    then show ?case by (auto simp: loop_result_def intro!: exI [of _ "[n]"])
  next
    case (2 c s1)
    then obtain n where n: "moves (take n wire) s s1" "v_reason s1 = v_reason s"
      "\<forall>f. c = Some f \<longrightarrow> answers req f"
      by (auto simp: attempt_outcome_def)
    have wf1: "wf_session s1" using n(1) Suc.prems(1) by (simp add: moves_def)
    have again: "wp (attempt_loop req wire request_timeout attempts k) (loop_result req wire (Suc k) s) s1"
      if "0 < k"
      by (rule wp_mono [OF Suc.IH [OF wf1 that] loop_result_step [OF n(1,2)]])
    show ?case
    proof (cases c)
      case (Some f)
      then show ?thesis
        using again loop_result_first [OF n(1,2)] n(3) by simp
    next
      case None
      let ?e = "V3TimeoutError (fr_sequence req) (fr_opcode req) attempts request_timeout"
      have t: "is_transport ?e" by (simp add: is_transport_def)
      have last: "wp (bindIO (quarantine_transport_failure ?e) (\<lambda>_. raise ?e)) (loop_result req wire (Suc k) s) s1"
      proof (rule wp_bind [OF wp_quarantine [OF t]], goal_cases)
        case (2 u s2)
        have "v_quarantine_on s1 = v_quarantine_on s" using n(1) by (simp add: moves_def core_def)
        moreover have "moves (take n wire) s s2" using moves_trans [OF n(1)] 2 by fastforce
        ultimately show ?case using 2 t n(2)
          by (auto simp: loop_result_def noted_def intro!: exI [of _ "[n]"])
      qed simp
      show ?thesis using None again last by (cases "k = 0") (simp_all add: Let_def)
    qed
  qed
qed simp

subsection \<open>Whole requests\<close>

definition request_of :: "session \<Rightarrow> int \<Rightarrow> bytes \<Rightarrow> int \<Rightarrow> frame" where
  "request_of s opcode payload flags =
     \<lparr>fr_type = REQUEST, fr_sequence = v_sequence s, fr_opcode = opcode, fr_payload = payload,
      fr_flags = flags, fr_status = 0, fr_version = PROTOCOL_VERSION\<rparr>"

lemma wp_restore_timeout:
  "wp restore_timeout
     (\<lambda>r s'. r = Inr () \<and> sends [] s s' \<or> r = Inl V3TransportError \<and> moves [] s s' \<and> noted V3TransportError s s') s"
proof -
  have t: "is_transport V3TransportError" by (simp add: is_transport_def)
  have "wp (catch (set_stream_timeout (v_timeout s))
       (\<lambda>e. bindIO (quarantine_transport_failure e) (\<lambda>_. raise e)))
     (\<lambda>r s'. r = Inr () \<and> sends [] s s' \<or> r = Inl V3TransportError \<and> moves [] s s' \<and> noted V3TransportError s s') s"
  proof (rule wp_catch [OF wp_set_stream_timeout], goal_cases)
    case (1 e s1)
    then have e: "e = V3TransportError" and s1: "sends [] s s1" by auto
    show ?case
      unfolding e
    proof (rule wp_bind [OF wp_quarantine [OF t]], goal_cases)
      case (2 u s2)
      have "moves [] s s2" "v_reason s1 = v_reason s" "v_quarantine_on s1 = v_quarantine_on s"
        using moves_trans [of "[]" s s1 "[]" s2] 2 sends_moves [OF s1] s1 by (auto simp: sends_def core_def)
      with 2 show ?case by (simp add: noted_def)
    qed simp
  next
    case (2 u s1)
    then show ?case by auto
  qed
  then show ?thesis by (simp add: wp_def restore_timeout_def)
qed

lemma wp_finally:
  assumes "wp m P s" and "\<And>r s1. P r s1 \<Longrightarrow> wp f (\<lambda>r2 s2. case r2 of Inl e \<Rightarrow> Q (Inl e) s2 | Inr _ \<Rightarrow> Q r s2) s1"
  shows "wp (finally_do m f) Q s"
proof (cases "m s")
  case (Pair r s1)
  with wpD [OF assms(1)] have "wp f (\<lambda>r2 s2. case r2 of Inl e \<Rightarrow> Q (Inl e) s2 | Inr _ \<Rightarrow> Q r s2) s1"
    by (intro assms(2))
  with Pair show ?thesis by (auto simp: wp_def finally_do_def split: prod.splits sum.splits)
qed

text \<open>
  What a request may do. Before anything is sent it may be refused, leaving the session as it is.
  Otherwise the sequence number moves on by one, the stream takes at most \<open>attempts\<close> prefixes of the
  one encoded frame, and the result is an answer to it or an error whose transport failures are
  recorded.
\<close>

definition refused :: "session_error \<Rightarrow> session \<Rightarrow> bool" where
  "refused e s \<longleftrightarrow> e = ArgumentError \<or> (\<exists>p. e = ProtocolFailure p) \<or>
     (\<exists>reason. v_reason s = Some reason \<and> e = V3WriteQuarantinedError reason)"

definition request_result :: "frame \<Rightarrow> session \<Rightarrow> session_error + frame \<Rightarrow> session \<Rightarrow> bool" where
  "request_result req s r s' \<longleftrightarrow>
     (case r of
        Inr f \<Rightarrow> v_reason s' = None \<and> answers req f \<and> frame_ok f
      | Inl e \<Rightarrow>
          (\<exists>f. e = RemoteStatusError (status_class (fr_status f)) f \<and> answers req f \<and> \<not> frame_ok f \<and>
             v_reason s' = None) \<or>
          is_transport e \<and> (v_reason s' \<noteq> None \<longleftrightarrow> v_quarantine_on s))"

definition request_outcome ::
  "int \<Rightarrow> bytes \<Rightarrow> int \<Rightarrow> nat \<Rightarrow> session \<Rightarrow> session_error + frame \<Rightarrow> session \<Rightarrow> bool" where
  "request_outcome opcode payload flags attempts s r s' \<longleftrightarrow>
     (\<exists>e. r = Inl e \<and> refused e s \<and> s' = s) \<or>
     v_reason s = None \<and> wf_session s' \<and> int (length payload) \<le> v_max_payload s \<and>
     v_sequence s' = (v_sequence s + 1) mod 65536 \<and> v_quarantine_on s' = v_quarantine_on s \<and>
     (\<exists>ns. length ns \<le> attempts \<and> w_sent s' = w_sent s @
        concat (map (\<lambda>n. take n (encode_frame (request_of s opcode payload flags))) ns)) \<and>
     request_result (request_of s opcode payload flags) s r s'"

definition prefixes_sent :: "bytes \<Rightarrow> nat \<Rightarrow> session \<Rightarrow> session \<Rightarrow> bool" where
  "prefixes_sent wire k s s' \<longleftrightarrow> (\<exists>ns. length ns \<le> k \<and> moves (concat (map (\<lambda>n. take n wire) ns)) s s')"

lemma prefixes_sent_quiet: "prefixes_sent wire k s s1 \<Longrightarrow> moves [] s1 s2 \<Longrightarrow> prefixes_sent wire k s s2"
  unfolding prefixes_sent_def using moves_trans by fastforce

lemma wp_loop_and_restore:
  assumes "fr_type req = REQUEST" "wf_session s" "0 < k" "v_reason s = None"
  shows "wp (finally_do (attempt_loop req wire t a k) restore_timeout)
    (\<lambda>r s'. prefixes_sent wire k s s' \<and> request_result req s r s') s"
proof (rule wp_finally [OF wp_attempt_loop [OF assms(1-3)]])
  fix r s1
  assume l: "loop_result req wire k s r s1"
  then have ps: "prefixes_sent wire k s s1" by (simp add: loop_result_def prefixes_sent_def)
  then have q1: "v_quarantine_on s1 = v_quarantine_on s" by (auto simp: prefixes_sent_def moves_def core_def)
  have reason: "v_reason s1 \<noteq> None \<Longrightarrow> v_quarantine_on s"
    using l assms(4) by (cases r) (auto simp: loop_result_def noted_def split: if_splits)
  have res: "request_result req s r s1"
    using l assms(4) by (cases r) (auto simp: loop_result_def request_result_def noted_def)
  show "wp restore_timeout (\<lambda>r2 s2. case r2 of
      Inl e \<Rightarrow> prefixes_sent wire k s s2 \<and> request_result req s (Inl e) s2
    | Inr _ \<Rightarrow> prefixes_sent wire k s s2 \<and> request_result req s r s2) s1"
  proof (rule wp_mono [OF wp_restore_timeout], goal_cases)
    case (1 r2 s2)
    then show ?case
    proof (elim disjE conjE)
      assume r2: "r2 = Inr ()" and s2: "sends [] s1 s2"
      then have "prefixes_sent wire k s s2" "v_reason s2 = v_reason s1"
        using sends_moves [OF s2] prefixes_sent_quiet [OF ps] by blast+
      with res r2 show ?thesis by (auto simp: request_result_def split: sum.splits)
    next
      assume r2: "r2 = Inl V3TransportError" and s2: "moves [] s1 s2" "noted V3TransportError s1 s2"
      then have "prefixes_sent wire k s s2" "v_reason s2 \<noteq> None \<longleftrightarrow> v_quarantine_on s"
        using prefixes_sent_quiet [OF ps] q1 reason by (auto simp: noted_def)
      with r2 show ?thesis by (simp add: request_result_def is_transport_def)
    qed
  qed
qed

lemma protocol_cases: "protocol r = Inl e \<Longrightarrow> \<exists>p. e = ProtocolFailure p" "(protocol r = Inr x) = (r = Inr x)"
  by (auto simp: protocol_def split: sum.splits)

lemma positive_float_Inl: "positive_float v = Inl e \<Longrightarrow> e = ArgumentError"
  by (auto simp: positive_float_def split: if_splits)

lemma retry_count_cases: "retry_count v = Inl e \<Longrightarrow> e = ArgumentError" "retry_count v = Inr w \<Longrightarrow> w = v \<and> 0 \<le> v"
  by (auto simp: retry_count_def split: if_splits)

definition attempts_of :: "int option \<Rightarrow> session \<Rightarrow> nat" where
  "attempts_of retries s = nat ((case retries of None \<Rightarrow> v_retries s | Some r \<Rightarrow> r) + 1)"

lemma wp_request_frame:
  assumes wf: "wf_session s"
  shows "wp (request_frame opcode payload timeout retries flags)
    (request_outcome opcode payload flags (attempts_of retries s) s) s"
proof -
  let ?Q = "request_outcome opcode payload flags (attempts_of retries s) s"
  have refuse: "?Q (Inl e) s" if "refused e s" for e
    using that by (auto simp: request_outcome_def)
  have body: "wp (\<lambda>s. case v_reason s of
       Some reason \<Rightarrow> raise (V3WriteQuarantinedError reason) s
     | None \<Rightarrow>
         if int (length (fr_payload request)) > v_max_payload s
         then raise (ProtocolFailure (PayloadTooLargeError (int (length (fr_payload request))) (v_max_payload s))) s
         else
           let (sequence, next_value) = next_sequence (v_sequence s) in
           bindIO (update_session (\<lambda>s. s\<lparr>v_sequence := next_value\<rparr>)) (\<lambda>_.
           bindIO (lift_result (protocol
             (mk_frame (int_of_frame_type REQUEST) sequence (fr_opcode request) (fr_payload request)
                (fr_flags request) 0 PROTOCOL_VERSION))) (\<lambda>request.
             let wire = encode_frame request; attempts = limit + 1
             in finally_do (attempt_loop request wire t attempts (nat attempts))
                  restore_timeout)) s) ?Q s"
    if req: "mk_frame (int_of_frame_type REQUEST) 0 opcode payload flags 0 PROTOCOL_VERSION = Inr request"
      and limit: "0 \<le> limit" "nat (limit + 1) = attempts_of retries s" for request limit t
  proof (cases "v_reason s")
    case (Some reason)
    then show ?thesis using refuse [of "V3WriteQuarantinedError reason"] by (simp add: wp_def refused_def)
  next
    case None
    have fields: "fr_payload request = payload" "fr_opcode request = opcode" "fr_flags request = flags"
      and wfr: "wf_frame request"
      using req mk_frame_wf [OF req] by (auto simp: mk_frame_def result_simps split: if_splits option.splits)
    show ?thesis
    proof (cases "int (length payload) > v_max_payload s")
      case True
      with None fields show ?thesis
        using refuse by (simp add: wp_def refused_def)
    next
      case False
      define s1 where "s1 = s\<lparr>v_sequence := (v_sequence s + 1) mod 65536\<rparr>"
      have seq: "0 \<le> v_sequence s" "v_sequence s \<le> 0xFFFF" using wf by (simp_all add: wf_session_def)
      have wf1: "wf_session s1" using wf by (simp add: s1_def wf_session_def)
      have mk: "mk_frame (int_of_frame_type REQUEST) (v_sequence s) opcode payload flags 0 PROTOCOL_VERSION =
          Inr (request_of s opcode payload flags)"
        using wfr seq fields by (simp add: mk_frame_def wf_frame_def request_of_def PROTOCOL_VERSION_def
            frame_type_of_int_def)
      let ?req = "request_of s opcode payload flags"
      let ?wire = "encode_frame ?req"
      have r1: "v_reason s1 = None" using None by (simp add: s1_def)
      have run: "wp (finally_do (attempt_loop ?req ?wire t (limit + 1) (nat (limit + 1))) restore_timeout) ?Q s1"
      proof (rule wp_mono [OF wp_loop_and_restore [OF _ wf1 _ r1]], goal_cases)
        case (3 r s')
        then obtain ns where "length ns \<le> attempts_of retries s"
          "moves (concat (map (\<lambda>n. take n ?wire) ns)) s1 s'"
          using limit by (auto simp: prefixes_sent_def)
        moreover from this(2) have "w_sent s' = w_sent s @ concat (map (\<lambda>n. take n ?wire) ns)" "wf_session s'"
          "v_sequence s' = (v_sequence s + 1) mod 65536" "v_quarantine_on s' = v_quarantine_on s"
          using wf1 by (auto simp: moves_def s1_def core_def)
        moreover have "v_quarantine_on s1 = v_quarantine_on s" by (simp add: s1_def)
        then have "request_result ?req s r s'"
          using 3 by (simp add: request_result_def cong: sum.case_cong)
        ultimately show ?case
          using False None by (simp add: request_outcome_def) blast
      qed (use limit in \<open>simp_all add: request_of_def\<close>)
      show ?thesis
        using None False run
        by (simp add: wp_def fields next_sequence_bounds seq update_session_def bindIO_def
            mk [simplified] protocol_def Let_def s1_def)
    qed
  qed
  have "wp (bindIO (lift_result (case timeout of None \<Rightarrow> Inr (v_timeout s) | Some t \<Rightarrow> positive_float t))
       (\<lambda>request_timeout.
     bindIO (lift_result (case retries of None \<Rightarrow> Inr (v_retries s) | Some r \<Rightarrow> retry_count r))
       (\<lambda>retry_limit.
     bindIO (lift_result (protocol
       (mk_frame (int_of_frame_type REQUEST) 0 opcode payload flags 0 PROTOCOL_VERSION))) (\<lambda>request s.
     case v_reason s of
       Some reason \<Rightarrow> raise (V3WriteQuarantinedError reason) s
     | None \<Rightarrow>
         if int (length (fr_payload request)) > v_max_payload s
         then raise (ProtocolFailure (PayloadTooLargeError (int (length (fr_payload request))) (v_max_payload s))) s
         else
           let (sequence, next_value) = next_sequence (v_sequence s) in
           bindIO (update_session (\<lambda>s. s\<lparr>v_sequence := next_value\<rparr>)) (\<lambda>_.
           bindIO (lift_result (protocol
             (mk_frame (int_of_frame_type REQUEST) sequence (fr_opcode request) (fr_payload request)
                (fr_flags request) 0 PROTOCOL_VERSION))) (\<lambda>request.
             let wire = encode_frame request; attempts = retry_limit + 1
             in finally_do (attempt_loop request wire request_timeout attempts (nat attempts))
                  restore_timeout)) s)))) ?Q s"
    by (intro wp_lift body refuse)
      (use wf in \<open>auto simp: refused_def attempts_of_def protocol_cases(2) wf_session_def
         dest: positive_float_Inl retry_count_cases protocol_cases(1) split: option.splits\<close>)
  then show ?thesis by (simp add: wp_def request_frame_def)
qed

subsection \<open>Histories\<close>

inductive session_step :: "session \<Rightarrow> session \<Rightarrow> bool" where
  request: "request_frame opcode payload timeout retries flags s = (r, s') \<Longrightarrow> session_step s s'"
| negotiate: "negotiate_max_payload m s = (r, s') \<Longrightarrow> session_step s s'"
| events: "pop_events s = (r, s') \<Longrightarrow> session_step s s'"
| orphans: "pop_orphan_responses s = (r, s') \<Longrightarrow> session_step s s'"
| errors: "pop_protocol_errors s = (r, s') \<Longrightarrow> session_step s s'"
| policy: "set_quarantine_policy b s = (r, s') \<Longrightarrow> session_step s s'"

lemma request_frame_wf: "wf_session s \<Longrightarrow> request_frame opcode payload timeout retries flags s = (r, s') \<Longrightarrow> wf_session s'"
  using wpD [OF wp_request_frame] by (fastforce simp: request_outcome_def)

lemma negotiate_wf: "wf_session s \<Longrightarrow> negotiate_max_payload m s = (r, s') \<Longrightarrow> wf_session s'"
  by (auto simp: negotiate_max_payload_def payload_limit_def wf_session_def wf_parser_def Let_def split: if_splits)

lemma session_step_wf: "session_step s s' \<Longrightarrow> wf_session s \<Longrightarrow> wf_session s'"
proof (induction rule: session_step.induct)
  case (request opcode payload timeout retries flags s r s')
  then show ?case by (auto intro: request_frame_wf)
next
  case (negotiate m s r s')
  then show ?case by (auto intro: negotiate_wf)
qed (auto simp: pop_events_def pop_orphan_responses_def pop_protocol_errors_def set_quarantine_policy_def
    update_session_def wf_session_def)

lemma check_Inr:
  "(positive_float v = Inr w) = (w = v \<and> 0 < v)" "(retry_count v = Inr w) = (w = v \<and> 0 \<le> v)"
  "(payload_limit v = Inr w) = (w = v \<and> 0 \<le> v \<and> v \<le> MAX_WIRE_PAYLOAD)"
  by (auto simp: positive_float_def retry_count_def payload_limit_def)

lemma mk_session_wf:
  assumes "mk_session w timeout retries max_payload peer_max recv_size sequence_start wake_delay wake_ack
     wake_optional wake_timeout quarantine_on queue_limit = Inr s"
  shows "wf_session s"
proof -
  have peer: "(case peer_max of None \<Rightarrow> Inr MAX_WIRE_PAYLOAD | Some p \<Rightarrow> payload_limit p) = Inr m \<Longrightarrow>
      0 \<le> m \<and> m \<le> MAX_WIRE_PAYLOAD" for m
    by (auto simp: check_Inr MAX_WIRE_PAYLOAD_def split: option.splits)
  have parser: "new_parser v m = Inr p \<Longrightarrow> wf_parser p \<and> pr_max_payload p = m" for v m p
    by (auto simp: new_parser_def wf_parser_def result_simps)
  have seq: "sequence_counter v = Inr x \<Longrightarrow> 0 \<le> x \<and> x \<le> 0xFFFF" for v x
    by (auto simp: sequence_counter_def result_simps)
  show ?thesis
    using assms peer parser seq
    by (auto simp: mk_session_def bindE_eq_Inr Let_def check_Inr protocol_cases(2) wf_session_def
        split: if_splits)
qed

text \<open>What a quarantined session shows of itself never changes.\<close>

definition quarantine_view :: "session \<Rightarrow> (session_error \<times> bytes) option" where
  "quarantine_view s = map_option (\<lambda>e. (e, w_sent s)) (v_reason s)"

lemma quarantined_request:
  assumes "v_reason s = Some reason"
  shows "\<exists>e. request_frame opcode payload timeout retries flags s = (Inl e, s) \<and> refused e s"
  using assms protocol_cases(1) positive_float_Inl retry_count_cases(1)
  by (auto simp: request_frame_def bindIO_def lift_result_def refused_def split: option.splits sum.splits)

interpretation quarantine: evolving_store session_step quarantine_view "(=)"
proof
  fix s s' v
  assume "session_step s s'" "quarantine_view s = Some v"
  then show "\<exists>v'. quarantine_view s' = Some v' \<and> v = v'"
  proof cases
    case (request opcode payload timeout retries flags r)
    then show ?thesis
      using quarantined_request [of s _ opcode payload timeout retries flags] \<open>quarantine_view s = Some v\<close>
      by (auto simp: quarantine_view_def)
  qed (auto simp: negotiate_max_payload_def pop_events_def pop_orphan_responses_def pop_protocol_errors_def
      set_quarantine_policy_def update_session_def quarantine_view_def bindIO_def lift_result_def Let_def
      split: sum.splits)
qed auto

subsection \<open>Properties\<close>

text \<open>
  C25: A request gets its own answer. When \<open>request_frame\<close> returns, the frame is a successful response
  that carries the sequence number the session allotted to this request and its opcode, the payload
  was within the negotiated limit, the session is still open for writing and the next request gets
  the next sequence number modulo 65536.
\<close>

theorem request_gets_its_answer:
  assumes "request_frame opcode payload timeout retries flags s = (Inr f, s')" and "wf_session s"
  shows "fr_type f = RESPONSE \<and> fr_sequence f = v_sequence s \<and> fr_opcode f = opcode \<and> frame_ok f \<and>
    int (length payload) \<le> v_max_payload s \<and> v_reason s' = None \<and>
    v_sequence s' = (v_sequence s + 1) mod 65536"
  using wpD [OF wp_request_frame [OF assms(2)] assms(1)]
  by (auto simp: request_outcome_def request_result_def answers_def request_of_def)

text \<open>
  C26: Retransmissions are faithful and bounded. However a request ends, the stream has taken at most
  \<open>retries + 1\<close> pieces of it, each a leading part of the one encoded request frame with the sequence
  number allotted to it; a request that is refused before that has written nothing.
\<close>

theorem request_retransmits_faithfully:
  assumes "request_frame opcode payload timeout retries flags s = (r, s')" and "wf_session s"
  shows "\<exists>ns. length ns \<le> attempts_of retries s \<and>
    w_sent s' = w_sent s @ concat (map (\<lambda>n. take n (encode_frame (request_of s opcode payload flags))) ns)"
  using wpD [OF wp_request_frame [OF assms(2)] assms(1)]
  by (auto simp: request_outcome_def intro: exI [of _ "[]"])

text \<open>
  C27: Every way a request fails. It is refused with nothing changed (a bad argument, a frame that
  cannot be built or exceeds the limit, a quarantined session), or the remote side reported the
  status the exception names, or the transport failed; the session is quarantined exactly by a
  transport failure under the policy.
\<close>

theorem request_failures:
  assumes "request_frame opcode payload timeout retries flags s = (Inl e, s')" and "wf_session s"
  shows "refused e s \<and> s' = s \<or>
    (\<exists>f. e = RemoteStatusError (status_class (fr_status f)) f \<and> \<not> frame_ok f \<and>
       fr_sequence f = v_sequence s \<and> fr_opcode f = opcode \<and> v_reason s' = None) \<or>
    is_transport e \<and> (v_reason s' \<noteq> None \<longleftrightarrow> v_quarantine_on s)"
  using wpD [OF wp_request_frame [OF assms(2)] assms(1)]
  by (auto simp: request_outcome_def request_result_def answers_def request_of_def)

text \<open>
  C28: Quarantine is final. Under the policy, once a request has failed in the transport, no further
  byte is written to the stream by any sequence of requests, negotiations, polls and policy changes,
  and every later request is refused without an effect.
\<close>

theorem quarantine_is_final:
  assumes "request_frame opcode payload timeout retries flags s = (Inl e, s1)" and "wf_session s"
    and "v_quarantine_on s" "is_transport e" "session_step\<^sup>*\<^sup>* s1 s2"
  shows "w_sent s2 = w_sent s1 \<and> write_quarantined s2 \<and>
    (\<exists>e'. request_frame opcode' payload' timeout' retries' flags' s2 = (Inl e', s2))"
proof -
  have t: "\<not> refused e s" if "v_reason s = None"
    using assms(4) that by (auto simp: refused_def is_transport_def)
  have "v_reason s1 \<noteq> None"
    using wpD [OF wp_request_frame [OF assms(2)] assms(1)] assms(3,4) t
    by (auto simp: request_outcome_def request_result_def is_transport_def)
  then obtain reason where r: "v_reason s1 = Some reason" by blast
  then have "quarantine_view s1 = Some (reason, w_sent s1)" by (simp add: quarantine_view_def)
  from quarantine.view_reachable [OF assms(5) this]
  have "w_sent s2 = w_sent s1" "v_reason s2 = Some reason" by (auto simp: quarantine_view_def)
  then show ?thesis using quarantined_request [of s2 reason opcode' payload' timeout' retries' flags']
    by (auto simp: write_quarantined_def)
qed

text \<open>
  C29: Session invariant. In every session the constructor made and any history of calls reached, the
  queues keep to their limit, the effective payload limit is the smaller of the two advertised ones
  and the parser uses it, the sequence number fits its field, and only a transport failure can be the
  reason for a quarantine.
\<close>

theorem session_invariant:
  assumes "mk_session w timeout retries max_payload peer_max recv_size sequence_start wake_delay wake_ack
     wake_optional wake_timeout quarantine_on queue_limit = Inr s0" and "session_step\<^sup>*\<^sup>* s0 s"
  shows "length (v_events s) \<le> v_queue_limit s \<and> length (v_orphans s) \<le> v_queue_limit s \<and>
    length (v_errors s) \<le> v_queue_limit s \<and>
    v_max_payload s = min (v_local_max s) (v_peer_max s) \<and> pr_max_payload (v_parser s) = v_max_payload s \<and>
    0 \<le> v_sequence s \<and> v_sequence s < 65536 \<and> (\<forall>e. v_reason s = Some e \<longrightarrow> is_transport e)"
proof -
  have "wf_session s"
    using assms(2) by (induction rule: rtranclp_induct) (auto intro: mk_session_wf [OF assms(1)] session_step_wf)
  then show ?thesis by (simp add: wf_session_def)
qed

definition sample_session :: "recv_result list \<Rightarrow> session" where
  "sample_session script =
     \<lparr>v_timeout = 100, v_retries = 1, v_local_max = 4096, v_peer_max = 512, v_max_payload = 512,
      v_recv_size = 4096, v_wake_delay = 0, v_wake_ack = None, v_wake_optional = False,
      v_wake_timeout = 10, v_quarantine_on = True, v_queue_limit = 256, v_sequence = 65535,
      v_parser = \<lparr>pr_version = 3, pr_max_payload = 512, pr_buffer = [], pr_errors = []\<rparr>,
      v_events = [], v_orphans = [], v_errors = [], v_reason = None, w_clock = 0, w_ticks = [1, 1],
      w_setters = [], w_sends = [], w_recvs = script, w_sent = []\<rparr>"

lemma sample_session_wf: "wf_session (sample_session script)"
  by (simp add: wf_session_def sample_session_def wf_parser_def MAX_WIRE_PAYLOAD_def)

definition sample_response :: frame where
  "sample_response = \<lparr>fr_type = RESPONSE, fr_sequence = 65535, fr_opcode = 0x20, fr_payload = [9],
     fr_flags = 0, fr_status = 0, fr_version = 3\<rparr>"

definition answering_session :: session where
  "answering_session = sample_session [RecvData (encode_frame sample_response)]"

lemmas run_simps = request_frame_def attempt_loop.simps attempt_def finally_do_def restore_timeout_def
  bindIO_def catch_def lift_result_def monotonic_def remaining_def set_stream_timeout_def send_wire_def
  send_wire_chunk_def sendall_def recv_def wait_for_response.simps quarantine_transport_failure_def
  update_session_def protocol_def successful_def Let_def

lemma sample_mk:
  "mk_frame (int_of_frame_type REQUEST) n 0x20 [1, 2] 1 0 PROTOCOL_VERSION =
     (if 0 \<le> n \<and> n \<le> 65535 then Inr \<lparr>fr_type = REQUEST, fr_sequence = n, fr_opcode = 0x20, fr_payload = [1, 2],
        fr_flags = 1, fr_status = 0, fr_version = 3\<rparr> else Inl (FrameValidationError ''sequence''))"
  by (simp add: mk_frame_def frame_type_of_int_def wire_int_def PROTOCOL_VERSION_def MAX_WIRE_PAYLOAD_def)

lemma next_sample: "next_sequence 65535 = (65535, 0)"
  by (simp add: next_sequence_bounds)

lemma attempts_two: "attempt_loop req wire t n 2 = attempt_loop req wire t n (Suc (Suc 0))"
  by (simp only: numeral_2_eq_2)

lemma failing_run:
  "\<exists>s'. request_frame 0x20 [1, 2] None None 1 (sample_session [RecvFailed]) = (Inl V3TransportError, s')"
  by (simp add: run_simps sample_mk [simplified] next_sample sample_session_def is_transport_def attempts_two)

lemma sample_feed:
  "\<exists>p'. feed \<lparr>pr_version = 3, pr_max_payload = 512, pr_buffer = [], pr_errors = []\<rparr> (encode_frame sample_response) =
     Inr ([sample_response], p')"
proof -
  let ?p = "\<lparr>pr_version = 3, pr_max_payload = 512, pr_buffer = [], pr_errors = []\<rparr>"
  have "acceptable 3 512 sample_response" by code_simp
  then have "scan 3 512 (encode_frame sample_response) = ([sample_response], [])"
    using scan_frames [of 3 512 "[sample_response]" "[]"] by (simp add: frame_stream_def)
  moreover have "wf_parser ?p" by (simp add: wf_parser_def MAX_WIRE_PAYLOAD_def)
  ultimately show ?thesis using feed_scan [of ?p "encode_frame sample_response"]
    by (auto split: sum.splits simp: map_sum_def) 
qed

lemma push_errors_setters:
  "w_setters (fold (\<lambda>e. push_error (ProtocolFailure e)) es s) = w_setters s"
  by (induction es arbitrary: s) (simp_all add: push_error_def)

lemma answering_run:
  "\<exists>s'. request_frame 0x20 [1, 2] None None 1 answering_session = (Inr sample_response, s')"
proof -
  obtain p' where p': "feed \<lparr>pr_version = 3, pr_max_payload = 512, pr_buffer = [], pr_errors = []\<rparr>
      (encode_frame sample_response) = Inr ([sample_response], p')"
    using sample_feed by blast
  have ne: "encode_frame sample_response \<noteq> []"
  proof
    assume "encode_frame sample_response = []"
    then show False using length_encode_frame [of sample_response] by (simp add: HEADER_SIZE_def)
  qed
  have sel: "fr_type sample_response = RESPONSE" "fr_status sample_response = 0" "frame_ok sample_response"
    by (simp_all add: sample_response_def frame_ok_def)
  have setters: "w_setters (collect_parser_errors s) = w_setters s" for s
    by (simp add: collect_parser_errors_def Let_def push_errors_setters split: prod.splits)
  have valid: "validate_response \<lparr>fr_type = REQUEST, fr_sequence = 65535, fr_opcode = 0x20, fr_payload = [1, 2],
        fr_flags = 1, fr_status = 0, fr_version = 3\<rparr> sample_response = Inr ()"
    by (simp add: validate_response_def sample_response_def)
  show ?thesis
    by (simp add: run_simps sample_mk [simplified] next_sample answering_session_def sample_session_def
        attempts_two p' ne sel setters valid [simplified] route_parsed_def CRC_ERROR_def)
qed


theorem request_gets_its_answer_witness:
  "\<exists>f s'. request_frame 0x20 [1, 2] None None 1 answering_session = (Inr f, s') \<and>
     (fr_type f = RESPONSE \<and> fr_sequence f = v_sequence answering_session \<and> fr_opcode f = 0x20 \<and> frame_ok f \<and>
      int (length [1, 2 :: byte]) \<le> v_max_payload answering_session \<and> v_reason s' = None \<and>
      v_sequence s' = (v_sequence answering_session + 1) mod 65536)"
proof -
  obtain s' where r: "request_frame 0x20 [1, 2] None None 1 answering_session = (Inr sample_response, s')"
    using answering_run by blast
  show ?thesis
    using r request_gets_its_answer [OF r] sample_session_wf by (auto simp: answering_session_def)
qed

theorem request_retransmits_faithfully_witness:
  "\<exists>r s'. request_frame 0x20 [1, 2] None None 1 answering_session = (r, s') \<and>
     (\<exists>ns. length ns \<le> attempts_of None answering_session \<and>
       w_sent s' = w_sent answering_session @
         concat (map (\<lambda>n. take n (encode_frame (request_of answering_session 0x20 [1, 2] 1))) ns))"
proof -
  obtain s' where r: "request_frame 0x20 [1, 2] None None 1 answering_session = (Inr sample_response, s')"
    using answering_run by blast
  show ?thesis
    using r request_retransmits_faithfully [OF r] sample_session_wf by (auto simp: answering_session_def)
qed

theorem request_failures_witness:
  "\<exists>s'. request_frame 0x20 [1, 2] None None 1 (sample_session [RecvFailed]) = (Inl V3TransportError, s') \<and>
     v_reason s' \<noteq> None"
proof -
  obtain s' where r: "request_frame 0x20 [1, 2] None None 1 (sample_session [RecvFailed]) = (Inl V3TransportError, s')"
    using failing_run by blast
  show ?thesis
    using r request_failures [OF r sample_session_wf] by (auto simp: refused_def sample_session_def)
qed

theorem quarantine_is_final_witness:
  "\<exists>s1 e'. request_frame 0x20 [1, 2] None None 1 (sample_session [RecvFailed]) = (Inl V3TransportError, s1) \<and>
     write_quarantined s1 \<and> request_frame 0x21 [] None None 0 s1 = (Inl e', s1)"
proof -
  obtain s1 where r: "request_frame 0x20 [1, 2] None None 1 (sample_session [RecvFailed]) = (Inl V3TransportError, s1)"
    using failing_run by blast
  show ?thesis
    using r quarantine_is_final [where opcode' = "0x21" and payload' = "[]" and timeout' = None and retries' = None
        and flags' = "0", OF r sample_session_wf _ _ rtranclp.rtrancl_refl]
    by (auto simp: sample_session_def is_transport_def)
qed

theorem session_invariant_witness:
  "\<exists>s0. mk_session (sample_session []) 100 2 4096 (Some 512) 4096 65535 0 None False 10 True 256 = Inr s0 \<and>
     v_max_payload s0 = min (v_local_max s0) (v_peer_max s0)"
proof -
  obtain s0 where s0: "mk_session (sample_session []) 100 2 4096 (Some 512) 4096 65535 0 None False 10 True 256 = Inr s0"
    by (simp add: mk_session_def bindE_def positive_float_def retry_count_def payload_limit_def non_negative_float_def
        optional_single_byte_def protocol_def sequence_counter_def new_parser_def MAX_WIRE_PAYLOAD_def Let_def
        wire_int_def PROTOCOL_VERSION_def)
  show ?thesis
    using s0 session_invariant [OF s0 rtranclp.rtrancl_refl] by auto
qed

end
