(* ===== verification/App_Format.thy ===== *)
theory App_Format
  imports Python_Text "HOL-Library.AList"
begin

text \<open>
  The file formats of \<open>server/msx_application.py\<close>: \<open>msx-ai-app-v1\<close> manifests, COM, BLOAD and flat
  ROM images, normalised to an \<open>application\<close>. Mappings, JSON documents and the arguments whose type the
  code checks at run time are values of \<open>doc\<close>. The file system is the record \<open>host_files\<close> of its
  answers, arbitrary functions; a path is its parts on a POSIX host. Exceptions are their classes.
\<close>

subsection \<open>Exceptions, limits and the application value\<close>

text \<open>
  The exception classes of the module; \<open>HostFailure\<close> is an \<open>OSError\<close> the code lets through,
  \<open>BackendRaised\<close> whatever a method of the backend raises, \<open>BadBytes\<close> the \<open>TypeError\<close> or
  \<open>ValueError\<close> of \<open>bytes\<close> on the value a backend returned.
\<close>

datatype app_error =
    AppFormatError | AppRangeError | AppIntegrityError | AppPathError
  | AppBackendError | AppCapabilityError | AppMapperError
  | HostFailure | BackendRaised | BadBytes

definition MANIFEST_FORMAT :: string where "MANIFEST_FORMAT = ''msx-ai-app-v1''"
definition RAM_SIZE :: int where "RAM_SIZE = 0x10000"
definition VRAM_SIZE :: int where "VRAM_SIZE = 0x20000"
definition ENTRY_MODES :: "string list" where "ENTRY_MODES = [''none'', ''call'', ''run'']"

definition space_limit :: "string \<Rightarrow> int option" where
  "space_limit space =
     (if space = ''ram'' then Some RAM_SIZE else if space = ''vram'' then Some VRAM_SIZE else None)"

record segment =
  sg_space :: string
  sg_address :: int
  sg_data :: bytes
  sg_expected :: "string option"
  sg_source :: "string option"

definition segment_end :: "segment \<Rightarrow> int" where
  "segment_end s = sg_address s + int (length (sg_data s))"

definition segment_sha256 :: "segment \<Rightarrow> string" where
  "segment_sha256 s = sha256_hex (sg_data s)"

record entry_point =
  ep_mode :: string
  ep_address :: "int option"

definition no_entry :: entry_point where
  "no_entry = \<lparr>ep_mode = ''none'', ep_address = None\<rparr>"

record application =
  ap_name :: string
  ap_format :: string
  ap_segments :: "segment list"
  ap_entry :: entry_point
  ap_requirements :: "string list"
  ap_mapper :: "members option"
  ap_metadata :: members
  ap_origin :: "string option"

definition mapper_type :: "members option \<Rightarrow> string option" where
  "mapper_type mapper =
     (case mapper of
        None \<Rightarrow> None
      | Some m \<Rightarrow> (case dict_get m ''type'' DNull of DStr s \<Rightarrow> Some (lower s) | _ \<Rightarrow> None))"

definition needs_mapper :: "string option \<Rightarrow> bool" where
  "needs_mapper t \<longleftrightarrow> \<not> (t = None \<or> t = Some ''none'' \<or> t = Some ''flat'')"

definition required_capabilities :: "application \<Rightarrow> entry_point \<Rightarrow> string list" where
  "required_capabilities app entry =
     uniques (ap_requirements app @ map (\<lambda>s. ''write:'' @ sg_space s) (ap_segments app) @
       (if ep_mode entry \<noteq> ''none'' then [''execute:'' @ ep_mode entry] else []) @
       (if needs_mapper (mapper_type (ap_mapper app))
        then [''mapper:'' @ the (mapper_type (ap_mapper app))] else []))"

subsection \<open>Scalar checks\<close>

text \<open>\<open>isinstance\<close> checks: another type raises a format error.\<close>

definition expect_map :: "doc \<Rightarrow> app_error + members" where
  "expect_map v = (case v of DMap m \<Rightarrow> Inr m | _ \<Rightarrow> Inl AppFormatError)"

definition expect_list :: "doc \<Rightarrow> app_error + doc list" where
  "expect_list v = (case v of DList xs \<Rightarrow> Inr xs | _ \<Rightarrow> Inl AppFormatError)"

definition expect_str :: "doc \<Rightarrow> app_error + string" where
  "expect_str v = (case v of DStr s \<Rightarrow> Inr s | _ \<Rightarrow> Inl AppFormatError)"

lemma expect_Inr [result_simps]:
  "(expect_map v = Inr m) = (v = DMap m)"
  "(expect_list v = Inr xs) = (v = DList xs)"
  "(expect_str v = Inr s) = (v = DStr s)"
  by (simp_all add: expect_map_def expect_list_def expect_str_def split: doc.splits)

definition app_integer :: "doc \<Rightarrow> app_error + int" where
  "app_integer v =
     (case v of
        DInt i \<Rightarrow> Inr i
      | DStr s \<Rightarrow> (case int_literal s of None \<Rightarrow> Inl AppFormatError | Some i \<Rightarrow> Inr i)
      | _ \<Rightarrow> Inl AppFormatError)"

definition validate_range :: "int \<Rightarrow> int \<Rightarrow> int \<Rightarrow> app_error + unit" where
  "validate_range address len limit =
     (if address < 0 \<or> len < 0 \<or> address > limit \<or> address + len > limit
      then Inl AppRangeError else Inr ())"

definition normalize_digest :: "doc \<Rightarrow> app_error + string" where
  "normalize_digest v =
     bindE (expect_str v) (\<lambda>s.
       let t = lower (strip s);
           digest = if starts_with ''sha256:'' t then drop 7 t else t
       in if length digest \<noteq> 64 \<or> \<not> list_all (\<lambda>c. c \<in> set ''0123456789abcdef'') digest
          then Inl AppFormatError else Inr digest)"

subsection \<open>Paths and files\<close>

text \<open>
  A \<open>Path\<close> is its parts, the first being \<open>/\<close> for an absolute one. The host answers what \<open>resolve\<close>,
  \<open>is_file\<close>, \<open>stat\<close> and \<open>read_bytes\<close> give for a path and what \<open>json.loads\<close> makes of a UTF-8 file.
\<close>

type_synonym path = "string list"

fun split_slash :: "string \<Rightarrow> string list" where
  "split_slash [] = [[]]"
| "split_slash (c # cs) =
     (if c = CHR ''/'' then [] # split_slash cs
      else case split_slash cs of [] \<Rightarrow> [[c]] | p # ps \<Rightarrow> (c # p) # ps)"

definition path_parts :: "string \<Rightarrow> path" where
  "path_parts s =
     (if starts_with ''//'' s \<and> \<not> starts_with ''///'' s then [''//'']
      else if starts_with ''/'' s then [''/''] else []) @
     filter (\<lambda>p. p \<noteq> '''' \<and> p \<noteq> ''.'') (split_slash s)"

definition is_absolute :: "path \<Rightarrow> bool" where
  "is_absolute p \<longleftrightarrow> p \<noteq> [] \<and> (hd p = ''/'' \<or> hd p = ''//'')"

fun join_slash :: "path \<Rightarrow> string" where
  "join_slash [] = []"
| "join_slash [p] = p"
| "join_slash (p # ps) = p @ ''/'' @ join_slash ps"

definition path_str :: "path \<Rightarrow> string" where
  "path_str p =
     (if p = [] then ''.'' else if is_absolute p then hd p @ join_slash (tl p) else join_slash p)"

definition join_path :: "path \<Rightarrow> path \<Rightarrow> path" where
  "join_path root rel = (if is_absolute rel then rel else root @ rel)"

record host_files =
  hf_resolve :: "path \<Rightarrow> path option"
  hf_is_file :: "path \<Rightarrow> bool"
  hf_size :: "path \<Rightarrow> int option"
  hf_read :: "path \<Rightarrow> bytes option"
  hf_json :: "bytes \<Rightarrow> doc option"

definition host_result :: "'a option \<Rightarrow> app_error + 'a" where
  "host_result v = (case v of None \<Rightarrow> Inl HostFailure | Some x \<Rightarrow> Inr x)"

definition safe_asset_path :: "host_files \<Rightarrow> path option \<Rightarrow> doc \<Rightarrow> app_error + path" where
  "safe_asset_path h base_dir v =
     (case v of
        DStr s \<Rightarrow>
          if s = '''' \<or> CHR 0x00 \<in> set s then Inl AppPathError
          else (case base_dir of
            None \<Rightarrow> Inl AppPathError
          | Some base \<Rightarrow>
              let relative = path_parts s
              in if is_absolute relative \<or> CHR 0x5C \<in> set s \<or> ''..'' \<in> set relative
                 then Inl AppPathError
                 else
                   bindE (host_result (hf_resolve h base)) (\<lambda>root.
                   bindE (host_result (hf_resolve h (join_path root relative))) (\<lambda>candidate.
                     if \<not> starts_with root candidate then Inl AppPathError
                     else if \<not> hf_is_file h candidate then Inl AppPathError
                     else Inr candidate)))
      | _ \<Rightarrow> Inl AppPathError)"

subsection \<open>Segments\<close>

definition payload_groups :: "string list list" where
  "payload_groups = [[''hex'', ''data_hex''], [''base64'', ''data_base64''], [''file''], [''fill'']]"

definition payload_keys :: "members \<Rightarrow> app_error + string list" where
  "payload_keys raw =
     bindE (mapE (\<lambda>aliases.
         let present = filter (has_key raw) aliases
         in if length present > 1 then Inl AppFormatError else Inr present) payload_groups)
       (\<lambda>selected. Inr (concat selected))"

definition decode_segment_payload ::
  "host_files \<Rightarrow> members \<Rightarrow> int \<Rightarrow> int \<Rightarrow> path option \<Rightarrow> app_error + bytes \<times> string option" where
  "decode_segment_payload h raw address limit base_dir =
     bindE (payload_keys raw) (\<lambda>selected.
     if length selected \<noteq> 1 then Inl AppFormatError
     else
       let key = hd selected;
           value = dict_get raw key DNull;
           remaining = if 0 \<le> address \<and> address \<le> limit then limit - address else 0
       in if key = ''hex'' \<or> key = ''data_hex'' then
            bindE (expect_str value) (\<lambda>text.
              let compact = without_space text
              in if odd (length compact) then Inl AppFormatError
                 else if int (length compact div 2) > remaining then Inl AppRangeError
                 else (case from_hex compact of
                   None \<Rightarrow> Inl AppFormatError | Some data \<Rightarrow> Inr (data, None)))
          else if key = ''base64'' \<or> key = ''data_base64'' then
            bindE (expect_str value) (\<lambda>text.
              let compact = without_space text
              in if int (length compact) > ((remaining + 2) div 3) * 4 + 4 then Inl AppRangeError
                 else (case b64decode compact of
                   None \<Rightarrow> Inl AppFormatError | Some data \<Rightarrow> Inr (data, None)))
          else if key = ''file'' then
            bindE (safe_asset_path h base_dir value) (\<lambda>p.
            bindE (host_result (hf_size h p)) (\<lambda>size.
              if size > remaining then Inl AppRangeError
              else bindE (host_result (hf_read h p)) (\<lambda>data. Inr (data, Some (path_str p)))))
          else
            let (byte_value, length_value) =
                  (case value of
                     DMap fill \<Rightarrow> (dict_get fill ''value'' (dict_get fill ''byte'' DNull), dict_get fill ''length'' DNull)
                   | _ \<Rightarrow> (value, dict_get raw ''length'' DNull))
            in bindE (app_integer byte_value) (\<lambda>b.
               bindE (app_integer length_value) (\<lambda>n.
                 if \<not> (0 \<le> b \<and> b \<le> 0xFF) then Inl AppFormatError
                 else if n < 0 \<or> n > remaining then Inl AppRangeError
                 else Inr (replicate (nat n) (word_of_int b), None))))"

definition parse_segment :: "host_files \<Rightarrow> path option \<Rightarrow> doc \<Rightarrow> app_error + segment" where
  "parse_segment h base_dir v =
     bindE (expect_map v) (\<lambda>raw.
     bindE (expect_str (dict_get raw ''space'' DNull)) (\<lambda>s.
     let space = lower s
     in (case space_limit space of
           None \<Rightarrow> Inl AppFormatError
         | Some limit \<Rightarrow>
             bindE (app_integer (dict_get raw ''address'' DNull)) (\<lambda>address.
             bindE (validate_range address 0 limit) (\<lambda>_.
             bindE (decode_segment_payload h raw address limit base_dir) (\<lambda>(data, source).
             bindE (validate_range address (int (length data)) limit) (\<lambda>_.
             bindE (if has_key raw ''sha256'' then
                      bindE (normalize_digest (dict_get raw ''sha256'' DNull)) (\<lambda>expected.
                        if sha256_hex data \<noteq> expected then Inl AppIntegrityError
                        else Inr (Some expected))
                    else Inr None) (\<lambda>expected.
               Inr \<lparr>sg_space = space, sg_address = address, sg_data = data, sg_expected = expected,
                    sg_source = source\<rparr>))))))))"

subsection \<open>Manifests\<close>

definition check_entry :: "string \<Rightarrow> doc \<Rightarrow> app_error + entry_point" where
  "check_entry mode address =
     (if mode \<notin> set ENTRY_MODES then Inl AppFormatError
      else if mode = ''none'' then
        if address \<noteq> DNull then Inl AppFormatError else Inr no_entry
      else if address = DNull then Inl AppFormatError
      else
        bindE (app_integer address) (\<lambda>a.
        bindE (validate_range a 1 RAM_SIZE) (\<lambda>_.
          Inr \<lparr>ep_mode = mode, ep_address = Some a\<rparr>)))"

definition parse_entry :: "doc \<Rightarrow> app_error + entry_point" where
  "parse_entry raw =
     (case raw of
        DNull \<Rightarrow> Inr no_entry
      | DStr s \<Rightarrow> check_entry (lower s) DNull
      | DMap m \<Rightarrow>
          bindE (expect_str (dict_get m ''mode'' (DStr ''none''))) (\<lambda>s.
            check_entry (lower s) (dict_get m ''address'' DNull))
      | _ \<Rightarrow> Inl AppFormatError)"

definition parse_requirements :: "doc \<Rightarrow> app_error + string list" where
  "parse_requirements raw =
     (if raw = DNull then Inr []
      else
        bindE (expect_list raw) (\<lambda>rs.
        bindE (mapE (\<lambda>r. bindE (expect_str r) (\<lambda>s.
            if strip s = '''' then Inl AppFormatError else Inr (strip s))) rs) (\<lambda>names.
          Inr (uniques names))))"

definition mapper_integer :: "string \<Rightarrow> members \<Rightarrow> app_error + members" where
  "mapper_integer key m =
     (if has_key m key then
        bindE (app_integer (dict_get m key DNull)) (\<lambda>i. Inr (AList.update key (DInt i) m))
      else Inr m)"

definition parse_mapper :: "doc \<Rightarrow> app_error + members option" where
  "parse_mapper raw =
     (if raw = DNull then Inr None
      else
        bindE (expect_map raw) (\<lambda>m.
        bindE (expect_str (dict_get m ''type'' DNull)) (\<lambda>s.
        if strip s = '''' then Inl AppFormatError
        else
          bindE (mapper_integer ''base'' (AList.update ''type'' (DStr (lower (strip s))) m)) (\<lambda>m.
          bindE (mapper_integer ''size'' m) (\<lambda>m. Inr (Some m))))))"

definition parse_manifest ::
  "host_files \<Rightarrow> path option \<Rightarrow> string option \<Rightarrow> doc \<Rightarrow> app_error + application" where
  "parse_manifest h base_dir origin v =
     bindE (expect_map v) (\<lambda>manifest.
     if dict_get manifest ''format'' (dict_get manifest ''schema'' DNull) \<noteq> DStr MANIFEST_FORMAT
     then Inl AppFormatError
     else if has_key manifest ''format'' \<and> has_key manifest ''schema'' \<and>
       dict_get manifest ''format'' DNull \<noteq> dict_get manifest ''schema'' DNull
     then Inl AppFormatError
     else
       bindE (expect_list (dict_get manifest ''segments'' DNull)) (\<lambda>raw_segments.
       bindE (mapE (parse_segment h base_dir) raw_segments) (\<lambda>segments.
       bindE (expect_str (dict_get manifest ''name'' (DStr ''application''))) (\<lambda>name.
       if strip name = '''' then Inl AppFormatError
       else
         bindE (expect_map (dict_get manifest ''metadata'' (DMap []))) (\<lambda>metadata.
         bindE (parse_entry (dict_get manifest ''entry'' DNull)) (\<lambda>entry.
         bindE (parse_requirements (dict_get manifest ''requires'' DNull)) (\<lambda>requirements.
         bindE (parse_mapper (dict_get manifest ''mapper'' DNull)) (\<lambda>mapper.
           Inr \<lparr>ap_name = strip name, ap_format = MANIFEST_FORMAT, ap_segments = segments,
                ap_entry = entry, ap_requirements = requirements, ap_mapper = mapper,
                ap_metadata = metadata, ap_origin = origin\<rparr>))))))))"

subsection \<open>COM, BLOAD and flat ROM images\<close>

definition plain_segment :: "int \<Rightarrow> bytes \<Rightarrow> segment" where
  "plain_segment address data =
     \<lparr>sg_space = ''ram'', sg_address = address, sg_data = data, sg_expected = None, sg_source = None\<rparr>"

definition parse_com :: "bytes \<Rightarrow> string \<Rightarrow> app_error + application" where
  "parse_com data name =
     (if data = [] then Inl AppFormatError
      else
        bindE (validate_range 0x0100 (int (length data)) RAM_SIZE) (\<lambda>_.
          Inr \<lparr>ap_name = name, ap_format = ''com'', ap_segments = [plain_segment 0x0100 data],
               ap_entry = \<lparr>ep_mode = ''run'', ep_address = Some 0x0100\<rparr>, ap_requirements = [],
               ap_mapper = None, ap_metadata = [], ap_origin = None\<rparr>))"

definition le16 :: "bytes \<Rightarrow> nat \<Rightarrow> int" where
  "le16 data offset = uint (data ! offset) + 256 * uint (data ! (offset + 1))"

definition parse_bload :: "bytes \<Rightarrow> string \<Rightarrow> app_error + application" where
  "parse_bload data name =
     (if length data < 7 \<or> data ! 0 \<noteq> 0xFE then Inl AppFormatError
      else
        let start = le16 data 1; last = le16 data 3; execute = le16 data 5
        in if last < start then Inl AppRangeError
           else
             let payload = drop 7 data
             in if int (length payload) \<noteq> last - start + 1 then Inl AppFormatError
                else
                  bindE (validate_range start (int (length payload)) RAM_SIZE) (\<lambda>_.
                  bindE (if execute \<noteq> 0 then validate_range execute 1 RAM_SIZE else Inr ()) (\<lambda>_.
                    Inr \<lparr>ap_name = name, ap_format = ''bload'', ap_segments = [plain_segment start payload],
                         ap_entry = if execute = 0 then no_entry
                                    else \<lparr>ep_mode = ''run'', ep_address = Some execute\<rparr>,
                         ap_requirements = [], ap_mapper = None,
                         ap_metadata = [(''header'', DMap [(''start'', DInt start), (''end'', DInt last),
                                           (''execute'', DInt execute)])],
                         ap_origin = None\<rparr>)))"

definition rom_vectors :: "bytes \<Rightarrow> (string \<times> int) list" where
  "rom_vectors data =
     [(''init'', le16 data 2), (''statement'', le16 data 4), (''device'', le16 data 6), (''text'', le16 data 8)]"

definition default_rom_base :: "bytes \<Rightarrow> int" where
  "default_rom_base data =
     (let nonzero = filter (\<lambda>v. v \<noteq> 0) (map snd (rom_vectors data))
      in if length data = 0x4000 \<and> nonzero \<noteq> [] \<and> list_all (\<lambda>v. 0x8000 \<le> v \<and> v < 0xC000) nonzero
         then 0x8000 else 0x4000)"

definition parse_flat_rom :: "bytes \<Rightarrow> string \<Rightarrow> doc \<Rightarrow> app_error + application" where
  "parse_flat_rom data name base =
     (if length data \<noteq> 0x4000 \<and> length data \<noteq> 0x8000 then Inl AppFormatError
      else if take 2 data \<noteq> [0x41, 0x42] then Inl AppFormatError
      else
        bindE (app_integer (if base = DNull then DInt (default_rom_base data) else base)) (\<lambda>base.
        bindE (validate_range base (int (length data)) RAM_SIZE) (\<lambda>_.
        let init = le16 data 2
        in bindE (if init \<noteq> 0 then validate_range init 1 RAM_SIZE else Inr ()) (\<lambda>_.
             Inr \<lparr>ap_name = name, ap_format = ''flat-rom'', ap_segments = [plain_segment base data],
                  ap_entry = if init \<noteq> 0 then \<lparr>ep_mode = ''call'', ep_address = Some init\<rparr> else no_entry,
                  ap_requirements = [],
                  ap_mapper = Some [(''type'', DStr ''flat''), (''base'', DInt base),
                                    (''size'', DInt (int (length data)))],
                  ap_metadata = [(''rom_header'', DMap (map (\<lambda>(k, v). (k, DInt v)) (rom_vectors data)))],
                  ap_origin = None\<rparr>))))"

subsection \<open>Choosing the format\<close>

definition json_manifest :: "host_files \<Rightarrow> bytes \<Rightarrow> path option \<Rightarrow> string \<Rightarrow> app_error + application" where
  "json_manifest h data base_dir origin =
     (case hf_json h data of
        None \<Rightarrow> Inl AppFormatError
      | Some document \<Rightarrow> parse_manifest h base_dir (Some origin) document)"

datatype app_format = FManifest | FCom | FBload | FFlatRom

definition normalize_format :: "doc \<Rightarrow> app_error + app_format option" where
  "normalize_format v =
     (case v of
        DNull \<Rightarrow> Inr None
      | DStr s \<Rightarrow>
          (case map_of [(MANIFEST_FORMAT, FManifest), (''manifest'', FManifest), (''json'', FManifest),
                (''com'', FCom), (''.com'', FCom), (''bin'', FBload), (''.bin'', FBload), (''bload'', FBload),
                (''rom'', FFlatRom), (''.rom'', FFlatRom), (''flat'', FFlatRom), (''flat-rom'', FFlatRom)]
              (lower s) of
             None \<Rightarrow> Inl AppFormatError
           | Some f \<Rightarrow> Inr (Some f))
      | _ \<Rightarrow> Inl AppFormatError)"

datatype source = SApplication application | SMapping members | SPath path | SBytes bytes | SOther

definition path_name :: "path \<Rightarrow> string" where
  "path_name p = (if p = [] \<or> is_absolute p \<and> tl p = [] then [] else last p)"

text \<open>\<open>Path.suffix\<close>: from the last dot, unless it is the first or the last character of the name.\<close>

definition path_suffix :: "path \<Rightarrow> string" where
  "path_suffix p =
     (let name = path_name p; tail = takeWhile (\<lambda>c. c \<noteq> CHR ''.'') (rev name)
      in if tail = [] \<or> length name \<le> length tail + 1 then [] else CHR ''.'' # rev tail)"

definition suffix_format :: "string \<Rightarrow> app_format option" where
  "suffix_format s =
     map_of [(''.json'', FManifest), (''.msxapp'', FManifest), (''.com'', FCom), (''.bin'', FBload),
             (''.rom'', FFlatRom)] s"

definition is_bytes_space :: "byte \<Rightarrow> bool" where
  "is_bytes_space b \<longleftrightarrow> b = 32 \<or> 9 \<le> b \<and> b \<le> 13"

definition detect_format :: "bytes \<Rightarrow> app_error + app_format" where
  "detect_format data =
     (if starts_with [0x7B] (dropWhile is_bytes_space data) then Inr FManifest
      else if starts_with [0xFE] data then Inr FBload
      else if (length data = 0x4000 \<or> length data = 0x8000) \<and> starts_with [0x41, 0x42] data
      then Inr FFlatRom
      else Inl AppFormatError)"

text \<open>The part of \<open>parse_application\<close> after the source has been read.\<close>

definition parse_image ::
  "host_files \<Rightarrow> app_format option \<Rightarrow> path option \<Rightarrow> doc \<Rightarrow> bytes \<Rightarrow> string \<Rightarrow> string option \<Rightarrow>
   app_error + application" where
  "parse_image h chosen asset_root rom_base data origin name =
     bindE (case chosen of None \<Rightarrow> detect_format data | Some f \<Rightarrow> Inr f) (\<lambda>f.
     if f = FManifest then json_manifest h data asset_root origin
     else
       bindE (case f of
           FCom \<Rightarrow> parse_com data (case name of Some n \<Rightarrow> n | None \<Rightarrow> ''application.com'')
         | FBload \<Rightarrow> parse_bload data (case name of Some n \<Rightarrow> n | None \<Rightarrow> ''application.bin'')
         | _ \<Rightarrow> parse_flat_rom data (case name of Some n \<Rightarrow> n | None \<Rightarrow> ''application.rom'') rom_base)
         (\<lambda>app. Inr (app\<lparr>ap_origin := Some origin\<rparr>)))"

definition parse_application ::
  "host_files \<Rightarrow> source \<Rightarrow> doc \<Rightarrow> path option \<Rightarrow> doc \<Rightarrow> app_error + application" where
  "parse_application h src fmt base_dir rom_base =
     (case src of
        SApplication app \<Rightarrow> if fmt \<noteq> DNull then Inl AppFormatError else Inr app
      | _ \<Rightarrow>
          bindE (normalize_format fmt) (\<lambda>normalized.
          case src of
            SMapping m \<Rightarrow>
              if normalized = None \<or> normalized = Some FManifest
              then parse_manifest h base_dir None (DMap m) else Inl AppFormatError
          | SPath p \<Rightarrow>
              (case hf_read h p of
                 None \<Rightarrow> Inl AppFormatError
               | Some data \<Rightarrow>
                   bindE (host_result (hf_resolve h p)) (\<lambda>resolved.
                     parse_image h
                       (if normalized = None then suffix_format (lower (path_suffix p)) else normalized)
                       (Some (case base_dir of None \<Rightarrow> if is_absolute p \<and> tl p = [] then p else butlast p
                                             | Some b \<Rightarrow> b))
                       rom_base data (path_str resolved) (Some (path_name p))))
          | SBytes data \<Rightarrow> parse_image h normalized base_dir rom_base data ''<bytes>'' None
          | _ \<Rightarrow> Inl AppFormatError))"

subsection \<open>What a parse guarantees\<close>

definition wf_segment :: "segment \<Rightarrow> bool" where
  "wf_segment g \<longleftrightarrow>
     (\<exists>limit. space_limit (sg_space g) = Some limit \<and> 0 \<le> sg_address g \<and> segment_end g \<le> limit) \<and>
     (\<forall>d. sg_expected g = Some d \<longrightarrow> segment_sha256 g = d)"

definition wf_entry :: "entry_point \<Rightarrow> bool" where
  "wf_entry e \<longleftrightarrow> e = no_entry \<or>
     (ep_mode e = ''call'' \<or> ep_mode e = ''run'') \<and> (\<exists>a. ep_address e = Some a \<and> 0 \<le> a \<and> a < RAM_SIZE)"

definition wf_application :: "application \<Rightarrow> bool" where
  "wf_application app \<longleftrightarrow>
     list_all wf_segment (ap_segments app) \<and> wf_entry (ap_entry app) \<and> distinct (ap_requirements app)"

lemma validate_range_Inr [result_simps]:
  "(validate_range a n limit = Inr u) = (0 \<le> a \<and> 0 \<le> n \<and> a + n \<le> limit \<and> a \<le> limit)"
  by (auto simp: validate_range_def)

lemma host_result_Inr [result_simps]: "(host_result v = Inr x) = (v = Some x)"
  by (simp add: host_result_def split: option.splits)

lemma parse_segment_Inr:
  assumes "parse_segment h base v = Inr g"
  shows "wf_segment g \<and> (\<exists>raw limit. v = DMap raw \<and> space_limit (sg_space g) = Some limit \<and>
    decode_segment_payload h raw (sg_address g) limit base = Inr (sg_data g, sg_source g))"
  using assms
  by (auto simp: parse_segment_def result_simps Let_def wf_segment_def segment_end_def segment_sha256_def
      split: option.splits if_splits prod.splits)

lemma uniques_props [simp]: "distinct (uniques xs)" "set (uniques xs) = set xs"
  by (simp_all add: uniques_def)

lemma check_entry_wf: "check_entry mode address = Inr e \<Longrightarrow> wf_entry e"
  by (auto simp: check_entry_def wf_entry_def ENTRY_MODES_def result_simps split: if_splits)

lemma parse_entry_wf: "parse_entry v = Inr e \<Longrightarrow> wf_entry e"
  by (auto simp: parse_entry_def wf_entry_def [of no_entry] result_simps dest: check_entry_wf split: doc.splits)

lemma parse_requirements_distinct: "parse_requirements v = Inr rs \<Longrightarrow> distinct rs"
  by (auto simp: parse_requirements_def result_simps split: if_splits)

lemma mapE_all: "mapE f xs = Inr ys \<Longrightarrow> (\<And>x y. f x = Inr y \<Longrightarrow> P y) \<Longrightarrow> list_all P ys"
  by (induction xs arbitrary: ys) (auto simp: result_simps)

lemma parse_manifest_Inr:
  assumes "parse_manifest h base origin v = Inr app"
  shows "wf_application app \<and> ap_origin app = origin \<and> (\<forall>g \<in> set (ap_segments app). \<exists>r. parse_segment h base r = Inr g)"
proof -
  obtain manifest raw where m: "v = DMap manifest" "mapE (parse_segment h base) raw = Inr (ap_segments app)"
    "parse_entry (dict_get manifest ''entry'' DNull) = Inr (ap_entry app)"
    "parse_requirements (dict_get manifest ''requires'' DNull) = Inr (ap_requirements app)" "ap_origin app = origin"
    using assms by (auto simp: parse_manifest_def result_simps split: if_splits)
  have "list_all wf_segment (ap_segments app)"
    by (rule mapE_all [OF m(2)]) (rule parse_segment_Inr [THEN conjunct1])
  moreover have "list_all (\<lambda>g. \<exists>r. parse_segment h base r = Inr g) (ap_segments app)"
    by (rule mapE_all [OF m(2)]) (rule exI)
  ultimately show ?thesis
    using m parse_entry_wf parse_requirements_distinct by (auto simp: wf_application_def list_all_iff)
qed

lemma le16_bounds: "0 \<le> le16 data i" "le16 data i < 0x10000"
proof -
  have "uint (data ! i) \<le> 255" "uint (data ! (i + 1)) \<le> 255" by simp_all
  then show "le16 data i < 0x10000" unfolding le16_def by linarith
qed (simp add: le16_def)

lemma wf_plain_segment:
  "wf_segment (plain_segment a data) = (0 \<le> a \<and> a + int (length data) \<le> RAM_SIZE)"
  by (auto simp: wf_segment_def plain_segment_def space_limit_def segment_end_def)

lemma parse_com_wf: "parse_com data name = Inr app \<Longrightarrow> wf_application app"
  by (auto simp: parse_com_def result_simps wf_application_def wf_plain_segment wf_entry_def RAM_SIZE_def
      split: if_splits)

lemma parse_bload_wf: "parse_bload data name = Inr app \<Longrightarrow> wf_application app"
  using le16_bounds [of data 5]
  by (auto simp: parse_bload_def Let_def result_simps wf_application_def wf_plain_segment wf_entry_def RAM_SIZE_def
      split: if_splits)

lemma parse_flat_rom_wf: "parse_flat_rom data name base = Inr app \<Longrightarrow> wf_application app"
  using le16_bounds [of data 2]
  by (auto simp: parse_flat_rom_def Let_def result_simps wf_application_def wf_plain_segment wf_entry_def RAM_SIZE_def
      split: if_splits)

lemma parse_image_wf: "parse_image h f root base data origin name = Inr app \<Longrightarrow> wf_application app"
  by (auto simp: parse_image_def json_manifest_def result_simps wf_application_def
      dest!: parse_manifest_Inr parse_com_wf parse_bload_wf parse_flat_rom_wf
      split: if_splits app_format.splits option.splits)

lemma parse_application_wf:
  "parse_application h src fmt base rom_base = Inr app \<Longrightarrow> wf_application app \<or> src = SApplication app"
  by (auto simp: parse_application_def result_simps dest: parse_image_wf parse_manifest_Inr
      split: source.splits if_splits option.splits)

subsection \<open>File assets\<close>

lemma safe_asset_path_Inr:
  assumes "safe_asset_path h base_dir v = Inr p"
  shows "\<exists>s base root. v = DStr s \<and> base_dir = Some base \<and> hf_resolve h base = Some root \<and> starts_with root p \<and>
    hf_is_file h p \<and> hf_resolve h (join_path root (path_parts s)) = Some p"
  using assms
  by (auto simp: safe_asset_path_def Let_def result_simps split: doc.splits if_splits option.splits)

lemma payload_source:
  assumes "decode_segment_payload h raw address limit base_dir = Inr (data, Some p)"
  shows "\<exists>parts. p = path_str parts \<and> safe_asset_path h base_dir (dict_get raw ''file'' DNull) = Inr parts \<and>
    hf_read h parts = Some data \<and> (\<exists>size. hf_size h parts = Some size)"
proof -
  obtain key where k: "payload_keys raw = Inr [key]"
    using assms by (auto simp: decode_segment_payload_def result_simps length_Suc_conv split: if_splits)
  show ?thesis
    using assms k
    by (auto simp: decode_segment_payload_def result_simps Let_def
      split: if_splits doc.splits option.splits prod.splits)
qed

subsection \<open>Hexadecimal text\<close>

lemma hex_digit_char:
  assumes "n < 16"
  shows "\<not> is_space (hex_digit n)" "lower [hex_digit n] = [hex_digit n]" "digit_value 16 (hex_digit n) = Some n"
    "hex_digit n \<in> set ''0123456789abcdef''" "hex_digit n \<noteq> CHR ''s''"
  using hex_cases [OF assms]
  by (elim insertE emptyE;
      simp add: is_space_def ord_char_def lower_def digit_value_def hex_digit_def hex_digits_def)+

definition hex_text :: "string \<Rightarrow> bool" where
  "hex_text s \<longleftrightarrow> (\<forall>c \<in> set s. \<exists>n < 16. c = hex_digit n)"

lemma hex_text_bytes [simp]: "hex_text (bytes_hex bs)"
proof -
  have "\<exists>n < 16. hex_digit (unat b div 16) = hex_digit n" "\<exists>n < 16. hex_digit (unat b mod 16) = hex_digit n" for b :: byte
    by (rule exI [of _ "unat b div 16"], simp) (rule exI [of _ "unat b mod 16"], simp)
  then show ?thesis by (auto simp: hex_text_def bytes_hex_def)
qed

lemma dropWhile_none: "(\<forall>x \<in> set xs. \<not> P x) \<Longrightarrow> dropWhile P xs = xs"
  by (cases xs) auto

lemma hex_text_space: "hex_text s \<Longrightarrow> c \<in> set s \<Longrightarrow> \<not> is_space c"
  using hex_digit_char(1) by (auto simp: hex_text_def)

lemma strip_hex: "hex_text s \<Longrightarrow> strip s = s"
  using hex_text_space by (simp add: strip_def dropWhile_none)

lemma without_space_hex: "hex_text s \<Longrightarrow> without_space s = s"
  using hex_text_space by (simp add: without_space_def filter_id_conv)

lemma lower_Cons: "lower (c # cs) = lower [c] @ lower cs"
  by (simp add: lower_def)

lemma lower_hex: "hex_text s \<Longrightarrow> lower s = s"
proof (induction s)
  case (Cons c s)
  then show ?case using hex_digit_char(2) by (subst lower_Cons) (auto simp: hex_text_def)
qed (simp add: lower_def)

lemma from_hex_bytes: "from_hex (bytes_hex bs) = Some bs"
proof (induction bs)
  case (Cons b bs)
  have "16 * (unat b div 16) + unat b mod 16 = unat b" by simp
  then show ?case
    using Cons hex_digit_char(3) [OF byte_nibbles(1) [of b]] hex_digit_char(3) [OF byte_nibbles(2) [of b]]
    by (simp add: bytes_hex_def del: mult_div_mod_eq)
qed (simp add: bytes_hex_def)

subsection \<open>The digest\<close>

lemma sha_round_length [simp]: "length state = 8 \<Longrightarrow> length (sha_round kw state) = 8"
  by (cases "(kw, state)" rule: sha_round.cases) (auto simp: Let_def)

lemma sha_rounds_length: "length state = 8 \<Longrightarrow> length (fold sha_round ks state) = 8"
  by (induction ks arbitrary: state) simp_all

lemma sha_blocks_length: "length state = 8 \<Longrightarrow> length (fold sha_block bs state) = 8"
  by (induction bs arbitrary: state) (simp_all add: sha_block_def sha_rounds_length)

lemma length_concat_const: "(\<And>x. length (f x) = n) \<Longrightarrow> length (concat (map f xs)) = n * length xs"
  by (induction xs) simp_all

lemma sha256_hex_length: "length (sha256_hex m) = 64"
  using sha_blocks_length [of sha_init "chunks_of 16 (sha_words (sha_pad m))"]
  by (simp add: sha256_hex_def length_concat_const [where n = 4] sha_init_def)

lemma normalize_digest_sha: "normalize_digest (DStr (sha256_hex m)) = Inr (sha256_hex m)"
proof -
  have h: "hex_text (sha256_hex m)" by (simp add: sha256_hex_def)
  have "\<not> starts_with ''sha256:'' (sha256_hex m)"
  proof
    assume "starts_with ''sha256:'' (sha256_hex m)"
    then have "CHR ''s'' \<in> set (sha256_hex m)"
      by (cases "sha256_hex m") (auto simp: starts_with_def)
    then obtain n where "n < 16" "CHR ''s'' = hex_digit n" using h unfolding hex_text_def by blast
    then show False using hex_digit_char(5) [of n] by metis
  qed
  moreover have "list_all (\<lambda>c. c \<in> set ''0123456789abcdef'') (sha256_hex m)"
    using h hex_digit_char(4) by (auto simp: hex_text_def list_all_iff simp del: set_simps)
  ultimately show ?thesis
    using h by (simp add: normalize_digest_def expect_str_def strip_hex lower_hex sha256_hex_length Let_def del: set_simps)
qed

subsection \<open>Manifests of applications\<close>

text \<open>\<open>manifest_doc app\<close> is the canonical manifest of an application, with every payload in hexadecimal.\<close>

definition segment_doc :: "segment \<Rightarrow> doc" where
  "segment_doc g =
     DMap ([(''space'', DStr (sg_space g)), (''address'', DInt (sg_address g)),
            (''hex'', DStr (bytes_hex (sg_data g)))] @
           (case sg_expected g of None \<Rightarrow> [] | Some d \<Rightarrow> [(''sha256'', DStr d)]))"

definition entry_doc :: "entry_point \<Rightarrow> doc" where
  "entry_doc e =
     DMap [(''mode'', DStr (ep_mode e)),
           (''address'', case ep_address e of None \<Rightarrow> DNull | Some a \<Rightarrow> DInt a)]"

definition manifest_doc :: "application \<Rightarrow> doc" where
  "manifest_doc app =
     DMap [(''format'', DStr MANIFEST_FORMAT), (''name'', DStr (ap_name app)),
           (''segments'', DList (map segment_doc (ap_segments app))), (''entry'', entry_doc (ap_entry app)),
           (''requires'', DList (map DStr (ap_requirements app))),
           (''mapper'', case ap_mapper app of None \<Rightarrow> DNull | Some m \<Rightarrow> DMap m),
           (''metadata'', DMap (ap_metadata app))]"

definition trimmed :: "string \<Rightarrow> bool" where
  "trimmed s \<longleftrightarrow> s \<noteq> '''' \<and> strip s = s"

definition normal_mapper :: "members \<Rightarrow> bool" where
  "normal_mapper m \<longleftrightarrow>
     (\<exists>t. map_of m ''type'' = Some (DStr t) \<and> trimmed t \<and> lower t = t) \<and>
     (\<forall>k \<in> {''base'', ''size''}. \<forall>v. map_of m k = Some v \<longrightarrow> (\<exists>i. v = DInt i))"

definition canonical :: "application \<Rightarrow> bool" where
  "canonical app \<longleftrightarrow>
     wf_application app \<and> ap_format app = MANIFEST_FORMAT \<and> trimmed (ap_name app) \<and>
     list_all (\<lambda>g. sg_source g = None) (ap_segments app) \<and> list_all trimmed (ap_requirements app) \<and>
     (\<forall>m. ap_mapper app = Some m \<longrightarrow> normal_mapper m)"

lemma payload_keys_hex:
  "payload_keys [(''space'', a), (''address'', b), (''hex'', c)] = Inr [''hex'']"
  "payload_keys [(''space'', a), (''address'', b), (''hex'', c), (''sha256'', e)] = Inr [''hex'']"
  by (simp_all add: payload_keys_def payload_groups_def has_key_def)

lemma space_limit_lower: "space_limit s = Some limit \<Longrightarrow> lower s = s"
  by (auto simp: space_limit_def lower_def ord_char_def split: if_splits)

lemma parse_segment_doc:
  assumes "wf_segment g" "sg_source g = None"
  shows "parse_segment h base (segment_doc g) = Inr g"
proof -
  obtain limit where l: "space_limit (sg_space g) = Some limit" "0 \<le> sg_address g"
    "sg_address g + int (length (sg_data g)) \<le> limit"
    using assms(1) by (auto simp: wf_segment_def segment_end_def)
  let ?m = "[(''space'', DStr (sg_space g)), (''address'', DInt (sg_address g)),
            (''hex'', DStr (bytes_hex (sg_data g)))] @ (case sg_expected g of None \<Rightarrow> [] | Some d \<Rightarrow> [(''sha256'', DStr d)])"
  have keys: "payload_keys ?m = Inr [''hex'']"
    by (simp add: payload_keys_hex split: option.splits)
  have payload: "decode_segment_payload h ?m (sg_address g) limit base = Inr (sg_data g, None)"
    using l unfolding decode_segment_payload_def keys
    by (simp add: dict_get_def expect_str_def Let_def without_space_hex from_hex_bytes)
  have digest: "normalize_digest (DStr d) = Inr d" "sha256_hex (sg_data g) = d" if "sg_expected g = Some d" for d
    using assms(1) that normalize_digest_sha by (auto simp: wf_segment_def segment_sha256_def)
  have range: "validate_range (sg_address g) 0 limit = Inr ()"
    "validate_range (sg_address g) (int (length (sg_data g))) limit = Inr ()"
    using l by (auto simp: validate_range_def)
  have g: "g = \<lparr>sg_space = sg_space g, sg_address = sg_address g, sg_data = sg_data g,
      sg_expected = sg_expected g, sg_source = None\<rparr>"
    using assms(2) by simp
  have "parse_segment h base (DMap ?m) = Inr \<lparr>sg_space = sg_space g, sg_address = sg_address g, sg_data = sg_data g,
      sg_expected = sg_expected g, sg_source = None\<rparr>"
    using l(1) payload range digest unfolding parse_segment_def
    by (cases "sg_expected g")
      (simp_all add: expect_map_def expect_str_def dict_get_def has_key_def app_integer_def space_limit_lower Let_def)
  then show ?thesis unfolding segment_doc_def using g by simp
qed

lemma parse_entry_doc:
  assumes "wf_entry e"
  shows "parse_entry (entry_doc e) = Inr e"
  using assms
  by (auto simp: wf_entry_def parse_entry_def entry_doc_def no_entry_def expect_str_def dict_get_def check_entry_def
      ENTRY_MODES_def lower_def ord_char_def app_integer_def validate_range_def RAM_SIZE_def)

lemma update_same: "map_of m k = Some v \<Longrightarrow> AList.update k v m = m"
  by (induction m) auto

lemma parse_mapper_doc:
  assumes "normal_mapper m"
  shows "parse_mapper (DMap m) = Inr (Some m)"
proof -
  obtain t where t: "map_of m ''type'' = Some (DStr t)" "trimmed t" "lower t = t"
    using assms by (auto simp: normal_mapper_def)
  have key: "mapper_integer k m = Inr m" if "k \<in> {''base'', ''size''}" for k
    using assms that
    by (auto simp: mapper_integer_def normal_mapper_def has_key_def dict_get_def app_integer_def update_same)
  show ?thesis
    using t by (simp add: parse_mapper_def expect_map_def expect_str_def dict_get_def trimmed_def update_same key)
qed

lemma mapE_map: "(\<And>x. x \<in> set xs \<Longrightarrow> f (g x) = Inr (k x)) \<Longrightarrow> mapE f (map g xs) = Inr (map k xs)"
  by (induction xs) simp_all

lemma uniques_distinct: "distinct xs \<Longrightarrow> uniques xs = xs"
  by (simp add: uniques_def distinct_remdups_id)

lemma parse_requirements_doc:
  assumes "list_all trimmed rs" "distinct rs"
  shows "parse_requirements (DList (map DStr rs)) = Inr rs"
proof -
  have "mapE (\<lambda>r. bindE (expect_str r) (\<lambda>s. if strip s = '''' then Inl AppFormatError else Inr (strip s)))
      (map DStr rs) = Inr (map id rs)"
    by (rule mapE_map) (use assms in \<open>auto simp: expect_str_def trimmed_def list_all_iff\<close>)
  then show ?thesis using assms by (simp add: parse_requirements_def expect_list_def uniques_distinct)
qed

lemma parse_manifest_doc:
  assumes "canonical app"
  shows "parse_manifest h base (ap_origin app) (manifest_doc app) = Inr app"
proof -
  have segs: "mapE (parse_segment h base) (map segment_doc (ap_segments app)) = Inr (ap_segments app)"
    using mapE_map [of "ap_segments app" "parse_segment h base" segment_doc id] assms parse_segment_doc
    by (auto simp: canonical_def wf_application_def list_all_iff)
  have entry: "parse_entry (entry_doc (ap_entry app)) = Inr (ap_entry app)"
    using assms by (simp add: canonical_def wf_application_def parse_entry_doc)
  have reqs: "parse_requirements (DList (map DStr (ap_requirements app))) = Inr (ap_requirements app)"
    using assms by (simp add: canonical_def wf_application_def parse_requirements_doc)
  have mapper: "parse_mapper (case ap_mapper app of None \<Rightarrow> DNull | Some m \<Rightarrow> DMap m) = Inr (ap_mapper app)"
    using assms parse_mapper_doc
    by (cases "ap_mapper app") (auto simp: canonical_def parse_mapper_def)
  have name: "strip (ap_name app) = ap_name app" "ap_name app \<noteq> ''''" "ap_format app = MANIFEST_FORMAT"
    using assms by (auto simp: canonical_def trimmed_def)
  show ?thesis
    using segs entry reqs mapper name unfolding parse_manifest_def manifest_doc_def
    by (simp add: expect_map_def expect_list_def expect_str_def dict_get_def has_key_def)
qed

subsection \<open>Properties of the parsers\<close>

definition bload_image :: "int \<Rightarrow> int \<Rightarrow> bytes \<Rightarrow> bytes" where
  "bload_image start execute payload =
     0xFE # le_bytes 2 start @ le_bytes 2 (start + int (length payload) - 1) @ le_bytes 2 execute @ payload"

lemma le16_at: "i + 1 < length data \<Longrightarrow> le16 data i = le_value (take 2 (drop i data))"
  by (simp add: le16_def le_value.simps take_Suc_conv_app_nth numeral_2_eq_2 Cons_nth_drop_Suc [symmetric])

lemma le16_bytes: "i + 1 < length data \<Longrightarrow> le_bytes 2 (le16 data i) = take 2 (drop i data)"
  by (simp add: le16_at)

lemma bload_split:
  assumes "7 \<le> length data"
  shows "data = data ! 0 # take 2 (drop 1 data) @ take 2 (drop 3 data) @ take 2 (drop 5 data) @ drop 7 data"
proof -
  have "data = data ! 0 # drop 1 data" using assms by (cases data) simp_all
  moreover have "drop 1 data = take 2 (drop 1 data) @ drop 3 data"
    using append_take_drop_id [of 2 "drop 1 data"] by simp
  moreover have "drop 3 data = take 2 (drop 3 data) @ drop 5 data"
    using append_take_drop_id [of 2 "drop 3 data"] by simp
  moreover have "drop 5 data = take 2 (drop 5 data) @ drop 7 data"
    using append_take_drop_id [of 2 "drop 5 data"] by simp
  ultimately show ?thesis by (simp only: append_assoc append_Cons)
qed

lemma bload_image_reads:
  assumes "0 \<le> start" "payload \<noteq> []" "start + int (length payload) \<le> 0x10000" "0 \<le> execute" "execute < 0x10000"
  defines "data \<equiv> bload_image start execute payload"
  shows "le16 data 1 = start" "le16 data 3 = start + int (length payload) - 1" "le16 data 5 = execute"
    "drop 7 data = payload" "data ! 0 = 0xFE" "7 \<le> length data"
proof -
  have n: "1 \<le> int (length payload)" using assms(2) by (cases payload) auto
  have e: "take 2 (drop 1 data) = le_bytes 2 start" "take 2 (drop 3 data) = le_bytes 2 (start + int (length payload) - 1)"
    "take 2 (drop 5 data) = le_bytes 2 execute"
    by (simp_all add: data_def bload_image_def)
  show l: "7 \<le> length data" by (simp add: data_def bload_image_def)
  show "le16 data 1 = start" using l e n assms(1-5) by (simp add: le16_at)
  show "le16 data 3 = start + int (length payload) - 1" using l e n assms(1-5) by (simp add: le16_at)
  show "le16 data 5 = execute" using l e assms(1-5) by (simp add: le16_at)
  show "drop 7 data = payload" "data ! 0 = 0xFE" by (simp_all add: data_def bload_image_def)
qed

lemma parse_bload_cases:
  assumes "parse_bload data name = Inr app"
  shows "7 \<le> length data \<and> data ! 0 = 0xFE \<and> int (length (drop 7 data)) = le16 data 3 - le16 data 1 + 1 \<and>
    le16 data 1 + int (length (drop 7 data)) \<le> RAM_SIZE \<and> le16 data 1 \<le> le16 data 3 \<and>
    ap_segments app = [plain_segment (le16 data 1) (drop 7 data)] \<and>
    ap_entry app = (if le16 data 5 = 0 then no_entry else \<lparr>ep_mode = ''run'', ep_address = Some (le16 data 5)\<rparr>)"
  using assms by (auto simp: parse_bload_def Let_def result_simps simp del: length_drop split: if_splits)

lemma bload_accepts:
  assumes "parse_bload data name = Inr app" "ap_segments app = [plain_segment start payload]"
    "ap_entry app = (if execute = 0 then no_entry else \<lparr>ep_mode = ''run'', ep_address = Some execute\<rparr>)"
  shows "data = bload_image start execute payload \<and> payload \<noteq> [] \<and> 0 \<le> start \<and>
    start + int (length payload) \<le> 0x10000 \<and> 0 \<le> execute \<and> execute < 0x10000"
proof -
  note app = assms
  note c = parse_bload_cases [OF app(1)]
  have "plain_segment start payload = plain_segment (le16 data 1) (drop 7 data)" using c app(2) by simp
  then have p12: "payload = drop 7 data" "start = le16 data 1" by (simp_all add: plain_segment_def)
  have "(if execute = 0 then no_entry else \<lparr>ep_mode = ''run'', ep_address = Some execute\<rparr>) =
      (if le16 data 5 = 0 then no_entry else \<lparr>ep_mode = ''run'', ep_address = Some (le16 data 5)\<rparr>)"
    using c app(3) by simp
  then have p3: "execute = le16 data 5" by (simp add: no_entry_def split: if_splits)
  note p = p12 p3
  have "int (length (drop 7 data)) = le16 data 3 - le16 data 1 + 1" using c by blast
  then have last: "start + int (length payload) - 1 = le16 data 3" unfolding p by linarith
  have "data = bload_image start execute payload"
  proof -
    have "7 \<le> length data" "data ! 0 = 0xFE" using c by blast+
    moreover from this have "le_bytes 2 start = take 2 (drop 1 data)"
      "le_bytes 2 (start + int (length payload) - 1) = take 2 (drop 3 data)"
      "le_bytes 2 execute = take 2 (drop 5 data)"
      unfolding last unfolding p by (simp_all only: le16_bytes)
    ultimately show ?thesis using bload_split [of data] unfolding bload_image_def p(1) by metis
  qed
  moreover have "le16 data 1 \<le> le16 data 3" using c by blast
  then have "payload \<noteq> []" using last unfolding p(2) by auto
  moreover have "start + int (length payload) \<le> 0x10000" using c unfolding p12 RAM_SIZE_def by blast
  ultimately show ?thesis
    using le16_bounds [of data 1, folded p12(2)] le16_bounds [of data 5, folded p3] by blast
qed

text \<open>
  C30: A parsed application is sound. Whatever the source (a manifest, a COM, BLOAD or ROM image, given
  as a path, as bytes or as a mapping) and whatever the host answers, every segment lies inside its
  memory space and has the digest its manifest declared, the entry point is none or a call or run
  address inside RAM, and no requirement is listed twice.
\<close>

theorem parsed_application_sound:
  assumes "parse_application h src fmt base_dir rom_base = Inr app" and "\<And>a. src \<noteq> SApplication a"
  shows "list_all wf_segment (ap_segments app) \<and> wf_entry (ap_entry app) \<and> distinct (ap_requirements app)"
  using parse_application_wf [OF assms(1)] assms(2) by (simp add: wf_application_def)

text \<open>
  C31: Assets stay inside their directory. The bytes of a segment that names a file were read from a
  regular file whose resolved path lies under the resolved base directory, whatever links the host
  follows; without a base directory there is no such segment.
\<close>

theorem assets_confined:
  assumes "parse_manifest h base_dir origin v = Inr app" and "g \<in> set (ap_segments app)"
    and "sg_source g = Some p"
  shows "\<exists>base root parts. base_dir = Some base \<and> hf_resolve h base = Some root \<and> starts_with root parts \<and>
    hf_is_file h parts \<and> hf_read h parts = Some (sg_data g) \<and> p = path_str parts"
proof -
  obtain r where "parse_segment h base_dir r = Inr g"
    using parse_manifest_Inr [OF assms(1)] assms(2) by blast
  from parse_segment_Inr [OF this] assms(3) obtain raw limit where
    "decode_segment_payload h raw (sg_address g) limit base_dir = Inr (sg_data g, Some p)" by auto
  from payload_source [OF this] show ?thesis using safe_asset_path_Inr by blast
qed

text \<open>
  C32: Manifests carry every application. The canonical manifest of an application in normal form (its
  segments valid, with or without a digest, a trimmed name and requirements, an optional mapper) parses
  to exactly that application.
\<close>

theorem manifest_roundtrip:
  assumes "canonical app"
  shows "parse_manifest h base_dir (ap_origin app) (manifest_doc app) = Inr app"
  by (rule parse_manifest_doc [OF assms])

text \<open>
  The BLOAD parser is exact. It accepts precisely the images that consist of the \<open>FE\<close> header for a
  start address, the last address and an execution address, and of exactly the bytes in between, and
  returns that segment and entry point.
\<close>

theorem bload_exact:
  "(\<exists>app. parse_bload data name = Inr app \<and> ap_segments app = [plain_segment start payload] \<and>
      ap_entry app = (if execute = 0 then no_entry else \<lparr>ep_mode = ''run'', ep_address = Some execute\<rparr>)) =
   (data = bload_image start execute payload \<and> payload \<noteq> [] \<and> 0 \<le> start \<and>
      start + int (length payload) \<le> 0x10000 \<and> 0 \<le> execute \<and> execute < 0x10000)"
  (is "?l = ?r")
proof
  assume ?l
  then show ?r using bload_accepts by blast
next
  assume r: ?r
  then have n: "1 \<le> int (length payload)" by (cases payload) auto
  show ?l
    using r n bload_image_reads [of start payload execute]
    by (auto simp: parse_bload_def Let_def validate_range_def RAM_SIZE_def)
qed

subsection \<open>Concrete applications\<close>

definition sample_app :: application where
  "sample_app =
     \<lparr>ap_name = ''demo'', ap_format = MANIFEST_FORMAT,
      ap_segments = [plain_segment 0x8000 [0x3E, 1, 0xC9],
        \<lparr>sg_space = ''vram'', sg_address = 0, sg_data = [7], sg_expected = None, sg_source = None\<rparr>],
      ap_entry = \<lparr>ep_mode = ''run'', ep_address = Some 0x8000\<rparr>, ap_requirements = [],
      ap_mapper = None, ap_metadata = [], ap_origin = None\<rparr>"

definition sample_files :: host_files where
  "sample_files =
     \<lparr>hf_resolve = Some, hf_is_file = (\<lambda>_. True), hf_size = (\<lambda>_. Some 1), hf_read = (\<lambda>_. Some [7]),
      hf_json = (\<lambda>_. None)\<rparr>"

theorem parsed_application_sound_witness:
  "\<exists>app. parse_application sample_files (SBytes [0xC9]) (DStr ''com'') None DNull = Inr app \<and>
     list_all wf_segment (ap_segments app) \<and> wf_entry (ap_entry app) \<and> distinct (ap_requirements app)"
proof -
  have "\<exists>app. parse_application sample_files (SBytes [0xC9]) (DStr ''com'') None DNull = Inr app"
    by (simp add: parse_application_def normalize_format_def MANIFEST_FORMAT_def lower_def ord_char_def
        parse_image_def parse_com_def validate_range_def RAM_SIZE_def)
  then obtain app where a: "parse_application sample_files (SBytes [0xC9]) (DStr ''com'') None DNull = Inr app" by blast
  show ?thesis using a parsed_application_sound [OF a] by simp
qed

definition asset_manifest :: doc where
  "asset_manifest =
     DMap [(''format'', DStr MANIFEST_FORMAT),
       (''segments'', DList [DMap [(''space'', DStr ''ram''), (''address'', DInt 0), (''file'', DStr ''a.bin'')]])]"

theorem assets_confined_witness:
  "\<exists>app g. parse_manifest sample_files (Some [''/'', ''d'']) None asset_manifest = Inr app \<and> ap_segments app = [g] \<and>
     (\<exists>base root parts. Some [''/'', ''d''] = Some base \<and> hf_resolve sample_files base = Some root \<and>
        starts_with root parts \<and> hf_is_file sample_files parts \<and>
        hf_read sample_files parts = Some (sg_data g) \<and> ''/d/a.bin'' = path_str parts)"
proof -
  have "\<exists>app g. parse_manifest sample_files (Some [''/'', ''d'']) None asset_manifest = Inr app \<and>
      ap_segments app = [g] \<and> sg_source g = Some ''/d/a.bin''"
    by (simp add: parse_manifest_def asset_manifest_def expect_map_def expect_list_def expect_str_def dict_get_def
        has_key_def MANIFEST_FORMAT_def parse_segment_def lower_def ord_char_def space_limit_def app_integer_def
        validate_range_def RAM_SIZE_def decode_segment_payload_def payload_keys_def payload_groups_def
        safe_asset_path_def path_parts_def starts_with_def is_absolute_def sample_files_def host_result_def
        join_path_def path_str_def strip_def is_space_def parse_entry_def parse_requirements_def parse_mapper_def)
  then obtain app g where a: "parse_manifest sample_files (Some [''/'', ''d'']) None asset_manifest = Inr app"
    "ap_segments app = [g]" "sg_source g = Some ''/d/a.bin''" by blast
  then have g: "g \<in> set (ap_segments app)" by simp
  show ?thesis using a assets_confined [OF a(1) g a(3)] by blast
qed

lemma sample_canonical: "canonical sample_app"
  by (simp add: canonical_def sample_app_def wf_application_def wf_segment_def plain_segment_def space_limit_def
      segment_end_def RAM_SIZE_def VRAM_SIZE_def wf_entry_def trimmed_def strip_def is_space_def ord_char_def)

theorem manifest_roundtrip_witness:
  "parse_manifest sample_files None None (manifest_doc sample_app) = Inr sample_app"
  using manifest_roundtrip [OF sample_canonical, of sample_files None] by (simp add: sample_app_def)

end
