(* ===== verification/App_Load.thy ===== *)
theory App_Load
  imports App_Format Effects
begin

text \<open>
  \<open>load_application\<close> of \<open>server/msx_application.py\<close>: an application is transferred to a duck-typed
  backend and started. The state is the backend as the loader sees it: the names of its methods, its
  \<open>capabilities\<close> attribute, a script of the replies of the coming calls, and the log of the calls
  made with their replies. \<open>admit\<close> is the part of the code before the first change of the target,
  \<open>transfer\<close> the part from there on.
\<close>

subsection \<open>The backend\<close>

text \<open>
  A backend is known by the names of its methods and the value of its \<open>capabilities\<close> attribute when
  that is not a method. What its methods do is a script: every call takes the next reply and is
  recorded with it in \<open>tg_log\<close>, so that a statement over all scripts is one over all backends.
  \<open>ReturnsBytes\<close> is a bytes-like value, \<open>Returns\<close> any other; a method whose reply is not in the
  script returns \<open>None\<close>.
\<close>

datatype reply = Raises | Returns doc | ReturnsBytes bytes

datatype call =
    CallSupports string string
  | CallCapabilities
  | CallSupportsMapper string
  | CallPreflight
  | CallStop
  | CallConfigureMapper members
  | CallPrepare
  | CallWrite string int bytes
  | CallRead string int int
  | CallExecute string int

record target =
  tg_methods :: "string list"
  tg_capabilities :: doc
  tg_replies :: "reply list"
  tg_log :: "(call \<times> reply) list"

type_synonym 'a load = "(target, app_error, 'a) comp"

definition invoke :: "call \<Rightarrow> reply load" where
  "invoke c s =
     (let r = (case tg_replies s of [] \<Rightarrow> Returns DNull | r # _ \<Rightarrow> r)
      in (if r = Raises then Inl BackendRaised else Inr r,
          s\<lparr>tg_replies := tl (tg_replies s), tg_log := tg_log s @ [(c, r)]\<rparr>))"

definition reply_truthy :: "reply \<Rightarrow> bool" where
  "reply_truthy r = (case r of Raises \<Rightarrow> False | Returns v \<Rightarrow> truthy v | ReturnsBytes bs \<Rightarrow> bs \<noteq> [])"

text \<open>\<open>bytes(v)\<close>: a copy, that many zeros for an integer, the elements of a list.\<close>

definition reply_bytes :: "reply \<Rightarrow> app_error + bytes" where
  "reply_bytes r =
     (case r of
        ReturnsBytes bs \<Rightarrow> Inr bs
      | Returns (DInt n) \<Rightarrow> if n < 0 then Inl BadBytes else Inr (replicate (nat n) 0)
      | Returns (DBool b) \<Rightarrow> Inr (if b then [0] else [])
      | Returns (DList vs) \<Rightarrow>
          mapE (\<lambda>v. case v of
              DInt i \<Rightarrow> if 0 \<le> i \<and> i \<le> 0xFF then Inr (word_of_int i) else Inl BadBytes
            | DBool b \<Rightarrow> Inr (if b then 1 else 0)
            | _ \<Rightarrow> Inl BadBytes) vs
      | Returns (DMap m) \<Rightarrow> if m = [] then Inr [] else Inl BadBytes
      | _ \<Rightarrow> Inl BadBytes)"

definition find_method :: "string list \<Rightarrow> string list \<Rightarrow> app_error + string" where
  "find_method methods names =
     (case filter (\<lambda>n. n \<in> set methods) names of [] \<Rightarrow> Inl AppBackendError | n # _ \<Rightarrow> Inr n)"

definition advertised :: "string \<Rightarrow> reply \<Rightarrow> bool option" where
  "advertised capability v =
     (case v of
        Returns (DMap m) \<Rightarrow> Some (truthy (dict_get m capability (DBool False)))
      | Returns (DList xs) \<Rightarrow> Some (DStr capability \<in> set xs)
      | _ \<Rightarrow> None)"

definition supports_capability :: "string \<Rightarrow> bool option load" where
  "supports_capability capability s =
     (case find_method (tg_methods s) [''supports_capability'', ''supports''] of
        Inr m \<Rightarrow> bindIO (invoke (CallSupports m capability)) (\<lambda>r. ret (Some (reply_truthy r)))
      | Inl _ \<Rightarrow>
          if ''capabilities'' \<in> set (tg_methods s)
          then bindIO (invoke CallCapabilities) (\<lambda>r. ret (advertised capability r))
          else ret (advertised capability (Returns (tg_capabilities s)))) s"

fun check_declared_requirements :: "string list \<Rightarrow> unit load" where
  "check_declared_requirements [] = ret ()"
| "check_declared_requirements (r # rs) =
     bindIO (supports_capability r) (\<lambda>supported.
       if supported \<noteq> Some True then raise AppCapabilityError else check_declared_requirements rs)"

definition mapper_configurator :: "members option \<Rightarrow> string option load" where
  "mapper_configurator mapper s =
     (if \<not> needs_mapper (mapper_type mapper) then ret None
      else
        let t = the (mapper_type mapper)
        in bindIO
             (if ''supports_mapper'' \<in> set (tg_methods s)
              then bindIO (invoke (CallSupportsMapper t)) (\<lambda>r. ret (Some (reply_truthy r)))
              else supports_capability (''mapper:'' @ t)) (\<lambda>supported.
           if supported \<noteq> Some True then raise AppMapperError
           else bindIO (lift_result (find_method (tg_methods s) [''configure_mapper''])) (\<lambda>m. ret (Some m)))) s"

subsection \<open>Loading\<close>

definition entry_with_override :: "entry_point \<Rightarrow> doc \<Rightarrow> doc \<Rightarrow> app_error + entry_point" where
  "entry_with_override entry execute entry_address =
     bindE (case execute of
         DNull \<Rightarrow> Inr (ep_mode entry)
       | DStr s \<Rightarrow> if lower s \<in> set ENTRY_MODES then Inr (lower s) else Inl AppFormatError
       | _ \<Rightarrow> Inl AppFormatError) (\<lambda>mode.
     bindE (if entry_address = DNull then Inr (ep_address entry)
            else bindE (app_integer entry_address) (\<lambda>a. Inr (Some a))) (\<lambda>address.
     if mode = ''none'' then Inr no_entry
     else case address of
       None \<Rightarrow> Inl AppFormatError
     | Some a \<Rightarrow> bindE (validate_range a 1 RAM_SIZE) (\<lambda>_. Inr \<lparr>ep_mode = mode, ep_address = Some a\<rparr>)))"

definition resolve_space ::
  "string list \<Rightarrow> bool \<Rightarrow> string \<Rightarrow> app_error + (string \<times> string \<times> string option)" where
  "resolve_space methods verify space =
     bindE (find_method methods (if space = ''ram'' then [''write_ram'', ''poke''] else [''write_vram'', ''vpoke'']))
       (\<lambda>writer.
     if verify then
       bindE (find_method methods (if space = ''ram'' then [''read_ram'', ''peek''] else [''read_vram'', ''vpeek'']))
         (\<lambda>reader. Inr (space, writer, Some reader))
     else Inr (space, writer, None))"

record loaded_segment =
  ls_space :: string
  ls_address :: int
  ls_length :: int
  ls_sha256 :: string
  ls_verified :: bool

definition short_count :: "reply \<Rightarrow> int \<Rightarrow> bool" where
  "short_count r n = (case r of Returns (DInt i) \<Rightarrow> i \<noteq> n | _ \<Rightarrow> False)"

definition load_segment :: "(string \<times> string \<times> string option) list \<Rightarrow> bool \<Rightarrow> segment \<Rightarrow> loaded_segment load" where
  "load_segment ops verify g =
     (let (writer, reader) = the (map_of ops (sg_space g)); n = int (length (sg_data g))
      in bindIO (invoke (CallWrite writer (sg_address g) (sg_data g))) (\<lambda>result.
         bindIO (guard (\<not> short_count result n) AppBackendError) (\<lambda>_.
         bindIO (if verify then
             bindIO (invoke (CallRead (the reader) (sg_address g) n)) (\<lambda>r.
             bindIO (lift_result (reply_bytes r)) (\<lambda>actual.
               guard (actual = sg_data g) AppIntegrityError))
           else ret ()) (\<lambda>_.
           ret \<lparr>ls_space = sg_space g, ls_address = sg_address g, ls_length = n,
                ls_sha256 = segment_sha256 g, ls_verified = verify\<rparr>))))"

fun load_segments ::
  "(string \<times> string \<times> string option) list \<Rightarrow> bool \<Rightarrow> segment list \<Rightarrow> loaded_segment list load" where
  "load_segments ops verify [] = ret []"
| "load_segments ops verify (g # gs) =
     bindIO (load_segment ops verify g) (\<lambda>l. bindIO (load_segments ops verify gs) (\<lambda>ls. ret (l # ls)))"

record load_report =
  lr_name :: string
  lr_format :: string
  lr_origin :: "string option"
  lr_segments :: "loaded_segment list"
  lr_bytes_loaded :: int
  lr_entry :: entry_point
  lr_mapper :: "members option"
  lr_required :: "string list"

definition optional_call :: "bool \<Rightarrow> call \<Rightarrow> unit load" where
  "optional_call present c = (if present then bindIO (invoke c) (\<lambda>_. ret ()) else ret ())"

text \<open>
  \<open>resolve_operations\<close> looks up every operation the application needs; \<open>admit\<close> is the rest of what
  \<open>load_application\<close> does before it changes anything, \<open>transfer\<close> what follows.
\<close>

definition executor_names :: "string \<Rightarrow> string list option" where
  "executor_names mode =
     (if mode = ''call'' then Some [''execute_call'', ''call'']
      else if mode = ''run'' then Some [''execute_run'', ''run''] else None)"

definition resolve_operations ::
  "string list \<Rightarrow> bool \<Rightarrow> bool \<Rightarrow> application \<Rightarrow> entry_point \<Rightarrow>
   app_error + (string \<times> string \<times> string option) list \<times> string option" where
  "resolve_operations methods verify stop_before_load app entry =
     bindE (mapE (resolve_space methods verify) (uniques (map sg_space (ap_segments app)))) (\<lambda>ops.
     bindE (case executor_names (ep_mode entry) of
         None \<Rightarrow> Inr None
       | Some names \<Rightarrow> bindE (find_method methods names) (\<lambda>m. Inr (Some m))) (\<lambda>executor.
     bindE (if stop_before_load then find_method methods [''stop''] else Inr '''') (\<lambda>_.
       Inr (ops, executor))))"

definition admit ::
  "bool \<Rightarrow> bool \<Rightarrow> application \<Rightarrow> entry_point \<Rightarrow>
   ((string \<times> string \<times> string option) list \<times> string option \<times> string option) load" where
  "admit verify stop_before_load app entry s =
     bindIO (lift_result (resolve_operations (tg_methods s) verify stop_before_load app entry)) (\<lambda>(ops, executor).
     bindIO (check_declared_requirements (ap_requirements app)) (\<lambda>_.
     bindIO (mapper_configurator (ap_mapper app)) (\<lambda>configure.
     bindIO (optional_call (''preflight_application'' \<in> set (tg_methods s)) CallPreflight) (\<lambda>_.
       ret (ops, executor, configure))))) s"

definition transfer ::
  "bool \<Rightarrow> bool \<Rightarrow> application \<Rightarrow> entry_point \<Rightarrow>
   (string \<times> string \<times> string option) list \<times> string option \<times> string option \<Rightarrow> loaded_segment list load" where
  "transfer verify stop_before_load app entry plan s =
     (case plan of (ops, executor, configure) \<Rightarrow>
        bindIO (optional_call stop_before_load CallStop) (\<lambda>_.
        bindIO (optional_call (configure \<noteq> None) (CallConfigureMapper (case ap_mapper app of None \<Rightarrow> [] | Some m \<Rightarrow> m))) (\<lambda>_.
        bindIO (optional_call (''prepare_application'' \<in> set (tg_methods s)) CallPrepare) (\<lambda>_.
        bindIO (load_segments ops verify (ap_segments app)) (\<lambda>loaded.
        bindIO (case executor of
            None \<Rightarrow> ret ()
          | Some m \<Rightarrow> bindIO (invoke (CallExecute m (the (ep_address entry)))) (\<lambda>_. ret ())) (\<lambda>_.
          ret loaded)))))) s"

definition load_application ::
  "host_files \<Rightarrow> source \<Rightarrow> doc \<Rightarrow> path option \<Rightarrow> doc \<Rightarrow> doc \<Rightarrow> doc \<Rightarrow> bool \<Rightarrow> bool \<Rightarrow> load_report load" where
  "load_application h src fmt base_dir rom_base execute entry_address verify stop_before_load =
     bindIO (lift_result (parse_application h src fmt base_dir rom_base)) (\<lambda>app.
     bindIO (lift_result (entry_with_override (ap_entry app) execute entry_address)) (\<lambda>entry.
     bindIO (admit verify stop_before_load app entry) (\<lambda>plan.
     bindIO (transfer verify stop_before_load app entry plan) (\<lambda>loaded.
       ret \<lparr>lr_name = ap_name app, lr_format = ap_format app, lr_origin = ap_origin app,
            lr_segments = loaded, lr_bytes_loaded = sum_list (map ls_length loaded), lr_entry = entry,
            lr_mapper = ap_mapper app, lr_required = required_capabilities app entry\<rparr>))))"

subsection \<open>The log of a load\<close>

text \<open>\<open>preliminary\<close> calls only ask the backend; every other call may change the target.\<close>

definition preliminary :: "call \<Rightarrow> bool" where
  "preliminary c =
     (case c of CallSupports _ _ \<Rightarrow> True | CallCapabilities \<Rightarrow> True | CallSupportsMapper _ \<Rightarrow> True
      | CallPreflight \<Rightarrow> True | _ \<Rightarrow> False)"

definition call_method :: "call \<Rightarrow> string" where
  "call_method c =
     (case c of
        CallSupports m _ \<Rightarrow> m | CallCapabilities \<Rightarrow> ''capabilities'' | CallSupportsMapper _ \<Rightarrow> ''supports_mapper''
      | CallPreflight \<Rightarrow> ''preflight_application'' | CallStop \<Rightarrow> ''stop''
      | CallConfigureMapper _ \<Rightarrow> ''configure_mapper'' | CallPrepare \<Rightarrow> ''prepare_application''
      | CallWrite m _ _ \<Rightarrow> m | CallRead m _ _ \<Rightarrow> m | CallExecute m _ \<Rightarrow> m)"

text \<open>\<open>grows P m s\<close>: whatever its outcome, \<open>m\<close> only adds calls with \<open>P\<close> to the log of \<open>s\<close>.\<close>

definition extends_log :: "(call \<Rightarrow> bool) \<Rightarrow> target \<Rightarrow> target \<Rightarrow> bool" where
  "extends_log P s s' \<longleftrightarrow>
     (\<exists>log. tg_log s' = tg_log s @ log \<and> list_all (\<lambda>(c, r). P c) log) \<and> tg_methods s' = tg_methods s \<and>
     tg_capabilities s' = tg_capabilities s"

definition grows :: "(call \<Rightarrow> bool) \<Rightarrow> 'a load \<Rightarrow> target \<Rightarrow> bool" where
  "grows P m s \<longleftrightarrow> extends_log P s (snd (m s))"

lemma extends_log_refl [simp]: "extends_log P s s"
  by (simp add: extends_log_def)

lemma extends_log_trans: "extends_log P s1 s2 \<Longrightarrow> extends_log P s2 s3 \<Longrightarrow> extends_log P s1 s3"
  by (force simp: extends_log_def)

lemma grows_pure [simp]: "grows P (ret x) s" "grows P (raise e) s" "grows P (lift_result r) s" "grows P (guard c e) s"
  "grows P (Pair r) s"
  by (simp_all add: grows_def guard_def)

lemma grows_invoke: "P c \<Longrightarrow> grows P (invoke c) s"
  by (simp add: grows_def invoke_def extends_log_def Let_def)

lemma grows_bind:
  assumes "grows P m s"
    and "\<And>x s1. m s = (Inr x, s1) \<Longrightarrow> tg_methods s1 = tg_methods s \<Longrightarrow> grows P (k x) s1"
  shows "grows P (bindIO m k) s"
proof (cases "m s")
  case (Pair r s1)
  show ?thesis
  proof (cases r)
    case (Inl e)
    then show ?thesis using assms(1) Pair by (simp add: grows_def bindIO_def)
  next
    case (Inr x)
    have "extends_log P s s1" using assms(1) Pair by (simp add: grows_def)
    moreover from this have "extends_log P s1 (snd (k x s1))"
      using assms(2) [of x s1] Pair Inr by (simp add: grows_def extends_log_def)
    ultimately show ?thesis using Pair Inr by (simp add: grows_def bindIO_def) (rule extends_log_trans)
  qed
qed

lemma growsD: "grows P m s \<Longrightarrow> m s = (r, s') \<Longrightarrow> extends_log P s s'"
  by (simp add: grows_def)

lemma grows_mono: "grows P m s \<Longrightarrow> (\<And>c. P c \<Longrightarrow> Q c) \<Longrightarrow> grows Q m s"
  by (fastforce simp: grows_def extends_log_def list_all_iff)

lemma find_method_Inr: "find_method ms names = Inr n \<Longrightarrow> n \<in> set ms \<and> n \<in> set names"
  by (auto simp: find_method_def filter_eq_Cons_iff split: list.splits)

subsection \<open>Admission\<close>

definition asks :: "string list \<Rightarrow> call \<Rightarrow> bool" where
  "asks ms c \<longleftrightarrow> preliminary c \<and> call_method c \<in> set ms"

definition changes :: "string list \<Rightarrow> call \<Rightarrow> bool" where
  "changes ms c \<longleftrightarrow> \<not> preliminary c \<and> call_method c \<in> set ms"

lemma grows_supports: "grows (asks (tg_methods s)) (supports_capability capability) s"
proof (cases "find_method (tg_methods s) [''supports_capability'', ''supports'']")
  case (Inl e)
  have "grows (asks (tg_methods s)) (bindIO (invoke CallCapabilities) (\<lambda>r. ret (advertised capability r))) s"
    if "''capabilities'' \<in> set (tg_methods s)"
    by (intro grows_bind grows_invoke grows_pure) (simp add: asks_def preliminary_def call_method_def that)
  then show ?thesis using Inl by (simp add: grows_def supports_capability_def)
next
  case (Inr m)
  have "grows (asks (tg_methods s)) (bindIO (invoke (CallSupports m capability)) (\<lambda>r. ret (Some (reply_truthy r)))) s"
    using find_method_Inr [OF Inr] by (intro grows_bind grows_invoke grows_pure) (simp add: asks_def preliminary_def call_method_def)
  then show ?thesis using Inr by (simp add: grows_def supports_capability_def)
qed

lemma grows_requirements:
  "tg_methods s = ms \<Longrightarrow> grows (asks ms) (check_declared_requirements rs) s"
proof (induction rs arbitrary: s)
  case (Cons r rs)
  have "grows (asks ms) (supports_capability r) s" using grows_supports [of s r] Cons.prems by simp
  then show ?case unfolding check_declared_requirements.simps
    by (rule grows_bind) (use Cons in auto)
qed simp

lemma grows_mapper: "grows (asks (tg_methods s)) (mapper_configurator mapper) s"
proof -
  let ?t = "the (mapper_type mapper)"
  have "grows (asks (tg_methods s))
      (if ''supports_mapper'' \<in> set (tg_methods s)
       then bindIO (invoke (CallSupportsMapper ?t)) (\<lambda>r. ret (Some (reply_truthy r)))
       else supports_capability (''mapper:'' @ ?t)) s"
    using grows_supports [of s "''mapper:'' @ ?t"]
    by (auto intro!: grows_bind grows_invoke simp: asks_def preliminary_def call_method_def)
  then have "grows (asks (tg_methods s))
      (bindIO (if ''supports_mapper'' \<in> set (tg_methods s)
         then bindIO (invoke (CallSupportsMapper ?t)) (\<lambda>r. ret (Some (reply_truthy r)))
         else supports_capability (''mapper:'' @ ?t)) (\<lambda>supported.
           if supported \<noteq> Some True then raise AppMapperError
           else bindIO (lift_result (find_method (tg_methods s) [''configure_mapper''])) (\<lambda>m. ret (Some m)))) s"
    by (rule grows_bind) (auto intro: grows_bind)
  then show ?thesis by (simp add: grows_def mapper_configurator_def Let_def)
qed

lemma grows_admit: "grows (asks (tg_methods s)) (admit verify stop app entry) s"
proof -
  let ?ms = "tg_methods s"
  have "grows (asks ?ms) (optional_call (''preflight_application'' \<in> set ?ms) CallPreflight) s'" for s'
    by (auto simp: optional_call_def asks_def preliminary_def call_method_def intro!: grows_bind grows_invoke)
  moreover have "grows (asks ?ms) (mapper_configurator (ap_mapper app)) s'" if "tg_methods s' = ?ms" for s'
    using grows_mapper [of s'] that by simp
  ultimately have "grows (asks ?ms)
     (bindIO (lift_result (resolve_operations ?ms verify stop app entry)) (\<lambda>(ops, executor).
      bindIO (check_declared_requirements (ap_requirements app)) (\<lambda>_.
      bindIO (mapper_configurator (ap_mapper app)) (\<lambda>configure.
      bindIO (optional_call (''preflight_application'' \<in> set ?ms) CallPreflight) (\<lambda>_.
        ret (ops, executor, configure)))))) s"
    by (auto intro!: grows_bind grows_requirements split: prod.splits)
  then show ?thesis by (simp add: grows_def admit_def)
qed

subsection \<open>The plan\<close>

text \<open>\<open>target_space\<close>: the loader serves every space but \<open>ram\<close> with the methods for video memory.\<close>

definition target_space :: "string \<Rightarrow> string" where
  "target_space space = (if space = ''ram'' then ''ram'' else ''vram'')"

definition method_space :: "string \<Rightarrow> string" where
  "method_space m = (if m = ''write_ram'' \<or> m = ''poke'' \<or> m = ''read_ram'' \<or> m = ''peek'' then ''ram'' else ''vram'')"

definition serves :: "string list \<Rightarrow> bool \<Rightarrow> (string \<times> string \<times> string option) list \<Rightarrow> string \<Rightarrow> bool" where
  "serves ms verify ops space \<longleftrightarrow>
     (\<exists>w r. map_of ops space = Some (w, r) \<and> w \<in> set ms \<and> method_space w = target_space space \<and>
       (verify \<longrightarrow> (\<exists>rd. r = Some rd \<and> rd \<in> set ms \<and> method_space rd = target_space space)))"

lemma found_space:
  assumes "find_method ms (if space = ''ram'' then [x, y] else [u, v]) = Inr n"
    and "method_space x = ''ram''" "method_space y = ''ram''" "method_space u = ''vram''" "method_space v = ''vram''"
  shows "n \<in> set ms \<and> method_space n = target_space space"
  using find_method_Inr [OF assms(1)] assms(2-) by (auto simp: target_space_def split: if_splits)

lemma resolve_space_Inr:
  assumes "resolve_space ms verify space = Inr op"
  shows "fst op = space \<and> serves ms verify [op] space"
proof -
  have spaces: "method_space ''write_ram'' = ''ram''" "method_space ''poke'' = ''ram''"
    "method_space ''write_vram'' = ''vram''" "method_space ''vpoke'' = ''vram''"
    "method_space ''read_ram'' = ''ram''" "method_space ''peek'' = ''ram''"
    "method_space ''read_vram'' = ''vram''" "method_space ''vpeek'' = ''vram''"
    by (simp_all add: method_space_def)
  show ?thesis
    using assms found_space [OF _ spaces(1-4), of ms space] found_space [OF _ spaces(5-8), of ms space]
    unfolding resolve_space_def serves_def by (cases verify) (auto simp: result_simps)
qed

lemma serves_Cons: "serves ms verify [op] space \<Longrightarrow> fst op = space \<Longrightarrow> serves ms verify (op # ops) space"
  by (cases op) (simp add: serves_def)

lemma serves_skip: "fst op \<noteq> space \<Longrightarrow> serves ms verify (op # ops) space = serves ms verify ops space"
  by (cases op) (simp add: serves_def)

lemma resolve_spaces_Inr:
  "mapE (resolve_space ms verify) spaces = Inr ops \<Longrightarrow> space \<in> set spaces \<Longrightarrow> serves ms verify ops space"
proof (induction spaces arbitrary: ops)
  case (Cons x spaces)
  then obtain op ops' where o: "ops = op # ops'" "resolve_space ms verify x = Inr op"
    "mapE (resolve_space ms verify) spaces = Inr ops'" by (auto simp: result_simps)
  note x = resolve_space_Inr [OF o(2)]
  show ?case
  proof (cases "space = x")
    case True
    then show ?thesis using x o(1) serves_Cons by auto
  next
    case False
    then show ?thesis using x o Cons serves_skip by auto
  qed
qed simp

lemma resolve_operations_Inr:
  assumes "resolve_operations ms verify stop app entry = Inr (ops, executor)"
  shows "(\<forall>g \<in> set (ap_segments app). serves ms verify ops (sg_space g)) \<and>
    (executor = None \<longleftrightarrow> executor_names (ep_mode entry) = None) \<and> (\<forall>m. executor = Some m \<longrightarrow> m \<in> set ms) \<and>
    (stop \<longrightarrow> ''stop'' \<in> set ms)"
  using assms resolve_spaces_Inr [of ms verify "uniques (map sg_space (ap_segments app))" ops]
  by (auto simp: resolve_operations_def result_simps dest: find_method_Inr split: option.splits if_splits)

lemma bindIO_returns: "bindIO m k s = (Inr y, s') \<Longrightarrow> \<exists>x s1. m s = (Inr x, s1) \<and> k x s1 = (Inr y, s')"
  by (auto simp: bindIO_def split: prod.splits sum.splits)

lemma mapper_configurator_Inr:
  assumes "mapper_configurator mapper s = (Inr configure, s1)"
  shows "configure \<noteq> None \<longrightarrow> ''configure_mapper'' \<in> set (tg_methods s)"
  using assms find_method_Inr [of "tg_methods s" "[''configure_mapper'']"]
  by (auto simp: mapper_configurator_def Let_def dest!: bindIO_returns split: if_splits)

lemma admit_Inr:
  assumes "admit verify stop app entry s = (Inr (ops, executor, configure), s1)"
  shows "resolve_operations (tg_methods s) verify stop app entry = Inr (ops, executor) \<and>
    (configure \<noteq> None \<longrightarrow> ''configure_mapper'' \<in> set (tg_methods s))"
proof -
  obtain s2 s3 where *: "resolve_operations (tg_methods s) verify stop app entry = Inr (ops, executor)"
    "check_declared_requirements (ap_requirements app) s = (Inr (), s2)"
    "mapper_configurator (ap_mapper app) s2 = (Inr configure, s3)"
    using assms by (auto simp: admit_def dest!: bindIO_returns split: prod.splits)
  have "tg_methods s2 = tg_methods s"
    using growsD [OF grows_requirements [OF refl] *(2)] by (simp add: extends_log_def)
  then show ?thesis using * mapper_configurator_Inr by metis
qed

subsection \<open>Transfer\<close>

lemma grows_segment:
  assumes "serves ms verify ops (sg_space g)"
  shows "grows (changes ms) (load_segment ops verify g) s"
proof -
  obtain w r where o: "map_of ops (sg_space g) = Some (w, r)" "w \<in> set ms"
    "verify \<longrightarrow> (\<exists>rd. r = Some rd \<and> rd \<in> set ms)"
    using assms by (auto simp: serves_def)
  have "changes ms (CallWrite w a d)" "verify \<Longrightarrow> changes ms (CallRead (the r) a n)" for a d n
    using o by (auto simp: changes_def preliminary_def call_method_def)
  then show ?thesis using o(1) unfolding load_segment_def Let_def
    by (auto intro!: grows_bind grows_invoke)
qed

lemma grows_segments:
  "\<forall>g \<in> set gs. serves ms verify ops (sg_space g) \<Longrightarrow> grows (changes ms) (load_segments ops verify gs) s"
  by (induction gs arbitrary: s) (auto intro!: grows_bind grows_segment)

lemma grows_optional:
  "(present \<Longrightarrow> changes ms c) \<Longrightarrow> grows (changes ms) (optional_call present c) s"
  by (auto simp: optional_call_def intro!: grows_bind grows_invoke)

lemma grows_transfer:
  assumes "\<forall>g \<in> set (ap_segments app). serves (tg_methods s) verify ops (sg_space g)"
    and "\<forall>m. executor = Some m \<longrightarrow> m \<in> set (tg_methods s)" "stop \<longrightarrow> ''stop'' \<in> set (tg_methods s)"
    and "configure \<noteq> None \<longrightarrow> ''configure_mapper'' \<in> set (tg_methods s)"
  shows "grows (changes (tg_methods s)) (transfer verify stop app entry (ops, executor, configure)) s"
proof -
  let ?ms = "tg_methods s"
  have "changes ?ms CallStop" if stop using that assms by (simp add: changes_def preliminary_def call_method_def)
  moreover have "changes ?ms (CallConfigureMapper m)" if "configure \<noteq> None" for m
    using that assms by (simp add: changes_def preliminary_def call_method_def)
  moreover have "changes ?ms CallPrepare" if "''prepare_application'' \<in> set ?ms"
    using that by (simp add: changes_def preliminary_def call_method_def)
  moreover have "changes ?ms (CallExecute m a)" if "executor = Some m" for m a
    using that assms by (simp add: changes_def preliminary_def call_method_def)
  ultimately have "grows (changes ?ms)
       (bindIO (optional_call stop CallStop) (\<lambda>_.
        bindIO (optional_call (configure \<noteq> None) (CallConfigureMapper (case ap_mapper app of None \<Rightarrow> [] | Some m \<Rightarrow> m))) (\<lambda>_.
        bindIO (optional_call (''prepare_application'' \<in> set ?ms) CallPrepare) (\<lambda>_.
        bindIO (load_segments ops verify (ap_segments app)) (\<lambda>loaded.
        bindIO (case executor of
            None \<Rightarrow> ret ()
          | Some m \<Rightarrow> bindIO (invoke (CallExecute m (the (ep_address entry)))) (\<lambda>_. ret ())) (\<lambda>_.
          ret loaded)))))) s"
    using assms(1) by (auto intro!: grows_bind grows_optional grows_segments grows_invoke split: option.splits)
  then show ?thesis by (simp add: grows_def transfer_def)
qed

subsection \<open>What a successful load has done\<close>

lemma invoke_Inr: "invoke c s = (Inr r, s') \<Longrightarrow> tg_log s' = tg_log s @ [(c, r)]"
  by (auto simp: invoke_def Let_def split: if_splits)

lemma guard_returns: "guard c e s = (Inr x, s') \<longleftrightarrow> c \<and> s' = s"
  by (auto simp: guard_def)

definition segment_logged ::
  "(string \<times> string \<times> string option) list \<Rightarrow> bool \<Rightarrow> segment \<Rightarrow> (call \<times> reply) list \<Rightarrow> bool" where
  "segment_logged ops verify g log \<longleftrightarrow>
     (\<exists>w reader r1 r2. map_of ops (sg_space g) = Some (w, reader) \<and>
       log = (CallWrite w (sg_address g) (sg_data g), r1) #
         (if verify then [(CallRead (the reader) (sg_address g) (int (length (sg_data g))), r2)] else []) \<and>
       (verify \<longrightarrow> reply_bytes r2 = Inr (sg_data g)))"

lemma load_segment_Inr:
  assumes "load_segment ops verify g s = (Inr l, s')" "serves ms verify ops (sg_space g)"
  shows "(\<exists>log. tg_log s' = tg_log s @ log \<and> segment_logged ops verify g log) \<and>
    l = \<lparr>ls_space = sg_space g, ls_address = sg_address g, ls_length = int (length (sg_data g)),
         ls_sha256 = segment_sha256 g, ls_verified = verify\<rparr>"
proof -
  obtain w reader where o: "map_of ops (sg_space g) = Some (w, reader)"
    using assms(2) by (auto simp: serves_def)
  show ?thesis
    using assms(1) o unfolding load_segment_def segment_logged_def
    by (cases verify) (auto simp: Let_def guard_returns dest!: bindIO_returns invoke_Inr)
qed

lemma load_segments_Inr:
  "load_segments ops verify gs s = (Inr ls, s') \<Longrightarrow> \<forall>g \<in> set gs. serves ms verify ops (sg_space g) \<Longrightarrow>
     \<exists>logs. tg_log s' = tg_log s @ concat logs \<and> list_all2 (segment_logged ops verify) gs logs \<and>
       map ls_length ls = map (\<lambda>g. int (length (sg_data g))) gs"
proof (induction gs arbitrary: s ls)
  case (Cons g gs)
  obtain l s1 ls' where *: "load_segment ops verify g s = (Inr l, s1)" "load_segments ops verify gs s1 = (Inr ls', s')"
    "ls = l # ls'"
    using Cons.prems(1) by (auto dest!: bindIO_returns)
  obtain log where log: "tg_log s1 = tg_log s @ log" "segment_logged ops verify g log"
    "ls_length l = int (length (sg_data g))"
    using load_segment_Inr [OF *(1)] Cons.prems(2) by force
  obtain logs where "tg_log s' = tg_log s1 @ concat logs" "list_all2 (segment_logged ops verify) gs logs"
    "map ls_length ls' = map (\<lambda>g. int (length (sg_data g))) gs"
    using Cons.IH [OF *(2)] Cons.prems(2) by auto
  then show ?case using log *(3) by (intro exI [of _ "log # logs"]) simp
qed auto

text \<open>\<open>written log M\<close>: the memory after the writes of a log, read byte by byte.\<close>

type_synonym memory = "string \<Rightarrow> int \<Rightarrow> byte option"

definition store :: "string \<Rightarrow> int \<Rightarrow> bytes \<Rightarrow> memory \<Rightarrow> memory" where
  "store space address data M =
     (\<lambda>sp a. if sp = space \<and> address \<le> a \<and> a < address + int (length data)
             then Some (data ! nat (a - address)) else M sp a)"

fun write_effect :: "call \<times> reply \<Rightarrow> memory \<Rightarrow> memory" where
  "write_effect (CallWrite m address data, _) M = store (method_space m) address data M"
| "write_effect _ M = M"

definition written :: "(call \<times> reply) list \<Rightarrow> memory \<Rightarrow> memory" where
  "written log = fold write_effect log"

definition memory_image :: "application \<Rightarrow> memory \<Rightarrow> memory" where
  "memory_image app = fold (\<lambda>g. store (target_space (sg_space g)) (sg_address g) (sg_data g)) (ap_segments app)"

fun executes :: "call \<Rightarrow> bool" where
  "executes (CallExecute m a) = True"
| "executes _ = False"

lemma segment_written:
  assumes "segment_logged ops verify g log" "serves ms verify ops (sg_space g)"
  shows "written log M = store (target_space (sg_space g)) (sg_address g) (sg_data g) M \<and>
    list_all (\<lambda>(c, r). \<not> executes c) log"
  using assms by (auto simp: segment_logged_def serves_def written_def)

lemma segments_written:
  "list_all2 (segment_logged ops verify) gs logs \<Longrightarrow> \<forall>g \<in> set gs. serves ms verify ops (sg_space g) \<Longrightarrow>
     written (concat logs) M = fold (\<lambda>g. store (target_space (sg_space g)) (sg_address g) (sg_data g)) gs M \<and>
     list_all (\<lambda>(c, r). \<not> executes c) (concat logs)"
proof (induction arbitrary: M rule: list_all2_induct)
  case (Cons g gs log logs)
  then show ?case using segment_written [OF Cons.hyps(1)] by (auto simp: written_def)
qed (simp add: written_def)

definition quiet :: "(call \<times> reply) list \<Rightarrow> bool" where
  "quiet log \<longleftrightarrow> (\<forall>M. written log M = M) \<and> list_all (\<lambda>(c, r). \<not> executes c) log"

lemma quiet_append: "quiet a \<Longrightarrow> quiet b \<Longrightarrow> quiet (a @ b)"
  by (simp add: quiet_def written_def)

lemma optional_call_Inr:
  assumes "optional_call present c s = (Inr x, s')" "\<not> executes c" "\<And>r M. write_effect (c, r) M = M"
  shows "\<exists>log. tg_log s' = tg_log s @ log \<and> quiet log \<and> tg_methods s' = tg_methods s"
  using assms
  by (cases present) (auto simp: optional_call_def quiet_def written_def invoke_def Let_def dest!: bindIO_returns split: if_splits)

lemma transfer_Inr:
  assumes "transfer verify stop app entry (ops, executor, configure) s = (Inr ls, s')"
    and "\<forall>g \<in> set (ap_segments app). serves ms verify ops (sg_space g)"
  shows "\<exists>pre logs post. tg_log s' = tg_log s @ pre @ concat logs @ post \<and> quiet pre \<and>
    list_all2 (segment_logged ops verify) (ap_segments app) logs \<and>
    map ls_length ls = map (\<lambda>g. int (length (sg_data g))) (ap_segments app) \<and>
    (case executor of None \<Rightarrow> post = [] | Some m \<Rightarrow> \<exists>r. post = [(CallExecute m (the (ep_address entry)), r)])"
proof -
  obtain s1 s2 s3 s4 s5 where *: "optional_call stop CallStop s = (Inr (), s1)"
    "optional_call (configure \<noteq> None) (CallConfigureMapper (case ap_mapper app of None \<Rightarrow> [] | Some m \<Rightarrow> m)) s1 = (Inr (), s2)"
    "optional_call (''prepare_application'' \<in> set (tg_methods s)) CallPrepare s2 = (Inr (), s3)"
    "load_segments ops verify (ap_segments app) s3 = (Inr ls, s4)"
    "(case executor of None \<Rightarrow> ret ()
      | Some m \<Rightarrow> bindIO (invoke (CallExecute m (the (ep_address entry)))) (\<lambda>_. ret ())) s4 = (Inr (), s5)" "s' = s5"
    using assms(1) by (auto simp: transfer_def simp del: not_None_eq dest!: bindIO_returns split del: option.splits)
  obtain p1 where p1: "tg_log s1 = tg_log s @ p1" "quiet p1" using optional_call_Inr [OF *(1)] by auto
  obtain p2 where p2: "tg_log s2 = tg_log s1 @ p2" "quiet p2" using optional_call_Inr [OF *(2)] by auto
  obtain p3 where p3: "tg_log s3 = tg_log s2 @ p3" "quiet p3" using optional_call_Inr [OF *(3)] by auto
  obtain logs where logs: "tg_log s4 = tg_log s3 @ concat logs"
    "list_all2 (segment_logged ops verify) (ap_segments app) logs"
    "map ls_length ls = map (\<lambda>g. int (length (sg_data g))) (ap_segments app)"
    using load_segments_Inr [OF *(4) assms(2)] by blast
  obtain post where post: "tg_log s5 = tg_log s4 @ post"
    "case executor of None \<Rightarrow> post = [] | Some m \<Rightarrow> \<exists>r. post = [(CallExecute m (the (ep_address entry)), r)]"
    using *(5) by (cases executor) (auto dest!: bindIO_returns invoke_Inr)
  show ?thesis
    using p1 p2 p3 logs post *(6) quiet_append
    by (intro exI [of _ "p1 @ p2 @ p3"] exI [of _ logs] exI [of _ post]) simp
qed

lemma preliminary_quiet: "list_all (\<lambda>(c, r). preliminary c) log \<Longrightarrow> quiet log"
proof (induction log)
  case (Cons e log)
  obtain c r where e: "e = (c, r)" by (cases e)
  have "quiet [e]" using Cons.prems e by (cases c) (simp_all add: quiet_def written_def preliminary_def)
  then show ?case using quiet_append [of "[e]" log] Cons by simp
qed (simp add: quiet_def written_def)

lemma load_application_Inr:
  assumes "load_application h src fmt base rom execute address verify stop s = (Inr report, s')"
  shows "\<exists>app entry obs pre logs post ops executor.
    parse_application h src fmt base rom = Inr app \<and> entry_with_override (ap_entry app) execute address = Inr entry \<and>
    resolve_operations (tg_methods s) verify stop app entry = Inr (ops, executor) \<and>
    tg_log s' = tg_log s @ obs @ pre @ concat logs @ post \<and> list_all (\<lambda>(c, r). preliminary c) obs \<and> quiet pre \<and>
    list_all2 (segment_logged ops verify) (ap_segments app) logs \<and>
    (case executor of None \<Rightarrow> post = [] | Some m \<Rightarrow> \<exists>r. post = [(CallExecute m (the (ep_address entry)), r)]) \<and>
    lr_bytes_loaded report = sum_list (map (\<lambda>g. int (length (sg_data g))) (ap_segments app)) \<and> lr_entry report = entry"
proof -
  obtain app entry ops executor configure s1 ls where *: "parse_application h src fmt base rom = Inr app"
    "entry_with_override (ap_entry app) execute address = Inr entry"
    "admit verify stop app entry s = (Inr (ops, executor, configure), s1)"
    "transfer verify stop app entry (ops, executor, configure) s1 = (Inr ls, s')"
    "lr_bytes_loaded report = sum_list (map ls_length ls)" "lr_entry report = entry"
    using assms by (auto simp: load_application_def dest!: bindIO_returns)
  note plan = admit_Inr [OF *(3), THEN conjunct1]
  note serves = resolve_operations_Inr [OF plan, THEN conjunct1]
  obtain obs where obs: "tg_log s1 = tg_log s @ obs" "list_all (\<lambda>(c, r). preliminary c) obs"
    using growsD [OF grows_admit *(3)] by (fastforce simp: extends_log_def asks_def list_all_iff)
  show ?thesis using transfer_Inr [OF *(4) serves] obs plan *(1,2,5,6) by fastforce
qed

lemma load_log_split:
  assumes "load_application h src fmt base rom execute address verify stop s = (r, s')"
  shows "\<exists>obs mut. tg_log s' = tg_log s @ obs @ mut \<and> list_all (\<lambda>(c, r). asks (tg_methods s) c) obs \<and>
    list_all (\<lambda>(c, r). changes (tg_methods s) c) mut \<and>
    (mut = [] \<or> (\<exists>app entry plan s1. parse_application h src fmt base rom = Inr app \<and>
        entry_with_override (ap_entry app) execute address = Inr entry \<and>
        admit verify stop app entry s = (Inr plan, s1) \<and> tg_log s1 = tg_log s @ obs))"
proof -
  consider (early) "s' = s" | (admitting) app entry where
      "parse_application h src fmt base rom = Inr app" "entry_with_override (ap_entry app) execute address = Inr entry"
    using assms by (cases "parse_application h src fmt base rom"; cases "entry_with_override
      (ap_entry (projr (parse_application h src fmt base rom))) execute address") (auto simp: load_application_def bindIO_def)
  then show ?thesis
  proof cases
    case early
    then show ?thesis by auto
  next
    case (admitting app entry)
    obtain pr s1 where pr: "admit verify stop app entry s = (pr, s1)" by fastforce
    obtain obs where obs: "tg_log s1 = tg_log s @ obs" "list_all (\<lambda>(c, r). asks (tg_methods s) c) obs"
      and ms: "tg_methods s1 = tg_methods s"
      using growsD [OF grows_admit pr] by (auto simp: extends_log_def)
    show ?thesis
    proof (cases pr)
      case (Inl e)
      then have "s' = s1" using assms admitting pr by (simp add: load_application_def bindIO_def)
      then show ?thesis using obs by (intro exI [of _ obs] exI [of _ "[]"]) simp
    next
      case (Inr plan)
      obtain ops executor configure where plan: "plan = (ops, executor, configure)" by (cases plan)
      note a = admit_Inr [of verify stop app entry s ops executor configure s1]
      have a1: "resolve_operations (tg_methods s) verify stop app entry = Inr (ops, executor)"
        "configure \<noteq> None \<longrightarrow> ''configure_mapper'' \<in> set (tg_methods s)"
        using a pr Inr plan by auto
      have gr: "grows (changes (tg_methods s1)) (transfer verify stop app entry plan) s1"
        using resolve_operations_Inr [OF a1(1)] a1(2) unfolding plan ms [symmetric] by (intro grows_transfer) auto
      obtain tr s2 where tr: "transfer verify stop app entry plan s1 = (tr, s2)" by fastforce
      have s2: "s' = s2"
        using assms admitting pr Inr tr by (auto simp: load_application_def bindIO_def split: sum.splits)
      obtain mut where "tg_log s' = tg_log s1 @ mut" "list_all (\<lambda>(c, r). changes (tg_methods s) c) mut"
        using growsD [OF gr tr] unfolding ms s2 extends_log_def by blast
      then show ?thesis using obs admitting pr Inr
        by (intro exI [of _ obs] exI [of _ mut] conjI disjI2 exI [of _ app] exI [of _ entry] exI [of _ plan] exI [of _ s1]) simp_all
    qed
  qed
qed


text \<open>
  C34: A load implements its image. When \<open>load_application\<close> returns, the writes of its calls turn any
  memory into the image of the application, segment after segment, and only then the entry point is
  executed, once, or not at all when the effective mode is none; the count it reports is that of the
  image.
\<close>

theorem load_writes_image:
  assumes "load_application h src fmt base rom execute address verify stop s = (Inr report, s')"
  shows "\<exists>app log post. parse_application h src fmt base rom = Inr app \<and> tg_log s' = tg_log s @ log @ post \<and>
    (\<forall>M. written log M = memory_image app M) \<and> list_all (\<lambda>(c, r). \<not> executes c) log \<and>
    (if executor_names (ep_mode (lr_entry report)) = None then post = []
     else \<exists>m r. post = [(CallExecute m (the (ep_address (lr_entry report))), r)]) \<and>
    lr_bytes_loaded report = sum_list (map (\<lambda>g. int (length (sg_data g))) (ap_segments app))"
proof -
  obtain app entry obs pre logs post ops executor where *: "parse_application h src fmt base rom = Inr app"
    "resolve_operations (tg_methods s) verify stop app entry = Inr (ops, executor)"
    "tg_log s' = tg_log s @ obs @ pre @ concat logs @ post" "list_all (\<lambda>(c, r). preliminary c) obs" "quiet pre"
    "list_all2 (segment_logged ops verify) (ap_segments app) logs"
    "case executor of None \<Rightarrow> post = [] | Some m \<Rightarrow> \<exists>r. post = [(CallExecute m (the (ep_address entry)), r)]"
    "lr_bytes_loaded report = sum_list (map (\<lambda>g. int (length (sg_data g))) (ap_segments app))" "lr_entry report = entry"
    using load_application_Inr [OF assms] by blast
  note op = resolve_operations_Inr [OF *(2)]
  note quiet = quiet_append [OF preliminary_quiet [OF *(4)] *(5)]
  have "written (obs @ pre @ concat logs) M = memory_image app M" for M
    using quiet segments_written [OF *(6) op [THEN conjunct1]] by (simp add: quiet_def written_def memory_image_def)
  moreover have "list_all (\<lambda>(c, r). \<not> executes c) (obs @ pre @ concat logs)"
    using quiet segments_written [OF *(6) op [THEN conjunct1]] by (simp add: quiet_def)
  moreover have "if executor_names (ep_mode entry) = None then post = []
      else \<exists>m r. post = [(CallExecute m (the (ep_address entry)), r)]"
    using *(7) op by (auto split: option.splits)
  ultimately show ?thesis
    using *(1,3,8,9) by (intro exI [of _ app] exI [of _ "obs @ pre @ concat logs"] exI [of _ post]) simp
qed

text \<open>
  Verification is complete. When a load with verification returns, every segment was read back in
  full through a method of its own memory space, and the reply was exactly the bytes of the segment.
\<close>

theorem load_verified:
  assumes "load_application h src fmt base rom execute address True stop s = (Inr report, s')"
    and "parse_application h src fmt base rom = Inr app" and "g \<in> set (ap_segments app)"
  shows "\<exists>m r. (CallRead m (sg_address g) (int (length (sg_data g))), r) \<in> set (tg_log s') \<and>
    method_space m = target_space (sg_space g) \<and> m \<in> set (tg_methods s) \<and> reply_bytes r = Inr (sg_data g)"
proof -
  obtain app' entry obs pre logs post ops executor where *: "parse_application h src fmt base rom = Inr app'"
    "resolve_operations (tg_methods s) True stop app' entry = Inr (ops, executor)"
    "tg_log s' = tg_log s @ obs @ pre @ concat logs @ post"
    "list_all2 (segment_logged ops True) (ap_segments app') logs"
    using load_application_Inr [OF assms(1)] by blast
  have app: "app' = app" using *(1) assms(2) by simp
  obtain log where log: "log \<in> set logs" "segment_logged ops True g log"
    using *(4) assms(3) unfolding app list_all2_conv_all_nth in_set_conv_nth by metis
  obtain w r where w: "map_of ops (sg_space g) = Some (w, r)"
    "\<exists>rd. r = Some rd \<and> rd \<in> set (tg_methods s) \<and> method_space rd = target_space (sg_space g)"
    using resolve_operations_Inr [OF *(2)] assms(3) unfolding app serves_def by blast
  then obtain rd r2 where "(CallRead rd (sg_address g) (int (length (sg_data g))), r2) \<in> set log"
    "reply_bytes r2 = Inr (sg_data g)" "rd \<in> set (tg_methods s)" "method_space rd = target_space (sg_space g)"
    using log(2) by (auto simp: segment_logged_def)
  then show ?thesis using log(1) *(3) by auto
qed

subsection \<open>Completion\<close>

lemma silent_segment:
  assumes "tg_replies s = []" "serves ms False ops (sg_space g)"
  shows "\<exists>l s'. load_segment ops False g s = (Inr l, s') \<and> tg_replies s' = []"
  using assms by (auto simp: serves_def load_segment_def bindIO_def invoke_def guard_def short_count_def Let_def)

lemma silent_segments:
  "tg_replies s = [] \<Longrightarrow> \<forall>g \<in> set gs. serves ms False ops (sg_space g) \<Longrightarrow>
     \<exists>ls s'. load_segments ops False gs s = (Inr ls, s') \<and> tg_replies s' = []"
proof (induction gs arbitrary: s)
  case (Cons g gs)
  obtain l s1 where 1: "load_segment ops False g s = (Inr l, s1)" "tg_replies s1 = []"
    using silent_segment [OF Cons.prems(1)] Cons.prems(2) by force
  obtain ls s2 where "load_segments ops False gs s1 = (Inr ls, s2)" "tg_replies s2 = []"
    using Cons.IH [OF 1(2)] Cons.prems(2) by auto
  then show ?case using 1 by (simp add: bindIO_def)
qed simp

lemma silent_call: "tg_replies s = [] \<Longrightarrow> \<exists>s'. optional_call p c s = (Inr (), s') \<and> tg_replies s' = []"
  by (simp add: optional_call_def bindIO_def invoke_def Let_def)


subsection \<open>A concrete load\<close>

definition sample_target :: "reply list \<Rightarrow> target" where
  "sample_target replies =
     \<lparr>tg_methods = [''write_ram'', ''read_ram'', ''vpoke'', ''vpeek'', ''execute_run'', ''stop''],
      tg_capabilities = DNull, tg_replies = replies, tg_log = []\<rparr>"

definition good_replies :: "reply list" where
  "good_replies = [Returns DNull, Returns (DInt 3), ReturnsBytes [0x3E, 1, 0xC9], Returns DNull, ReturnsBytes [7]]"

lemmas load_simps = load_application_def parse_application_def sample_app_def entry_with_override_def no_entry_def
  validate_range_def RAM_SIZE_def admit_def resolve_operations_def uniques_def resolve_space_def find_method_def
  sample_target_def executor_names_def mapper_configurator_def needs_mapper_def mapper_type_def optional_call_def
  transfer_def load_segment_def invoke_def guard_def short_count_def reply_bytes_def bindIO_def plain_segment_def Let_def

lemma good_load:
  "\<exists>report s'. load_application sample_files (SApplication sample_app) DNull None DNull DNull DNull True True
     (sample_target good_replies) = (Inr report, s')"
  by (simp add: load_simps good_replies_def)


theorem load_writes_image_witness:
  "\<exists>report s' log post. load_application sample_files (SApplication sample_app) DNull None DNull DNull DNull True True
     (sample_target good_replies) = (Inr report, s') \<and> tg_log s' = log @ post \<and> (\<forall>M. written log M = memory_image sample_app M)"
proof -
  obtain r s' where l: "load_application sample_files (SApplication sample_app) DNull None DNull DNull DNull True True
     (sample_target good_replies) = (Inr r, s')" using good_load by blast
  obtain app log post where "parse_application sample_files (SApplication sample_app) DNull None DNull = Inr app"
    "tg_log s' = tg_log (sample_target good_replies) @ log @ post" "\<forall>M. written log M = memory_image app M"
    using load_writes_image [OF l] by blast
  then show ?thesis using l by (auto simp: parse_application_def sample_target_def)
qed

lemma load_verified_example:
  "\<exists>report s' m r. load_application sample_files (SApplication sample_app) DNull None DNull DNull DNull True True
     (sample_target good_replies) = (Inr report, s') \<and> (CallRead m 0x8000 3, r) \<in> set (tg_log s') \<and>
     method_space m = ''ram'' \<and> reply_bytes r = Inr [0x3E, 1, 0xC9]"
proof -
  obtain r s' where l: "load_application sample_files (SApplication sample_app) DNull None DNull DNull DNull True True
     (sample_target good_replies) = (Inr r, s')" using good_load by blast
  have "parse_application sample_files (SApplication sample_app) DNull None DNull = Inr sample_app"
    "plain_segment 0x8000 [0x3E, 1, 0xC9] \<in> set (ap_segments sample_app)"
    by (simp_all add: parse_application_def sample_app_def)
  from load_verified [OF l this] obtain m v where "(CallRead m 0x8000 3, v) \<in> set (tg_log s')"
    "method_space m = ''ram''" "reply_bytes v = Inr [0x3E, 1, 0xC9]"
    by (auto simp: plain_segment_def target_space_def)
  then show ?thesis using l by blast
qed


end
