(* ===== verification/CPU_Snapshot.thy ===== *)
theory CPU_Snapshot
  imports Python_Text Effects
begin

text \<open>
  \<open>server/msx_cpu.py\<close>: the CPU snapshots. \<open>parse_agent_cpu_context\<close> decodes the register frame the
  resident agent sends; \<open>capture_openmsx_cpu\<close> stops an emulated machine, reads its state with Tcl
  commands and lets it run again. The connection \<open>msx\<close> is a script of replies and a log of the
  commands sent, so that a statement over every script covers every behaviour of the emulator.
  The fixed texts of a snapshot (\<open>limitations\<close>, \<open>capture\<close>) are not kept.
\<close>

subsection \<open>Formats\<close>

datatype command_failure = ValueFailure | OtherFailure | Interrupted

text \<open>
  \<open>CommandFailed\<close> carries what \<open>msx.cmd\<close> raised: a \<open>TypeError\<close>, \<open>ValueError\<close> or \<open>RuntimeError\<close>,
  another \<open>Exception\<close>, or an exception outside that hierarchy.
\<close>

datatype cpu_error = SnapshotError | CpuTypeError | CpuValueError | CommandFailed command_failure

definition CPU_SNAPSHOT_SCHEMA :: string where "CPU_SNAPSHOT_SCHEMA = ''msx-ai-cpu-snapshot-v1''"
definition CPU_CONTEXT_VERSION :: byte where "CPU_CONTEXT_VERSION = 1"
definition CPU_CONTEXT_KIND_TIMI :: byte where "CPU_CONTEXT_KIND_TIMI = 1"
definition CPU_CONTEXT_SIZE :: nat where "CPU_CONTEXT_SIZE = 40"

definition CPU_CONTEXT_REQUIRED_FLAGS :: byte where
  "CPU_CONTEXT_REQUIRED_FLAGS = 0x01 OR 0x02 OR 0x04 OR 0x08 OR 0x10 OR 0x20"

definition upper_hex :: "nat \<Rightarrow> char" where
  "upper_hex n = ''0123456789ABCDEF'' ! (n mod 16)"

definition fmt8 :: "int \<Rightarrow> string" where
  "fmt8 v = ''0x'' @ map (\<lambda>i. upper_hex (nat (v div 16 ^ i))) [1, 0]"

definition fmt16 :: "int \<Rightarrow> string" where
  "fmt16 v = ''0x'' @ map (\<lambda>i. upper_hex (nat (v div 16 ^ i))) [3, 2, 1, 0]"

fun decimal_text :: "nat \<Rightarrow> string" where
  "decimal_text n = (if n < 10 then [char_of (48 + n)] else decimal_text (n div 10) @ [char_of (48 + n mod 10)])"

declare decimal_text.simps [simp del]

definition named :: "(int \<times> string) list \<Rightarrow> int \<Rightarrow> string" where
  "named table v = (case map_of table v of Some n \<Rightarrow> n | None \<Rightarrow> ''unknown-'' @ decimal_text (nat v))"

definition STATE_NAMES :: "(int \<times> string) list" where
  "STATE_NAMES = [(0, ''monitor''), (1, ''running''), (2, ''paused'')]"

definition RUNTIME_NAMES :: "(int \<times> string) list" where
  "RUNTIME_NAMES = [(0, ''resident''), (1, ''foreground-monitor'')]"

definition TRANSPORT_NAMES :: "(int \<times> string) list" where
  "TRANSPORT_NAMES = [(0, ''uart-8251''), (1, ''uart-16c550''), (2, ''tcpip-unapi'')]"

definition REGISTER_WORDS :: "string list" where
  "REGISTER_WORDS = [''af'', ''bc'', ''de'', ''hl'', ''af_alt'', ''bc_alt'', ''de_alt'', ''hl_alt'',
     ''ix'', ''iy'', ''pc'', ''sp'']"

definition REGISTER_BYTES :: "string list" where "REGISTER_BYTES = [''i'', ''r'', ''im'', ''iff'']"

definition decode_z80_flags :: "doc \<Rightarrow> cpu_error + (string \<times> bool) list" where
  "decode_z80_flags v =
     (case v of
        DInt value \<Rightarrow>
          if \<not> (0 \<le> value \<and> value \<le> 0xFF) then Inl CpuValueError
          else Inr [(''s'', value AND 0x80 \<noteq> 0), (''z'', value AND 0x40 \<noteq> 0), (''y'', value AND 0x20 \<noteq> 0),
            (''h'', value AND 0x10 \<noteq> 0), (''x'', value AND 0x08 \<noteq> 0), (''pv'', value AND 0x04 \<noteq> 0),
            (''n'', value AND 0x02 \<noteq> 0), (''c'', value AND 0x01 \<noteq> 0)]
      | _ \<Rightarrow> Inl CpuTypeError)"

definition format_registers :: "(string \<times> int) list \<Rightarrow> (string \<times> string option) list" where
  "format_registers vals =
     map (\<lambda>n. (n, map_option fmt16 (map_of vals n))) REGISTER_WORDS @
     map (\<lambda>n. (n, map_option fmt8 (map_of vals n))) REGISTER_BYTES"

record cpu_snapshot =
  sn_schema :: string
  sn_backend :: string
  sn_exact :: bool
  sn_registers :: "(string \<times> string option) list"
  sn_flags :: "(string \<times> bool) list"

subsection \<open>The context of the resident agent\<close>

record agent_snapshot = cpu_snapshot +
  ag_version :: int
  ag_hook :: string
  ag_state_name :: string
  ag_state :: int
  ag_runtime_name :: string
  ag_runtime :: int
  ag_transport_name :: string
  ag_transport :: int
  ag_service_sp :: string
  ag_callback_return :: string
  ag_service_i :: string
  ag_service_r :: string
  ag_iff2 :: "bool option"
  ag_iff2_valid :: bool
  ag_jiffy :: int
  ag_jiffy_hex :: string
  ag_screen_mode :: int
  ag_control_level :: int
  ag_service_flags :: string
  ag_validity :: string

definition word_at :: "bytes \<Rightarrow> nat \<Rightarrow> int" where
  "word_at payload offset = le_value (slice offset 2 payload)"

definition context_registers :: "bytes \<Rightarrow> (string \<times> int) list" where
  "context_registers payload =
     [(''hl_alt'', word_at payload 8), (''de_alt'', word_at payload 10), (''bc_alt'', word_at payload 12),
      (''af_alt'', word_at payload 14), (''iy'', word_at payload 16), (''ix'', word_at payload 18),
      (''hl'', word_at payload 20), (''de'', word_at payload 22), (''bc'', word_at payload 24),
      (''af'', word_at payload 26)]"

text \<open>The dictionary the function returns for a payload that passed the checks.\<close>

definition context_snapshot :: "bytes \<Rightarrow> (string \<times> bool) list \<Rightarrow> agent_snapshot" where
  "context_snapshot payload flags =
     (let state = uint (payload ! 4); runtime = uint (payload ! 6); transport = uint (payload ! 7);
          jiffy = word_at payload 34; service_flags = payload ! 38; iff2_valid = service_flags AND 0x01 \<noteq> 0
      in \<lparr>sn_schema = CPU_SNAPSHOT_SCHEMA, sn_backend = ''real'', sn_exact = False,
          sn_registers = format_registers (context_registers payload), sn_flags = flags,
          ag_version = uint (payload ! 0), ag_hook = ''H.TIMI'',
          ag_state_name = named STATE_NAMES state, ag_state = state,
          ag_runtime_name = named RUNTIME_NAMES runtime, ag_runtime = runtime,
          ag_transport_name = named TRANSPORT_NAMES transport, ag_transport = transport,
          ag_service_sp = fmt16 (word_at payload 28), ag_callback_return = fmt16 (word_at payload 30),
          ag_service_i = fmt8 (uint (payload ! 32)), ag_service_r = fmt8 (uint (payload ! 33)),
          ag_iff2 = (if iff2_valid then Some (service_flags AND 0x02 \<noteq> 0) else None),
          ag_iff2_valid = iff2_valid, ag_jiffy = jiffy, ag_jiffy_hex = fmt16 jiffy,
          ag_screen_mode = uint (payload ! 36), ag_control_level = uint (payload ! 37),
          ag_service_flags = fmt8 (uint service_flags), ag_validity = fmt8 (uint (payload ! 3))\<rparr>)"

definition parse_agent_cpu_context :: "bytes \<Rightarrow> cpu_error + agent_snapshot" where
  "parse_agent_cpu_context payload =
     (if length payload \<noteq> CPU_CONTEXT_SIZE then Inl SnapshotError
      else
        let validity = payload ! 3; service_flags = payload ! 38
        in if payload ! 0 \<noteq> CPU_CONTEXT_VERSION then Inl SnapshotError
        else if payload ! 1 \<noteq> CPU_CONTEXT_KIND_TIMI then Inl SnapshotError
        else if unat (payload ! 2) \<noteq> length payload then Inl SnapshotError
        else if validity AND CPU_CONTEXT_REQUIRED_FLAGS \<noteq> CPU_CONTEXT_REQUIRED_FLAGS then Inl SnapshotError
        else if validity AND NOT CPU_CONTEXT_REQUIRED_FLAGS \<noteq> 0 then Inl SnapshotError
        else if payload ! 39 \<noteq> 0 then Inl SnapshotError
        else if uint (payload ! 4) \<notin> {1, 2} then Inl SnapshotError
        else if uint (payload ! 5) \<noteq> 1 then Inl SnapshotError
        else if map_of RUNTIME_NAMES (uint (payload ! 6)) = None then Inl SnapshotError
        else if service_flags AND NOT 0x03 \<noteq> 0 then Inl SnapshotError
        else if service_flags AND 0x02 \<noteq> 0 \<and> \<not> service_flags AND 0x01 \<noteq> 0 then Inl SnapshotError
        else
          bindE (decode_z80_flags (DInt (word_at payload 26 AND 0xFF))) (\<lambda>flags.
            Inr (context_snapshot payload flags)))"

subsection \<open>Snapshots of openMSX\<close>

text \<open>
  The Tcl commands, by what they ask. \<open>CmdMemory a n\<close> reads \<open>n\<close> bytes from \<open>a\<close> on, modulo 65536.
  The emulator is a script of replies; \<open>op_log\<close> has the commands with their replies.
\<close>

datatype tcl_command =
    CmdBreaked | CmdBreak | CmdCont | CmdRegisters | CmdMemory int int | CmdDisasm int | CmdActiveCpu | CmdTime

datatype tcl_reply = Text string | Fails command_failure

record emulator =
  op_replies :: "tcl_reply list"
  op_log :: "(tcl_command \<times> tcl_reply) list"

type_synonym 'a emu = "(emulator, cpu_error, 'a) comp"

definition tcl_cmd :: "tcl_command \<Rightarrow> string emu" where
  "tcl_cmd c s =
     (let r = (case op_replies s of [] \<Rightarrow> Text [] | r # _ \<Rightarrow> r)
      in (case r of Text t \<Rightarrow> Inr t | Fails f \<Rightarrow> Inl (CommandFailed f),
          s\<lparr>op_replies := tl (op_replies s), op_log := op_log s @ [(c, r)]\<rparr>))"

definition bounded_count :: "doc \<Rightarrow> int \<Rightarrow> cpu_error + int" where
  "bounded_count v maximum =
     (case v of
        DInt value \<Rightarrow> if \<not> (0 \<le> value \<and> value \<le> maximum) then Inl CpuValueError else Inr value
      | _ \<Rightarrow> Inl CpuTypeError)"

definition tcl_bool :: "string \<Rightarrow> cpu_error + bool" where
  "tcl_bool v =
     (let normalized = lower (strip v)
      in if normalized \<in> {''1'', ''true'', ''on'', ''yes''} then Inr True
         else if normalized \<in> {''0'', ''false'', ''off'', ''no''} then Inr False
         else Inl SnapshotError)"

text \<open>\<open>str.split()\<close>\<close>

fun split_words :: "string \<Rightarrow> string list" where
  "split_words [] = []"
| "split_words (c # cs) =
     (if is_space c then split_words cs
      else case cs of
        [] \<Rightarrow> [[c]]
      | d # _ \<Rightarrow> if is_space d then [c] # split_words cs
                else (case split_words cs of [] \<Rightarrow> [[c]] | w # ws \<Rightarrow> (c # w) # ws))"

definition tcl_int_list :: "string \<Rightarrow> int \<Rightarrow> cpu_error + int list" where
  "tcl_int_list v expected =
     (let tokens = split_words v
      in if int (length tokens) \<noteq> expected then Inl SnapshotError
         else
           bindE (mapE (\<lambda>t. case int_literal t of None \<Rightarrow> Inl SnapshotError | Some i \<Rightarrow> Inr i) tokens) (\<lambda>vals.
             if list_ex (\<lambda>i. \<not> (0 \<le> i \<and> i \<le> 0xFF)) vals then Inl SnapshotError else Inr vals))"

definition openmsx_bytes :: "int \<Rightarrow> int \<Rightarrow> int list emu" where
  "openmsx_bytes address n =
     (if n = 0 then ret []
      else bindIO (tcl_cmd (CmdMemory address n)) (\<lambda>t. lift_result (tcl_int_list t n)))"

text \<open>Whether \<open>float(text)\<close> accepts a text; the value is kept as that text.\<close>

definition is_digit :: "char \<Rightarrow> bool" where
  "is_digit c \<longleftrightarrow> 48 \<le> ord_char c \<and> ord_char c \<le> 57"

text \<open>Digits with single underscores between them.\<close>

fun digit_part :: "string \<Rightarrow> bool" where
  "digit_part [] = False"
| "digit_part [c] = is_digit c"
| "digit_part (c # d # cs) = (is_digit c \<and> (if d = CHR ''_'' then digit_part cs else digit_part (d # cs)))"

definition unsigned :: "string \<Rightarrow> string" where
  "unsigned s = (if take 1 s = ''+'' \<or> take 1 s = ''-'' then drop 1 s else s)"

definition is_mantissa :: "string \<Rightarrow> bool" where
  "is_mantissa s =
     (let whole = takeWhile (\<lambda>c. c \<noteq> CHR ''.'') s; rest = dropWhile (\<lambda>c. c \<noteq> CHR ''.'') s
      in if rest = [] then digit_part whole
         else (whole = [] \<or> digit_part whole) \<and> (tl rest = [] \<or> digit_part (tl rest)) \<and> (whole \<noteq> [] \<or> tl rest \<noteq> []))"

definition is_float_text :: "string \<Rightarrow> bool" where
  "is_float_text text =
     (let s = lower (unsigned (strip text));
          m = takeWhile (\<lambda>c. c \<noteq> CHR ''e'') s; e = dropWhile (\<lambda>c. c \<noteq> CHR ''e'') s
      in s \<in> {''inf'', ''infinity'', ''nan''} \<or> is_mantissa m \<and> (e = [] \<or> digit_part (unsigned (tl e))))"

record openmsx_snapshot = cpu_snapshot +
  om_cpu :: string
  om_was_breaked :: bool
  om_instruction :: string
  om_code_address :: string
  om_code_bytes :: string
  om_stack_address :: string
  om_stack_words :: "(string \<times> string) list"
  om_emulator_time :: "string option"

definition pair_at :: "int list \<Rightarrow> nat \<Rightarrow> int" where
  "pair_at raw offset = (raw ! offset) * 256 + raw ! (offset + 1)"

definition openmsx_registers :: "int list \<Rightarrow> (string \<times> int) list" where
  "openmsx_registers raw =
     [(''af'', pair_at raw 0), (''bc'', pair_at raw 2), (''de'', pair_at raw 4), (''hl'', pair_at raw 6),
      (''af_alt'', pair_at raw 8), (''bc_alt'', pair_at raw 10), (''de_alt'', pair_at raw 12),
      (''hl_alt'', pair_at raw 14), (''ix'', pair_at raw 16), (''iy'', pair_at raw 18), (''pc'', pair_at raw 20),
      (''sp'', pair_at raw 22), (''i'', raw ! 24), (''r'', raw ! 25), (''im'', raw ! 26), (''iff'', raw ! 27)]"

definition stack_entries :: "int \<Rightarrow> int \<Rightarrow> int list \<Rightarrow> (string \<times> string) list" where
  "stack_entries sp stack_words stack =
     map (\<lambda>i. (fmt16 ((sp + 2 * int i) AND 0xFFFF), fmt16 (stack ! (2 * i) + stack ! (2 * i + 1) * 256)))
       [0..<nat stack_words]"

text \<open>The \<open>try\<close> block of \<open>capture_openmsx_cpu\<close>.\<close>

definition capture_stopped :: "bool \<Rightarrow> int \<Rightarrow> int \<Rightarrow> openmsx_snapshot emu" where
  "capture_stopped was_breaked stack_words code_bytes =
     bindIO (tcl_cmd CmdRegisters) (\<lambda>t.
     bindIO (lift_result (tcl_int_list t 28)) (\<lambda>raw.
     let vals = openmsx_registers raw; pc = pair_at raw 20; sp = pair_at raw 22
     in bindIO (openmsx_bytes pc code_bytes) (\<lambda>code.
        bindIO (openmsx_bytes sp (stack_words * 2)) (\<lambda>stack.
        bindIO (tcl_cmd (CmdDisasm pc)) (\<lambda>instruction.
        bindIO (catch (bindIO (tcl_cmd CmdActiveCpu) (\<lambda>t. ret (strip t)))
            (\<lambda>e. if e = CommandFailed Interrupted then raise e else ret ''unknown'')) (\<lambda>cpu.
        bindIO (catch (bindIO (tcl_cmd CmdTime) (\<lambda>t. ret (if is_float_text t then Some (strip t) else None)))
            (\<lambda>e. if e = CommandFailed ValueFailure then ret None else raise e)) (\<lambda>emulator_time.
        bindIO (lift_result (decode_z80_flags (DInt (pair_at raw 0 AND 0xFF)))) (\<lambda>flags.
          ret \<lparr>sn_schema = CPU_SNAPSHOT_SCHEMA, sn_backend = ''openmsx'', sn_exact = True,
               sn_registers = format_registers vals, sn_flags = flags,
               om_cpu = cpu, om_was_breaked = was_breaked, om_instruction = strip instruction,
               om_code_address = fmt16 pc, om_code_bytes = bytes_hex (map word_of_int code),
               om_stack_address = fmt16 sp, om_stack_words = stack_entries sp stack_words stack,
               om_emulator_time = emulator_time\<rparr>))))))))"

text \<open>\<open>debug break\<close> unless the machine was stopped, then \<open>try: body finally: debug cont\<close>.\<close>

definition while_stopped :: "bool \<Rightarrow> 'a emu \<Rightarrow> 'a emu" where
  "while_stopped was_breaked body =
     bindIO (if \<not> was_breaked then bindIO (tcl_cmd CmdBreak) (\<lambda>_. ret ()) else ret ()) (\<lambda>_ s.
       (case body s of
          (r, s1) \<Rightarrow>
            if \<not> was_breaked then
              (case tcl_cmd CmdCont s1 of (Inl e, s2) \<Rightarrow> (Inl e, s2) | (Inr _, s2) \<Rightarrow> (r, s2))
            else (r, s1)))"

definition capture_openmsx_cpu :: "doc \<Rightarrow> doc \<Rightarrow> openmsx_snapshot emu" where
  "capture_openmsx_cpu stack_words code_bytes =
     bindIO (lift_result (bounded_count stack_words 32)) (\<lambda>stack_words.
     bindIO (lift_result (bounded_count code_bytes 64)) (\<lambda>code_bytes.
     bindIO (tcl_cmd CmdBreaked) (\<lambda>t.
     bindIO (lift_result (tcl_bool t)) (\<lambda>was_breaked.
       while_stopped was_breaked (capture_stopped was_breaked stack_words code_bytes)))))"


subsection \<open>The wire layout of the context\<close>

text \<open>
  \<open>encode_context f\<close> is the 40-byte image of a register frame: the header, the words in the order the
  hook pushed them, and the service data.
\<close>

record context_frame =
  cf_state :: byte
  cf_runtime :: byte
  cf_transport :: byte
  cf_words :: "int list"
  cf_i :: byte
  cf_r :: byte
  cf_jiffy :: int
  cf_screen :: byte
  cf_control :: byte
  cf_iff2 :: "bool option"

definition service_byte :: "bool option \<Rightarrow> byte" where
  "service_byte v = (case v of None \<Rightarrow> 0 | Some b \<Rightarrow> if b then 3 else 1)"

definition encode_context :: "context_frame \<Rightarrow> bytes" where
  "encode_context f =
     [1, 1, 40, 0x3F, cf_state f, 1, cf_runtime f, cf_transport f] @ concat (map (le_bytes 2) (cf_words f)) @
     [cf_i f, cf_r f] @ le_bytes 2 (cf_jiffy f) @ [cf_screen f, cf_control f, service_byte (cf_iff2 f), 0]"

definition wf_context :: "context_frame \<Rightarrow> bool" where
  "wf_context f \<longleftrightarrow> (cf_state f = 1 \<or> cf_state f = 2) \<and> (cf_runtime f = 0 \<or> cf_runtime f = 1) \<and>
     length (cf_words f) = 12 \<and> list_all (\<lambda>v. 0 \<le> v \<and> v < 65536) (cf_words f) \<and>
     0 \<le> cf_jiffy f \<and> cf_jiffy f < 65536"

text \<open>The twelve words of a context, by name.\<close>

definition frame_words :: "context_frame \<Rightarrow> (string \<times> int) list" where
  "frame_words f =
     zip [''hl_alt'', ''de_alt'', ''bc_alt'', ''af_alt'', ''iy'', ''ix'', ''hl'', ''de'', ''bc'', ''af'']
       (take 10 (cf_words f))"

definition z80_flags :: "int \<Rightarrow> (string \<times> bool) list" where
  "z80_flags f =
     map (\<lambda>(n, i). (n, odd (f div 2 ^ i)))
       [(''s'', 7), (''z'', 6), (''y'', 5), (''h'', 4), (''x'', 3), (''pv'', 2), (''n'', 1), (''c'', 0)]"

definition shows_context :: "context_frame \<Rightarrow> agent_snapshot \<Rightarrow> bool" where
  "shows_context f sn \<longleftrightarrow>
     sn_exact sn = False \<and>
     (\<forall>n. map_of (sn_registers sn) n =
        (if n \<in> set REGISTER_WORDS \<union> set REGISTER_BYTES then Some (map_option fmt16 (map_of (frame_words f) n)) else None)) \<and>
     sn_flags sn = z80_flags (cf_words f ! 9) \<and>
     ag_state sn = uint (cf_state f) \<and> ag_runtime sn = uint (cf_runtime f) \<and> ag_transport sn = uint (cf_transport f) \<and>
     ag_service_sp sn = fmt16 (cf_words f ! 10) \<and> ag_callback_return sn = fmt16 (cf_words f ! 11) \<and>
     ag_service_i sn = fmt8 (uint (cf_i f)) \<and> ag_service_r sn = fmt8 (uint (cf_r f)) \<and>
     ag_iff2 sn = cf_iff2 f \<and> ag_jiffy sn = cf_jiffy f \<and> ag_screen_mode sn = uint (cf_screen f) \<and>
     ag_control_level sn = uint (cf_control f)"

lemma and_255: "(x :: int) AND 0xFF = x mod 256"
  using take_bit_eq_mask [of 8 x] by (simp add: take_bit_eq_mod mask_eq_exp_minus_1)

lemma int_bit: "((x :: int) AND 2 ^ i \<noteq> 0) = odd (x div 2 ^ i)"
proof -
  have "(x AND 2 ^ i \<noteq> 0) = bit x i"
    by (simp add: and_exp_eq_0_iff_not_bit)
  then show ?thesis by (simp add: bit_iff_odd)
qed

lemma decode_flags: "decode_z80_flags (DInt (x AND 0xFF)) = Inr (z80_flags (x mod 256))"
  using int_bit [of "x mod 256" 7] int_bit [of "x mod 256" 6] int_bit [of "x mod 256" 5] int_bit [of "x mod 256" 4]
    int_bit [of "x mod 256" 3] int_bit [of "x mod 256" 2] int_bit [of "x mod 256" 1] int_bit [of "x mod 256" 0]
  by (simp add: decode_z80_flags_def z80_flags_def and_255)

lemma z80_flags_mod: "z80_flags (x mod 256) = z80_flags x"
proof -
  have "odd (x mod 256 div 2 ^ i) = odd (x div 2 ^ i)" if "i < 8" for i
  proof -
    have "bit (take_bit 8 x) i = bit x i" using that by (simp add: bit_take_bit_iff)
    then show ?thesis by (simp add: bit_iff_odd take_bit_eq_mod)
  qed
  from this [of 0] this [of 1] this [of 2] this [of 3] this [of 4] this [of 5] this [of 6] this [of 7]
  show ?thesis by (simp add: z80_flags_def)
qed

lemma byte_split: "(v :: byte) = (v AND m) OR (v AND NOT m)"
  by (metis bit.conj_disj_distrib bit.disj_cancel_right bit.conj_one_right)

lemma service_flag_cases:
  assumes "(v :: byte) AND NOT 0x03 = 0"
  shows "v = 0 \<or> v = 1 \<or> v = 2 \<or> v = 3"
proof -
  have "v = v AND 3" using byte_split [of v 3] assms by simp
  then have "v = take_bit 2 v" by (simp add: take_bit_eq_mask mask_eq_exp_minus_1)
  then have "uint v = uint v mod 4" by (metis unsigned_take_bit_eq take_bit_eq_mod power2_eq_square mult_2 numeral_Bit0)
  then have "uint v < 4" "0 \<le> uint v" using pos_mod_bound [of 4 "uint v"] by simp_all
  then have "uint v = 0 \<or> uint v = 1 \<or> uint v = 2 \<or> uint v = 3" by arith
  then show ?thesis by (auto simp: word_uint_eq_iff)
qed

lemma list40: "length xs = 40 \<Longrightarrow> xs =
  [xs ! 0, xs ! 1, xs ! 2, xs ! 3, xs ! 4, xs ! 5, xs ! 6, xs ! 7, xs ! 8, xs ! 9,
   xs ! 10, xs ! 11, xs ! 12, xs ! 13, xs ! 14, xs ! 15, xs ! 16, xs ! 17, xs ! 18, xs ! 19,
   xs ! 20, xs ! 21, xs ! 22, xs ! 23, xs ! 24, xs ! 25, xs ! 26, xs ! 27, xs ! 28, xs ! 29,
   xs ! 30, xs ! 31, xs ! 32, xs ! 33, xs ! 34, xs ! 35, xs ! 36, xs ! 37, xs ! 38, xs ! 39]"
  using map_nth [of xs] by (simp add: upt_rec numeral_eq_Suc)

text \<open>The frame a context shows.\<close>

definition frame_of :: "bytes \<Rightarrow> context_frame" where
  "frame_of p =
     \<lparr>cf_state = p ! 4, cf_runtime = p ! 6, cf_transport = p ! 7,
      cf_words = map (word_at p) [8, 10, 12, 14, 16, 18, 20, 22, 24, 26, 28, 30],
      cf_i = p ! 32, cf_r = p ! 33, cf_jiffy = word_at p 34, cf_screen = p ! 36, cf_control = p ! 37,
      cf_iff2 = (if p ! 38 AND 1 \<noteq> 0 then Some (p ! 38 AND 2 \<noteq> 0) else None)\<rparr>"

lemma word_at_bounds: "0 \<le> word_at p i" "word_at p i < 65536"
  using le_value_less [of "slice i 2 p"] power_increasing [of "length (slice i 2 p)" 2 "256 :: int"]
  by (auto simp: word_at_def)

lemma word_at_bytes: "i + 1 < length p \<Longrightarrow> le_bytes 2 (word_at p i) = [p ! i, p ! (i + 1)]"
  by (simp add: word_at_def slice_def numeral_2_eq_2 take_Suc_conv_app_nth)

definition context_ok :: "bytes \<Rightarrow> bool" where
  "context_ok p \<longleftrightarrow> length p = 40 \<and> p ! 0 = 1 \<and> p ! 1 = 1 \<and> p ! 2 = 40 \<and> p ! 3 = 0x3F \<and> p ! 39 = 0 \<and>
     (p ! 4 = 1 \<or> p ! 4 = 2) \<and> p ! 5 = 1 \<and> (p ! 6 = 0 \<or> p ! 6 = 1) \<and> p ! 38 \<in> {0, 1, 3}"

lemma required_flags: "CPU_CONTEXT_REQUIRED_FLAGS = 0x3F"
  by (simp add: CPU_CONTEXT_REQUIRED_FLAGS_def)

lemma validity_flags: "(v :: byte) AND 0x3F = 0x3F \<Longrightarrow> v AND NOT 0x3F = 0 \<Longrightarrow> v = 0x3F"
  using byte_split [of v "0x3F"] by simp

lemma parse_context_ok:
  assumes "parse_agent_cpu_context p = Inr sn"
  shows "context_ok p"
proof -
  have u: "uint (x :: byte) = 1 \<longleftrightarrow> x = 1" "uint (x :: byte) = 2 \<longleftrightarrow> x = 2" "uint (x :: byte) = 0 \<longleftrightarrow> x = 0" for x
    by (simp_all add: word_uint_eq_iff)
  have n: "unat (x :: byte) = 40 \<longleftrightarrow> x = 40" for x by (simp add: word_unat_eq_iff)
  have len: "length p = 40" and a: "p ! 0 = 1" "p ! 1 = 1" "unat (p ! 2) = length p" "p ! 39 = 0"
    and v: "p ! 3 AND 0x3F = 0x3F" "p ! 3 AND NOT 0x3F = 0"
    and s: "uint (p ! 4) \<in> {1, 2}" "uint (p ! 5) = 1" "map_of RUNTIME_NAMES (uint (p ! 6)) \<noteq> None"
    and f: "p ! 38 AND NOT 0x03 = 0" "\<not> (p ! 38 AND 0x02 \<noteq> 0 \<and> \<not> p ! 38 AND 0x01 \<noteq> 0)"
    using assms unfolding parse_agent_cpu_context_def Let_def CPU_CONTEXT_SIZE_def CPU_CONTEXT_VERSION_def
      CPU_CONTEXT_KIND_TIMI_def required_flags
    by (simp_all split: if_splits)
  have "p ! 38 \<noteq> 2"
  proof
    assume "p ! 38 = 2"
    then show False using f(2) by simp
  qed
  then have "p ! 38 \<in> {0, 1, 3}" using service_flag_cases [OF f(1)] by auto
  moreover have "p ! 6 = 0 \<or> p ! 6 = 1" using s(3) by (auto simp: RUNTIME_NAMES_def u split: if_splits)
  moreover have "p ! 4 = 1 \<or> p ! 4 = 2" using s(1) by (auto simp: u)
  moreover have "p ! 2 = 40" using a(3) len by (simp add: n)
  ultimately show ?thesis using len a v s(2) validity_flags by (simp add: context_ok_def u)
qed

lemma context_checks:
  assumes "context_ok p"
  shows "length p = CPU_CONTEXT_SIZE" "unat (p ! 2) = length p" "uint (p ! 4) \<in> {1, 2}" "uint (p ! 5) = 1"
    "map_of RUNTIME_NAMES (uint (p ! 6)) \<noteq> None" "p ! 38 AND NOT 0x03 = 0"
    "\<not> (p ! 38 AND 0x02 \<noteq> 0 \<and> \<not> p ! 38 AND 0x01 \<noteq> 0)"
  using assms by (auto simp: context_ok_def CPU_CONTEXT_SIZE_def RUNTIME_NAMES_def)

lemma map_of_tabulate: "map_of (map (\<lambda>m. (m, g m)) ms) n = (if n \<in> set ms then Some (g n) else None)"
  by (induction ms) auto

lemma context_registers_shown:
  "map_of (format_registers (context_registers p)) n =
     (if n \<in> set REGISTER_WORDS \<union> set REGISTER_BYTES
      then Some (map_option fmt16 (map_of (frame_words (frame_of p)) n)) else None)"
proof -
  have bytes: "map_of (context_registers p) m = None" if "m \<in> set REGISTER_BYTES" for m
    using that by (auto simp: context_registers_def REGISTER_BYTES_def)
  have words: "frame_words (frame_of p) = context_registers p"
    by (simp add: frame_words_def frame_of_def context_registers_def)
  show ?thesis using bytes words unfolding format_registers_def by (auto simp: map_add_def map_of_tabulate)
qed

lemma context_shown: "shows_context (frame_of p) (context_snapshot p (z80_flags (word_at p 26)))"
  using context_registers_shown [of p] unfolding shows_context_def context_snapshot_def Let_def
  by (simp add: frame_of_def del: Un_iff)

lemma context_parses:
  assumes "context_ok p"
  shows "parse_agent_cpu_context p = Inr (context_snapshot p (z80_flags (word_at p 26)))"
  using context_checks [OF assms] assms
  unfolding parse_agent_cpu_context_def Let_def CPU_CONTEXT_VERSION_def CPU_CONTEXT_KIND_TIMI_def required_flags
    decode_flags z80_flags_mod context_ok_def
  by (simp del: insert_iff)

lemma encode_frame_of:
  assumes "context_ok p"
  shows "encode_context (frame_of p) = p"
proof -
  have len: "length p = 40" using assms by (simp add: context_ok_def)
  have "service_byte (cf_iff2 (frame_of p)) = p ! 38"
    using assms by (auto simp: context_ok_def frame_of_def service_byte_def)
  then have "encode_context (frame_of p) = 
    [1, 1, 40, 0x3F, p ! 4, 1, p ! 6, p ! 7] @
    concat (map (\<lambda>i. [p ! i, p ! (i + 1)]) [8, 10, 12, 14, 16, 18, 20, 22, 24, 26, 28, 30]) @
     [p ! 32, p ! 33, p ! 34, p ! 35, p ! 36, p ! 37, p ! 38, 0]"
    using len by (simp add: encode_context_def frame_of_def word_at_bytes)
  also have "\<dots> = p"
    by (rule trans [OF _ list40 [OF len, symmetric]]) (use assms in \<open>simp add: context_ok_def\<close>)
  finally show ?thesis .
qed

lemma encode_context_ok:
  assumes "wf_context f"
  shows "context_ok (encode_context f) \<and> frame_of (encode_context f) = f"
proof -
  have "length (cf_words f) = 12" using assms by (simp add: wf_context_def)
  then obtain a0 a1 a2 a3 a4 a5 a6 a7 a8 a9 a10 a11 where w: "cf_words f = [a0, a1, a2, a3, a4, a5, a6, a7, a8, a9, a10, a11]"
    by (auto simp: numeral_eq_Suc length_Suc_conv)
  let ?p = "encode_context f"
  have p: "?p = [1, 1, 40, 0x3F, cf_state f, 1, cf_runtime f, cf_transport f] @
      concat (map (le_bytes 2) [a0, a1, a2, a3, a4, a5, a6, a7, a8, a9, a10, a11]) @ [cf_i f, cf_r f] @ le_bytes 2 (cf_jiffy f) @
      [cf_screen f, cf_control f, service_byte (cf_iff2 f), 0]"
    by (simp add: encode_context_def w)
  have q: "word_at ?p i = le_value (take 2 (drop i ?p))" for i by (simp add: word_at_def slice_def)
  have words: "word_at ?p 8 = a0" "word_at ?p 10 = a1" "word_at ?p 12 = a2" "word_at ?p 14 = a3" "word_at ?p 16 = a4"
    "word_at ?p 18 = a5" "word_at ?p 20 = a6" "word_at ?p 22 = a7" "word_at ?p 24 = a8" "word_at ?p 26 = a9"
    "word_at ?p 28 = a10" "word_at ?p 30 = a11" "word_at ?p 34 = cf_jiffy f"
    using assms unfolding q unfolding p by (simp_all add: wf_context_def w)
  have bytes: "?p ! 0 = 1" "?p ! 1 = 1" "?p ! 2 = 40" "?p ! 3 = 0x3F" "?p ! 4 = cf_state f" "?p ! 5 = 1"
    "?p ! 6 = cf_runtime f" "?p ! 7 = cf_transport f" "?p ! 32 = cf_i f" "?p ! 33 = cf_r f" "?p ! 36 = cf_screen f"
    "?p ! 37 = cf_control f" "?p ! 38 = service_byte (cf_iff2 f)" "?p ! 39 = 0" "length ?p = 40"
    unfolding p by (simp_all add: wire_simps)
  have iff2: "service_byte v \<in> {0, 1, 3}"
    "(if service_byte v AND 1 \<noteq> 0 then Some (service_byte v AND 2 \<noteq> 0) else None) = v" for v
    by (auto simp: service_byte_def split: option.splits)
  have "frame_of ?p = f"
    unfolding frame_of_def list.map words bytes iff2(2) using w by (cases f) simp
  moreover have "context_ok ?p"
    unfolding context_ok_def bytes using assms iff2(1) by (simp add: wf_context_def)
  ultimately show ?thesis by blast
qed

lemma frame_of_wf: "context_ok p \<Longrightarrow> wf_context (frame_of p)"
  using word_at_bounds by (simp add: context_ok_def wf_context_def frame_of_def)

lemma parse_context_error: "parse_agent_cpu_context p = Inl e \<Longrightarrow> e = SnapshotError"
  unfolding parse_agent_cpu_context_def Let_def decode_flags by (simp split: if_splits)

text \<open>
  C38: The context parser is exact. It accepts precisely the 40-byte images of register frames that the
  resident can send, and the snapshot it returns shows that frame: the ten registers under
  their names, the flags of F bit by bit, the service data, and no application PC, SP, I, R, IM or IFF.
  Every other payload raises the snapshot error.
\<close>

theorem cpu_context_exact:
  "case parse_agent_cpu_context p of
     Inr sn \<Rightarrow> (\<exists>f. wf_context f \<and> encode_context f = p \<and> shows_context f sn)
   | Inl e \<Rightarrow> e = SnapshotError \<and> (\<nexists>f. wf_context f \<and> encode_context f = p)"
proof (cases "parse_agent_cpu_context p")
  case (Inl e)
  have "\<not> (wf_context f \<and> encode_context f = p)" for f
    using encode_context_ok [of f] context_parses [of p] Inl by auto
  then show ?thesis using Inl parse_context_error [OF Inl] by auto
next
  case (Inr sn)
  note ok = parse_context_ok [OF Inr]
  show ?thesis using Inr context_parses [OF ok] context_shown [of p] encode_frame_of [OF ok] frame_of_wf [OF ok] by auto
qed

subsection \<open>The run state of the emulated machine\<close>

text \<open>
  \<open>halted\<close> is the run state the commands of a log leave: \<open>debug break\<close> stops the machine and
  \<open>debug cont\<close> lets it run, when they succeed; every other command only reads.
\<close>

definition run_effect :: "tcl_command \<times> tcl_reply \<Rightarrow> bool \<Rightarrow> bool" where
  "run_effect e b =
     (case e of
        (CmdBreak, Text _) \<Rightarrow> True
      | (CmdCont, Text _) \<Rightarrow> False
      | _ \<Rightarrow> b)"

definition halted :: "(tcl_command \<times> tcl_reply) list \<Rightarrow> bool \<Rightarrow> bool" where
  "halted log b = fold run_effect log b"

definition reads_only :: "(tcl_command \<times> tcl_reply) list \<Rightarrow> bool" where
  "reads_only log \<longleftrightarrow> list_all (\<lambda>(c, r). c \<noteq> CmdBreak \<and> c \<noteq> CmdCont) log"

text \<open>\<open>reading m\<close>: whatever its outcome, \<open>m\<close> sends commands that only read.\<close>

definition reading :: "'a emu \<Rightarrow> bool" where
  "reading m \<longleftrightarrow> (\<forall>s. \<exists>log. op_log (snd (m s)) = op_log s @ log \<and> reads_only log)"

lemma halted_simps [simp]:
  "halted [] b = b" "halted (l1 @ l2) b = halted l2 (halted l1 b)" "halted [e] b = run_effect e b"
  by (simp_all add: halted_def)

lemma halted_reads: "reads_only log \<Longrightarrow> halted log b = b"
  by (induction log arbitrary: b)
    (auto simp: halted_def reads_only_def run_effect_def split: prod.splits tcl_command.splits)

lemma reads_only_append [simp]: "reads_only (l1 @ l2) \<longleftrightarrow> reads_only l1 \<and> reads_only l2"
  by (simp add: reads_only_def)

lemma reading_pure [simp]: "reading (ret x)" "reading (raise e)" "reading (lift_result r)"
  by (auto simp: reading_def reads_only_def)

lemma reading_cmd [simp]: "reading (tcl_cmd c) = (c \<noteq> CmdBreak \<and> c \<noteq> CmdCont)"
  by (auto simp: reading_def reads_only_def tcl_cmd_def Let_def)

lemma reading_then:
  assumes "reading m" "m s = (r, s1)" "reading k"
  shows "\<exists>log. op_log (snd (k s1)) = op_log s @ log \<and> reads_only log"
proof -
  obtain l1 where "op_log s1 = op_log s @ l1" "reads_only l1"
    using assms(1) unfolding reading_def by (metis assms(2) snd_conv)
  moreover obtain l2 where "op_log (snd (k s1)) = op_log s1 @ l2" "reads_only l2"
    using assms(3) by (auto simp: reading_def)
  ultimately show ?thesis by (intro exI [of _ "l1 @ l2"]) simp
qed

lemma reading_stop: "reading m \<Longrightarrow> m s = (r, s1) \<Longrightarrow> \<exists>log. op_log s1 = op_log s @ log \<and> reads_only log"
  using reading_then [of m s r s1 "ret ()"] by simp

lemma reading_bind [intro]: "reading m \<Longrightarrow> (\<And>x. reading (k x)) \<Longrightarrow> reading (bindIO m k)"
  unfolding reading_def [of "bindIO m k"] bindIO_def
  by (auto split: prod.splits sum.splits dest: reading_stop reading_then)

lemma reading_catch [intro]: "reading m \<Longrightarrow> (\<And>e. reading (h e)) \<Longrightarrow> reading (catch m h)"
  unfolding reading_def [of "catch m h"] catch_def
  by (auto split: prod.splits sum.splits dest: reading_stop reading_then)

lemma reading_bytes: "reading (openmsx_bytes a n)"
  by (auto simp: openmsx_bytes_def)

lemma reading_if: "reading a \<Longrightarrow> reading b \<Longrightarrow> reading (if c then a else b)"
  by simp

lemma reading_stopped: "reading (capture_stopped b n k)"
  unfolding capture_stopped_def Let_def
  by (intro reading_bind reading_bytes reading_catch reading_if) simp_all

definition conts_succeed :: "(tcl_command \<times> tcl_reply) list \<Rightarrow> bool" where
  "conts_succeed log \<longleftrightarrow> (\<forall>f. (CmdCont, Fails f) \<notin> set log)"

lemma cmd_cases:
  obtains t where "tcl_cmd c s = (Inr t, s\<lparr>op_replies := tl (op_replies s), op_log := op_log s @ [(c, Text t)]\<rparr>)"
  | f where "tcl_cmd c s = (Inl (CommandFailed f), s\<lparr>op_replies := tl (op_replies s), op_log := op_log s @ [(c, Fails f)]\<rparr>)"
  by (cases "case op_replies s of [] \<Rightarrow> Text [] | r # _ \<Rightarrow> r") (auto simp: tcl_cmd_def Let_def)

lemma run_effect_simps [simp]:
  "run_effect (CmdBreak, Text t) b = True" "run_effect (CmdCont, Text t) b = False"
  "run_effect (CmdBreaked, r) b = b" "run_effect (CmdBreak, Fails f) b = b" "run_effect (CmdCont, Fails f) b = b"
  by (simp_all add: run_effect_def)

lemma while_stopped_restores:
  assumes "reading body"
  shows "\<exists>log. op_log (snd (while_stopped b body s)) = op_log s @ log \<and>
           (conts_succeed log \<longrightarrow> halted log b = b \<and> (b \<longrightarrow> reads_only log))"
proof (cases b)
  case True
  obtain log where "op_log (snd (body s)) = op_log s @ log" "reads_only log"
    using assms by (auto simp: reading_def)
  then show ?thesis using True halted_reads
    by (intro exI [of _ log]) (auto simp: while_stopped_def split: prod.splits)
next
  case False
  show ?thesis
  proof (cases rule: cmd_cases [of CmdBreak s])
    case (2 f)
    then show ?thesis using False
      by (intro exI [of _ "[(CmdBreak, Fails f)]"]) (simp add: while_stopped_def bindIO_def)
  next
    case (1 t)
    let ?s = "s\<lparr>op_replies := tl (op_replies s), op_log := op_log s @ [(CmdBreak, Text t)]\<rparr>"
    obtain log where log: "op_log (snd (body ?s)) = op_log ?s @ log" "reads_only log"
      using assms unfolding reading_def by blast
    obtain r s1 where run: "body ?s = (r, s1)" by (cases "body ?s")
    show ?thesis
    proof (cases rule: cmd_cases [of CmdCont s1])
      case (1 u)
      then show ?thesis using False \<open>tcl_cmd CmdBreak s = _\<close> run log
        by (intro exI [of _ "(CmdBreak, Text t) # log @ [(CmdCont, Text u)]"])
          (simp add: while_stopped_def bindIO_def halted_def)
    next
      case (2 f)
      then show ?thesis using False \<open>tcl_cmd CmdBreak s = _\<close> run log
        by (intro exI [of _ "(CmdBreak, Text t) # log @ [(CmdCont, Fails f)]"])
          (auto simp: while_stopped_def bindIO_def conts_succeed_def)
    qed
  qed
qed

lemma capture_log:
  assumes "\<And>t rest v. op_replies s = Text t # rest \<Longrightarrow> tcl_bool t = Inr v \<Longrightarrow> v = b"
  shows "\<exists>log. op_log (snd (capture_openmsx_cpu n k s)) = op_log s @ log \<and>
           (conts_succeed log \<longrightarrow> halted log b = b \<and> (b \<longrightarrow> reads_only log))"
proof (cases "\<exists>sw cb. bounded_count n 32 = Inr sw \<and> bounded_count k 64 = Inr cb")
  case False
  then show ?thesis
    by (cases "bounded_count n 32"; cases "bounded_count k 64")
      (auto intro!: exI [of _ "[]"] simp: capture_openmsx_cpu_def reads_only_def)
next
  case True
  then obtain sw cb where counts: "bounded_count n 32 = Inr sw" "bounded_count k 64 = Inr cb" by blast
  show ?thesis
  proof (cases rule: cmd_cases [of CmdBreaked s])
    case (2 f)
    then show ?thesis
      by (intro exI [of _ "[(CmdBreaked, Fails f)]"]) (simp add: capture_openmsx_cpu_def counts bindIO_def reads_only_def)
  next
    case (1 t)
    let ?s = "s\<lparr>op_replies := tl (op_replies s), op_log := op_log s @ [(CmdBreaked, Text t)]\<rparr>"
    show ?thesis
    proof (cases "tcl_bool t")
      case (Inl e)
      then show ?thesis using 1
        by (intro exI [of _ "[(CmdBreaked, Text t)]"]) (simp add: capture_openmsx_cpu_def counts bindIO_def reads_only_def)
    next
      case (Inr v)
      have "op_replies s = [] \<and> t = [] \<or> (\<exists>rest. op_replies s = Text t # rest)"
        using 1 by (auto simp: tcl_cmd_def Let_def split: list.splits tcl_reply.splits)
      moreover have "tcl_bool [] \<noteq> Inr v" by (simp add: tcl_bool_def strip_def lower_def)
      ultimately have "v = b" using Inr assms by fastforce
      obtain log where log: "op_log (snd (while_stopped b (capture_stopped b sw cb) ?s)) = op_log ?s @ log"
        "conts_succeed log \<longrightarrow> halted log b = b \<and> (b \<longrightarrow> reads_only log)"
        using while_stopped_restores [OF reading_stopped] by blast
      then show ?thesis using 1 Inr \<open>v = b\<close>
        by (intro exI [of _ "(CmdBreaked, Text t) # log"])
          (auto simp: capture_openmsx_cpu_def counts bindIO_def reads_only_def halted_def conts_succeed_def)
    qed
  qed
qed



end
