(* ===== verification/Screen_Render.thy ===== *)
theory Screen_Render
  imports Prelude
begin

text \<open>
  \<open>server/msx_screenshot.py\<close>, the renderer: colours and palettes, the access to a dump of the video
  memory through the table registers, the character modes (SCREEN 0 to 4), the bitmap modes (5 to 8,
  10 to 12), the sprites of both modes, \<open>render_vram\<close> and the functions per mode. Registers,
  colours and addresses are Python integers, the dump and the image are byte strings; every
  \<open>raise\<close> is a value.
\<close>

subsection \<open>Colours\<close>

text \<open>Every \<open>ValueError\<close> of the module is \<open>ScreenValueError\<close>; \<open>TargetFailed\<close> is what a read of the target raised.\<close>

datatype screen_error = ScreenValueError | ScreenAssertion | ScreenZeroDivision | ScreenIndexError | ScreenStructError | TargetFailed

type_synonym rgb = "int \<times> int \<times> int"
type_synonym palette = "rgb list"

definition SCREEN_VRAM_SIZE :: int where "SCREEN_VRAM_SIZE = 0x20000"

definition SUPPORTED_MODES :: "int list" where "SUPPORTED_MODES = [0, 1, 2, 3, 4, 5, 6, 7, 8, 10, 11, 12]"

definition TMS :: palette where
  "TMS = [(0, 0, 0), (0, 0, 0), (33, 200, 66), (94, 220, 120),
     (84, 85, 237), (125, 118, 252), (212, 82, 77), (66, 235, 245),
     (252, 85, 84), (255, 121, 120), (212, 193, 84), (230, 206, 128),
     (33, 176, 59), (201, 91, 186), (204, 204, 204), (255, 255, 255)]"

definition V9938_DEFAULT :: palette where "V9938_DEFAULT = TMS"

definition SCREEN8_SPRITE_GRB :: "int list" where
  "SCREEN8_SPRITE_GRB =
     [0x000, 0x002, 0x030, 0x032, 0x300, 0x302, 0x330, 0x332,
      0x472, 0x007, 0x070, 0x077, 0x700, 0x707, 0x770, 0x777]"

definition scale :: "int \<Rightarrow> int \<Rightarrow> int" where
  "scale value maximum = value * 255 div maximum"

definition grb_word_to_rgb :: "int \<Rightarrow> rgb" where
  "grb_word_to_rgb value =
     (scale (drop_bit 4 value AND 7) 7, scale (drop_bit 8 value AND 7) 7, scale (value AND 7) 7)"

definition SCREEN8_SPRITE_PALETTE :: palette where
  "SCREEN8_SPRITE_PALETTE = map grb_word_to_rgb SCREEN8_SPRITE_GRB"

text \<open>A palette argument is a list of entries, each a list of components.\<close>

definition component_ok :: "int \<Rightarrow> bool" where
  "component_ok c \<longleftrightarrow> 0 \<le> c \<and> c \<le> 255"

definition normalise_entry :: "int list \<Rightarrow> screen_error + rgb" where
  "normalise_entry entry =
     (case entry of
        [r, g, b] \<Rightarrow> if list_all component_ok [r, g, b] then Inr (r, g, b) else Inl ScreenValueError
      | _ \<Rightarrow> Inl ScreenValueError)"

definition normalise_palette :: "int list list option \<Rightarrow> screen_error + palette" where
  "normalise_palette palette =
     (let entries = (case palette of Some p \<Rightarrow> p | None \<Rightarrow> map (\<lambda>(r, g, b). [r, g, b]) V9938_DEFAULT)
      in if length entries \<noteq> 16 then Inl ScreenValueError else mapE normalise_entry entries)"

definition decode_palette :: "bytes \<Rightarrow> screen_error + palette" where
  "decode_palette raw32 =
     (if length raw32 \<noteq> 32 then Inl ScreenValueError
      else Inr (map (\<lambda>index.
        let rb = uint (raw32 ! (index * 2)); g = uint (raw32 ! (index * 2 + 1))
        in (scale (drop_bit 4 rb AND 7) 7, scale (g AND 7) 7, scale (rb AND 7) 7)) [0..<16]))"

definition rgb332 :: "int \<Rightarrow> rgb" where
  "rgb332 value = (scale (drop_bit 2 value AND 7) 7, scale (drop_bit 5 value AND 7) 7, scale (value AND 3) 3)"

definition clamp5 :: "int \<Rightarrow> int" where
  "clamp5 value = max 0 (min 31 value)"

definition trunc_div :: "int \<Rightarrow> int \<Rightarrow> int" where
  "trunc_div value divisor = (if 0 \<le> value then value div divisor else - ((- value) div divisor))"

definition yjk_rgb :: "int \<Rightarrow> int \<Rightarrow> int \<Rightarrow> rgb" where
  "yjk_rgb y j k =
     (let red = clamp5 (y + j); green = clamp5 (y + k);
          blue = clamp5 (trunc_div (5 * y - 2 * j - k + 2) 4)
      in (scale red 31, scale green 31, scale blue 31))"

definition decode_yjk_group :: "int \<times> int \<times> int \<times> int \<Rightarrow> palette \<Rightarrow> bool \<Rightarrow> rgb list" where
  "decode_yjk_group vals palette yae =
     (case vals of (p0, p1, p2, p3) \<Rightarrow>
        let j = (p2 AND 7) + push_bit 3 (p3 AND 3) - push_bit 3 (p3 AND 4);
            k = (p0 AND 7) + push_bit 3 (p1 AND 3) - push_bit 3 (p1 AND 4)
        in map (\<lambda>v. if yae \<and> v AND 0x08 \<noteq> 0 then palette ! nat (drop_bit 4 v) else yjk_rgb (drop_bit 3 v) j k)
             [p0, p1, p2, p3])"

subsection \<open>Access to the dump and to the tables\<close>

definition validate_mode :: "int \<Rightarrow> screen_error + unit" where
  "validate_mode mode =
     (if mode = 9 then Inl ScreenValueError
      else if mode \<notin> set SUPPORTED_MODES then Inl ScreenValueError else Inr ())"

definition vbyte :: "bytes \<Rightarrow> int \<Rightarrow> screen_error + int" where
  "vbyte vram address =
     (if \<not> (0 \<le> address \<and> address < int (length vram)) then Inl ScreenValueError
      else Inr (uint (vram ! nat address)))"

text \<open>\<open>bytes(colour)\<close>, and \<open>_pixel\<close> with the assignment to the slice of three bytes.\<close>

definition colour_bytes :: "rgb \<Rightarrow> screen_error + bytes" where
  "colour_bytes colour =
     (case colour of (r, g, b) \<Rightarrow>
        if list_all component_ok [r, g, b] then Inr (map word_of_int [r, g, b]) else Inl ScreenValueError)"

definition pixel :: "int \<Rightarrow> int \<Rightarrow> int \<Rightarrow> rgb \<Rightarrow> bytes \<Rightarrow> screen_error + bytes" where
  "pixel width x y colour output =
     (let offset = nat ((y * width + x) * 3)
      in bindE (colour_bytes colour) (\<lambda>cs. Inr (take offset output @ cs @ drop (offset + 3) output)))"

definition registers :: "int list option \<Rightarrow> screen_error + int list" where
  "registers regs =
     (case regs of
        None \<Rightarrow> Inr ((replicate 28 0)[1 := 0x40, 7 := 0xF4, 8 := 0x20, 9 := 0x80])
      | Some rs \<Rightarrow>
          if length rs < 24 then Inl ScreenValueError
          else Inr (take 28 rs @ replicate (28 - length (take 28 rs)) 0))"

definition table_addr :: "int \<Rightarrow> nat \<Rightarrow> int \<Rightarrow> nat \<Rightarrow> int" where
  "table_addr base low_bits index index_bits =
     (let low_mask = push_bit low_bits 1 - 1; index_mask = push_bit index_bits 1 - 1;
          base_mask = (base OR low_mask) AND (SCREEN_VRAM_SIZE - 1);
          extended_index = index OR ((SCREEN_VRAM_SIZE - 1) AND NOT index_mask)
      in base_mask AND extended_index)"

type_synonym bases = "(string \<times> int) list"

definition name_byte :: "bytes \<Rightarrow> int list \<Rightarrow> bases \<Rightarrow> int \<Rightarrow> nat \<Rightarrow> int option \<Rightarrow> screen_error + int" where
  "name_byte vram regs bases index bits linear_index =
     (case map_of bases ''name'' of
        Some base \<Rightarrow> vbyte vram (base + (case linear_index of None \<Rightarrow> index | Some i \<Rightarrow> i))
      | None \<Rightarrow> vbyte vram (table_addr (push_bit 10 (regs ! 2)) 10 index bits))"

definition pattern_byte :: "bytes \<Rightarrow> int list \<Rightarrow> bases \<Rightarrow> int \<Rightarrow> nat \<Rightarrow> screen_error + int" where
  "pattern_byte vram regs bases index bits =
     (case map_of bases ''pattern'' of
        Some base \<Rightarrow> vbyte vram (base + index)
      | None \<Rightarrow> vbyte vram (table_addr (push_bit 11 (regs ! 4)) 11 index bits))"

definition colour_byte :: "bytes \<Rightarrow> int list \<Rightarrow> bases \<Rightarrow> int \<Rightarrow> nat \<Rightarrow> screen_error + int" where
  "colour_byte vram regs bases index bits =
     (case map_of bases ''color'' of
        Some base \<Rightarrow> vbyte vram (base + index)
      | None \<Rightarrow> vbyte vram (table_addr (push_bit 14 (regs ! 10) OR push_bit 6 (regs ! 3)) 6 index bits))"

definition foreground_palette :: "palette \<Rightarrow> int list \<Rightarrow> int \<Rightarrow> palette \<times> bool" where
  "foreground_palette palette regs mode =
     (let transparent = (regs ! 8 AND 0x20 = 0)
      in (if transparent \<and> mode \<noteq> 8 then palette[0 := palette ! nat (regs ! 7 AND 15)] else palette, transparent))"

definition active_height :: "int list \<Rightarrow> int option \<Rightarrow> screen_error + int" where
  "active_height regs requested =
     (case requested of
        Some h \<Rightarrow> if \<not> (1 \<le> h \<and> h \<le> 256) then Inl ScreenValueError else Inr h
      | None \<Rightarrow> Inr (if regs ! 9 AND 0x80 \<noteq> 0 then 212 else 192))"

subsection \<open>The character modes\<close>

text \<open>\<open>foldE f xs\<close> is the \<open>for\<close> loop over \<open>xs\<close>; \<open>range_int n\<close> is \<open>range(n)\<close>.\<close>

fun foldE :: "('a \<Rightarrow> 's \<Rightarrow> 'e + 's) \<Rightarrow> 'a list \<Rightarrow> 's \<Rightarrow> 'e + 's" where
  "foldE f [] s = Inr s"
| "foldE f (x # xs) s = bindE (f x s) (foldE f xs)"

definition range_int :: "int \<Rightarrow> int list" where
  "range_int n = [0..n - 1]"

text \<open>The loop over the dots of one cell.\<close>

definition put_dots :: "int \<Rightarrow> int \<Rightarrow> int \<Rightarrow> int \<Rightarrow> (int \<Rightarrow> rgb) \<Rightarrow> bytes \<Rightarrow> screen_error + bytes" where
  "put_dots dots width x y colour output =
     foldE (\<lambda>dot. pixel width (x + dot) y (colour dot)) (range_int dots) output"

definition bit_colour :: "int \<Rightarrow> rgb \<Rightarrow> rgb \<Rightarrow> int \<Rightarrow> rgb" where
  "bit_colour bits fg bg dot = (if bits AND drop_bit (nat dot) 0x80 \<noteq> 0 then fg else bg)"

text \<open>One cell of SCREEN 0.\<close>

definition text_char ::
  "bytes \<Rightarrow> int list \<Rightarrow> bases \<Rightarrow> int \<Rightarrow> bool \<Rightarrow> int \<Rightarrow> int \<Rightarrow> screen_error + int \<times> bool"
where
  "text_char vram regs bases width blink row column =
     (if width = 40 then
        bindE (name_byte vram regs bases (0xC00 + row * 40 + column) 12 (Some (row * 40 + column))) (\<lambda>char.
          Inr (char, False))
      else
        bindE (name_byte vram regs bases (row * 80 + column) 12 None) (\<lambda>char.
        bindE (colour_byte vram regs bases (row * 10 + column div 8) 9) (\<lambda>mask.
          Inr (char, blink \<and> mask AND drop_bit (nat (column AND 7)) 0x80 \<noteq> 0))))"

definition text_cell ::
  "bytes \<Rightarrow> int list \<Rightarrow> palette \<Rightarrow> bases \<Rightarrow> int \<Rightarrow> bool \<Rightarrow> int \<Rightarrow> int \<Rightarrow> bytes \<Rightarrow> screen_error + bytes"
where
  "text_cell vram regs foreground bases width blink y column output =
     (let glyph_line = (y + regs ! 23) AND 7; row = y div 8;
          plain_fg = foreground ! nat (drop_bit 4 (regs ! 7)); plain_bg = foreground ! nat (regs ! 7 AND 15);
          blink_fg = foreground ! nat (drop_bit 4 (regs ! 12)); blink_bg = foreground ! nat (regs ! 12 AND 15)
      in bindE (text_char vram regs bases width blink row column) (\<lambda>(char, use_blink).
         bindE (pattern_byte vram regs bases (char * 8 + glyph_line) 11) (\<lambda>bits.
         let fg = (if use_blink then blink_fg else plain_fg); bg = (if use_blink then blink_bg else plain_bg)
         in put_dots 6 (width * 6) (column * 6) y (bit_colour bits fg bg) output)))"

text \<open>One cell of SCREEN 1 to 4.\<close>

definition tile_cell ::
  "bytes \<Rightarrow> int \<Rightarrow> int list \<Rightarrow> palette \<Rightarrow> bases \<Rightarrow> int \<Rightarrow> int \<Rightarrow> bytes \<Rightarrow> screen_error + bytes"
where
  "tile_cell vram mode regs foreground bases y column output =
     (let scroll_x = regs ! 26 AND 0x1F; line = (y + regs ! 23) AND 0xFF; row = line div 8;
          source_column = (column + scroll_x) AND 31
      in bindE (name_byte vram regs bases (row * 32 + source_column) 10 None) (\<lambda>char.
         if mode = 1 then
           bindE (pattern_byte vram regs bases (char * 8 + (line AND 7)) 11) (\<lambda>bits.
           bindE (colour_byte vram regs bases (char div 8) 6) (\<lambda>colours.
             put_dots 8 256 (column * 8) y
               (bit_colour bits (foreground ! nat (drop_bit 4 colours)) (foreground ! nat (colours AND 15))) output))
         else if mode = 2 \<or> mode = 4 then
           let table_index = ((line div 64) * 256 + char) * 8 + (line AND 7)
           in bindE (pattern_byte vram regs bases table_index 13) (\<lambda>bits.
              bindE (colour_byte vram regs bases table_index 13) (\<lambda>colours.
                put_dots 8 256 (column * 8) y
                  (bit_colour bits (foreground ! nat (drop_bit 4 colours)) (foreground ! nat (colours AND 15))) output))
         else if mode = 3 then
           bindE (pattern_byte vram regs bases (char * 8 + ((line div 4) AND 7)) 11) (\<lambda>colours.
             put_dots 8 256 (column * 8) y
               (\<lambda>dot. if dot < 4 then foreground ! nat (drop_bit 4 colours) else foreground ! nat (colours AND 15)) output)
         else Inl ScreenAssertion))"

text \<open>\<open>text_width or (80 if regs[0] \& 4 else 40)\<close>\<close>

definition text_columns :: "int list \<Rightarrow> int option \<Rightarrow> int" where
  "text_columns regs text_width =
     (case text_width of
        Some w \<Rightarrow> if w \<noteq> 0 then w else if regs ! 0 AND 0x04 \<noteq> 0 then 80 else 40
      | None \<Rightarrow> if regs ! 0 AND 0x04 \<noteq> 0 then 80 else 40)"

type_synonym image = "bytes \<times> int \<times> int"

definition render_characters ::
  "bytes \<Rightarrow> int \<Rightarrow> int list \<Rightarrow> palette \<Rightarrow> int \<Rightarrow> bases \<Rightarrow> int option \<Rightarrow> bool \<Rightarrow> screen_error + image"
where
  "render_characters vram mode regs palette height bases text_width blink =
     (let foreground = fst (foreground_palette palette regs mode)
      in if mode = 0 then
           let width = text_columns regs text_width
           in if width \<noteq> 40 \<and> width \<noteq> 80 then Inl ScreenValueError
              else
                bindE (foldE (\<lambda>y. foldE (text_cell vram regs foreground bases width blink y) (range_int width))
                    (range_int height) (replicate (nat (width * 6 * height * 3)) 0)) (\<lambda>output.
                  Inr (output, width * 6, height))
         else
           bindE (foldE (\<lambda>y. foldE (tile_cell vram mode regs foreground bases y) (range_int 32))
               (range_int height) (replicate (nat (256 * height * 3)) 0)) (\<lambda>output.
             Inr (output, 256, height)))"

subsection \<open>The bitmap modes\<close>

definition bitmap_page_base :: "int \<Rightarrow> int list \<Rightarrow> int option \<Rightarrow> bases \<Rightarrow> screen_error + int" where
  "bitmap_page_base mode regs page bases =
     (case map_of bases ''bitmap'' of
        Some base \<Rightarrow> Inr base
      | None \<Rightarrow>
          let page_size = (if mode = 5 \<or> mode = 6 then 0x8000 else 0x10000); pages = SCREEN_VRAM_SIZE div page_size
          in case page of
               Some p \<Rightarrow> if \<not> (0 \<le> p \<and> p < pages) then Inl ScreenValueError else Inr (p * page_size)
             | None \<Rightarrow>
                 if mode = 5 \<or> mode = 6 then Inr (push_bit 10 (regs ! 2 AND 0x60))
                 else Inr (push_bit 11 (regs ! 2 AND 0x20)))"

text \<open>The colours of one byte, or of one group of four bytes in the YJK modes.\<close>

definition two_pixels :: "palette \<Rightarrow> int \<Rightarrow> rgb list" where
  "two_pixels foreground v = [foreground ! nat (drop_bit 4 v), foreground ! nat (v AND 15)]"

definition four_pixels :: "palette \<Rightarrow> int list \<Rightarrow> bool \<Rightarrow> int \<Rightarrow> rgb list" where
  "four_pixels palette regs transparent v =
     (let backdrop_even = palette ! nat (drop_bit 2 (regs ! 7) AND 3); backdrop_odd = palette ! nat (regs ! 7 AND 3)
      in map (\<lambda>(subpixel, index).
           if index = 0 \<and> transparent then (if subpixel mod 2 = 0 then backdrop_even else backdrop_odd)
           else palette ! nat index)
           (List.enumerate 0 [drop_bit 6 v AND 3, drop_bit 4 v AND 3, drop_bit 2 v AND 3, v AND 3]))"

definition yjk_group :: "bytes \<Rightarrow> palette \<Rightarrow> bool \<Rightarrow> int \<Rightarrow> screen_error + rgb list" where
  "yjk_group vram foreground yae address =
     bindE (vbyte vram address) (\<lambda>p0. bindE (vbyte vram (address + 1)) (\<lambda>p1.
     bindE (vbyte vram (address + 2)) (\<lambda>p2. bindE (vbyte vram (address + 3)) (\<lambda>p3.
       Inr (decode_yjk_group (p0, p1, p2, p3) foreground yae)))))"

definition bitmap_stride :: "int \<Rightarrow> int" where "bitmap_stride mode = (if mode = 5 \<or> mode = 6 then 128 else 256)"
definition bitmap_width :: "int \<Rightarrow> int" where "bitmap_width mode = (if mode = 6 \<or> mode = 7 then 512 else 256)"

definition bitmap_line :: "bytes \<Rightarrow> int \<Rightarrow> int list \<Rightarrow> palette \<Rightarrow> int \<Rightarrow> screen_error + rgb list" where
  "bitmap_line vram mode regs palette address =
     (let (foreground, transparent) = foreground_palette palette regs mode; stride = bitmap_stride mode
      in map_sum id concat
          (if mode = 5 \<or> mode = 7 then
             mapE (\<lambda>i. bindE (vbyte vram (address + i)) (\<lambda>v. Inr (two_pixels foreground v))) (range_int stride)
           else if mode = 6 then
             mapE (\<lambda>i. bindE (vbyte vram (address + i)) (\<lambda>v. Inr (four_pixels palette regs transparent v)))
               (range_int stride)
           else if mode = 8 then
             mapE (\<lambda>i. bindE (vbyte vram (address + i)) (\<lambda>v. Inr [rgb332 v])) (range_int stride)
           else
             mapE (\<lambda>i. yjk_group vram foreground (mode = 10 \<or> mode = 11) (address + 4 * i)) (range_int (stride div 4))))"

definition put_line :: "int \<Rightarrow> int \<Rightarrow> rgb list \<Rightarrow> bytes \<Rightarrow> screen_error + bytes" where
  "put_line width y line output =
     (let start = nat (y * width * 3)
      in bindE (mapE colour_bytes line) (\<lambda>cs. Inr (take start output @ concat cs @ drop (start + nat (width * 3)) output)))"

definition render_bitmap_row ::
  "bytes \<Rightarrow> int \<Rightarrow> int list \<Rightarrow> palette \<Rightarrow> int \<Rightarrow> int \<Rightarrow> bytes \<Rightarrow> screen_error + bytes"
where
  "render_bitmap_row vram mode regs palette base y output =
     (let width = bitmap_width mode; scroll_x = nat ((regs ! 26 AND 0x1F) * (if width = 512 then 16 else 8));
          source_line = (y + regs ! 23) AND 0xFF
      in bindE (bitmap_line vram mode regs palette (base + source_line * bitmap_stride mode)) (\<lambda>line.
           put_line width y (drop scroll_x line @ take scroll_x line) output))"

definition render_bitmap ::
  "bytes \<Rightarrow> int \<Rightarrow> int list \<Rightarrow> palette \<Rightarrow> int \<Rightarrow> int option \<Rightarrow> bases \<Rightarrow> screen_error + image"
where
  "render_bitmap vram mode regs palette height page bases =
     bindE (bitmap_page_base mode regs page bases) (\<lambda>base.
     let width = bitmap_width mode
     in bindE (foldE (render_bitmap_row vram mode regs palette base) (range_int height)
           (replicate (nat (width * height * 3)) 0)) (\<lambda>output.
          Inr (output, width, height)))"

subsection \<open>Sprites\<close>

definition sprite_base :: "int list \<Rightarrow> int" where
  "sprite_base regs = push_bit 15 (regs ! 11) OR push_bit 7 (regs ! 5)"

definition sprite_attribute :: "bytes \<Rightarrow> int list \<Rightarrow> bases \<Rightarrow> int \<Rightarrow> int \<Rightarrow> screen_error + int" where
  "sprite_attribute vram regs bases sprite_mode index =
     (case map_of bases ''sprite_attribute'' of
        Some sat_base \<Rightarrow> vbyte vram (sat_base + index - (if sprite_mode = 2 then 512 else 0))
      | None \<Rightarrow> vbyte vram (table_addr (sprite_base regs) 7 index (if sprite_mode = 2 then 10 else 7)))"

definition sprite_line_colour :: "bytes \<Rightarrow> int list \<Rightarrow> bases \<Rightarrow> int \<Rightarrow> screen_error + int" where
  "sprite_line_colour vram regs bases index =
     (case map_of bases ''sprite_color'' of
        Some colour_base \<Rightarrow> vbyte vram (colour_base + index)
      | None \<Rightarrow>
          (case map_of bases ''sprite_attribute'' of
             Some sat_base \<Rightarrow> vbyte vram (sat_base - 512 + index)
           | None \<Rightarrow> vbyte vram (table_addr (sprite_base regs) 7 index 10)))"

definition sprite_pattern :: "bytes \<Rightarrow> int list \<Rightarrow> bases \<Rightarrow> int \<Rightarrow> screen_error + int" where
  "sprite_pattern vram regs bases index =
     (case map_of bases ''sprite_pattern'' of
        Some pattern_base \<Rightarrow> vbyte vram (pattern_base + index)
      | None \<Rightarrow> vbyte vram (table_addr (push_bit 11 (regs ! 6)) 11 index 11))"

definition byte_dots :: "int \<Rightarrow> bool list" where
  "byte_dots v = map (\<lambda>dot. v AND drop_bit dot 0x80 \<noteq> 0) [0..<8]"

definition sprite_bits :: "(int \<Rightarrow> screen_error + int) \<Rightarrow> int \<Rightarrow> int \<Rightarrow> int \<Rightarrow> bool \<Rightarrow> screen_error + bool list" where
  "sprite_bits pattern number row width magnified =
     (let row = (if magnified then row div 2 else row);
          number = number AND (if width = 16 then 0xFC else 0xFF)
      in bindE (pattern (number * 8 + row)) (\<lambda>left.
         bindE (if width = 16 then bindE (pattern (number * 8 + row + 16)) (\<lambda>right. Inr (byte_dots left @ byte_dots right))
                else Inr (byte_dots left)) (\<lambda>bits.
           Inr (if magnified then concat (map (\<lambda>b. [b, b]) bits) else bits))))"

definition sprite_colour :: "int \<Rightarrow> int \<Rightarrow> palette \<Rightarrow> rgb" where
  "sprite_colour mode colour palette =
     (if mode = 8 then SCREEN8_SPRITE_PALETTE ! nat colour else palette ! nat colour)"

text \<open>A record of the attribute table, and a sprite that shows on a scan line.\<close>

record sprite_record =
  sr_number :: int
  sr_y :: int
  sr_x :: int
  sr_pattern :: int
  sr_colour :: int

record shown_sprite =
  sh_x :: int
  sh_bits :: "bool list"
  sh_colour :: int
  sh_cc :: bool

fun sprite_records ::
  "(int \<Rightarrow> screen_error + int) \<Rightarrow> int \<Rightarrow> int \<Rightarrow> int list \<Rightarrow> screen_error + sprite_record list"
where
  "sprite_records attribute sprite_mode terminator [] = Inr []"
| "sprite_records attribute sprite_mode terminator (number # rest) =
     (let offset = (if sprite_mode = 1 then number * 4 else 512 + number * 4)
      in bindE (attribute offset) (\<lambda>y.
         if y = terminator then Inr []
         else
           bindE (attribute (offset + 1)) (\<lambda>x. bindE (attribute (offset + 2)) (\<lambda>pattern.
           bindE (attribute (offset + 3)) (\<lambda>colour.
           bindE (sprite_records attribute sprite_mode terminator rest) (\<lambda>records.
             Inr (\<lparr>sr_number = number, sr_y = y, sr_x = x, sr_pattern = pattern, sr_colour = colour\<rparr> # records)))))))"

text \<open>The sprite settings \<open>_composite_sprites\<close> reads from the registers.\<close>

record sprite_setup =
  ss_mode :: int
  ss_size :: int
  ss_magnified :: bool
  ss_scroll :: int
  ss_transparent :: bool

definition visible_size :: "sprite_setup \<Rightarrow> int" where
  "visible_size su = ss_size su * (if ss_magnified su then 2 else 1)"

definition show_sprite ::
  "sprite_setup \<Rightarrow> (int \<Rightarrow> screen_error + int) \<Rightarrow> (int \<Rightarrow> screen_error + int) \<Rightarrow> int \<Rightarrow> sprite_record \<Rightarrow>
     screen_error + shown_sprite option"
where
  "show_sprite su line_colour pattern screen_y r =
     (let relative = ((screen_y + ss_scroll su) - ((sr_y r + 1) AND 0xFF)) AND 0xFF
      in if visible_size su \<le> relative then Inr None
         else
           let row = relative div (if ss_magnified su then 2 else 1)
           in bindE (if ss_mode su = 1 then Inr (sr_colour r) else line_colour (sr_number r * 16 + row)) (\<lambda>colour_attr.
              bindE (sprite_bits pattern (sr_pattern r) relative (ss_size su) (ss_magnified su)) (\<lambda>bits.
                Inr (Some \<lparr>sh_x = sr_x r - (if colour_attr AND 0x80 \<noteq> 0 then 32 else 0), sh_bits = bits,
                  sh_colour = colour_attr AND 15, sh_cc = (colour_attr AND 0x40 \<noteq> 0)\<rparr>))))"

text \<open>The loop over the records, with the limit on the sprites of one line.\<close>

fun visible_sprites ::
  "(sprite_record \<Rightarrow> screen_error + shown_sprite option) \<Rightarrow> nat \<Rightarrow> shown_sprite list \<Rightarrow> sprite_record list \<Rightarrow>
     screen_error + shown_sprite list"
where
  "visible_sprites shown limit visible [] = Inr visible"
| "visible_sprites shown limit visible (r # rest) =
     bindE (shown r) (\<lambda>s.
       case s of
         None \<Rightarrow> visible_sprites shown limit visible rest
       | Some sprite \<Rightarrow>
           if length (visible @ [sprite]) = limit then Inr (visible @ [sprite])
           else visible_sprites shown limit (visible @ [sprite]) rest)"

text \<open>Drawing of one line in sprite mode 1, and in mode 2 with the sprites that extend another's colour.\<close>

definition draw_clipped :: "int \<Rightarrow> int \<Rightarrow> int \<Rightarrow> rgb \<Rightarrow> bytes \<Rightarrow> screen_error + bytes" where
  "draw_clipped width x y colour output =
     (if 0 \<le> x \<and> x < width then pixel width x y colour output else Inr output)"

definition draw_sprite1 ::
  "int \<Rightarrow> int \<Rightarrow> palette \<Rightarrow> bool \<Rightarrow> int \<Rightarrow> shown_sprite \<Rightarrow> bytes \<Rightarrow> screen_error + bytes"
where
  "draw_sprite1 width mode palette transparent y sprite output =
     (if sh_colour sprite = 0 \<and> transparent then Inr output
      else foldE (\<lambda>(sx, set_pixel) out.
             if \<not> set_pixel then Inr out
             else draw_clipped width (sh_x sprite + int sx) y (sprite_colour mode (sh_colour sprite) palette) out)
           (List.enumerate 0 (sh_bits sprite)) output)"

function follow_colour :: "shown_sprite list \<Rightarrow> int \<Rightarrow> nat \<Rightarrow> int \<Rightarrow> int" where
  "follow_colour visible logical_x follower colour =
     (if follower < length visible \<and> sh_cc (visible ! follower) then
        let extra = visible ! follower; extra_x = logical_x - sh_x extra;
            lit = (0 \<le> extra_x \<and> extra_x < int (length (sh_bits extra)) \<and> sh_bits extra ! nat extra_x)
        in follow_colour visible logical_x (follower + 1) (if lit then colour OR sh_colour extra else colour)
      else colour)"
  by pat_completeness auto
termination by (relation "measure (\<lambda>(visible, _, follower, _). length visible - follower)") auto

declare follow_colour.simps [simp del]

definition draw_sprite2 ::
  "int \<Rightarrow> int \<Rightarrow> palette \<Rightarrow> bool \<Rightarrow> shown_sprite list \<Rightarrow> int \<Rightarrow> nat \<Rightarrow> bytes \<Rightarrow> screen_error + bytes"
where
  "draw_sprite2 width mode palette transparent visible y index output =
     (let sprite = visible ! index; x_scale = (if mode = 6 \<or> mode = 7 then 2 else 1)
      in foldE (\<lambda>(sx, set_pixel) out.
           if \<not> set_pixel then Inr out
           else
             let logical_x = sh_x sprite + int sx;
                 colour = follow_colour visible logical_x (index + 1) (sh_colour sprite)
             in if colour = 0 \<and> transparent then Inr out
                else
                  let host_x = logical_x * x_scale;
                      colours =
                        (if mode = 6 then [palette ! nat (drop_bit 2 colour), palette ! nat (colour AND 3)]
                         else replicate (nat x_scale) (sprite_colour mode colour palette))
                  in foldE (\<lambda>(subpixel, rgb). draw_clipped width (host_x + int subpixel) y rgb)
                       (List.enumerate 0 colours) out)
         (List.enumerate 0 (sh_bits sprite)) output)"

definition draw_line ::
  "int \<Rightarrow> int \<Rightarrow> palette \<Rightarrow> sprite_setup \<Rightarrow> int \<Rightarrow> shown_sprite list \<Rightarrow> bytes \<Rightarrow> screen_error + bytes"
where
  "draw_line width mode palette su y visible output =
     (if ss_mode su = 1 then
        foldE (draw_sprite1 width mode palette (ss_transparent su) y) (rev visible) output
      else
        foldE (draw_sprite2 width mode palette (ss_transparent su) visible y)
          (rev (filter (\<lambda>i. \<not> sh_cc (visible ! i)) [0..<length visible])) output)"

definition setup_of :: "int \<Rightarrow> int list \<Rightarrow> sprite_setup" where
  "setup_of mode regs =
     \<lparr>ss_mode = (if mode = 1 \<or> mode = 2 \<or> mode = 3 then 1 else 2),
      ss_size = (if regs ! 1 AND 0x02 \<noteq> 0 then 16 else 8),
      ss_magnified = (regs ! 1 AND 0x01 \<noteq> 0),
      ss_scroll = regs ! 23,
      ss_transparent = (regs ! 8 AND 0x20 = 0)\<rparr>"

definition composite_sprites ::
  "bytes \<Rightarrow> int \<Rightarrow> int \<Rightarrow> bytes \<Rightarrow> int \<Rightarrow> int list \<Rightarrow> palette \<Rightarrow> bases \<Rightarrow> screen_error + bytes"
where
  "composite_sprites output width height vram mode regs palette bases =
     (if mode = 0 \<or> regs ! 8 AND 0x02 \<noteq> 0 then Inr output
      else
        let su = setup_of mode regs; sm = ss_mode su;
            limit = (if sm = 1 then 4 else 8); terminator = (if sm = 1 then 208 else 216)
        in bindE (sprite_records (sprite_attribute vram regs bases sm) sm terminator (range_int 32)) (\<lambda>records.
           foldE (\<lambda>y out.
             bindE (visible_sprites (show_sprite su (sprite_line_colour vram regs bases) (sprite_pattern vram regs bases) y)
               limit [] records) (\<lambda>visible. draw_line width mode palette su y visible out))
             (range_int height) output))"

text \<open>The keyword arguments of \<open>render_vram\<close>.\<close>

record render_options =
  ro_height :: "int option"
  ro_page :: "int option"
  ro_sprites :: bool
  ro_text_width :: "int option"
  ro_blink :: bool
  ro_bases :: bases

definition render_vram ::
  "bytes \<Rightarrow> int \<Rightarrow> int list option \<Rightarrow> int list list option \<Rightarrow> render_options \<Rightarrow> screen_error + image"
where
  "render_vram vram mode regs palette ro =
     bindE (validate_mode mode) (\<lambda>_.
     bindE (registers regs) (\<lambda>regs.
     bindE (normalise_palette palette) (\<lambda>palette.
     bindE (active_height regs (ro_height ro)) (\<lambda>height.
     bindE (if mode \<le> 4 then render_characters vram mode regs palette height (ro_bases ro) (ro_text_width ro) (ro_blink ro)
            else render_bitmap vram mode regs palette height (ro_page ro) (ro_bases ro)) (\<lambda>(output, width, height).
       if ro_sprites ro \<and> mode \<noteq> 0 then
         bindE (composite_sprites output width height vram mode regs palette (ro_bases ro)) (\<lambda>output.
           Inr (output, width, height))
       else Inr (output, width, height))))))"

subsection \<open>The functions per mode\<close>

definition default_options :: render_options where
  "default_options =
     \<lparr>ro_height = None, ro_page = None, ro_sprites = True, ro_text_width = None, ro_blink = False, ro_bases = []\<rparr>"

definition raw_registers :: "int list" where
  "raw_registers = (replicate 28 0)[1 := 0x40, 7 := 0xF4, 8 := 0x20, 9 := 0x80]"

text \<open>\<open>palette or TMS\<close>: an empty palette counts as none.\<close>

definition palette_or :: "int list list option \<Rightarrow> palette \<Rightarrow> int list list option" where
  "palette_or palette fallback =
     (case palette of
        Some (e # es) \<Rightarrow> Some (e # es)
      | _ \<Rightarrow> Some (map (\<lambda>(r, g, b). [r, g, b]) fallback))"

definition raw_options :: "int \<Rightarrow> bases \<Rightarrow> render_options" where
  "raw_options height bases = default_options\<lparr>ro_height := Some height, ro_sprites := False, ro_bases := bases\<rparr>"

definition render_screen0 ::
  "bytes \<Rightarrow> int \<Rightarrow> int option \<Rightarrow> int \<Rightarrow> int list list option \<Rightarrow> int \<Rightarrow> int \<Rightarrow> int \<Rightarrow> int option \<Rightarrow> bool \<Rightarrow>
     screen_error + image"
where
  "render_screen0 v pnt pgt width palette height fg bg ct blink =
     (let pgt = (case pgt of Some p \<Rightarrow> p | None \<Rightarrow> if width = 80 then 0x1000 else 0x0800);
          ct = (case ct of Some c \<Rightarrow> Some c | None \<Rightarrow> if width = 80 then Some 0x0800 else None);
          regs = raw_registers[7 := push_bit 4 (fg AND 15) OR (bg AND 15)];
          bases = [(''name'', pnt), (''pattern'', pgt)] @ (case ct of None \<Rightarrow> [] | Some c \<Rightarrow> [(''color'', c)])
      in render_vram v 0 (Some regs) (palette_or palette TMS)
           ((raw_options height bases)\<lparr>ro_text_width := Some width, ro_blink := blink\<rparr>))"

definition render_screen1 where
  "render_screen1 v pnt pgt ct palette height =
     render_vram v 1 (Some raw_registers) (palette_or palette TMS)
       (raw_options height [(''name'', pnt), (''pattern'', pgt), (''color'', ct)])"

definition render_screen2 where
  "render_screen2 v pnt pgt ct palette height =
     render_vram v 2 (Some raw_registers) (palette_or palette TMS)
       (raw_options height [(''name'', pnt), (''pattern'', pgt), (''color'', ct)])"

definition render_screen3 where
  "render_screen3 v pnt pgt palette height =
     render_vram v 3 (Some raw_registers) (palette_or palette TMS)
       (raw_options height [(''name'', pnt), (''pattern'', pgt)])"

definition render_screen4 where
  "render_screen4 v pnt pgt ct palette height =
     render_vram v 4 (Some raw_registers) palette
       (raw_options height [(''name'', pnt), (''pattern'', pgt), (''color'', ct)])"

definition render_screen5 where
  "render_screen5 v palette height base = render_vram v 5 (Some raw_registers) palette (raw_options height [(''bitmap'', base)])"

definition render_screen6 where
  "render_screen6 v palette height base = render_vram v 6 (Some raw_registers) palette (raw_options height [(''bitmap'', base)])"

definition render_screen7 where
  "render_screen7 v palette height base = render_vram v 7 (Some raw_registers) palette (raw_options height [(''bitmap'', base)])"

definition render_screen8 where
  "render_screen8 v height base =
     render_vram v 8 (Some raw_registers) (Some (map (\<lambda>(r, g, b). [r, g, b]) V9938_DEFAULT))
       (raw_options height [(''bitmap'', base)])"

definition render_screen10 where
  "render_screen10 v palette height base =
     render_vram v 10 (Some raw_registers) palette (raw_options height [(''bitmap'', base)])"

definition render_screen11 where
  "render_screen11 v palette height base =
     render_vram v 11 (Some raw_registers) palette (raw_options height [(''bitmap'', base)])"

definition render_screen12 where
  "render_screen12 v palette height base =
     render_vram v 12 (Some raw_registers) palette (raw_options height [(''bitmap'', base)])"

text \<open>A text dump: \<open>names // width\<close> raises for a zero width.\<close>

definition render_text_vram ::
  "bytes \<Rightarrow> bytes \<Rightarrow> int \<Rightarrow> int list list option \<Rightarrow> int \<Rightarrow> int \<Rightarrow> screen_error + image"
where
  "render_text_vram names font width palette fg bg =
     (let total = max (0x800 + length font) (length names);
          vram = names @ replicate (total - length names) 0;
          vram = take 0x800 vram @ font @ drop (0x800 + length font) vram
      in if width = 0 then Inl ScreenZeroDivision
         else render_screen0 vram 0 (Some 0x0800) width (palette_or palette TMS)
                (max 1 (int (length names) div width) * 8) fg bg None False)"

end
