(* ===== verification/Screen_Capture.thy ===== *)
theory Screen_Capture
  imports Screen_Render Effects Digest Python_Text
begin

text \<open>
  \<open>server/msx_screenshot.py\<close>, the captures: PNG files, the set of addresses a screenshot needs and its
  ranges, the captures of openMSX and of a real machine. The client's reads are parameters: \<open>peek\<close>
  and \<open>vpeek\<close> read memory and video memory, \<open>cmd\<close> sends a Tcl command.
\<close>

subsection \<open>PNG files\<close>

text \<open>
  \<open>compress\<close> stands for \<open>zlib.compress(_, 9)\<close>. The result is what the function writes to the file.
\<close>

definition pack_be32 :: "int \<Rightarrow> screen_error + bytes" where
  "pack_be32 v = (if 0 \<le> v \<and> v < 2 ^ 32 then Inr (rev (le_bytes 4 v)) else Inl ScreenStructError)"

definition png_chunk :: "bytes \<Rightarrow> bytes \<Rightarrow> screen_error + bytes" where
  "png_chunk kind data =
     (let body = kind @ data
      in bindE (pack_be32 (int (length data))) (\<lambda>len.
         bindE (pack_be32 (zlib_crc32 body 0)) (\<lambda>crc. Inr (len @ body @ crc))))"

definition png_rows :: "int \<Rightarrow> int \<Rightarrow> bytes \<Rightarrow> bytes" where
  "png_rows w h rgb = concat (map (\<lambda>y. 0 # slice (y * nat (w * 3)) (nat (w * 3)) rgb) [0..<nat h])"

definition ascii_bytes :: "string \<Rightarrow> bytes" where "ascii_bytes s = map (\<lambda>c. of_nat (of_char c)) s"

definition write_png :: "(bytes \<Rightarrow> bytes) \<Rightarrow> int \<Rightarrow> int \<Rightarrow> bytes \<Rightarrow> screen_error + bytes" where
  "write_png compress w h rgb =
     (if int (length rgb) \<noteq> w * h * 3 then Inl ScreenValueError
      else
        bindE (pack_be32 w) (\<lambda>wb. bindE (pack_be32 h) (\<lambda>hb.
        bindE (png_chunk (ascii_bytes ''IHDR'') (wb @ hb @ [8, 2, 0, 0, 0])) (\<lambda>ihdr.
        bindE (png_chunk (ascii_bytes ''IDAT'') (compress (png_rows w h rgb))) (\<lambda>idat.
        bindE (png_chunk (ascii_bytes ''IEND'') []) (\<lambda>iend.
          Inr ([137, 80, 78, 71, 13, 10, 26, 10] @ ihdr @ idat @ iend)))))))"

subsection \<open>What a screenshot reads\<close>

definition add_table :: "int \<Rightarrow> nat \<Rightarrow> nat \<Rightarrow> int list \<Rightarrow> int set" where
  "add_table base low_bits index_bits indices = set (map (\<lambda>i. table_addr base low_bits i index_bits) indices)"

definition background_addresses :: "int \<Rightarrow> int list \<Rightarrow> int \<Rightarrow> int option \<Rightarrow> int option \<Rightarrow> screen_error + int set" where
  "background_addresses mode regs height page text_width =
     (let colour_base = push_bit 14 (regs ! 10) OR push_bit 6 (regs ! 3)
      in if mode = 0 then
           let width = text_columns regs text_width
           in Inr ((if width = 40 then
                      add_table (push_bit 10 (regs ! 2)) 10 12
                        (concat (map (\<lambda>row. map (\<lambda>column. 0xC00 + row * 40 + column) (range_int 40))
                           (range_int ((height + 7) div 8))))
                    else
                      add_table (push_bit 10 (regs ! 2)) 10 12 (range_int ((height + 7) div 8 * 80)) \<union>
                      add_table colour_base 6 9 (range_int ((height + 7) div 8 * 10))) \<union>
                   add_table (push_bit 11 (regs ! 4)) 11 11 (range_int 0x800))
         else if mode = 1 then
           Inr (add_table (push_bit 10 (regs ! 2)) 10 10 (range_int 0x400) \<union>
                add_table (push_bit 11 (regs ! 4)) 11 11 (range_int 0x800) \<union>
                add_table colour_base 6 6 (range_int 0x40))
         else if mode = 2 \<or> mode = 4 then
           Inr (add_table (push_bit 10 (regs ! 2)) 10 10 (range_int 0x400) \<union>
                add_table (push_bit 11 (regs ! 4)) 11 13 (range_int 0x2000) \<union>
                add_table colour_base 6 13 (range_int 0x2000))
         else if mode = 3 then
           Inr (add_table (push_bit 10 (regs ! 2)) 10 10 (range_int 0x400) \<union>
                add_table (push_bit 11 (regs ! 4)) 11 11 (range_int 0x800))
         else
           bindE (bitmap_page_base mode regs page []) (\<lambda>base.
             let stride = bitmap_stride mode
             in Inr (\<Union> (set (map (\<lambda>y. let line = (y + regs ! 23) AND 0xFF
                                      in set (map (\<lambda>i. base + line * stride + i) (range_int stride)))
                              (range_int height))))))"

definition sprite_addresses :: "int \<Rightarrow> int list \<Rightarrow> bool \<Rightarrow> int set" where
  "sprite_addresses mode regs sprites =
     (if sprites \<and> mode \<noteq> 0 \<and> regs ! 8 AND 0x02 = 0 then
        let sprite_mode = (if mode = 1 \<or> mode = 2 \<or> mode = 3 then 1 else 2 :: int)
        in add_table (sprite_base regs) 7 (if sprite_mode = 2 then 10 else 7)
             (range_int (if sprite_mode = 2 then 0x400 else 0x80)) \<union>
           add_table (push_bit 11 (regs ! 6)) 11 11 (range_int 0x800)
      else {})"

definition addresses_for_capture ::
  "int \<Rightarrow> int list \<Rightarrow> int \<Rightarrow> bool \<Rightarrow> int option \<Rightarrow> int option \<Rightarrow> screen_error + int set"
where
  "addresses_for_capture mode regs height sprites page text_width =
     bindE (background_addresses mode regs height page text_width) (\<lambda>addresses.
       Inr (addresses \<union> sprite_addresses mode regs sprites))"

text \<open>The runs of consecutive addresses, as pairs of a base and a length.\<close>

fun runs :: "int \<Rightarrow> int \<Rightarrow> int list \<Rightarrow> (int \<times> int) list" where
  "runs start previous [] = [(start, previous - start + 1)]"
| "runs start previous (address # rest) =
     (if address \<noteq> previous + 1 then (start, previous - start + 1) # runs address address rest
      else runs start address rest)"

definition ranges :: "int set \<Rightarrow> (int \<times> int) list" where
  "ranges addresses =
     (case sorted_list_of_set addresses of [] \<Rightarrow> [] | a # rest \<Rightarrow> runs a a rest)"

type_synonym 's reader = "int \<Rightarrow> int \<Rightarrow> ('s, screen_error, bytes) comp"

text \<open>\<open>assign_slice a n xs ys\<close> is \<open>xs[a:a+n] = ys\<close>.\<close>

definition assign_slice :: "nat \<Rightarrow> nat \<Rightarrow> 'a list \<Rightarrow> 'a list \<Rightarrow> 'a list" where
  "assign_slice a n xs ys = take a xs @ ys @ drop (a + n) xs"

fun read_ranges :: "'s reader \<Rightarrow> (int \<times> int) list \<Rightarrow> bytes \<Rightarrow> ('s, screen_error, bytes) comp" where
  "read_ranges reader [] vram = ret vram"
| "read_ranges reader ((base, n) # rest) vram =
     bindIO (reader base n) (\<lambda>data. read_ranges reader rest (assign_slice (nat base) (nat n) vram data))"

definition blank_vram :: bytes where "blank_vram = replicate (nat SCREEN_VRAM_SIZE) 0"

definition capture_vram :: "'s reader \<Rightarrow> int set \<Rightarrow> ('s, screen_error, bytes) comp" where
  "capture_vram reader addresses = read_ranges reader (ranges addresses) blank_vram"

subsection \<open>Screenshots of openMSX\<close>

text \<open>The Tcl commands by what they ask; \<open>cmd\<close> is the \<open>cmd\<close> of the client, \<open>screen_mode\<close> its \<open>screen_mode\<close>.\<close>

datatype screen_command = ReadBlock int int | ReadRegister int | ReadPalette

type_synonym 's tcl = "screen_command \<Rightarrow> ('s, screen_error, string) comp"

definition int_decimal :: "string \<Rightarrow> int option" where
  "int_decimal text =
     (let s = strip text; u = (if take 1 s = ''+'' \<or> take 1 s = ''-'' then drop 1 s else s)
      in if 4300 < length (filter (\<lambda>c. c \<noteq> CHR ''_'') u) then None
         else map_option (\<lambda>v. if take 1 s = ''-'' then - v else v) (digits 10 u))"

definition parse_int :: "string \<Rightarrow> screen_error + int" where
  "parse_int t = (case int_decimal t of None \<Rightarrow> Inl ScreenValueError | Some v \<Rightarrow> Inr v)"

text \<open>\<open>bytes.fromhex\<close>, which skips white space between the bytes.\<close>

fun hex_text_bytes :: "string \<Rightarrow> bytes option" where
  "hex_text_bytes [] = Some []"
| "hex_text_bytes (c # cs) =
     (if ord_char c = 32 \<or> 9 \<le> ord_char c \<and> ord_char c \<le> 13 then hex_text_bytes cs
      else case cs of
        [] \<Rightarrow> None
      | d # ds \<Rightarrow>
          (case (digit_value 16 c, digit_value 16 d, hex_text_bytes ds) of
             (Some h, Some l, Some bs) \<Rightarrow> Some (of_nat (16 * h + l) # bs)
           | _ \<Rightarrow> None))"

definition parse_hex :: "string \<Rightarrow> screen_error + bytes" where
  "parse_hex t = (case hex_text_bytes (strip t) of None \<Rightarrow> Inl ScreenValueError | Some bs \<Rightarrow> Inr bs)"

definition rd :: "'s tcl \<Rightarrow> 's reader" where
  "rd cmd base n = bindIO (cmd (ReadBlock base n)) (\<lambda>data. lift_result (parse_hex data))"

fun read_registers :: "'s tcl \<Rightarrow> int list \<Rightarrow> ('s, screen_error, int list) comp" where
  "read_registers cmd [] = ret []"
| "read_registers cmd (i # rest) =
     bindIO (cmd (ReadRegister i)) (\<lambda>t. bindIO (lift_result (parse_int t)) (\<lambda>v.
     bindIO (read_registers cmd rest) (\<lambda>vs. ret (v # vs))))"

definition screen_openmsx_registers :: "'s tcl \<Rightarrow> ('s, screen_error, int list) comp" where
  "screen_openmsx_registers cmd = read_registers cmd (range_int 28)"

definition entries_of :: "palette \<Rightarrow> int list list" where
  "entries_of p = map (\<lambda>(r, g, b). [r, g, b]) p"

definition openmsx_palette :: "'s tcl \<Rightarrow> int list list option \<Rightarrow> ('s, screen_error, int list list) comp" where
  "openmsx_palette cmd palette =
     (case palette of
        Some p \<Rightarrow> ret p
      | None \<Rightarrow>
          catch (bindIO (cmd ReadPalette) (\<lambda>t. bindIO (lift_result (parse_hex t)) (\<lambda>raw.
                 bindIO (lift_result (decode_palette raw)) (\<lambda>p. ret (entries_of p)))))
            (\<lambda>_. ret (entries_of V9938_DEFAULT)))"

definition capture_options :: "int \<Rightarrow> int option \<Rightarrow> bool \<Rightarrow> int option \<Rightarrow> render_options" where
  "capture_options height page sprites text_width =
     default_options\<lparr>ro_height := Some height, ro_page := page, ro_sprites := sprites, ro_text_width := text_width\<rparr>"

definition capture_openmsx ::
  "(bytes \<Rightarrow> bytes) \<Rightarrow> ('s, screen_error, int) comp \<Rightarrow> 's tcl \<Rightarrow> int list list option \<Rightarrow> bool \<Rightarrow> int option \<Rightarrow>
     ('s, screen_error, bytes \<times> int) comp"
where
  "capture_openmsx compress screen_mode cmd palette sprites page =
     bindIO screen_mode (\<lambda>mode.
     bindIO (lift_result (validate_mode mode)) (\<lambda>_.
     bindIO (screen_openmsx_registers cmd) (\<lambda>regs.
     let text_width = (if mode = 0 \<and> regs ! 0 AND 0x04 \<noteq> 0 then Some 80 else None)
     in bindIO (lift_result (active_height regs None)) (\<lambda>height.
     bindIO (openmsx_palette cmd palette) (\<lambda>palette.
     bindIO (lift_result (addresses_for_capture mode regs height sprites page text_width)) (\<lambda>addresses.
     bindIO (capture_vram (rd cmd) addresses) (\<lambda>vram.
     bindIO (lift_result (render_vram vram mode (Some regs) (Some palette)
         (capture_options height page sprites text_width))) (\<lambda>(rgb, width, height).
     bindIO (lift_result (write_png compress width height rgb)) (\<lambda>file. ret (file, mode))))))))))"

text \<open>\<open>_render_text\<close>\<close>

definition render_text :: "'s tcl \<Rightarrow> ('s, screen_error, image) comp" where
  "render_text cmd =
     bindIO (screen_openmsx_registers cmd) (\<lambda>regs.
     let width = (if regs ! 0 AND 0x04 \<noteq> 0 then 80 else 40)
     in bindIO (lift_result (active_height regs None)) (\<lambda>height.
     bindIO (lift_result (addresses_for_capture 0 regs height False None (Some width))) (\<lambda>addresses.
     bindIO (capture_vram (rd cmd) addresses) (\<lambda>vram.
       lift_result (render_vram vram 0 (Some regs) (Some (entries_of TMS))
         (capture_options height None False (Some width)))))))"

subsection \<open>Screenshots of a real machine\<close>

definition real_registers :: "'s reader \<Rightarrow> ('s, screen_error, int list) comp" where
  "real_registers peek =
     (let regs = replicate 28 0
      in bindIO (peek 0xF3DF 8) (\<lambda>p1. let regs = assign_slice 0 8 regs (map uint p1)
      in bindIO (peek 0xFFE7 16) (\<lambda>p2. let regs = assign_slice 8 16 regs (map uint p2)
      in bindIO (peek 0xFFFA 3) (\<lambda>p3. ret (assign_slice 25 3 regs (map uint p3))))))"

record capture_plan =
  cp_mode :: int
  cp_regs :: "int list"
  cp_text_width :: "int option"
  cp_height :: int
  cp_sprites :: bool
  cp_page :: "int option"
  cp_ranges :: "(int \<times> int) list"

definition vram_bytes :: "capture_plan \<Rightarrow> int" where "vram_bytes plan = sum_list (map snd (cp_ranges plan))"

definition metadata_bytes :: "capture_plan \<Rightarrow> int" where
  "metadata_bytes plan = 1 + 8 + 16 + 3 + (if cp_mode plan = 0 then 1 else 0)"

definition target_bytes :: "capture_plan \<Rightarrow> int" where "target_bytes plan = metadata_bytes plan + vram_bytes plan"

definition metadata_reads :: "capture_plan \<Rightarrow> int" where
  "metadata_reads plan = 4 + (if cp_mode plan = 0 then 1 else 0)"

definition first_byte :: "bytes \<Rightarrow> screen_error + int" where
  "first_byte bs = (case bs of [] \<Rightarrow> Inl ScreenIndexError | b # _ \<Rightarrow> Inr (uint b))"

definition plan_realmsx_capture :: "'s reader \<Rightarrow> bool \<Rightarrow> int option \<Rightarrow> ('s, screen_error, capture_plan) comp" where
  "plan_realmsx_capture peek sprites page =
     bindIO (peek 0xFCAF 1) (\<lambda>b. bindIO (lift_result (first_byte b)) (\<lambda>mode.
     bindIO (lift_result (validate_mode mode)) (\<lambda>_.
     bindIO (real_registers peek) (\<lambda>regs.
     bindIO (if mode = 0 then
               bindIO (peek 0xF3B0 1) (\<lambda>b. bindIO (lift_result (first_byte b)) (\<lambda>w. ret (Some w)))
             else ret None) (\<lambda>text_width.
     let text_width =
           (if text_width \<noteq> Some 40 \<and> text_width \<noteq> Some 80 then Some (if regs ! 0 AND 0x04 \<noteq> 0 then 80 else 40)
            else text_width)
     in bindIO (lift_result (active_height regs None)) (\<lambda>height.
        bindIO (lift_result (addresses_for_capture mode regs height sprites page text_width)) (\<lambda>addresses.
          ret \<lparr>cp_mode = mode, cp_regs = regs, cp_text_width = text_width, cp_height = height,
               cp_sprites = sprites, cp_page = page, cp_ranges = ranges addresses\<rparr>)))))))"

definition acquire_realmsx_capture ::
  "'s reader \<Rightarrow> 's reader \<Rightarrow> bool \<Rightarrow> int option \<Rightarrow> capture_plan option \<Rightarrow>
     ('s, screen_error, capture_plan \<times> bytes) comp"
where
  "acquire_realmsx_capture peek vpeek sprites page plan =
     bindIO (case plan of None \<Rightarrow> plan_realmsx_capture peek sprites page | Some p \<Rightarrow> ret p) (\<lambda>plan.
     bindIO (read_ranges vpeek (cp_ranges plan) blank_vram) (\<lambda>vram. ret (plan, vram)))"

definition render_realmsx_capture ::
  "(bytes \<Rightarrow> bytes) \<Rightarrow> capture_plan \<times> bytes \<Rightarrow> int list list option \<Rightarrow> screen_error + bytes \<times> int"
where
  "render_realmsx_capture compress capture palette =
     (case capture of (plan, vram) \<Rightarrow>
        bindE (render_vram vram (cp_mode plan) (Some (cp_regs plan)) (palette_or palette V9938_DEFAULT)
            (capture_options (cp_height plan) (cp_page plan) (cp_sprites plan) (cp_text_width plan)))
          (\<lambda>(rgb, width, height).
        bindE (write_png compress width height rgb) (\<lambda>file. Inr (file, cp_mode plan))))"

definition capture_realmsx ::
  "(bytes \<Rightarrow> bytes) \<Rightarrow> 's reader \<Rightarrow> 's reader \<Rightarrow> int list list option \<Rightarrow> bool \<Rightarrow> int option \<Rightarrow>
     ('s, screen_error, bytes \<times> int) comp"
where
  "capture_realmsx compress peek vpeek palette sprites page =
     bindIO (acquire_realmsx_capture peek vpeek sprites page None) (\<lambda>capture.
       lift_result (render_realmsx_capture compress capture palette))"

subsection \<open>Addresses and bytes\<close>

named_theorems screen_simps

lemma and_ones [screen_simps]:
  fixes x :: int
  shows "x AND 3 = x mod 4" "x AND 7 = x mod 8" "x AND 15 = x mod 16" "x AND 31 = x mod 32" "x AND 255 = x mod 256"
  using take_bit_eq_mask [of 2 x] take_bit_eq_mask [of 3 x] take_bit_eq_mask [of 4 x] take_bit_eq_mask [of 5 x]
    take_bit_eq_mask [of 8 x] by (simp_all add: mask_eq_exp_minus_1 take_bit_eq_mod)

lemma table_addr_bounds [simp]:
  "0 \<le> table_addr base low index bits" "table_addr base low index bits < SCREEN_VRAM_SIZE"
proof -
  let ?b = "(base OR (push_bit low 1 - 1)) AND (SCREEN_VRAM_SIZE - 1)"
  let ?e = "index OR ((SCREEN_VRAM_SIZE - 1) AND NOT (push_bit bits 1 - 1))"
  have "0 \<le> ?b" by (simp add: SCREEN_VRAM_SIZE_def)
  moreover have "?b \<le> SCREEN_VRAM_SIZE - 1" by (rule AND_upper2) (simp add: SCREEN_VRAM_SIZE_def)
  moreover have "?b AND ?e \<le> ?b" by (rule AND_upper1) fact
  ultimately show "0 \<le> table_addr base low index bits" "table_addr base low index bits < SCREEN_VRAM_SIZE"
    by (simp_all add: table_addr_def Let_def)
qed

definition full_dump :: "bytes \<Rightarrow> bool" where "full_dump v \<longleftrightarrow> int (length v) = SCREEN_VRAM_SIZE"

lemma vbyte_full: "full_dump v \<Longrightarrow> 0 \<le> a \<Longrightarrow> a < SCREEN_VRAM_SIZE \<Longrightarrow> vbyte v a = Inr (uint (v ! nat a))"
  by (simp add: vbyte_def full_dump_def)

lemma vbyte_bounds: "vbyte v a = Inr b \<Longrightarrow> 0 \<le> b \<and> b < 256"
  by (auto simp: vbyte_def split: if_splits)

lemma table_bytes_bounds:
  "name_byte v regs bases i n l = Inr b \<Longrightarrow> 0 \<le> b \<and> b < 256"
  "pattern_byte v regs bases i n = Inr b \<Longrightarrow> 0 \<le> b \<and> b < 256"
  "colour_byte v regs bases i n = Inr b \<Longrightarrow> 0 \<le> b \<and> b < 256"
  "sprite_attribute v regs bases m i = Inr b \<Longrightarrow> 0 \<le> b \<and> b < 256"
  "sprite_pattern v regs bases i = Inr b \<Longrightarrow> 0 \<le> b \<and> b < 256"
  "sprite_line_colour v regs bases i = Inr b \<Longrightarrow> 0 \<le> b \<and> b < 256"
  unfolding name_byte_def pattern_byte_def colour_byte_def sprite_attribute_def sprite_pattern_def sprite_line_colour_def
  by (simp_all split: option.splits add: vbyte_bounds)

lemma set_range_int [simp]: "set (range_int n) = {0..<n}"
  by (auto simp: range_int_def)

lemma foldE_cong [fundef_cong]:
  "xs = ys \<Longrightarrow> s = t \<Longrightarrow> (\<And>x u. x \<in> set ys \<Longrightarrow> f x u = g x u) \<Longrightarrow> foldE f xs s = foldE g ys t"
proof (induction xs arbitrary: ys s t)
  case (Cons x xs)
  have "foldE f xs u = foldE g xs u" for u using Cons by auto
  then have "foldE f xs = foldE g xs" by (rule ext)
  then show ?case using Cons.prems by auto
qed simp

lemma mapE_cong: "(\<And>x. x \<in> set xs \<Longrightarrow> f x = g x) \<Longrightarrow> mapE f xs = mapE g xs"
  by (induction xs) auto

text \<open>An invariant \<open>P\<close> of a loop whose steps do not fail.\<close>

lemma foldE_ok:
  assumes "P s" "\<And>x u. x \<in> set xs \<Longrightarrow> P u \<Longrightarrow> \<exists>u'. f x u = Inr u' \<and> P u'"
  shows "\<exists>s'. foldE f xs s = Inr s' \<and> P s'"
  using assms
proof (induction xs arbitrary: s)
  case (Cons x xs)
  obtain u where "f x s = Inr u" "P u" using Cons.prems by fastforce
  then show ?case using Cons.IH [of u] Cons.prems(2) by simp
qed simp

lemma mapE_ok: "(\<And>x. x \<in> set xs \<Longrightarrow> \<exists>y. f x = Inr y \<and> P y) \<Longrightarrow> \<exists>ys. mapE f xs = Inr ys \<and> length ys = length xs \<and> list_all P ys"
proof (induction xs)
  case (Cons x xs)
  obtain y where "f x = Inr y" "P y" using Cons.prems by fastforce
  moreover obtain ys where "mapE f xs = Inr ys" "length ys = length xs" "list_all P ys" using Cons by auto
  ultimately show ?case by simp
qed simp

subsection \<open>Two dumps that agree on the addresses of a screenshot\<close>

definition agree :: "int set \<Rightarrow> bytes \<Rightarrow> bytes \<Rightarrow> bool" where
  "agree A v w \<longleftrightarrow> full_dump v \<and> full_dump w \<and> (\<forall>a\<in>A. 0 \<le> a \<longrightarrow> a < SCREEN_VRAM_SIZE \<longrightarrow> v ! nat a = w ! nat a)"

lemma agree_mono: "agree A v w \<Longrightarrow> B \<subseteq> A \<Longrightarrow> agree B v w"
  by (auto simp: agree_def)

lemma agree_vbyte: "agree A v w \<Longrightarrow> a \<in> A \<Longrightarrow> vbyte v a = vbyte w a"
  by (auto simp: agree_def full_dump_def vbyte_def)

lemma in_add_table: "i \<in> set is \<Longrightarrow> table_addr base low i bits \<in> add_table base low bits is"
  by (simp add: add_table_def)

lemma agree_table: "agree (add_table base low bits is) v w \<Longrightarrow> i \<in> set is \<Longrightarrow>
    vbyte v (table_addr base low i bits) = vbyte w (table_addr base low i bits)"
  by (rule agree_vbyte [OF _ in_add_table])

lemma agree_Un: "agree (A \<union> B) v w \<longleftrightarrow> agree A v w \<and> agree B v w"
  by (auto simp: agree_def)

lemma text_char_agree:
  assumes "agree A v w" "background_addresses 0 regs height page (Some width) = Inr A"
    and "width = 40 \<or> width = 80" "0 \<le> y" "y < height" "0 \<le> column" "column < width"
  shows "text_char v regs [] width blink (y div 8) column = text_char w regs [] width blink (y div 8) column"
proof -
  have row: "0 \<le> y div 8" "y div 8 < (height + 7) div 8" using assms(4,5) by (auto simp: div_less_iff_less_mult)
  show ?thesis
  proof (cases "width = 40")
    case True
    then have "agree (add_table (push_bit 10 (regs ! 2)) 10 12
        (concat (map (\<lambda>row. map (\<lambda>column. 0xC00 + row * 40 + column) (range_int 40)) (range_int ((height + 7) div 8))))) v w"
      using assms(1,2) by (auto simp: background_addresses_def text_columns_def agree_Un)
    then have "vbyte v (table_addr (push_bit 10 (regs ! 2)) 10 (0xC00 + y div 8 * 40 + column) 12) =
        vbyte w (table_addr (push_bit 10 (regs ! 2)) 10 (0xC00 + y div 8 * 40 + column) 12)"
      by (rule agree_table) (use True row assms(6,7) in \<open>auto intro!: bexI [of _ "y div 8"]\<close>)
    then show ?thesis using True by (simp add: text_char_def name_byte_def)
  next
    case False
    then have width: "width = 80" using assms(3) by simp
    then have A: "agree (add_table (push_bit 10 (regs ! 2)) 10 12 (range_int ((height + 7) div 8 * 80))) v w"
      "agree (add_table (push_bit 14 (regs ! 10) OR push_bit 6 (regs ! 3)) 6 9 (range_int ((height + 7) div 8 * 10))) v w"
      using assms(1,2) by (auto simp: background_addresses_def text_columns_def agree_Un)
    have "y div 8 * 80 + column < (height + 7) div 8 * 80" "0 \<le> y div 8 * 80 + column"
      "y div 8 * 10 + column div 8 < (height + 7) div 8 * 10" "0 \<le> y div 8 * 10 + column div 8"
      using row assms(6,7) width by auto
    then show ?thesis using A width
      by (simp add: text_char_def name_byte_def colour_byte_def)
        (intro bindE_cong agree_table [OF A(1)] agree_table [OF A(2)]; simp)
  qed
qed

lemma text_cell_agree:
  assumes "agree A v w" "background_addresses 0 regs height page (Some width) = Inr A"
    and "width = 40 \<or> width = 80" "0 \<le> y" "y < height" "0 \<le> column" "column < width"
  shows "text_cell v regs fg [] width blink y column = text_cell w regs fg [] width blink y column"
proof
  fix out
  have "agree (add_table (push_bit 11 (regs ! 4)) 11 11 (range_int 0x800)) v w"
    using assms(1,2) by (auto simp: background_addresses_def agree_Un Let_def)
  then have p: "pattern_byte v regs [] (char * 8 + (k AND 7)) 11 = pattern_byte w regs [] (char * 8 + (k AND 7)) 11"
    if "0 \<le> char" "char < 256" for char k
    using that pos_mod_bound [of 8 k] pos_mod_sign [of 8 k] unfolding pattern_byte_def screen_simps
    by (auto intro!: agree_table)
  have c: "0 \<le> fst cu \<and> fst cu < 256" if "text_char w regs [] width blink (y div 8) column = Inr cu" for cu
    using that table_bytes_bounds(1) by (auto simp: text_char_def result_simps split: if_splits)
  show "text_cell v regs fg [] width blink y column out = text_cell w regs fg [] width blink y column out"
    unfolding text_cell_def Let_def text_char_agree [OF assms] using c p
    by (auto intro!: bindE_cong split: prod.splits)
qed

lemma mod_bounds [simp]: "0 < m \<Longrightarrow> 0 \<le> x mod m" "0 < m \<Longrightarrow> x mod m < m" for x m :: int
  by simp_all

lemma cell_index:
  fixes a b m n :: int
  assumes "0 \<le> a" "a < m" "0 \<le> b" "b < n"
  shows "a * n + b \<in> set (range_int (m * n))"
proof -
  have "a * n + b < a * n + n" using assms by simp
  also have "\<dots> = (a + 1) * n" by (simp add: distrib_right)
  also have "\<dots> \<le> m * n" using assms by (intro mult_right_mono) auto
  finally show ?thesis using assms by simp
qed

lemma text_columns_again [simp]: "text_columns regs (Some (text_columns regs tw)) = text_columns regs tw"
  by (simp add: text_columns_def split: option.splits)

lemma tile_addresses:
  assumes "background_addresses mode regs height page tw = Inr A" "mode \<in> {1, 2, 3, 4}"
  shows "add_table (push_bit 10 (regs ! 2)) 10 10 (range_int 0x400) \<subseteq> A"
    "mode \<in> {1, 3} \<Longrightarrow> add_table (push_bit 11 (regs ! 4)) 11 11 (range_int 0x800) \<subseteq> A"
    "mode = 1 \<Longrightarrow> add_table (push_bit 14 (regs ! 10) OR push_bit 6 (regs ! 3)) 6 6 (range_int 0x40) \<subseteq> A"
    "mode \<in> {2, 4} \<Longrightarrow> add_table (push_bit 11 (regs ! 4)) 11 13 (range_int 0x2000) \<subseteq> A"
    "mode \<in> {2, 4} \<Longrightarrow> add_table (push_bit 14 (regs ! 10) OR push_bit 6 (regs ! 3)) 6 13 (range_int 0x2000) \<subseteq> A"
  using assms by (auto simp: background_addresses_def Let_def split: if_splits)

lemma agree_read: "agree A v w \<Longrightarrow> add_table base low bits is \<subseteq> A \<Longrightarrow> i \<in> set is \<Longrightarrow>
    vbyte v (table_addr base low i bits) = vbyte w (table_addr base low i bits)"
  by (rule agree_table) (rule agree_mono)

lemma tile_cell_agree:
  assumes "agree A v w" "background_addresses mode regs height page tw = Inr A" "mode \<in> {1, 2, 3, 4}"
    and "0 \<le> column" "column < 32"
  shows "tile_cell v mode regs fg [] y column = tile_cell w mode regs fg [] y column"
proof
  fix out
  note sub = tile_addresses [OF assms(2,3)]
  have line: "0 \<le> ((y + regs ! 23) mod 256) div 8" "((y + regs ! 23) mod 256) div 8 < 32"
    "0 \<le> ((y + regs ! 23) mod 256) div 64" "((y + regs ! 23) mod 256) div 64 < 4"
    by (auto simp: div_less_iff_less_mult)
  have name: "name_byte v regs [] ((y + regs ! 23 AND 255) div 8 * 32 + (c AND 31)) 10 None =
      name_byte w regs [] ((y + regs ! 23 AND 255) div 8 * 32 + (c AND 31)) 10 None" for c
    using agree_read [OF assms(1) sub(1)] cell_index [OF line(1,2), of "c mod 32" 32]
    by (simp add: name_byte_def screen_simps)
  have low: "pattern_byte v regs [] (char * 8 + k mod 8) 11 = pattern_byte w regs [] (char * 8 + k mod 8) 11"
    if "mode \<in> {1, 3}" "0 \<le> char" "char < 256" for char k
    using that pos_mod_bound [of 8 k] pos_mod_sign [of 8 k]
    by (simp add: pattern_byte_def) (rule agree_read [OF assms(1) sub(2)]; simp)
  have high: "(((y + regs ! 23) mod 256) div 64 * 256 + char) * 8 + k mod 8 \<in> set (range_int 0x2000)"
    if "0 \<le> char" "char < 256" for char k
    using cell_index [OF line(3,4) that]
      cell_index [of "((y + regs ! 23) mod 256) div 64 * 256 + char" 1024 "k mod 8" 8] by simp
  show "tile_cell v mode regs fg [] y column out = tile_cell w mode regs fg [] y column out"
  proof -
    have p2: "pattern_byte v regs [] i 13 = pattern_byte w regs [] i 13"
      "colour_byte v regs [] i 13 = colour_byte w regs [] i 13"
      if "mode \<in> {2, 4}" "i \<in> set (range_int 0x2000)" for i
      using agree_read [OF assms(1) sub(4) [OF that(1)] that(2)] agree_read [OF assms(1) sub(5) [OF that(1)] that(2)]
      by (simp_all add: pattern_byte_def colour_byte_def)
    have c1: "colour_byte v regs [] (char div 8) 6 = colour_byte w regs [] (char div 8) 6"
      if "mode = 1" "0 \<le> char" "char < 256" for char
      using that by (simp add: colour_byte_def)
        (rule agree_read [OF assms(1) sub(3)]; auto simp: div_less_iff_less_mult)
    show ?thesis unfolding tile_cell_def Let_def name
    proof (rule bindE_cong [OF refl], goal_cases)
      case (1 char)
      then have char: "0 \<le> char" "char < 256" by (auto dest: table_bytes_bounds)
      then show ?case unfolding screen_simps using assms(3) low c1 p2 high [OF char] by auto
    qed
  qed
qed

lemma render_characters_agree:
  assumes "agree A v w" "background_addresses mode regs height page tw = Inr A" "mode \<in> {0, 1, 2, 3, 4}"
  shows "render_characters v mode regs palette height [] tw blink = render_characters w mode regs palette height [] tw blink"
proof (cases "mode = 0")
  case True
  have A: "background_addresses 0 regs height page (Some (text_columns regs tw)) = Inr A"
    using assms(2) True by (simp add: background_addresses_def Let_def)
  show ?thesis
  proof (cases "text_columns regs tw \<in> {40, 80}")
    case False
    then show ?thesis using True by (auto simp: render_characters_def Let_def)
  next
    case w: True
    have rows: "foldE (text_cell v regs fg [] (text_columns regs tw) blink y) (range_int (text_columns regs tw)) u =
        foldE (text_cell w regs fg [] (text_columns regs tw) blink y) (range_int (text_columns regs tw)) u"
      if "y \<in> set (range_int height)" for fg y u
      by (intro foldE_cong refl fun_cong [OF text_cell_agree [OF assms(1) A]]) (use that w in auto)
    show ?thesis unfolding render_characters_def Let_def using True w
      by (auto intro!: bindE_cong foldE_cong rows)
  qed
next
  case False
  then have m: "mode \<in> {1, 2, 3, 4}" using assms(3) by auto
  have rows: "foldE (tile_cell v mode regs fg [] y) (range_int 32) = foldE (tile_cell w mode regs fg [] y) (range_int 32)"
    for fg y
    by (rule ext, intro foldE_cong refl fun_cong [OF tile_cell_agree [OF assms(1,2) m]]) auto
  show ?thesis unfolding render_characters_def Let_def using False rows by simp
qed

lemma bitmap_line_agree:
  assumes "agree A v w" "{address ..< address + bitmap_stride mode} \<subseteq> A"
  shows "bitmap_line v mode regs palette address = bitmap_line w mode regs palette address"
proof -
  have v: "vbyte v (address + i) = vbyte w (address + i)" if "0 \<le> i" "i < bitmap_stride mode" for i
    using that assms by (intro agree_vbyte [OF assms(1)]) auto
  have y: "yjk_group v fg yae (address + 4 * i) = yjk_group w fg yae (address + 4 * i)"
    if "0 \<le> i" "i < bitmap_stride mode div 4" for fg yae i
  proof -
    have "4 * i + 3 < bitmap_stride mode" using that by (auto simp: bitmap_stride_def split: if_splits)
    then show ?thesis using v [of "4 * i"] v [of "4 * i + 1"] v [of "4 * i + 2"] v [of "4 * i + 3"] that(1)
      by (simp add: yjk_group_def add.assoc)
  qed
  show ?thesis unfolding bitmap_line_def Let_def
    by (auto split: prod.splits intro!: arg_cong [of _ _ "map_sum id concat"] mapE_cong simp: v y)
qed

lemma render_bitmap_agree:
  assumes "agree A v w" "background_addresses mode regs height page tw = Inr A" "mode \<notin> {0, 1, 2, 3, 4}"
  shows "render_bitmap v mode regs palette height page [] = render_bitmap w mode regs palette height page []"
proof (cases "bitmap_page_base mode regs page []")
  case (Inl e)
  then show ?thesis by (simp add: render_bitmap_def)
next
  case (Inr base)
  have sub: "{base + l * bitmap_stride mode ..< base + l * bitmap_stride mode + bitmap_stride mode} \<subseteq> A"
    if "y \<in> set (range_int height)" "l = (y + regs ! 23) AND 0xFF" for y l
  proof -
    have "{base + l * bitmap_stride mode ..< base + l * bitmap_stride mode + bitmap_stride mode} =
        (\<lambda>i. base + l * bitmap_stride mode + i) ` {0..<bitmap_stride mode}" by (simp add: add.commute)
    then show ?thesis using assms(2,3) Inr that by (auto simp: background_addresses_def Let_def)
  qed
  have "render_bitmap_row v mode regs palette base y u = render_bitmap_row w mode regs palette base y u"
    if "y \<in> set (range_int height)" for y u
    using bitmap_line_agree [OF assms(1) sub [OF that refl]] by (simp add: render_bitmap_row_def Let_def)
  then show ?thesis unfolding render_bitmap_def Let_def using Inr
    by (auto intro!: bindE_cong foldE_cong)
qed

subsection \<open>Sprites on agreeing dumps\<close>

definition sprite_offset :: "int \<Rightarrow> int \<Rightarrow> int" where
  "sprite_offset sprite_mode number = (if sprite_mode = 1 then number * 4 else 512 + number * 4)"

lemma sprite_records_cong:
  assumes "\<And>n k. n \<in> set ns \<Longrightarrow> k \<in> {0, 1, 2, 3} \<Longrightarrow> att (sprite_offset sm n + k) = att' (sprite_offset sm n + k)"
  shows "sprite_records att sm t ns = sprite_records att' sm t ns"
  using assms
proof (induction ns)
  case (Cons n ns)
  have "att (sprite_offset sm n + k) = att' (sprite_offset sm n + k)" if "k \<in> {0, 1, 2, 3}" for k
    using Cons.prems that by simp
  from this [of 0] this [of 1] this [of 2] this [of 3] show ?case
    using Cons.IH Cons.prems unfolding sprite_records.simps sprite_offset_def [symmetric] Let_def by (simp cong: if_cong)
qed simp

lemma sprite_records_fields:
  assumes "sprite_records att sm t ns = Inr rs" "r \<in> set rs" "\<And>i b. att i = Inr b \<Longrightarrow> 0 \<le> b \<and> b < 256"
  shows "sr_number r \<in> set ns \<and> 0 \<le> sr_pattern r \<and> sr_pattern r < 256 \<and> 0 \<le> sr_colour r \<and> sr_colour r < 256"
  using assms(1,2)
proof (induction ns arbitrary: rs)
  case (Cons n ns)
  then show ?case using assms(3) by (fastforce simp: result_simps Let_def split: if_splits)
qed simp

lemma visible_sprites_cong:
  "(\<And>r. r \<in> set rs \<Longrightarrow> shown r = shown' r) \<Longrightarrow>
     visible_sprites shown limit visible rs = visible_sprites shown' limit visible rs"
  by (induction rs arbitrary: visible) (auto intro!: bindE_cong split: option.splits)

lemma sprite_bits_cong:
  assumes "number * 8 + row \<ge> 0" "0 \<le> number" "number < 256" "n = 8 \<or> n = 16" "0 \<le> row"
    "row div (if magnified then 2 else 1) < n" "\<And>i. i \<in> set (range_int 0x800) \<Longrightarrow> pattern i = pattern' i"
  shows "sprite_bits pattern number row n magnified = sprite_bits pattern' number row n magnified"
proof -
  define q where "q = row div (if magnified then 2 else 1)"
  have q: "0 \<le> q" "q < n" using assms(5,6) by (auto simp: q_def)
  have row: "(if magnified then row div 2 else row) = q" by (simp add: q_def)
  define m where "m = (if n = 16 then number AND 252 else number AND 255)"
  have m: "0 \<le> m" "n = 8 \<Longrightarrow> m < 256" "n = 16 \<Longrightarrow> m \<le> 252"
    using assms(2,3,4) by (auto simp: m_def and_ones AND_upper2)
  have num: "number AND (if n = 16 then 252 else 255) = m" by (simp add: m_def)
  have left: "pattern (m * 8 + q) = pattern' (m * 8 + q)"
    by (rule assms(7)) (use assms(4) q m in auto)
  have right: "pattern (m * 8 + q + 16) = pattern' (m * 8 + q + 16)" if "n = 16"
    by (rule assms(7)) (use that q m in auto)
  show ?thesis unfolding sprite_bits_def Let_def row num left using right by (simp cong: if_cong)
qed

lemma show_sprite_cong:
  assumes "sr_number r \<in> set (range_int 32)" "0 \<le> sr_pattern r" "sr_pattern r < 256"
    and "ss_size su = 8 \<or> ss_size su = 16"
    and "\<And>i. ss_mode su \<noteq> 1 \<Longrightarrow> i \<in> set (range_int 0x400) \<Longrightarrow> line_colour i = line_colour' i"
    and "\<And>i. i \<in> set (range_int 0x800) \<Longrightarrow> pattern i = pattern' i"
  shows "show_sprite su line_colour pattern y r = show_sprite su line_colour' pattern' y r"
proof -
  define rel where "rel = ((y + ss_scroll su) - ((sr_y r + 1) AND 0xFF)) AND 0xFF"
  have rel: "0 \<le> rel" by (simp add: rel_def and_ones)
  show ?thesis
  proof (cases "visible_size su \<le> rel")
    case True
    then show ?thesis by (simp add: show_sprite_def rel_def Let_def)
  next
    case False
    define row where "row = rel div (if ss_magnified su then 2 else 1)"
    have row: "0 \<le> row" "row < ss_size su" using False rel assms(4)
      by (auto simp: row_def visible_size_def div_less_iff_less_mult)
    have "sr_number r * 16 + row \<in> set (range_int 0x400)" using row assms(1,4) by auto
    then have lc: "(if ss_mode su = 1 then Inr (sr_colour r) else line_colour (sr_number r * 16 + row)) =
        (if ss_mode su = 1 then Inr (sr_colour r) else line_colour' (sr_number r * 16 + row))"
      using assms(5) by auto
    have "sprite_bits pattern (sr_pattern r) rel (ss_size su) (ss_magnified su) =
        sprite_bits pattern' (sr_pattern r) rel (ss_size su) (ss_magnified su)"
      using assms(2,3,4,6) rel row by (intro sprite_bits_cong) (auto simp: row_def)
    then show ?thesis using False lc
      by (simp add: show_sprite_def rel_def [symmetric] row_def [symmetric] Let_def)
  qed
qed

lemma composite_sprites_agree:
  assumes "agree A v w" "sprite_addresses mode regs True \<subseteq> A"
  shows "composite_sprites out width height v mode regs palette [] = composite_sprites out width height w mode regs palette []"
proof (cases "mode = 0 \<or> regs ! 8 AND 0x02 \<noteq> 0")
  case True
  then show ?thesis by (simp add: composite_sprites_def)
next
  case False
  define su where "su = setup_of mode regs"
  define sm where "sm = ss_mode su"
  have sm: "sm = (if mode = 1 \<or> mode = 2 \<or> mode = 3 then 1 else 2)" by (simp add: sm_def su_def setup_of_def)
  have att_sub: "add_table (sprite_base regs) 7 (if sm = 2 then 10 else 7) (range_int (if sm = 2 then 0x400 else 0x80)) \<subseteq> A"
    and pat_sub: "add_table (push_bit 11 (regs ! 6)) 11 11 (range_int 0x800) \<subseteq> A"
    using assms(2) False by (auto simp: sprite_addresses_def Let_def sm split: if_splits)
  have att: "sprite_attribute v regs [] sm i = sprite_attribute w regs [] sm i"
    if "i \<in> set (range_int (if sm = 2 then 0x400 else 0x80))" for i
    using agree_read [OF assms(1) att_sub that] by (simp add: sprite_attribute_def)
  have lc: "sprite_line_colour v regs [] i = sprite_line_colour w regs [] i"
    if "sm \<noteq> 1" "i \<in> set (range_int 0x400)" for i
    using agree_read [OF assms(1) att_sub, of i] that by (simp add: sprite_line_colour_def sm split: if_splits)
  have pat: "sprite_pattern v regs [] i = sprite_pattern w regs [] i" if "i \<in> set (range_int 0x800)" for i
    using agree_read [OF assms(1) pat_sub that] by (simp add: sprite_pattern_def)
  have records: "sprite_records (sprite_attribute v regs [] sm) sm t (range_int 32) =
      sprite_records (sprite_attribute w regs [] sm) sm t (range_int 32)" for t
    by (rule sprite_records_cong, rule att) (auto simp: sprite_offset_def sm)
  have visible: "visible_sprites (show_sprite su (sprite_line_colour v regs []) (sprite_pattern v regs []) y) limit [] rs =
      visible_sprites (show_sprite su (sprite_line_colour w regs []) (sprite_pattern w regs []) y) limit [] rs"
    if "sprite_records (sprite_attribute w regs [] sm) sm t (range_int 32) = Inr rs" for rs y limit t
  proof (rule visible_sprites_cong, rule show_sprite_cong)
    fix r assume r: "r \<in> set rs"
    have f: "sr_number r \<in> set (range_int 32) \<and> 0 \<le> sr_pattern r \<and> sr_pattern r < 256"
      using sprite_records_fields [OF that r] table_bytes_bounds(4) by blast
    show "sr_number r \<in> set (range_int 32)" "0 \<le> sr_pattern r" "sr_pattern r < 256" using f by blast+
  qed (use lc pat in \<open>auto simp: su_def sm_def setup_of_def\<close>)
  show ?thesis
    unfolding composite_sprites_def Let_def su_def [symmetric] sm_def [symmetric] records
    using False visible by (auto intro!: bindE_cong foldE_cong)
qed

lemma render_vram_agree:
  assumes "agree A v w" "addresses_for_capture mode regs height sprites page tw = Inr A"
    and "registers (Some regs) = Inr regs" "mode \<in> set SUPPORTED_MODES"
  shows "render_vram v mode (Some regs) palette (capture_options height page sprites tw) =
    render_vram w mode (Some regs) palette (capture_options height page sprites tw)"
proof -
  obtain B where B: "background_addresses mode regs height page tw = Inr B" "B \<subseteq> A"
    "sprites \<Longrightarrow> sprite_addresses mode regs True \<subseteq> A"
    using assms(2) by (auto simp: addresses_for_capture_def result_simps)
  have ag: "agree B v w" using assms(1) B(2) by (rule agree_mono)
  have chars: "render_characters v mode regs p height [] tw b = render_characters w mode regs p height [] tw b"
    if "mode \<le> 4" for p b
    by (rule render_characters_agree [OF ag B(1)]) (use that assms(4) in \<open>auto simp: SUPPORTED_MODES_def\<close>)
  have bits: "render_bitmap v mode regs p height page [] = render_bitmap w mode regs p height page []"
    if "\<not> mode \<le> 4" for p
    by (rule render_bitmap_agree [OF ag B(1)]) (use that in auto)
  have sp: "composite_sprites out wd h v mode regs p [] = composite_sprites out wd h w mode regs p []"
    if "sprites" for out wd h p
    by (rule composite_sprites_agree [OF assms(1) B(3) [OF that]])
  have "active_height regs (Some height) = Inr h \<Longrightarrow> h = height" for h
    by (auto simp: active_height_def split: if_splits)
  then show ?thesis unfolding render_vram_def
    using chars bits sp
    by (auto simp: capture_options_def default_options_def assms(3) intro!: bindE_cong split: prod.splits)
qed

subsection \<open>Ranges\<close>

text \<open>The addresses a list of ranges stands for, and ranges that follow with a gap between them.\<close>

definition covered :: "(int \<times> int) list \<Rightarrow> int set" where
  "covered rs = (\<Union>(b, n)\<in>set rs. {b ..< b + n})"

definition before :: "int \<times> int \<Rightarrow> int \<times> int \<Rightarrow> bool" where
  "before p q \<longleftrightarrow> fst p + snd p < fst q"

lemma covered_simps [simp]:
  "covered [] = {}" "covered ((b, n) # rs) = {b ..< b + n} \<union> covered rs"
  by (simp_all add: covered_def)

lemma runs_exact:
  assumes "sorted_wrt (<) (p # as)" "s \<le> p"
  shows "covered (runs s p as) = {s..p} \<union> set as \<and> list_all (\<lambda>(b, n). s \<le> b \<and> 0 < n) (runs s p as) \<and>
    sorted_wrt before (runs s p as) \<and> sum_list (map snd (runs s p as)) = p - s + 1 + int (length as)"
  using assms
proof (induction s p as rule: runs.induct)
  case (1 s p)
  then show ?case by auto
next
  case (2 s p a as)
  show ?case
  proof (cases "a = p + 1")
    case True
    then have "covered (runs s a as) = {s..a} \<union> set as \<and> list_all (\<lambda>(b, n). s \<le> b \<and> 0 < n) (runs s a as) \<and>
        sorted_wrt before (runs s a as) \<and> sum_list (map snd (runs s a as)) = a - s + 1 + int (length as)"
      using 2 by simp
    moreover have "{s..a} \<union> set as = {s..p} \<union> set (a # as)" using True 2(4) by auto
    ultimately show ?thesis using True by simp
  next
    case False
    then have IH: "covered (runs a a as) = {a..a} \<union> set as" "list_all (\<lambda>(b, n). a \<le> b \<and> 0 < n) (runs a a as)"
        "sorted_wrt before (runs a a as)" "sum_list (map snd (runs a a as)) = a - a + 1 + int (length as)"
      using 2 by simp_all
    have "p + 1 < a" using False 2(3) by simp
    then have "list_all (\<lambda>(b, n). s \<le> b \<and> 0 < n) (runs a a as)" "\<forall>q\<in>set (runs a a as). before (s, p - s + 1) q"
      using IH(2) 2(4) by (auto simp: list_all_iff before_def)
    moreover have "{s..<p + 1} = {s..p}" by auto
    ultimately show ?thesis using False IH 2(4) by simp
  qed
qed

lemma ranges_spec:
  assumes "finite A"
  shows "covered (ranges A) = A \<and> list_all (\<lambda>(b, n). 0 < n) (ranges A) \<and> sorted_wrt before (ranges A) \<and>
    sum_list (map snd (ranges A)) = int (card A)"
proof (cases "sorted_list_of_set A")
  case Nil
  then show ?thesis using assms by (simp add: ranges_def)
next
  case (Cons a as)
  have "sorted_wrt (<) (a # as)" using strict_sorted_list_of_set [of A] Cons by simp
  from runs_exact [OF this order_refl]
  have r: "covered (runs a a as) = {a..a} \<union> set as \<and> list_all (\<lambda>(b, n). a \<le> b \<and> 0 < n) (runs a a as) \<and>
    sorted_wrt before (runs a a as) \<and> sum_list (map snd (runs a a as)) = 1 + int (length as)" by simp
  have "set (a # as) = A" "length (a # as) = card A"
    using Cons assms set_sorted_list_of_set [OF assms] length_sorted_list_of_set [of A] by simp_all
  then show ?thesis using r Cons by (auto simp: ranges_def list_all_iff)
qed

lemma covered_member: "(b, n) \<in> set rs \<Longrightarrow> {b ..< b + n} \<subseteq> covered rs"
  by (auto simp: covered_def)

lemma covered_bounds:
  assumes "covered rs \<subseteq> {0..<m}" "list_all (\<lambda>(b, n). 0 < n) rs" "(b, n) \<in> set rs"
  shows "0 \<le> b" "0 < n" "b + n \<le> m"
proof -
  show n: "0 < n" using assms(2,3) by (auto simp: list_all_iff)
  have "{b ..< b + n} \<subseteq> {0..<m}" using covered_member [OF assms(3)] assms(1) by blast
  then show "0 \<le> b" "b + n \<le> m" using n by (auto simp: ivl_subset)
qed

subsection \<open>Reading the ranges of a target\<close>

text \<open>
  \<open>serves reader w\<close>: a read inside the video memory returns its bytes, whatever the state of the client
  - what the client's reads promise for a target that does not change meanwhile.
\<close>

definition serves :: "'s reader \<Rightarrow> bytes \<Rightarrow> bool" where
  "serves reader w \<longleftrightarrow> (\<forall>b n s. 0 \<le> b \<longrightarrow> 0 < n \<longrightarrow> b + n \<le> SCREEN_VRAM_SIZE \<longrightarrow>
     (\<exists>s'. reader b n s = (Inr (slice (nat b) (nat n) w), s')))"

lemma assign_slice_nth:
  assumes "a + n \<le> length v" "length d = n"
  shows "length (assign_slice a n v d) = length v"
    "i < length v \<Longrightarrow> assign_slice a n v d ! i = (if a \<le> i \<and> i < a + n then d ! (i - a) else v ! i)"
  using assms by (auto simp: assign_slice_def nth_append)

lemma agree_assign:
  assumes "agree A v w" "0 \<le> b" "0 < n" "b + n \<le> SCREEN_VRAM_SIZE"
  shows "agree (A \<union> {b ..< b + n}) (assign_slice (nat b) (nat n) v (slice (nat b) (nat n) w)) w"
proof -
  have len: "int (length v) = SCREEN_VRAM_SIZE" "int (length w) = SCREEN_VRAM_SIZE" using assms(1) by (simp_all add: agree_def full_dump_def)
  have fits: "nat b + nat n \<le> length v" "length (slice (nat b) (nat n) w) = nat n"
    using assms len by (auto simp: slice_def)
  have at: "assign_slice (nat b) (nat n) v (slice (nat b) (nat n) w) ! nat a =
      (if b \<le> a \<and> a < b + n then w ! nat a else v ! nat a)" if "0 \<le> a" "a < SCREEN_VRAM_SIZE" for a
  proof -
    have "nat a < length v" using that len by simp
    moreover have "nat b \<le> nat a \<and> nat a < nat b + nat n \<longleftrightarrow> b \<le> a \<and> a < b + n" using that assms(2,3) by auto
    moreover have "slice (nat b) (nat n) w ! (nat a - nat b) = w ! nat a" if "b \<le> a" "a < b + n"
      using that assms len by (simp add: slice_def nat_less_iff)
    ultimately show ?thesis using assign_slice_nth(2) [OF fits] by simp
  qed
  show ?thesis unfolding agree_def full_dump_def
    using assign_slice_nth(1) [OF fits] len at assms(1) by (auto simp: agree_def)
qed

lemma read_ranges_agree:
  assumes "serves reader w" "covered rs \<subseteq> {0..<SCREEN_VRAM_SIZE}" "list_all (\<lambda>(b, n). 0 < n) rs" "agree A v w"
  shows "\<exists>v' s'. read_ranges reader rs v s = (Inr v', s') \<and> agree (A \<union> covered rs) v' w"
  using assms(2-4)
proof (induction rs arbitrary: A v s)
  case (Cons r rs)
  obtain b n where r: "r = (b, n)" by (cases r)
  have b: "0 \<le> b" "0 < n" "b + n \<le> SCREEN_VRAM_SIZE" using covered_bounds [OF Cons.prems(1,2), of b n] r by auto
  obtain s1 where s1: "reader b n s = (Inr (slice (nat b) (nat n) w), s1)"
    using assms(1) b unfolding serves_def by blast
  have "agree (A \<union> {b ..< b + n}) (assign_slice (nat b) (nat n) v (slice (nat b) (nat n) w)) w"
    using agree_assign [OF Cons.prems(3) b] .
  moreover have "covered rs \<subseteq> {0..<SCREEN_VRAM_SIZE}" "list_all (\<lambda>(b, n). 0 < n) rs" using Cons.prems r by auto
  ultimately show ?case using Cons.IH s1 r by (fastforce simp: Un_assoc)
qed simp

lemma blank_full: "full_dump blank_vram"
  by (simp add: full_dump_def blank_vram_def SCREEN_VRAM_SIZE_def)

lemma capture_agree:
  assumes "serves reader w" "full_dump w" "finite A" "A \<subseteq> {0..<SCREEN_VRAM_SIZE}"
  shows "\<exists>v s'. read_ranges reader (ranges A) blank_vram s = (Inr v, s') \<and> agree A v w"
proof -
  have r: "covered (ranges A) = A" "list_all (\<lambda>(b, n). 0 < n) (ranges A)" using ranges_spec [OF assms(3)] by auto
  have "agree {} blank_vram w" using blank_full assms(2) by (simp add: agree_def)
  from read_ranges_agree [OF assms(1) _ r(2) this, of s] show ?thesis using r(1) assms(4) by auto
qed

subsection \<open>The addresses lie in the video memory\<close>

lemma add_table_bounds: "add_table base low bits is \<subseteq> {0..<SCREEN_VRAM_SIZE}" "finite (add_table base low bits is)"
  by (auto simp: add_table_def)

lemma add_table_member: "a \<in> add_table base low bits is \<Longrightarrow> 0 \<le> a \<and> a < SCREEN_VRAM_SIZE"
  using add_table_bounds(1) by fastforce

lemma page_base_bounds:
  assumes "bitmap_page_base mode regs page [] = Inr base" "mode \<notin> {0, 1, 2, 3, 4}"
  shows "0 \<le> base \<and> base + 256 * bitmap_stride mode \<le> SCREEN_VRAM_SIZE"
proof -
  have a: "0 \<le> regs ! 2 AND 96" "regs ! 2 AND 96 \<le> 96" "0 \<le> regs ! 2 AND 32" "regs ! 2 AND 32 \<le> 32"
    by (simp_all add: AND_upper2)
  show ?thesis using assms a
    by (auto simp: bitmap_page_base_def bitmap_stride_def SCREEN_VRAM_SIZE_def Let_def push_bit_eq_mult
        split: option.splits if_splits)
qed

lemma addresses_bounds:
  assumes "addresses_for_capture mode regs height sprites page tw = Inr A"
  shows "A \<subseteq> {0..<SCREEN_VRAM_SIZE} \<and> finite A"
proof -
  obtain B where B: "background_addresses mode regs height page tw = Inr B"
    and A: "A = B \<union> sprite_addresses mode regs sprites"
    using assms by (auto simp: addresses_for_capture_def result_simps)
  have "sprite_addresses mode regs sprites \<subseteq> {0..<SCREEN_VRAM_SIZE} \<and> finite (sprite_addresses mode regs sprites)"
    using add_table_bounds by (simp add: sprite_addresses_def Let_def)
  moreover have "B \<subseteq> {0..<SCREEN_VRAM_SIZE} \<and> finite B"
  proof (cases "mode \<in> {0, 1, 2, 3, 4}")
    case True
    then show ?thesis using B
      by (auto simp: background_addresses_def Let_def add_table_bounds(2) dest!: add_table_member split: if_splits)
  next
    case False
    then obtain base where base: "bitmap_page_base mode regs page [] = Inr base"
      and B': "B = (\<Union>y\<in>{0..<height}. (\<lambda>i. base + ((y + regs ! 23) AND 255) * bitmap_stride mode + i) ` {0..<bitmap_stride mode})"
      using B by (auto simp: background_addresses_def Let_def result_simps)
    have at: "base + ((y + regs ! 23) AND 255) * bitmap_stride mode + i \<in> {0..<SCREEN_VRAM_SIZE}"
      if "i \<in> {0..<bitmap_stride mode}" for y i
    proof -
      have l: "0 \<le> (y + regs ! 23) AND 255" "(y + regs ! 23) AND 255 < 256" by (simp_all add: and_ones)
      have "((y + regs ! 23) AND 255) * bitmap_stride mode + i \<in> set (range_int (256 * bitmap_stride mode))"
        using cell_index [OF l] that by simp
      then show ?thesis using page_base_bounds [OF base False] by simp
    qed
    have "B \<subseteq> {0..<SCREEN_VRAM_SIZE}" unfolding B' using at by blast
    then show ?thesis by (simp add: finite_subset)
  qed
  ultimately show ?thesis unfolding A by auto
qed

end
