(* ===== verification/Screen_Pixels.thy ===== *)
theory Screen_Pixels
  imports Screen_Capture
begin

text \<open>
  The renderer of \<open>server/msx_screenshot.py\<close> against a specification of the colour of each pixel, for
  the character and the bitmap modes, and the success of every render of a complete dump.
\<close>

subsection \<open>Painting\<close>

text \<open>\<open>px width out x y\<close> are the three bytes of a pixel; an image of \<open>width\<close> and \<open>height\<close> has them all.\<close>

definition px :: "int \<Rightarrow> bytes \<Rightarrow> int \<Rightarrow> int \<Rightarrow> bytes" where
  "px width out x y = slice (3 * nat (y * width + x)) 3 out"

definition sized :: "int \<Rightarrow> int \<Rightarrow> bytes \<Rightarrow> bool" where
  "sized width height out \<longleftrightarrow> length out = nat (width * height * 3)"

definition on_screen :: "int \<Rightarrow> int \<Rightarrow> int \<Rightarrow> int \<Rightarrow> bool" where
  "on_screen width height x y \<longleftrightarrow> 0 \<le> x \<and> x < width \<and> 0 \<le> y \<and> y < height"

definition rgb_ok :: "rgb \<Rightarrow> bool" where
  "rgb_ok c = (case c of (r, g, b) \<Rightarrow> component_ok r \<and> component_ok g \<and> component_ok b)"

definition rgb_bytes :: "rgb \<Rightarrow> bytes" where
  "rgb_bytes c = (case c of (r, g, b) \<Rightarrow> map word_of_int [r, g, b])"

definition valid_palette :: "palette \<Rightarrow> bool" where
  "valid_palette p \<longleftrightarrow> length p = 16 \<and> list_all rgb_ok p"

text \<open>
  \<open>paints w h img R f\<close>: \<open>f\<close> succeeds on an image of that size, gives the pixels in \<open>R\<close> their colour
  in \<open>img\<close> and keeps the others.
\<close>

definition paints ::
  "int \<Rightarrow> int \<Rightarrow> (int \<Rightarrow> int \<Rightarrow> rgb) \<Rightarrow> (int \<Rightarrow> int \<Rightarrow> bool) \<Rightarrow> (bytes \<Rightarrow> screen_error + bytes) \<Rightarrow> bool"
where
  "paints w h img R f \<longleftrightarrow>
     (\<forall>out. sized w h out \<longrightarrow> (\<exists>out'. f out = Inr out' \<and> sized w h out' \<and>
        (\<forall>x y. on_screen w h x y \<longrightarrow> px w out' x y = (if R x y then rgb_bytes (img x y) else px w out x y))))"

lemma colour_bytes_ok [simp]: "rgb_ok c \<Longrightarrow> colour_bytes c = Inr (rgb_bytes c)"
  by (cases c) (auto simp: colour_bytes_def rgb_ok_def rgb_bytes_def)

lemma length_rgb_bytes [simp]: "length (rgb_bytes c) = 3"
  by (cases c) (auto simp: rgb_bytes_def)

lemma palette_rgb: "valid_palette p \<Longrightarrow> 0 \<le> i \<Longrightarrow> i < 16 \<Longrightarrow> rgb_ok (p ! nat i)"
  by (simp add: valid_palette_def list_all_length)

lemma pixel_index:
  assumes "on_screen w h x y"
  shows "0 \<le> y * w + x" "y * w + x < w * h"
proof -
  show "0 \<le> y * w + x" using assms by (auto simp: on_screen_def)
  have "y * w + x \<in> set (range_int (h * w))" using assms by (intro cell_index) (auto simp: on_screen_def)
  then show "y * w + x < w * h" by (simp add: mult.commute)
qed

lemma pixel_index_inj:
  assumes "on_screen w h x y" "on_screen w h x' y'" "y * w + x = y' * w + x'"
  shows "x = x' \<and> y = y'"
proof -
  have "(y * w + x) div w = y" "(y * w + x) mod w = x" "(y' * w + x') div w = y'" "(y' * w + x') mod w = x'"
    using assms(1,2) by (auto simp: on_screen_def)
  then show ?thesis using assms(3) by auto
qed

lemma slice_assign_block:
  assumes "length cs = 3" "3 * p + 3 \<le> length out" "3 * q + 3 \<le> length out"
  shows "slice (3 * q) 3 (take (3 * p) out @ cs @ drop (3 * p + 3) out) = (if q = p then cs else slice (3 * q) 3 out)"
proof -
  have "q < p \<Longrightarrow> 3 * q + 3 \<le> 3 * p" "p < q \<Longrightarrow> 3 * p + 3 \<le> 3 * q" by linarith+
  then show ?thesis using assms
    by (cases q p rule: linorder_cases)
      (auto simp: slice_def nth_append intro!: nth_equalityI)
qed

lemma paints_pixel:
  assumes "on_screen w h x y" "rgb_ok (img x y)"
  shows "paints w h img (\<lambda>x' y'. x' = x \<and> y' = y) (pixel w x y (img x y))"
  unfolding paints_def
proof (intro allI impI)
  fix out assume size: "sized w h out"
  define p where "p = nat (y * w + x)"
  have off: "nat ((y * w + x) * 3) = 3 * p" using pixel_index [OF assms(1)] by (simp add: p_def nat_mult_distrib)
  let ?out = "take (3 * p) out @ rgb_bytes (img x y) @ drop (3 * p + 3) out"
  have fits: "3 * nat (y' * w + x') + 3 \<le> length out" if "on_screen w h x' y'" for x' y'
    using pixel_index [OF that] size by (simp add: sized_def)
  have "px w ?out x' y' = (if x' = x \<and> y' = y then rgb_bytes (img x' y') else px w out x' y')"
    if "on_screen w h x' y'" for x' y'
  proof -
    have "nat (y' * w + x') = p \<longleftrightarrow> x' = x \<and> y' = y"
      using pixel_index_inj [OF that assms(1)] pixel_index [OF that] pixel_index [OF assms(1)] by (auto simp: p_def)
    then show ?thesis using slice_assign_block [OF length_rgb_bytes fits [OF assms(1), folded p_def] fits [OF that]]
      by (auto simp: px_def)
  qed
  moreover have "sized w h ?out" using size fits [OF assms(1)] by (simp add: sized_def p_def)
  moreover have "pixel w x y (img x y) out = Inr ?out"
    by (simp only: pixel_def Let_def off colour_bytes_ok [OF assms(2)] bindE_simps)
  ultimately show "\<exists>out'. pixel w x y (img x y) out = Inr out' \<and> sized w h out' \<and>
      (\<forall>x' y'. on_screen w h x' y' \<longrightarrow>
        px w out' x' y' = (if x' = x \<and> y' = y then rgb_bytes (img x' y') else px w out x' y'))"
    by blast
qed

lemma paints_nothing [simp]: "paints w h img (\<lambda>_ _. False) Inr"
  by (simp add: paints_def)

lemma paints_then:
  assumes "paints w h img R f" "paints w h img S g"
  shows "paints w h img (\<lambda>x y. R x y \<or> S x y) (\<lambda>out. bindE (f out) g)"
  unfolding paints_def
proof (intro allI impI)
  fix out assume "sized w h out"
  then obtain o1 where o1: "f out = Inr o1" "sized w h o1"
    "\<And>x y. on_screen w h x y \<Longrightarrow> px w o1 x y = (if R x y then rgb_bytes (img x y) else px w out x y)"
    using assms(1) unfolding paints_def by blast
  then obtain o2 where "g o1 = Inr o2" "sized w h o2"
    "\<And>x y. on_screen w h x y \<Longrightarrow> px w o2 x y = (if S x y then rgb_bytes (img x y) else px w o1 x y)"
    using assms(2) unfolding paints_def by blast
  with o1 show "\<exists>out'. bindE (f out) g = Inr out' \<and> sized w h out' \<and>
      (\<forall>x y. on_screen w h x y \<longrightarrow> px w out' x y = (if R x y \<or> S x y then rgb_bytes (img x y) else px w out x y))"
    by auto
qed

lemma paints_region: "paints w h img R f \<Longrightarrow> (\<And>x y. on_screen w h x y \<Longrightarrow> R x y = S x y) \<Longrightarrow> paints w h img S f"
  unfolding paints_def by fastforce

lemma paints_foldE:
  assumes "\<And>i. i \<in> set is \<Longrightarrow> paints w h img (R i) (f i)"
  shows "paints w h img (\<lambda>x y. \<exists>i\<in>set is. R i x y) (foldE f is)"
  using assms
proof (induction "is")
  case Nil
  then show ?case by (simp add: paints_def)
next
  case (Cons i "is")
  have "paints w h img (\<lambda>x y. R i x y \<or> (\<exists>i\<in>set is. R i x y)) (\<lambda>out. bindE (f i out) (foldE f is))"
    using Cons by (intro paints_then) auto
  then show ?case by simp
qed

lemma paints_dots:
  assumes "0 \<le> y" "y < h" "0 \<le> x0" "x0 + dots \<le> w"
    and "\<And>d. 0 \<le> d \<Longrightarrow> d < dots \<Longrightarrow> rgb_ok (c d) \<and> img (x0 + d) y = c d"
  shows "paints w h img (\<lambda>x' y'. y' = y \<and> x0 \<le> x' \<and> x' < x0 + dots) (put_dots dots w x0 y c)"
proof -
  have "paints w h img (\<lambda>x' y'. \<exists>d\<in>set (range_int dots). x' = x0 + d \<and> y' = y)
      (foldE (\<lambda>d. pixel w (x0 + d) y (c d)) (range_int dots))"
  proof (rule paints_foldE)
    fix d assume "d \<in> set (range_int dots)"
    then have d: "0 \<le> d" "d < dots" by auto
    then show "paints w h img (\<lambda>x' y'. x' = x0 + d \<and> y' = y) (pixel w (x0 + d) y (c d))"
      using paints_pixel [of w h "x0 + d" y img] assms by (auto simp: on_screen_def)
  qed
  moreover have "put_dots dots w x0 y c = foldE (\<lambda>d. pixel w (x0 + d) y (c d)) (range_int dots)"
    by (simp add: put_dots_def fun_eq_iff)
  ultimately show ?thesis by (simp, elim paints_region) (auto intro!: bexI [of _ "_ - x0"])
qed

subsection \<open>The colour of a pixel\<close>

text \<open>
  What the video processor shows at \<open>(x, y)\<close>, read off the tables of the dump: the specification the
  renderer is checked against. \<open>p\<close> is the palette with colour 0 replaced when it is transparent.
\<close>

definition table_value :: "bytes \<Rightarrow> int \<Rightarrow> nat \<Rightarrow> int \<Rightarrow> nat \<Rightarrow> int" where
  "table_value v base low index bits = uint (v ! nat (table_addr base low index bits))"

definition colour_base :: "int list \<Rightarrow> int" where
  "colour_base regs = push_bit 14 (regs ! 10) OR push_bit 6 (regs ! 3)"

definition text_colour :: "bytes \<Rightarrow> int list \<Rightarrow> palette \<Rightarrow> int \<Rightarrow> bool \<Rightarrow> int \<Rightarrow> int \<Rightarrow> rgb" where
  "text_colour v regs p columns blink x y =
     (let column = x div 6; row = y div 8;
          name = table_value v (push_bit 10 (regs ! 2)) 10
                   (if columns = 40 then 0xC00 + row * 40 + column else row * 80 + column) 12;
          mask = table_value v (colour_base regs) 6 (row * 10 + column div 8) 9;
          bits = table_value v (push_bit 11 (regs ! 4)) 11 (name * 8 + (y + regs ! 23) mod 8) 11;
          colours = regs ! (if columns \<noteq> 40 \<and> blink \<and> bit mask (7 - nat (column mod 8)) then 12 else 7)
      in if bit bits (7 - nat (x mod 6)) then p ! nat (colours div 16) else p ! nat (colours mod 16))"

definition tile_colour :: "bytes \<Rightarrow> int \<Rightarrow> int list \<Rightarrow> palette \<Rightarrow> int \<Rightarrow> int \<Rightarrow> rgb" where
  "tile_colour v mode regs p x y =
     (let line = (y + regs ! 23) mod 256; column = (x div 8 + regs ! 26 mod 32) mod 32;
          name = table_value v (push_bit 10 (regs ! 2)) 10 (line div 8 * 32 + column) 10;
          cell = (line div 64 * 256 + name) * 8 + line mod 8;
          pattern = table_value v (push_bit 11 (regs ! 4)) 11;
          bits = (if mode = 1 then pattern (name * 8 + line mod 8) 11 else pattern cell 13);
          colours = (if mode = 1 then table_value v (colour_base regs) 6 (name div 8) 6
                     else if mode = 3 then pattern (name * 8 + line div 4 mod 8) 11
                     else table_value v (colour_base regs) 6 cell 13);
          lit = (if mode = 3 then x mod 8 < 4 else bit bits (7 - nat (x mod 8)))
      in if lit then p ! nat (colours div 16) else p ! nat (colours mod 16))"

definition wf_regs :: "int list \<Rightarrow> bool" where
  "wf_regs regs \<longleftrightarrow> length regs = 28 \<and> (\<forall>r\<in>set regs. 0 \<le> r \<and> r < 256)"

lemma wf_regs_at: "wf_regs regs \<Longrightarrow> i < 28 \<Longrightarrow> 0 \<le> regs ! i \<and> regs ! i < 256"
  by (simp add: wf_regs_def)

lemma table_value_bounds [simp]: "0 \<le> table_value v base low i n" "table_value v base low i n < 256"
  by (simp_all add: table_value_def)

lemma vbyte_table: "full_dump v \<Longrightarrow> vbyte v (table_addr base low i n) = Inr (table_value v base low i n)"
  by (simp add: vbyte_full table_value_def)

lemma nibbles:
  fixes c :: int
  assumes "0 \<le> c" "c < 256"
  shows "0 \<le> c div 16" "c div 16 < 16" "0 \<le> c mod 16" "c mod 16 < 16"
  using assms by auto

lemma drop4 [screen_simps]: "drop_bit 4 c = c div 16" "drop_bit 3 c = c div 8" "drop_bit 2 c = c div 4"
  for c :: int
  by (simp_all add: drop_bit_eq_div)

lemma test_dot:
  fixes v :: int
  assumes "0 \<le> d" "d < 8"
  shows "v AND drop_bit (nat d) 128 \<noteq> 0 \<longleftrightarrow> bit v (7 - nat d)"
proof -
  have "nat d \<le> 7" using assms by linarith
  then have "drop_bit (nat d) (128 :: int) = 2 ^ (7 - nat d)"
    by (simp add: drop_bit_eq_div power_diff)
  then show ?thesis by (simp add: and_exp_eq_0_iff_not_bit)
qed

lemma foreground_valid:
  assumes "valid_palette palette"
  shows "valid_palette (fst (foreground_palette palette regs mode))"
proof -
  have "rgb_ok (palette ! nat (regs ! 7 AND 15))" using assms by (intro palette_rgb) (simp_all add: and_ones)
  then show ?thesis using assms
    by (auto simp: valid_palette_def foreground_palette_def Let_def list_all_length nth_list_update)
qed

lemma bit_colour_ok:
  assumes "valid_palette p" "0 \<le> c" "c < 256"
  shows "rgb_ok (bit_colour bits (p ! nat (c div 16)) (p ! nat (c mod 16)) d)"
  using palette_rgb [OF assms(1)] nibbles [OF assms(2,3)] by (simp add: bit_colour_def)

lemma cell_colour_ok:
  assumes "valid_palette p" "0 \<le> c" "c < 256"
  shows "rgb_ok ((if blocks then (\<lambda>d. if d < 4 then p ! nat (c div 16) else p ! nat (c mod 16))
     else bit_colour bits (p ! nat (c div 16)) (p ! nat (c mod 16))) d)"
  using bit_colour_ok [OF assms] palette_rgb [OF assms(1)] nibbles [OF assms(2,3)] by simp

lemma cell_colour_dot:
  assumes "0 \<le> d" "d < 8"
  shows "(if blocks then (\<lambda>d. if d < 4 then f else b) else bit_colour bits f b) d =
    (if (if blocks then d < 4 else bit bits (7 - nat d)) then f else b)"
  using test_dot [OF assms, of bits] by (simp add: bit_colour_def)

lemma cell_column:
  assumes "0 \<le> d" "d < n" "0 \<le> (c :: int)"
  shows "(c * n + d) div n = c" "(c * n + d) mod n = d"
  using assms by auto

lemma paints_cell:
  assumes "f = put_dots n w (column * n) y c" "\<And>d. 0 \<le> d \<Longrightarrow> d < n \<Longrightarrow> rgb_ok (c d) \<and> img (column * n + d) y = c d"
    and "0 \<le> column" "0 \<le> n" "column * n + n \<le> w" "0 \<le> y" "y < h"
  shows "paints w h img (\<lambda>x' y'. y' = y \<and> column * n \<le> x' \<and> x' < column * n + n) f"
  unfolding assms(1) using assms(2-) by (intro paints_dots) auto

lemma text_cell_paints:
  assumes "full_dump v" "wf_regs regs" "valid_palette p" "0 \<le> column" "column < columns"
    and "columns = 40 \<or> columns = 80" "0 \<le> y" "y < h"
  shows "paints (columns * 6) h (text_colour v regs p columns blink)
     (\<lambda>x' y'. y' = y \<and> column * 6 \<le> x' \<and> x' < column * 6 + 6) (text_cell v regs p [] columns blink y column)"
proof -
  let ?name = "table_value v (push_bit 10 (regs ! 2)) 10
      (if columns = 40 then 0xC00 + y div 8 * 40 + column else y div 8 * 80 + column) 12"
  let ?mask = "table_value v (colour_base regs) 6 (y div 8 * 10 + column div 8) 9"
  let ?blink = "columns \<noteq> 40 \<and> blink \<and> bit ?mask (7 - nat (column mod 8))"
  let ?bits = "table_value v (push_bit 11 (regs ! 4)) 11 (?name * 8 + (y + regs ! 23) mod 8) 11"
  let ?c = "regs ! (if ?blink then 12 else 7)"
  have char: "text_char v regs [] columns blink (y div 8) column = Inr (?name, ?blink)"
    using test_dot [of "column mod 8" ?mask]
    by (auto simp: text_char_def name_byte_def colour_byte_def vbyte_table [OF assms(1)] colour_base_def and_ones)
  have cell: "text_cell v regs p [] columns blink y column =
      put_dots 6 (columns * 6) (column * 6) y (bit_colour ?bits (p ! nat (?c div 16)) (p ! nat (?c mod 16)))"
    unfolding text_cell_def Let_def char
    by (auto simp: fun_eq_iff pattern_byte_def vbyte_table [OF assms(1)] and_ones drop4)
  have c: "0 \<le> ?c \<and> ?c < 256" using wf_regs_at [OF assms(2)] by simp
  have dot: "bit_colour ?bits f b d = (if bit ?bits (7 - nat d) then f else b)" if "0 \<le> d" "d < 6" for f b d
    using test_dot [of d ?bits] that by (simp add: bit_colour_def)
  have "text_colour v regs p columns blink (column * 6 + d) y =
      bit_colour ?bits (p ! nat (?c div 16)) (p ! nat (?c mod 16)) d" if "0 \<le> d" "d < 6" for d
    unfolding dot [OF that] text_colour_def Let_def cell_column [OF that assms(4)] ..
  then have ok: "rgb_ok (bit_colour ?bits (p ! nat (?c div 16)) (p ! nat (?c mod 16)) d) \<and>
      text_colour v regs p columns blink (column * 6 + d) y =
        bit_colour ?bits (p ! nat (?c div 16)) (p ! nat (?c mod 16)) d" if "0 \<le> d" "d < 6" for d
    using that bit_colour_ok [OF assms(3) c [THEN conjunct1] c [THEN conjunct2]] by blast
  have "column * 6 + 6 \<le> columns * 6" using assms(5) by simp
  then show ?thesis
    by (intro paints_cell [where c = "bit_colour ?bits (p ! nat (?c div 16)) (p ! nat (?c mod 16))", OF cell] ok assms) simp_all
qed

lemma tile_cell_paints:
  assumes "full_dump v" "wf_regs regs" "valid_palette p" "0 \<le> column" "column < 32" "mode \<in> {1, 2, 3, 4}" "0 \<le> y" "y < h"
  shows "paints 256 h (tile_colour v mode regs p)
     (\<lambda>x' y'. y' = y \<and> column * 8 \<le> x' \<and> x' < column * 8 + 8) (tile_cell v mode regs p [] y column)"
proof -
  let ?line = "(y + regs ! 23) mod 256"
  let ?name = "table_value v (push_bit 10 (regs ! 2)) 10 (?line div 8 * 32 + (column + regs ! 26 mod 32) mod 32) 10"
  let ?cell = "(?line div 64 * 256 + ?name) * 8 + ?line mod 8"
  let ?pattern = "table_value v (push_bit 11 (regs ! 4)) 11"
  let ?bits = "if mode = 1 then ?pattern (?name * 8 + ?line mod 8) 11 else ?pattern ?cell 13"
  let ?c = "if mode = 1 then table_value v (colour_base regs) 6 (?name div 8) 6
     else if mode = 3 then ?pattern (?name * 8 + ?line div 4 mod 8) 11 else table_value v (colour_base regs) 6 ?cell 13"
  let ?f = "p ! nat (?c div 16)" let ?b = "p ! nat (?c mod 16)"
  let ?colour = "if mode = 3 then (\<lambda>d. if d < 4 then ?f else ?b) else bit_colour ?bits ?f ?b"
  have cell: "tile_cell v mode regs p [] y column = put_dots 8 256 (column * 8) y ?colour"
  proof
    fix out
    have name: "name_byte v regs [] (?line div 8 * 32 + (column + regs ! 26 mod 32) mod 32) 10 None = Inr ?name"
      by (simp only: name_byte_def map_of.simps option.case vbyte_table [OF assms(1)])
    have reads: "pattern_byte v regs [] i n = Inr (?pattern i n)"
      "colour_byte v regs [] i n = Inr (table_value v (colour_base regs) 6 i n)" for i n
      by (simp_all add: pattern_byte_def colour_byte_def colour_base_def vbyte_table [OF assms(1)])
    from assms(6) have "mode = 1 \<or> mode = 2 \<or> mode = 4 \<or> mode = 3" by auto
    then show "tile_cell v mode regs p [] y column out = put_dots 8 256 (column * 8) y ?colour out"
      unfolding tile_cell_def Let_def and_ones drop4 name bindE_simps reads by (elim disjE; simp only: if_True if_False refl simp_thms numeral_eq_iff semiring_norm one_eq_numeral_iff numeral_eq_one_iff)
  qed
  have c: "0 \<le> ?c" "?c < 256" by simp_all
  have "tile_colour v mode regs p (column * 8 + d) y = ?colour d" if "0 \<le> d" "d < 8" for d
    unfolding cell_colour_dot [OF that] tile_colour_def Let_def cell_column [OF that assms(4)] ..
  moreover have "rgb_ok (?colour d)" for d
    using assms(3) c by (rule cell_colour_ok)
  ultimately have ok: "rgb_ok (?colour d) \<and> tile_colour v mode regs p (column * 8 + d) y = ?colour d"
    if "0 \<le> d" "d < 8" for d using that by blast
  have "column * 8 + 8 \<le> 256" using assms(5) by simp
  then show ?thesis by (intro paints_cell [where c = ?colour, OF cell] ok assms) simp_all
qed

definition signed6 :: "int \<Rightarrow> int" where
  "signed6 n = (if 32 \<le> n then n - 64 else n)"

text \<open>
  The colour stored for pixel \<open>sx\<close> of the line at address \<open>row\<close>; the line wraps at the right edge when
  the screen is scrolled, and \<open>base\<close> is the address of the page.
\<close>

definition stored_colour :: "bytes \<Rightarrow> int \<Rightarrow> int list \<Rightarrow> palette \<Rightarrow> int \<Rightarrow> int \<Rightarrow> rgb" where
  "stored_colour v mode regs palette row sx =
     (let (p, transparent) = foreground_palette palette regs mode; at = (\<lambda>k. uint (v ! nat (row + k)))
      in if mode = 5 \<or> mode = 7 then
           let b = at (sx div 2) in p ! nat (if sx mod 2 = 0 then b div 16 else b mod 16)
         else if mode = 6 then
           let index = at (sx div 4) div 4 ^ nat (3 - sx mod 4) mod 4
           in if index = 0 \<and> transparent
              then palette ! nat (if sx mod 2 = 0 then regs ! 7 div 4 mod 4 else regs ! 7 mod 4)
              else palette ! nat index
         else if mode = 8 then rgb332 (at sx)
         else
           let g = 4 * (sx div 4); b = at sx;
               k = signed6 (at g mod 8 + 8 * (at (g + 1) mod 8));
               j = signed6 (at (g + 2) mod 8 + 8 * (at (g + 3) mod 8))
           in if (mode = 10 \<or> mode = 11) \<and> bit b 3 then p ! nat (b div 16) else yjk_rgb (b div 8) j k)"

definition bitmap_colour :: "bytes \<Rightarrow> int \<Rightarrow> int list \<Rightarrow> palette \<Rightarrow> int \<Rightarrow> int \<Rightarrow> int \<Rightarrow> rgb" where
  "bitmap_colour v mode regs palette base x y =
     (let width = bitmap_width mode
      in stored_colour v mode regs palette (base + (y + regs ! 23) mod 256 * bitmap_stride mode)
           ((x + regs ! 26 mod 32 * (if width = 512 then 16 else 8)) mod width))"

lemma scale_ok:
  assumes "0 \<le> c" "c \<le> m" "0 < m"
  shows "component_ok (scale c m)"
proof -
  have "c * 255 div m \<le> m * 255 div m" by (rule zdiv_mono1) (use assms in simp_all)
  then show ?thesis using assms by (simp add: component_ok_def scale_def pos_imp_zdiv_nonneg_iff)
qed

lemma rgb332_ok: "rgb_ok (rgb332 b)"
  by (simp add: rgb332_def rgb_ok_def scale_ok and_ones)

lemma yjk_ok: "rgb_ok (yjk_rgb y j k)"
  by (simp add: yjk_rgb_def rgb_ok_def Let_def scale_ok clamp5_def)

lemma and_power: "c AND 2 ^ n = (if bit c n then 2 ^ n else 0)" for c :: int
  by (rule bit_eqI) (auto simp: bit_simps)

lemma and4: "push_bit 3 (c AND 4) = (if bit c 2 then 32 else 0)" for c :: int
  using and_power [of c 2] by simp

lemma signed_pair:
  fixes a b :: int
  shows "(a AND 7) + push_bit 3 (b AND 3) - push_bit 3 (b AND 4) = signed6 (a mod 8 + 8 * (b mod 8))"
proof -
  have "b mod (4 * 2) = 4 * (b div 4 mod 2) + b mod 4" by (rule zmod_zmult2_eq) simp
  then have b: "b mod 8 = b mod 4 + (if bit b 2 then 4 else 0)"
    by (simp add: bit_iff_odd odd_iff_mod_2_eq_one)
  have "a mod 8 + 8 * (b mod 4) < 32" "0 \<le> a mod 8 + 8 * (b mod 4)"
    using pos_mod_bound [of 8 a] pos_mod_bound [of 4 b] pos_mod_sign [of 8 a] pos_mod_sign [of 4 b] by linarith+
  then show ?thesis unfolding and4 by (simp add: and_ones b push_bit_eq_mult signed6_def)
qed

lemma concat_same_length:
  assumes "\<forall>xs\<in>set xss. length xs = n" "i < length xss * n"
  shows "concat xss ! i = xss ! (i div n) ! (i mod n)"
  using assms
proof (induction xss arbitrary: i)
  case (Cons xs xss)
  have n: "0 < n" using Cons.prems(2) by (cases n) auto
  show ?case
  proof (cases "i < n")
    case True
    then show ?thesis using Cons.prems by (simp add: nth_append)
  next
    case False
    then have "i div n = Suc ((i - n) div n)" "i mod n = (i - n) mod n"
      using n by (simp_all add: le_div_geq le_mod_geq)
    then show ?thesis using False Cons.IH [of "i - n"] Cons.prems by (simp add: nth_append)
  qed
qed simp

lemma mapE_Inr: "(\<And>x. x \<in> set xs \<Longrightarrow> f x = Inr (g x)) \<Longrightarrow> mapE f xs = Inr (map g xs)"
  by (induction xs) auto

lemma nth_range_int: "0 \<le> i \<Longrightarrow> i < n \<Longrightarrow> range_int n ! nat i = i"
  by (simp add: range_int_def nth_upto)

lemma length_range_int [simp]: "length (range_int n) = nat n"
  by (simp add: range_int_def)

text \<open>A line made of groups of \<open>k\<close> pixels each.\<close>

lemma concat_groups:
  assumes "\<And>i. 0 \<le> i \<Longrightarrow> i < m \<Longrightarrow> length (g i) = nat k" "0 < k" "0 \<le> x" "x < m * k"
  shows "concat (map g (range_int m)) ! nat x = g (x div k) ! nat (x mod k)"
proof -
  have "x div k * k < m * k"
    using assms(4) div_mult_mod_eq [of x k] pos_mod_sign [OF assms(2), of x] by linarith
  then have d: "0 \<le> x div k" "x div k < m" "0 \<le> x mod k"
    using assms(2,3) by (simp_all add: pos_imp_zdiv_nonneg_iff)
  have "nat x < nat (m * k)" using assms(3,4) by simp
  then have "nat x < nat m * nat k" using d by (simp add: nat_mult_distrib)
  then have "concat (map g (range_int m)) ! nat x = map g (range_int m) ! (nat x div nat k) ! (nat x mod nat k)"
    using assms(1) by (intro concat_same_length) auto
  also have "nat x div nat k = nat (x div k)" using assms(2,3) by (simp add: nat_div_distrib)
  also have "nat x mod nat k = nat (x mod k)" using assms(2,3) by (simp add: nat_mod_distrib)
  also have "map g (range_int m) ! nat (x div k) = g (x div k)" using d by (simp add: nth_range_int nat_less_iff)
  finally show ?thesis .
qed

lemma length_concat_groups:
  assumes "\<And>i. 0 \<le> i \<Longrightarrow> i < m \<Longrightarrow> length (g i) = nat k" "0 \<le> m"
  shows "length (concat (map g (range_int m))) = nat m * nat k"
proof -
  have "map length (map g (range_int m)) = map (\<lambda>_. nat k) (range_int m)" using assms by auto
  then show ?thesis unfolding length_concat by (simp only: sum_list_triv length_range_int) simp
qed

subsection \<open>Lines of a bitmap\<close>

lemma slice_append:
  "a + n \<le> length xs \<Longrightarrow> slice a n (xs @ r) = slice a n xs"
  "length xs \<le> a \<Longrightarrow> a + n \<le> length xs + length ys \<Longrightarrow> slice a n (xs @ ys @ zs) = slice (a - length xs) n ys"
  "length xs + length ys \<le> a \<Longrightarrow> slice a n (xs @ ys @ zs) = slice (a - length xs - length ys) n zs"
  by (simp_all add: slice_def)

lemma slice_take: "a + n \<le> b \<Longrightarrow> slice a n (take b xs) = slice a n xs"
  by (simp add: slice_def drop_take min_absorb1)

lemma slice_concat:
  assumes "\<forall>c\<in>set cs. length c = 3" "k < length cs"
  shows "slice (3 * k) 3 (concat cs) = cs ! k"
  using assms
proof (induction cs arbitrary: k)
  case (Cons c cs)
  show ?case
  proof (cases k)
    case 0
    then show ?thesis using Cons.prems by (simp add: slice_def)
  next
    case (Suc m)
    then show ?thesis using Cons.IH [of m] Cons.prems by (simp add: slice_def)
  qed
qed simp

lemma paints_line:
  assumes "0 \<le> y" "y < h" "0 \<le> w" "length line = nat w"
    and "\<And>x. 0 \<le> x \<Longrightarrow> x < w \<Longrightarrow> rgb_ok (line ! nat x) \<and> img x y = line ! nat x"
  shows "paints w h img (\<lambda>_ y'. y' = y) (put_line w y line)"
  unfolding paints_def
proof (intro allI impI)
  fix out assume size: "sized w h out"
  define W Y where "W = nat w" and "Y = nat y"
  have wy: "w = int W" "y = int Y" using assms(1,3) by (simp_all add: W_def Y_def)
  let ?cs = "map rgb_bytes line"
  have "rgb_ok c" if c: "c \<in> set line" for c
  proof -
    obtain i where "i < W" "c = line ! i" using c assms(4) by (auto simp: in_set_conv_nth W_def)
    then show ?thesis using assms(5) [of "int i"] wy by simp
  qed
  then have cs: "mapE colour_bytes line = Inr ?cs" by (intro mapE_Inr) simp
  have "length (concat ?cs) = 3 * length line" by (induction line) simp_all
  then have len: "length (concat ?cs) = 3 * W" using assms(4) by (simp add: W_def)
  have start: "nat (y * w * 3) = 3 * (Y * W)" "nat (w * 3) = 3 * W" unfolding wy by (simp_all add: nat_mult_distrib)
  have total: "length out = 3 * (W * nat h)" using size assms(1,2) unfolding sized_def wy by (simp add: nat_mult_distrib)
  have "Y + 1 \<le> nat h" using assms(1,2) by (simp add: Y_def)
  then have room: "3 * (Y * W) + 3 * W \<le> length out" unfolding total
    using mult_le_mono2 [of "Y + 1" "nat h" W] by (simp add: algebra_simps)
  let ?out = "take (3 * (Y * W)) out @ concat ?cs @ drop (3 * (Y * W) + 3 * W) out"
  have "px w ?out x' y' = (if y' = y then rgb_bytes (img x' y') else px w out x' y')" if on: "on_screen w h x' y'" for x' y'
  proof -
    define X V where "X = nat x'" and "V = nat y'"
    have xy: "x' = int X" "y' = int V" "X < W" using on by (simp_all add: on_screen_def X_def V_def W_def)
    have at: "3 * nat (y' * w + x') = 3 * (V * W) + 3 * X" unfolding xy wy by (simp add: nat_plus_as_int [symmetric] flip: of_nat_mult of_nat_add)
    have same: "y' = y \<longleftrightarrow> V = Y" using xy wy by simp
    consider "V = Y" | "V < Y" | "Y < V" by linarith
    then show ?thesis
    proof cases
      case 1
      have "slice (3 * (V * W) + 3 * X) 3 ?out = slice (3 * X) 3 (concat ?cs)"
        using slice_append(2) [of "take (3 * (Y * W)) out" "3 * (V * W) + 3 * X" 3 "concat ?cs" "drop (3 * (Y * W) + 3 * W) out"]
          1 room len xy(3) by simp
      also have "\<dots> = ?cs ! X" using xy(3) assms(4) by (intro slice_concat) (auto simp: W_def)
      also have "\<dots> = rgb_bytes (line ! nat x')" using xy(3) assms(4) by (simp add: X_def W_def)
      also have "line ! nat x' = img x' y'" using assms(5) [of x'] on 1 wy(2) xy(2) by (simp add: on_screen_def)
      finally show ?thesis using 1 same unfolding px_def at by simp
    next
      case 2
      then have "V * W + W \<le> Y * W" using mult_le_mono1 [of "V + 1" Y W] by (simp add: algebra_simps)
      then have le: "3 * (V * W) + 3 * X + 3 \<le> 3 * (Y * W)" using xy(3) by linarith
      then have "slice (3 * (V * W) + 3 * X) 3 ?out = slice (3 * (V * W) + 3 * X) 3 out"
        using room slice_append(1) [of "3 * (V * W) + 3 * X" 3 "take (3 * (Y * W)) out"] slice_take [OF le, of out] by simp
      then show ?thesis using 2 same unfolding px_def at by simp
    next
      case 3
      then have "Y * W + W \<le> V * W" using mult_le_mono1 [of "Y + 1" V W] by (simp add: algebra_simps)
      then have "slice (3 * (V * W) + 3 * X) 3 ?out = slice (3 * (V * W) + 3 * X) 3 out"
        using slice_append(3) [of "take (3 * (Y * W)) out" "concat ?cs" "3 * (V * W) + 3 * X" 3 "drop (3 * (Y * W) + 3 * W) out"]
          room len by (simp add: slice_def)
      then show ?thesis using 3 same unfolding px_def at by simp
    qed
  qed
  moreover have "sized w h ?out" using size room len by (simp add: sized_def)
  moreover have "put_line w y line out = Inr ?out" by (simp only: put_line_def Let_def cs bindE_simps start)
  ultimately show "\<exists>out'. put_line w y line out = Inr out' \<and> sized w h out' \<and>
      (\<forall>x' y'. on_screen w h x' y' \<longrightarrow> px w out' x' y' = (if y' = y then rgb_bytes (img x' y') else px w out x' y'))"
    by blast
qed

lemma residues4: "(r :: int) mod 4 = 0 \<or> r mod 4 = 1 \<or> r mod 4 = 2 \<or> r mod 4 = 3"
  by presburger

lemma grouped_line:
  assumes "\<And>i. 0 \<le> i \<Longrightarrow> i < m \<Longrightarrow> f i = Inr (g i) \<and> length (g i) = nat k" "0 < k" "w = m * k" "0 \<le> m"
    and "\<And>x. 0 \<le> x \<Longrightarrow> x < w \<Longrightarrow> g (x div k) ! nat (x mod k) = c x"
  shows "\<exists>line. map_sum id concat (mapE f (range_int m)) = Inr line \<and> length line = nat w \<and>
    (\<forall>x. 0 \<le> x \<longrightarrow> x < w \<longrightarrow> line ! nat x = c x)"
proof -
  let ?line = "concat (map g (range_int m))"
  have "mapE f (range_int m) = Inr (map g (range_int m))" by (rule mapE_Inr) (use assms(1) in auto)
  moreover have "length ?line = nat w" using length_concat_groups [of m g k] assms(1-4) by (simp add: nat_mult_distrib)
  moreover have "?line ! nat x = c x" if "0 \<le> x" "x < w" for x
    using concat_groups [of m g k x] assms that by simp
  ultimately show ?thesis by simp
qed

lemma bitmap_line_stored:
  assumes "full_dump v" "0 \<le> row" "row + bitmap_stride mode \<le> SCREEN_VRAM_SIZE" "mode \<in> {5, 6, 7, 8, 10, 11, 12}"
  shows "\<exists>line. bitmap_line v mode regs palette row = Inr line \<and> length line = nat (bitmap_width mode) \<and>
    (\<forall>x. 0 \<le> x \<longrightarrow> x < bitmap_width mode \<longrightarrow> line ! nat x = stored_colour v mode regs palette row x)"
proof -
  define p where "p = fst (foreground_palette palette regs mode)"
  define tr where "tr = snd (foreground_palette palette regs mode)"
  have fg: "foreground_palette palette regs mode = (p, tr)" by (simp add: p_def tr_def)
  define at where "at k = uint (v ! nat (row + k))" for k
  have read: "vbyte v (row + k) = Inr (at k)" if "0 \<le> k" "k < bitmap_stride mode" for k
    using vbyte_full [OF assms(1), of "row + k"] that assms(2,3) by (simp add: at_def)
  consider "mode = 5 \<or> mode = 7" | "mode = 6" | "mode = 8" | "mode \<in> {10, 11, 12}" using assms(4) by auto
  then show ?thesis
  proof cases
    case 1
    then have line: "bitmap_line v mode regs palette row = map_sum id concat
        (mapE (\<lambda>i. bindE (vbyte v (row + i)) (\<lambda>v. Inr (two_pixels p v))) (range_int (bitmap_stride mode)))"
      by (simp add: bitmap_line_def fg)
    have "two_pixels p (at (x div 2)) ! nat (x mod 2) = stored_colour v mode regs palette row x" for x
      using 1 by (cases "x mod 2 = 0")
        (simp_all add: stored_colour_def fg at_def [symmetric] two_pixels_def and_ones drop4 Let_def not_mod_2_eq_0_eq_1)
    then show ?thesis unfolding line using 1 read
      by (intro grouped_line [where g = "\<lambda>i. two_pixels p (at i)" and k = 2])
        (auto simp: two_pixels_def bitmap_stride_def bitmap_width_def)
  next
    case 2
    then have line: "bitmap_line v mode regs palette row = map_sum id concat
        (mapE (\<lambda>i. bindE (vbyte v (row + i)) (\<lambda>v. Inr (four_pixels palette regs tr v))) (range_int (bitmap_stride mode)))"
      unfolding bitmap_line_def fg Let_def prod.case by simp
    have "four_pixels palette regs tr (at (x div 4)) ! nat (x mod 4) = stored_colour v mode regs palette row x" for x
    proof -
      have odd: "x mod 2 = x mod 4 mod 2" by (simp add: mod_mod_cancel)
      show ?thesis using residues4 [of x] 2 unfolding stored_colour_def fg at_def [symmetric] four_pixels_def Let_def odd
        by (elim disjE; simp add: drop_bit_eq_div and_ones nth_Cons')
    qed
    then show ?thesis unfolding line using 2 read
      by (intro grouped_line [where g = "\<lambda>i. four_pixels palette regs tr (at i)" and k = 4])
        (auto simp: four_pixels_def bitmap_stride_def bitmap_width_def Let_def)
  next
    case 3
    then have line: "bitmap_line v mode regs palette row = map_sum id concat
        (mapE (\<lambda>i. bindE (vbyte v (row + i)) (\<lambda>v. Inr [rgb332 v])) (range_int (bitmap_stride mode)))"
      unfolding bitmap_line_def fg Let_def prod.case by simp
    have "[rgb332 (at (x div 1))] ! nat (x mod 1) = stored_colour v mode regs palette row x" for x
      unfolding stored_colour_def fg at_def [symmetric] Let_def prod.case using 3 by simp
    then show ?thesis unfolding line using 3 read
      by (intro grouped_line [where g = "\<lambda>i. [rgb332 (at i)]" and k = 1])
        (auto simp: bitmap_stride_def bitmap_width_def)
  next
    case 4
    define g where "g i = decode_yjk_group (at (4 * i), at (4 * i + 1), at (4 * i + 2), at (4 * i + 3)) p (mode = 10 \<or> mode = 11)" for i
    have line: "bitmap_line v mode regs palette row = map_sum id concat
        (mapE (\<lambda>i. yjk_group v p (mode = 10 \<or> mode = 11) (row + 4 * i)) (range_int (bitmap_stride mode div 4)))"
      using 4 by (auto simp: bitmap_line_def fg)
    have stride: "bitmap_stride mode = 256" "bitmap_width mode = 256" using 4 by (auto simp: bitmap_stride_def bitmap_width_def)
    have read4: "yjk_group v p b (row + 4 * i) = Inr (decode_yjk_group (at (4 * i), at (4 * i + 1), at (4 * i + 2), at (4 * i + 3)) p b)"
      if "0 \<le> i" "i < 64" for i b
      using read [of "4 * i"] read [of "4 * i + 1"] read [of "4 * i + 2"] read [of "4 * i + 3"] that stride
      by (simp add: yjk_group_def add.assoc)
    have b3: "b AND 8 \<noteq> 0 \<longleftrightarrow> bit b 3" for b :: int using and_power [of b 3] by auto
    have "g (x div 4) ! nat (x mod 4) = stored_colour v mode regs palette row x" for x
    proof -
      have x: "x = 4 * (x div 4) + x mod 4" by simp
      have at_x: "at x = at (4 * (x div 4) + r)" if "x mod 4 = r" for r using x that by simp
      have not: "mode \<noteq> 5" "mode \<noteq> 7" "mode \<noteq> 6" "mode \<noteq> 8" using 4 by auto
      show ?thesis using residues4 [of x] at_x
        unfolding g_def decode_yjk_group_def stored_colour_def fg at_def [symmetric] Let_def prod.case signed_pair b3 drop4
        by (elim disjE; simp add: not)
    qed
    then show ?thesis unfolding line using stride read4
      by (intro grouped_line [where g = g and k = 4]) (auto simp: g_def decode_yjk_group_def Let_def)
  qed
qed

lemma stored_colour_ok:
  assumes "valid_palette palette"
  shows "rgb_ok (stored_colour v mode regs palette row x)"
proof -
  define p where "p = fst (foreground_palette palette regs mode)"
  have fg: "foreground_palette palette regs mode = (p, snd (foreground_palette palette regs mode))" by (simp add: p_def)
  have p: "valid_palette p" using foreground_valid [OF assms] by (simp add: p_def)
  have ok: "rgb_ok (p ! nat (uint b div 16))" "rgb_ok (p ! nat (uint b mod 16))" for b :: byte
    using palette_rgb [OF p] nibbles [of "uint b"] by simp_all
  have four: "rgb_ok (palette ! nat (k mod 4))" for k using palette_rgb [OF assms, of "k mod 4"] pos_mod_bound [of 4 k] by simp
  show ?thesis by (subst stored_colour_def, subst fg) (simp add: Let_def ok four rgb332_ok yjk_ok)
qed

subsection \<open>The background\<close>

text \<open>\<open>shows w h img r\<close>: the result \<open>r\<close> is an image of that size, with the colours of \<open>img\<close>.\<close>

definition shows_image :: "int \<Rightarrow> int \<Rightarrow> (int \<Rightarrow> int \<Rightarrow> rgb) \<Rightarrow> screen_error + image \<Rightarrow> bool" where
  "shows_image w h img r \<longleftrightarrow>
     (\<exists>out. r = Inr (out, w, h) \<and> sized w h out \<and>
        (\<forall>x y. on_screen w h x y \<longrightarrow> px w out x y = rgb_bytes (img x y)))"

lemma paints_all:
  assumes "paints w h img (\<lambda>x y. True) f" "sized w h out"
  shows "shows_image w h img (bindE (f out) (\<lambda>out. Inr (out, w, h)))"
  using assms unfolding paints_def shows_image_def by fastforce

text \<open>A loop over lines, each of which is a loop over cells of \<open>n\<close> pixels.\<close>

lemma paints_rows:
  assumes "\<And>y. 0 \<le> y \<Longrightarrow> y < h \<Longrightarrow> paints w h img (\<lambda>_ y'. y' = y) (row y)"
  shows "paints w h img (\<lambda>_ _. True) (foldE row (range_int h))"
  by (rule paints_region [OF paints_foldE [where R = "\<lambda>y _ y'. y' = y"]]) (use assms in \<open>auto simp: on_screen_def\<close>)

lemma paints_cells:
  assumes "\<And>c. 0 \<le> c \<Longrightarrow> c < m \<Longrightarrow>
      paints (m * n) h img (\<lambda>x' y'. y' = y \<and> c * n \<le> x' \<and> x' < c * n + n) (cell c)" "0 < n"
  shows "paints (m * n) h img (\<lambda>_ y'. y' = y) (foldE cell (range_int m))"
proof (rule paints_region [OF paints_foldE])
  fix x' y' assume on: "on_screen (m * n) h x' y'"
  have d: "x' div n * n + x' mod n = x'" "0 \<le> x' mod n" "x' mod n < n" using assms(2) by simp_all
  have "x' div n * n < m * n" using on d unfolding on_screen_def by linarith
  then have "0 \<le> x' div n" "x' div n < m" using on assms(2) by (simp_all add: on_screen_def pos_imp_zdiv_nonneg_iff)
  then have "\<exists>c\<in>set (range_int m). c * n \<le> x' \<and> x' < c * n + n"
    using d by (intro bexI [of _ "x' div n"]) (linarith, simp)
  then show "(\<exists>c\<in>set (range_int m). y' = y \<and> c * n \<le> x' \<and> x' < c * n + n) = (y' = y)" by auto
qed (use assms(1) in auto)

lemma characters_shown:
  assumes "full_dump v" "wf_regs regs" "valid_palette palette" "mode \<in> {0, 1, 2, 3, 4}"
    and "mode = 0 \<Longrightarrow> text_columns regs tw \<in> {40, 80}"
  shows "if mode = 0
    then shows_image (text_columns regs tw * 6) h
      (text_colour v regs (fst (foreground_palette palette regs 0)) (text_columns regs tw) blink)
      (render_characters v mode regs palette h [] tw blink)
    else shows_image 256 h (tile_colour v mode regs (fst (foreground_palette palette regs mode)))
      (render_characters v mode regs palette h [] tw blink)"
proof (cases "mode = 0")
  case True
  define n where "n = text_columns regs tw"
  have n: "n = 40 \<or> n = 80" using assms(5) True by (auto simp: n_def)
  let ?p = "fst (foreground_palette palette regs 0)"
  have "paints (n * 6) h (text_colour v regs ?p n blink) (\<lambda>_ _. True)
      (foldE (\<lambda>y. foldE (text_cell v regs ?p [] n blink y) (range_int n)) (range_int h))"
    by (intro paints_rows paints_cells text_cell_paints assms foreground_valid n) simp_all
  then have "shows_image (n * 6) h (text_colour v regs ?p n blink)
      (bindE (foldE (\<lambda>y. foldE (text_cell v regs ?p [] n blink y) (range_int n)) (range_int h)
         (replicate (nat (n * 6 * h * 3)) 0)) (\<lambda>out. Inr (out, n * 6, h)))"
    by (rule paints_all) (simp add: sized_def)
  moreover have "\<not> (n \<noteq> 40 \<and> n \<noteq> 80)" using n by auto
  ultimately show ?thesis using True by (auto simp: render_characters_def n_def Let_def)
next
  case False
  then have m: "mode \<in> {1, 2, 3, 4}" using assms(4) by auto
  let ?p = "fst (foreground_palette palette regs mode)"
  have "paints (32 * 8) h (tile_colour v mode regs ?p) (\<lambda>_ _. True)
      (foldE (\<lambda>y. foldE (tile_cell v mode regs ?p [] y) (range_int 32)) (range_int h))"
    by (intro paints_rows paints_cells)
      (use tile_cell_paints [OF assms(1,2) foreground_valid [OF assms(3)] _ _ m] in auto)
  then have "shows_image (32 * 8) h (tile_colour v mode regs ?p)
      (bindE (foldE (\<lambda>y. foldE (tile_cell v mode regs ?p [] y) (range_int 32)) (range_int h)
         (replicate (nat (32 * 8 * h * 3)) 0)) (\<lambda>out. Inr (out, 32 * 8, h)))"
    by (rule paints_all) (simp add: sized_def)
  then show ?thesis using False by (simp add: render_characters_def Let_def)
qed

lemma bitmap_row_paints:
  assumes "full_dump v" "wf_regs regs" "valid_palette palette" "mode \<in> {5, 6, 7, 8, 10, 11, 12}"
    and "0 \<le> base" "base + 256 * bitmap_stride mode \<le> SCREEN_VRAM_SIZE" "0 \<le> y" "y < h"
  shows "paints (bitmap_width mode) h (bitmap_colour v mode regs palette base) (\<lambda>_ y'. y' = y)
    (render_bitmap_row v mode regs palette base y)"
proof -
  define w where "w = bitmap_width mode"
  define row where "row = base + (y + regs ! 23) mod 256 * bitmap_stride mode"
  define s where "s = regs ! 26 mod 32 * (if w = 512 then 16 else 8)"
  have w: "w = 256 \<or> w = 512" by (simp add: w_def bitmap_width_def)
  have stride: "0 < bitmap_stride mode" by (simp add: bitmap_stride_def)
  have "(y + regs ! 23) mod 256 * bitmap_stride mode \<le> 255 * bitmap_stride mode"
    by (intro mult_right_mono) (use stride pos_mod_bound [of 256 "y + regs ! 23"] in linarith)+
  moreover have "0 \<le> (y + regs ! 23) mod 256 * bitmap_stride mode" using stride by simp
  ultimately have row: "0 \<le> row" "row + bitmap_stride mode \<le> SCREEN_VRAM_SIZE"
    using assms(5,6) unfolding row_def by linarith+
  obtain line where line: "bitmap_line v mode regs palette row = Inr line" "length line = nat w"
    "\<And>x. 0 \<le> x \<Longrightarrow> x < w \<Longrightarrow> line ! nat x = stored_colour v mode regs palette row x"
    using bitmap_line_stored [OF assms(1) row assms(4)] unfolding w_def by blast
  have "0 \<le> regs ! 26 mod 32" "regs ! 26 mod 32 < 32" by simp_all
  then have s: "0 \<le> s" "s < w" using w unfolding s_def by (elim disjE; simp)+
  have rotated: "(drop (nat s) line @ take (nat s) line) ! nat x = stored_colour v mode regs palette row ((x + s) mod w)"
    if "0 \<le> x" "x < w" for x
  proof -
    have "drop (nat s) line @ take (nat s) line = rotate (nat s) line"
      using s line(2) by (simp add: rotate_drop_take)
    moreover have "rotate (nat s) line ! nat x = line ! ((nat s + nat x) mod length line)"
      using that line(2) by (intro nth_rotate) simp
    moreover have "(nat s + nat x) mod length line = nat ((x + s) mod w)"
      using that s line(2) by (simp add: nat_mod_distrib nat_add_distrib add.commute)
    ultimately show ?thesis using line(3) [of "(x + s) mod w"] w by auto
  qed
  have "render_bitmap_row v mode regs palette base y = put_line w y (drop (nat s) line @ take (nat s) line)"
    unfolding render_bitmap_row_def Let_def fun_eq_iff and_ones using line(1) by (simp add: row_def w_def s_def)
  moreover have "bitmap_colour v mode regs palette base x y = stored_colour v mode regs palette row ((x + s) mod w)" for x
    by (simp add: bitmap_colour_def row_def s_def w_def Let_def)
  ultimately show ?thesis unfolding w_def [symmetric]
    using assms(7,8) w line(2) s rotated stored_colour_ok [OF assms(3)]
    by (auto intro!: paints_line)
qed

lemma bitmap_shown:
  assumes "full_dump v" "wf_regs regs" "valid_palette palette" "mode \<in> {5, 6, 7, 8, 10, 11, 12}"
    and "bitmap_page_base mode regs page [] = Inr base"
  shows "shows_image (bitmap_width mode) h (bitmap_colour v mode regs palette base) (render_bitmap v mode regs palette h page [])"
proof -
  have base: "0 \<le> base" "base + 256 * bitmap_stride mode \<le> SCREEN_VRAM_SIZE"
    using page_base_bounds [OF assms(5)] assms(4) by auto
  have "paints (bitmap_width mode) h (bitmap_colour v mode regs palette base) (\<lambda>_ _. True)
      (foldE (render_bitmap_row v mode regs palette base) (range_int h))"
    by (intro paints_rows bitmap_row_paints assms(1-4) base)
  then have "shows_image (bitmap_width mode) h (bitmap_colour v mode regs palette base)
     (bindE (foldE (render_bitmap_row v mode regs palette base) (range_int h)
       (replicate (nat (bitmap_width mode * h * 3)) 0)) (\<lambda>out. Inr (out, bitmap_width mode, h)))"
    by (rule paints_all) (simp add: sized_def)
  then show ?thesis using assms(5) by (simp add: render_bitmap_def Let_def)
qed

subsection \<open>Sprites\<close>

text \<open>\<open>confined w h R f\<close>: \<open>f\<close> succeeds on an image of that size and keeps the pixels outside \<open>R\<close>.\<close>

definition confined :: "int \<Rightarrow> int \<Rightarrow> (int \<Rightarrow> int \<Rightarrow> bool) \<Rightarrow> (bytes \<Rightarrow> screen_error + bytes) \<Rightarrow> bool" where
  "confined w h R f \<longleftrightarrow>
     (\<forall>out. sized w h out \<longrightarrow> (\<exists>out'. f out = Inr out' \<and> sized w h out' \<and>
        (\<forall>x y. on_screen w h x y \<longrightarrow> \<not> R x y \<longrightarrow> px w out' x y = px w out x y)))"

lemma confined_nothing [simp]: "confined w h R Inr"
  by (simp add: confined_def)

lemma confined_mono: "confined w h R f \<Longrightarrow> (\<And>x y. on_screen w h x y \<Longrightarrow> R x y \<Longrightarrow> S x y) \<Longrightarrow> confined w h S f"
  unfolding confined_def by meson

lemma confined_then:
  assumes "confined w h R f" "confined w h R g"
  shows "confined w h R (\<lambda>out. bindE (f out) g)"
  unfolding confined_def
proof (intro allI impI)
  fix out assume "sized w h out"
  then obtain o1 where o1: "f out = Inr o1" "sized w h o1"
    "\<And>x y. on_screen w h x y \<Longrightarrow> \<not> R x y \<Longrightarrow> px w o1 x y = px w out x y"
    using assms(1) unfolding confined_def by blast
  then obtain o2 where "g o1 = Inr o2" "sized w h o2"
    "\<And>x y. on_screen w h x y \<Longrightarrow> \<not> R x y \<Longrightarrow> px w o2 x y = px w o1 x y"
    using assms(2) unfolding confined_def by blast
  with o1 show "\<exists>out'. bindE (f out) g = Inr out' \<and> sized w h out' \<and>
      (\<forall>x y. on_screen w h x y \<longrightarrow> \<not> R x y \<longrightarrow> px w out' x y = px w out x y)" by auto
qed

lemma confined_foldE:
  assumes "\<And>i. i \<in> set is \<Longrightarrow> confined w h R (f i)"
  shows "confined w h R (foldE f is)"
  using assms
proof (induction "is")
  case Nil
  then show ?case by (simp add: confined_def)
next
  case (Cons i "is")
  have "confined w h R (\<lambda>out. bindE (f i out) (foldE f is))" using Cons by (intro confined_then) auto
  then show ?case by simp
qed

lemma confined_unless: "confined w h R f \<Longrightarrow> confined w h R (\<lambda>out. if c then Inr out else f out)"
  by (cases c) (simp_all add: confined_nothing [unfolded fun_eq_iff])

lemma confined_clipped:
  assumes "0 \<le> y" "y < h" "rgb_ok c" "R x y"
  shows "confined w h R (draw_clipped w x y c)"
proof (cases "0 \<le> x \<and> x < w")
  case True
  then have "paints w h (\<lambda>_ _. c) (\<lambda>x' y'. x' = x \<and> y' = y) (pixel w x y c)"
    using paints_pixel [of w h x y "\<lambda>_ _. c"] assms by (simp add: on_screen_def)
  then have "confined w h R (pixel w x y c)" unfolding confined_def paints_def using assms(4) by metis
  moreover have "draw_clipped w x y c = pixel w x y c" using True by (simp add: draw_clipped_def fun_eq_iff)
  ultimately show ?thesis by simp
next
  case False
  then have "draw_clipped w x y c = Inr" by (auto simp: draw_clipped_def fun_eq_iff)
  then show ?thesis by simp
qed

lemma sprite_palette_ok: "valid_palette SCREEN8_SPRITE_PALETTE"
  by code_simp

lemma sprite_colour_ok: "valid_palette p \<Longrightarrow> 0 \<le> c \<Longrightarrow> c < 16 \<Longrightarrow> rgb_ok (sprite_colour mode c p)"
  using palette_rgb [OF sprite_palette_ok] palette_rgb by (simp add: sprite_colour_def)

lemma follow_colour_bounds:
  "0 \<le> colour \<Longrightarrow> colour < 16 \<Longrightarrow> \<forall>s\<in>set visible. 0 \<le> sh_colour s \<and> sh_colour s < 16 \<Longrightarrow>
     0 \<le> follow_colour visible x follower colour \<and> follow_colour visible x follower colour < 16"
proof (induction visible x follower colour rule: follow_colour.induct)
  case (1 visible x follower colour)
  show ?case
  proof (cases "follower < length visible \<and> sh_cc (visible ! follower)")
    case True
    let ?c = "sh_colour (visible ! follower)"
    have c: "0 \<le> ?c" "?c < 16" using 1(4) True by auto
    then have "0 \<le> colour OR ?c" "colour OR ?c < 16" using 1(2,3) OR_upper [of colour 4 ?c] by simp_all
    then show ?thesis using 1 True by (subst (1 2) follow_colour.simps) (simp add: Let_def)
  next
    case False
    then show ?thesis using 1(2,3) by (subst (1 2) follow_colour.simps) auto
  qed
qed

text \<open>The pixels of a scan line a shown sprite can reach; \<open>x_scale\<close> is 2 on the 512-pixel screens.\<close>

definition x_scale :: "int \<Rightarrow> int" where "x_scale mode = (if mode = 6 \<or> mode = 7 then 2 else 1)"

definition reaches :: "int \<Rightarrow> shown_sprite \<Rightarrow> int \<Rightarrow> bool" where
  "reaches mode s x \<longleftrightarrow> sh_x s \<le> x div x_scale mode \<and> x div x_scale mode < sh_x s + int (length (sh_bits s))"

lemma enumerate_member: "i \<in> set (List.enumerate 0 bs) \<Longrightarrow> \<exists>k b. i = (k, b) \<and> k < length bs \<and> b \<in> set bs"
  by (rule exI [of _ "fst i"], rule exI [of _ "snd i"]) (auto simp: in_set_enumerate_eq intro: nth_mem elim: subst)

lemma draw_sprite1_confined:
  assumes "0 \<le> y" "y < h" "valid_palette p" "0 \<le> sh_colour s" "sh_colour s < 16" "mode \<noteq> 6" "mode \<noteq> 7"
    and "\<And>x. reaches mode s x \<Longrightarrow> R x y"
  shows "confined w h R (draw_sprite1 w mode p tr y s)"
proof -
  have "confined w h R (foldE (\<lambda>(sx, set_pixel) out. if \<not> set_pixel then Inr out
      else draw_clipped w (sh_x s + int sx) y (sprite_colour mode (sh_colour s) p) out) (List.enumerate 0 (sh_bits s)))"
  proof (rule confined_foldE)
    fix i assume "i \<in> set (List.enumerate 0 (sh_bits s))"
    then obtain k b where i: "i = (k, b)" "k < length (sh_bits s)" using enumerate_member by blast
    have "reaches mode s (sh_x s + int k)" using i(2) assms(6,7) by (simp add: reaches_def x_scale_def)
    then have "confined w h R (draw_clipped w (sh_x s + int k) y (sprite_colour mode (sh_colour s) p))"
      using assms by (intro confined_clipped sprite_colour_ok) auto
    then show "confined w h R ((\<lambda>(sx, set_pixel) out. if \<not> set_pixel then Inr out
      else draw_clipped w (sh_x s + int sx) y (sprite_colour mode (sh_colour s) p) out) i)"
      using i by (cases b) simp_all
  qed
  then show ?thesis unfolding draw_sprite1_def [abs_def] by (rule confined_unless)
qed

lemma draw_sprite2_confined:
  assumes "0 \<le> y" "y < h" "valid_palette p" "\<forall>s\<in>set visible. 0 \<le> sh_colour s \<and> sh_colour s < 16"
    and "index < length visible" "\<And>x. reaches mode (visible ! index) x \<Longrightarrow> R x y"
  shows "confined w h R (draw_sprite2 w mode p tr visible y index)"
  unfolding draw_sprite2_def [abs_def] Let_def
proof (rule confined_foldE)
  let ?s = "visible ! index"
  fix i assume "i \<in> set (List.enumerate 0 (sh_bits ?s))"
  then obtain k b where i: "i = (k, b)" "k < length (sh_bits ?s)" using enumerate_member by blast
  define lx where "lx = sh_x ?s + int k"
  define c where "c = follow_colour visible lx (index + 1) (sh_colour ?s)"
  have c: "0 \<le> c" "c < 16" using follow_colour_bounds [of "sh_colour ?s" visible] assms(4,5) by (auto simp: c_def)
  define xs where "xs = (if mode = 6 \<or> mode = 7 then 2 else 1 :: int)"
  define cs where "cs = (if mode = 6 then [p ! nat (drop_bit 2 c), p ! nat (c AND 3)] else replicate (nat xs) (sprite_colour mode c p))"
  have four: "0 \<le> c div 4" "c div 4 < 16" "c mod 4 < 16" using c pos_mod_bound [of 4 c] by (auto simp: div_less_iff_less_mult)
  have cs: "length cs = nat xs" "\<forall>rgb\<in>set cs. rgb_ok rgb"
    using palette_rgb [OF assms(3)] sprite_colour_ok [OF assms(3) c] four
    by (auto simp: cs_def xs_def drop4 and_ones)
  have "confined w h R (foldE (\<lambda>(subpixel, rgb). draw_clipped w (lx * xs + int subpixel) y rgb) (List.enumerate 0 cs))"
  proof (rule confined_foldE)
    fix j assume j: "j \<in> set (List.enumerate 0 cs)"
    obtain q rgb where q: "j = (q, rgb)" "q < nat xs" "rgb_ok rgb"
      using enumerate_member [OF j] cs by auto
    have "(lx * xs + int q) div xs = lx" using q(2) by (auto simp: xs_def split: if_splits)
    then have "reaches mode ?s (lx * xs + int q)" using i(2) by (simp add: reaches_def x_scale_def xs_def lx_def)
    then show "confined w h R ((\<lambda>(subpixel, rgb). draw_clipped w (lx * xs + int subpixel) y rgb) j)"
      using assms(1,2,6) q by (auto intro!: confined_clipped)
  qed
  then have "confined w h R (\<lambda>out. if c = 0 \<and> tr then Inr out else
      foldE (\<lambda>(subpixel, rgb). draw_clipped w (lx * xs + int subpixel) y rgb) (List.enumerate 0 cs) out)"
    by (rule confined_unless)
  then show "confined w h R ((\<lambda>(sx, set_pixel) out. if \<not> set_pixel then Inr out else
      (if follow_colour visible (sh_x ?s + int sx) (index + 1) (sh_colour ?s) = 0 \<and> tr then Inr out
       else foldE (\<lambda>(subpixel, rgb). draw_clipped w ((sh_x ?s + int sx) * (if mode = 6 \<or> mode = 7 then 2 else 1) + int subpixel) y rgb)
         (List.enumerate 0
           (if mode = 6 then
              [p ! nat (drop_bit 2 (follow_colour visible (sh_x ?s + int sx) (index + 1) (sh_colour ?s))),
               p ! nat (follow_colour visible (sh_x ?s + int sx) (index + 1) (sh_colour ?s) AND 3)]
            else replicate (nat (if mode = 6 \<or> mode = 7 then 2 else 1))
              (sprite_colour mode (follow_colour visible (sh_x ?s + int sx) (index + 1) (sh_colour ?s)) p))) out)) i)"
    unfolding i(1) prod.case lx_def [symmetric] c_def [symmetric] xs_def [symmetric] cs_def [symmetric]
    by (rule confined_unless)
qed

text \<open>Entry \<open>n\<close> of the attribute table, and the box of pixels its sprite can reach.\<close>

definition table_record :: "bytes \<Rightarrow> int \<Rightarrow> int list \<Rightarrow> int \<Rightarrow> sprite_record" where
  "table_record v sprite_mode regs n =
     (let att = (\<lambda>k. table_value v (sprite_base regs) 7 (sprite_offset sprite_mode n + k) (if sprite_mode = 2 then 10 else 7))
      in \<lparr>sr_number = n, sr_y = att 0, sr_x = att 1, sr_pattern = att 2, sr_colour = att 3\<rparr>)"

definition in_box :: "sprite_setup \<Rightarrow> int \<Rightarrow> sprite_record \<Rightarrow> int \<Rightarrow> int \<Rightarrow> bool" where
  "in_box su mode r x y \<longleftrightarrow>
     (y + ss_scroll su - (sr_y r + 1) mod 256) mod 256 < visible_size su \<and>
     sr_x r - 32 \<le> x div x_scale mode \<and> x div x_scale mode < sr_x r + visible_size su"

definition sprite_reaches :: "bytes \<Rightarrow> int \<Rightarrow> int list \<Rightarrow> int \<Rightarrow> int \<Rightarrow> bool" where
  "sprite_reaches v mode regs x y \<longleftrightarrow>
     mode \<noteq> 0 \<and> regs ! 8 AND 0x02 = 0 \<and>
     (\<exists>n\<in>{0..<32}. in_box (setup_of mode regs) mode (table_record v (ss_mode (setup_of mode regs)) regs n) x y)"

lemma sprite_reads:
  assumes "full_dump v"
  shows "sprite_attribute v regs [] sm i = Inr (table_value v (sprite_base regs) 7 i (if sm = 2 then 10 else 7))"
    "sprite_line_colour v regs [] i = Inr (table_value v (sprite_base regs) 7 i 10)"
    "sprite_pattern v regs [] i = Inr (table_value v (push_bit 11 (regs ! 6)) 11 i 11)"
  by (simp_all add: sprite_attribute_def sprite_line_colour_def sprite_pattern_def vbyte_table [OF assms])

lemma sprite_records_table:
  assumes "full_dump v"
  shows "\<exists>rs. sprite_records (sprite_attribute v regs [] sm) sm t ns = Inr rs \<and> set rs \<subseteq> table_record v sm regs ` set ns"
proof (induction ns)
  case (Cons n ns)
  then obtain rs where "sprite_records (sprite_attribute v regs [] sm) sm t ns = Inr rs" "set rs \<subseteq> table_record v sm regs ` set ns"
    by blast
  then show ?case
    unfolding sprite_records.simps sprite_offset_def [symmetric] Let_def sprite_reads [OF assms]
    by (auto simp: table_record_def)
qed simp

lemma length_sprite_bits:
  assumes "sprite_bits pattern n row d mag = Inr bits" "d = 8 \<or> d = 16"
  shows "int (length bits) = d * (if mag then 2 else 1)"
proof -
  have "length (concat (map (\<lambda>b. [b, b]) bs)) = 2 * length bs" for bs :: "bool list" by (induction bs) simp_all
  moreover have "length (byte_dots b) = 8" for b by (simp add: byte_dots_def)
  ultimately show ?thesis using assms by (auto simp: sprite_bits_def Let_def result_simps simp del: map_append split: if_splits)
qed

lemma show_sprite_box:
  assumes "show_sprite su line_colour pattern y r = Inr (Some s)" "ss_size su = 8 \<or> ss_size su = 16"
  shows "0 \<le> sh_colour s \<and> sh_colour s < 16 \<and> (\<forall>x. reaches mode s x \<longrightarrow> in_box su mode r x y)"
proof -
  have vis: "(y + ss_scroll su - (sr_y r + 1) mod 256) mod 256 < visible_size su"
    using assms(1) by (auto simp: show_sprite_def Let_def and_ones split: if_splits)
  have s: "(sh_x s = sr_x r \<or> sh_x s = sr_x r - 32) \<and> (\<exists>attr. sh_colour s = attr mod 16) \<and>
      sprite_bits pattern (sr_pattern r) ((y + ss_scroll su - ((sr_y r + 1) AND 255)) AND 255) (ss_size su)
        (ss_magnified su) = Inr (sh_bits s)"
    using assms(1) by (auto simp: show_sprite_def Let_def result_simps and_ones(3) split: if_splits)
  then have "int (length (sh_bits s)) = visible_size su"
    using length_sprite_bits [OF s [THEN conjunct2, THEN conjunct2] assms(2)] by (simp add: visible_size_def)
  then show ?thesis using vis s by (auto simp: reaches_def in_box_def)
qed

lemma visible_sprites_ok:
  assumes "\<forall>r\<in>set rs. is_ok (shown r)" "length acc < limit"
  shows "\<exists>vis. visible_sprites shown limit acc rs = Inr vis \<and> length vis \<le> limit \<and>
    (\<forall>s\<in>set vis. s \<in> set acc \<or> (\<exists>r\<in>set rs. shown r = Inr (Some s)))"
  using assms
proof (induction rs arbitrary: acc)
  case (Cons r rs)
  obtain so where so: "shown r = Inr so" using Cons.prems by (auto simp: is_ok_iff)
  show ?case
  proof (cases so)
    case None
    obtain vis where "visible_sprites shown limit acc rs = Inr vis" "length vis \<le> limit"
      "\<forall>s\<in>set vis. s \<in> set acc \<or> (\<exists>r\<in>set rs. shown r = Inr (Some s))"
      using Cons.IH [of acc] Cons.prems by auto
    then show ?thesis using None so by auto
  next
    case (Some s)
    show ?thesis
    proof (cases "length (acc @ [s]) = limit")
      case True
      then show ?thesis using Some so by auto
    next
      case False
      then have "length (acc @ [s]) < limit" using Cons.prems(2) by simp
      then obtain vis where "visible_sprites shown limit (acc @ [s]) rs = Inr vis" "length vis \<le> limit"
        "\<forall>q\<in>set vis. q \<in> set (acc @ [s]) \<or> (\<exists>r\<in>set rs. shown r = Inr (Some q))"
        using Cons.IH [of "acc @ [s]"] Cons.prems(1) by auto
      then show ?thesis using Some so False by fastforce
    qed
  qed
qed simp

lemma draw_line_confined:
  assumes "0 \<le> y" "y < h" "valid_palette p" "\<forall>s\<in>set vis. 0 \<le> sh_colour s \<and> sh_colour s < 16"
    and "\<And>s x. s \<in> set vis \<Longrightarrow> reaches mode s x \<Longrightarrow> R x y" "ss_mode su = 1 \<Longrightarrow> mode \<noteq> 6 \<and> mode \<noteq> 7"
  shows "confined w h R (draw_line w mode p su y vis)"
proof (cases "ss_mode su = 1")
  case True
  have "confined w h R (foldE (draw_sprite1 w mode p (ss_transparent su) y) (rev vis))"
    using assms True by (intro confined_foldE draw_sprite1_confined) auto
  then show ?thesis using True by (simp add: draw_line_def [abs_def])
next
  case False
  have "confined w h R (foldE (draw_sprite2 w mode p (ss_transparent su) vis y)
      (rev (filter (\<lambda>i. \<not> sh_cc (vis ! i)) [0..<length vis])))"
    using assms by (intro confined_foldE draw_sprite2_confined) (auto dest: assms(5) [OF nth_mem])
  then show ?thesis using False by (simp add: draw_line_def [abs_def])
qed

lemma composite_confined:
  assumes "full_dump v" "valid_palette p"
  shows "confined w h (sprite_reaches v mode regs) (\<lambda>out. composite_sprites out w h v mode regs p [])"
proof (cases "mode = 0 \<or> regs ! 8 AND 0x02 \<noteq> 0")
  case True
  then have "(\<lambda>out. composite_sprites out w h v mode regs p []) = Inr" by (auto simp: composite_sprites_def fun_eq_iff)
  then show ?thesis by simp
next
  case False
  define su where "su = setup_of mode regs"
  have size: "ss_size su = 8 \<or> ss_size su = 16" by (simp add: su_def setup_of_def)
  define limit where "limit = (if ss_mode su = 1 then 4 else 8 :: nat)"
  have limit: "0 < limit" by (simp add: limit_def)
  define shown where "shown y = show_sprite su (sprite_line_colour v regs []) (sprite_pattern v regs []) y" for y
  obtain rs where rs: "sprite_records (sprite_attribute v regs [] (ss_mode su)) (ss_mode su)
      (if ss_mode su = 1 then 208 else 216) (range_int 32) = Inr rs"
    "set rs \<subseteq> table_record v (ss_mode su) regs ` {0..<32}"
    using sprite_records_table [OF assms(1)] by fastforce
  have ok: "is_ok (shown y r)" for y r
    by (simp add: shown_def show_sprite_def sprite_reads [OF assms(1)] sprite_bits_def Let_def)
  have "confined w h (sprite_reaches v mode regs)
      (foldE (\<lambda>y out. bindE (visible_sprites (shown y) limit [] rs) (\<lambda>vis. draw_line w mode p su y vis out)) (range_int h))"
  proof (rule confined_foldE)
    fix y assume "y \<in> set (range_int h)"
    then have y: "0 \<le> y" "y < h" by auto
    obtain vis where vis: "visible_sprites (shown y) limit [] rs = Inr vis"
      "\<And>s. s \<in> set vis \<Longrightarrow> \<exists>r\<in>set rs. shown y r = Inr (Some s)"
      using visible_sprites_ok [of rs "shown y" "[]" limit] ok limit by auto
    have s: "0 \<le> sh_colour s \<and> sh_colour s < 16 \<and> (\<forall>x. reaches mode s x \<longrightarrow> sprite_reaches v mode regs x y)"
      if mem: "s \<in> set vis" for s
    proof -
      obtain r where r: "r \<in> set rs" "shown y r = Inr (Some s)" using vis(2) [OF mem] by blast
      obtain n where "n \<in> {0..<32}" "r = table_record v (ss_mode su) regs n" using rs(2) r(1) by blast
      then show ?thesis using show_sprite_box [OF r(2) [unfolded shown_def] size, of mode] False
        unfolding sprite_reaches_def su_def by blast
    qed
    have "confined w h (sprite_reaches v mode regs) (draw_line w mode p su y vis)"
      by (rule draw_line_confined [OF y assms(2)]) (use s in \<open>auto simp: su_def setup_of_def split: if_splits\<close>)
    then show "confined w h (sprite_reaches v mode regs)
        (\<lambda>out. bindE (visible_sprites (shown y) limit [] rs) (\<lambda>vis. draw_line w mode p su y vis out))"
      by (simp add: vis(1))
  qed
  moreover have "composite_sprites out w h v mode regs p [] =
      foldE (\<lambda>y out. bindE (visible_sprites (shown y) limit [] rs) (\<lambda>vis. draw_line w mode p su y vis out)) (range_int h) out" for out
    using False rs(1) by (simp add: composite_sprites_def su_def [symmetric] shown_def limit_def Let_def)
  ultimately show ?thesis by simp
qed

text \<open>The width of the screen, and the colour the background shows at a pixel.\<close>

definition screen_width :: "int \<Rightarrow> int list \<Rightarrow> render_options \<Rightarrow> int" where
  "screen_width mode regs ro =
     (if mode = 0 then text_columns regs (ro_text_width ro) * 6 else if mode \<le> 4 then 256 else bitmap_width mode)"

definition background_colour :: "bytes \<Rightarrow> int \<Rightarrow> int list \<Rightarrow> palette \<Rightarrow> render_options \<Rightarrow> int \<Rightarrow> int \<Rightarrow> rgb" where
  "background_colour v mode regs p ro x y =
     (let fg = fst (foreground_palette p regs mode)
      in if mode = 0 then text_colour v regs fg (text_columns regs (ro_text_width ro)) (ro_blink ro) x y
         else if mode \<le> 4 then tile_colour v mode regs fg x y
         else (case bitmap_page_base mode regs (ro_page ro) [] of
                 Inr base \<Rightarrow> bitmap_colour v mode regs p base x y | Inl _ \<Rightarrow> (0, 0, 0)))"

definition renderable :: "int \<Rightarrow> int list \<Rightarrow> render_options \<Rightarrow> bool" where
  "renderable mode regs ro \<longleftrightarrow>
     mode \<in> set SUPPORTED_MODES \<and> wf_regs regs \<and> ro_bases ro = [] \<and>
     (mode = 0 \<longrightarrow> text_columns regs (ro_text_width ro) \<in> {40, 80}) \<and>
     (4 < mode \<longrightarrow> is_ok (bitmap_page_base mode regs (ro_page ro) []))"

lemma registers_wf: "wf_regs regs \<Longrightarrow> registers (Some regs) = Inr regs"
  by (simp add: registers_def wf_regs_def)

lemma normalise_valid:
  assumes "normalise_palette palette = Inr p"
  shows "valid_palette p"
proof -
  obtain es where es: "length es = 16" "mapE normalise_entry es = Inr p"
    using assms by (auto simp: normalise_palette_def Let_def split: if_splits)
  then have l: "list_all2 (\<lambda>e c. normalise_entry e = Inr c) es p" by (simp add: mapE_eq_Inr)
  have ok: "rgb_ok c" if "normalise_entry e = Inr c" for e c
    using that by (auto simp: normalise_entry_def rgb_ok_def split: list.splits if_splits)
  have "list_all2 (\<lambda>e c. rgb_ok c) es p" by (rule list_all2_mono [OF l ok])
  then have "list_all rgb_ok p" by (simp add: list_all_length list_all2_conv_all_nth)
  then show ?thesis using l es(1) by (auto simp: valid_palette_def dest: list_all2_lengthD)
qed

lemma background_shown:
  assumes "full_dump v" "renderable mode regs ro" "valid_palette p"
  shows "shows_image (screen_width mode regs ro) h (background_colour v mode regs p ro)
    (if mode \<le> 4 then render_characters v mode regs p h (ro_bases ro) (ro_text_width ro) (ro_blink ro)
     else render_bitmap v mode regs p h (ro_page ro) (ro_bases ro))"
proof (cases "mode \<le> 4")
  case True
  then have m: "mode \<in> {0, 1, 2, 3, 4}" using assms(2) by (auto simp: renderable_def SUPPORTED_MODES_def)
  have "(\<lambda>x y. background_colour v mode regs p ro x y) =
      (if mode = 0 then text_colour v regs (fst (foreground_palette p regs 0)) (text_columns regs (ro_text_width ro)) (ro_blink ro)
       else tile_colour v mode regs (fst (foreground_palette p regs mode)))"
    using True by (auto simp: background_colour_def fun_eq_iff Let_def)
  then show ?thesis
    using characters_shown [OF assms(1) _ assms(3) m, of regs "ro_text_width ro" h "ro_blink ro"] assms(2) True
    by (auto simp: renderable_def screen_width_def split: if_splits)
next
  case False
  then have m: "mode \<in> {5, 6, 7, 8, 10, 11, 12}" using assms(2) by (auto simp: renderable_def SUPPORTED_MODES_def)
  obtain base where base: "bitmap_page_base mode regs (ro_page ro) [] = Inr base"
    using assms(2) False by (auto simp: renderable_def is_ok_iff)
  have "(\<lambda>x y. background_colour v mode regs p ro x y) = bitmap_colour v mode regs p base"
    using False base by (auto simp: background_colour_def fun_eq_iff Let_def)
  then show ?thesis
    using bitmap_shown [OF assms(1) _ assms(3) m base, of h] assms(2) False
    by (auto simp: renderable_def screen_width_def)
qed

text \<open>
  C36: the renderer is right pixel by pixel. From a complete dump, byte-wide registers, a valid palette
  and valid options, \<open>render_vram\<close> returns an image of the screen's width and the height asked for; and
  every pixel outside the boxes of the sprites has the colour the tables of the dump give it - glyph
  and blink colours in SCREEN 0, patterns and colours of the tiles in 1 to 4, packed palette indices,
  direct colours or YJK groups in the bitmap modes, with scrolling, page and transparency.
\<close>

theorem render_vram_exact:
  assumes "full_dump v" "renderable mode regs ro" "normalise_palette palette = Inr p"
    and "active_height regs (ro_height ro) = Inr h"
  shows "\<exists>out. render_vram v mode (Some regs) palette ro = Inr (out, screen_width mode regs ro, h) \<and>
    int (length out) = screen_width mode regs ro * h * 3 \<and>
    (\<forall>x y. on_screen (screen_width mode regs ro) h x y \<longrightarrow> \<not> (ro_sprites ro \<and> sprite_reaches v mode regs x y) \<longrightarrow>
       px (screen_width mode regs ro) out x y = rgb_bytes (background_colour v mode regs p ro x y))"
proof -
  let ?w = "screen_width mode regs ro"
  have p: "valid_palette p" using assms(3) by (rule normalise_valid)
  have h: "1 \<le> h" using assms(4) by (auto simp: active_height_def split: option.splits if_splits)
  have w: "0 \<le> ?w" using assms(2) by (auto simp: screen_width_def bitmap_width_def renderable_def)
  have mode: "validate_mode mode = Inr ()" "registers (Some regs) = Inr regs"
    using assms(2) by (auto simp: renderable_def validate_mode_def SUPPORTED_MODES_def registers_wf)
  obtain out where out: "(if mode \<le> 4 then render_characters v mode regs p h (ro_bases ro) (ro_text_width ro) (ro_blink ro)
     else render_bitmap v mode regs p h (ro_page ro) (ro_bases ro)) = Inr (out, ?w, h)" "sized ?w h out"
    "\<And>x y. on_screen ?w h x y \<Longrightarrow> px ?w out x y = rgb_bytes (background_colour v mode regs p ro x y)"
    using background_shown [OF assms(1,2) p, of h] unfolding shows_image_def by blast
  have size: "int (length o1) = ?w * h * 3" if "sized ?w h o1" for o1 using that w h by (simp add: sized_def)
  obtain o2 where o2: "composite_sprites out ?w h v mode regs p [] = Inr o2" "sized ?w h o2"
    "\<And>x y. on_screen ?w h x y \<Longrightarrow> \<not> sprite_reaches v mode regs x y \<Longrightarrow> px ?w o2 x y = px ?w out x y"
    using composite_confined [OF assms(1) p, of ?w h mode regs] out(2) unfolding confined_def by blast
  have bases: "ro_bases ro = []" using assms(2) by (simp add: renderable_def)
  have result: "render_vram v mode (Some regs) palette ro = Inr (if ro_sprites ro \<and> mode \<noteq> 0 then o2 else out, ?w, h)"
    unfolding render_vram_def mode assms(3,4) bindE_simps out(1) prod.case using o2(1) bases by simp
  show ?thesis unfolding result using out(2,3) o2(2,3) size by (auto simp: sprite_reaches_def)
qed

definition sample_dump :: bytes where "sample_dump = replicate (nat SCREEN_VRAM_SIZE) 0x1F"

lemma sample_dump_ok: "full_dump sample_dump"
  by (simp add: full_dump_def sample_dump_def SCREEN_VRAM_SIZE_def)

theorem render_vram_exact_witness:
  "\<exists>out. render_vram sample_dump 5 (Some (replicate 28 0)) None (capture_options 2 None False None) = Inr (out, 256, 2) \<and>
     length out = 1536 \<and> px 256 out 0 1 = [0, 0, 0] \<and> px 256 out 1 1 = [255, 255, 255]"
proof -
  let ?ro = "capture_options 2 None False None"
  have ok: "renderable 5 (replicate 28 0) ?ro"
    by (simp add: renderable_def capture_options_def default_options_def SUPPORTED_MODES_def wf_regs_def
        bitmap_page_base_def Let_def)
  have p: "normalise_palette None = Inr TMS" by code_simp
  have h: "active_height (replicate 28 0) (ro_height ?ro) = Inr 2"
    by (simp add: active_height_def capture_options_def)
  have w: "screen_width 5 (replicate 28 0) ?ro = 256" by (simp add: screen_width_def bitmap_width_def)
  have at: "background_colour sample_dump 5 (replicate 28 0) TMS ?ro x 1 =
      (if x mod 2 = 0 then (0, 0, 0) else (255, 255, 255))" if "0 \<le> x" "x < 256" for x
    using that by (simp add: background_colour_def bitmap_page_base_def capture_options_def default_options_def
        bitmap_colour_def stored_colour_def foreground_palette_def bitmap_width_def bitmap_stride_def sample_dump_def
        SCREEN_VRAM_SIZE_def TMS_def Let_def)
  have "\<not> ro_sprites ?ro" by (simp add: capture_options_def)
  then show ?thesis
    using render_vram_exact [OF sample_dump_ok ok p h] at [of 0] at [of 1] unfolding w
    by (auto simp: on_screen_def rgb_bytes_def)
qed

end
