(* ===== verification/Screenshot.thy ===== *)
theory Screenshot
  imports Screen_Pixels
begin

text \<open>
  What the captures of \<open>server/msx_screenshot.py\<close> guarantee: the ranges a plan reads, the screenshot of a
  real machine against its complete video memory, and the PNG files, with a reader of the format.
\<close>

subsection \<open>Screenshots of a real machine\<close>

text \<open>\<open>returns_count peek\<close>: a read that succeeds returns as many bytes as it was asked for.\<close>

definition returns_count :: "'s reader \<Rightarrow> bool" where
  "returns_count peek \<longleftrightarrow> (\<forall>a n s bs s'. 0 \<le> n \<longrightarrow> peek a n s = (Inr bs, s') \<longrightarrow> int (length bs) = n)"

lemma returns_countD: "returns_count peek \<Longrightarrow> 0 \<le> n \<Longrightarrow> peek a n s = (Inr bs, s') \<Longrightarrow> int (length bs) = n"
  unfolding returns_count_def by blast

lemma assign_slice_set: "set (assign_slice a n xs ys) \<subseteq> set xs \<union> set ys"
  by (auto simp: assign_slice_def dest: in_set_takeD in_set_dropD)

lemma real_registers_ok:
  assumes "returns_count peek" "real_registers peek s = (Inr regs, s')"
  shows "wf_regs regs"
proof -
  obtain p1 s1 p2 s2 p3 s3 where p: "peek 0xF3DF 8 s = (Inr p1, s1)" "peek 0xFFE7 16 s1 = (Inr p2, s2)"
      "peek 0xFFFA 3 s2 = (Inr p3, s3)"
    and regs: "regs = assign_slice 25 3 (assign_slice 8 16 (assign_slice 0 8 (replicate 28 0) (map uint p1)) (map uint p2)) (map uint p3)"
    using assms(2) unfolding real_registers_def Let_def bindIO_Inr io_simps by blast
  have len: "length p1 = 8" "length p2 = 16" "length p3 = 3"
    using returns_countD [OF assms(1) _ p(1)] returns_countD [OF assms(1) _ p(2)] returns_countD [OF assms(1) _ p(3)]
    by simp_all
  have "set regs \<subseteq> insert 0 (range (uint :: byte \<Rightarrow> int))" unfolding regs
    by (intro subset_trans [OF assign_slice_set] Un_least) auto
  moreover have "length regs = 28" using len by (simp add: regs assign_slice_def)
  ultimately show ?thesis by (auto simp: wf_regs_def)
qed

definition plan_ok :: "capture_plan \<Rightarrow> int set \<Rightarrow> bool" where
  "plan_ok plan A \<longleftrightarrow>
     addresses_for_capture (cp_mode plan) (cp_regs plan) (cp_height plan) (cp_sprites plan) (cp_page plan)
       (cp_text_width plan) = Inr A \<and> cp_ranges plan = ranges A \<and> wf_regs (cp_regs plan) \<and>
     cp_mode plan \<in> set SUPPORTED_MODES"

lemma plan_facts:
  assumes "returns_count peek"
  shows "wp (plan_realmsx_capture peek sprites page) (\<lambda>r s'. \<forall>plan. r = Inr plan \<longrightarrow> (\<exists>A. plan_ok plan A)) s"
proof -
  have regs: "wp (real_registers peek) (\<lambda>r s'. \<forall>regs. r = Inr regs \<longrightarrow> wf_regs regs) s" for s
    by (rule wpI) (use real_registers_ok [OF assms] in blast)
  have mode: "validate_mode mode = Inr u \<Longrightarrow> mode \<in> set SUPPORTED_MODES" for mode u
    by (simp add: validate_mode_def split: if_splits)
  show ?thesis unfolding plan_realmsx_capture_def Let_def
    apply (rule wp_bind [where P = "\<lambda>_ _. True"], simp add: wp_def split: prod.splits, simp)
    apply (rule wp_lift, simp)
    apply (rule wp_lift, simp)
    apply (rule wp_bind [OF regs], simp)
    apply (rule wp_bind [where P = "\<lambda>_ _. True"], simp add: wp_def split: prod.splits, simp)
    apply (rule wp_lift, simp)
    apply (rule wp_lift, simp)
    apply (auto simp: plan_ok_def dest: mode)
    done
qed

lemma acquire_agrees:
  assumes "serves vpeek w" "full_dump w" "plan_ok plan A"
  shows "\<exists>v s'. acquire_realmsx_capture peek vpeek sprites page (Some plan) s = (Inr (plan, v), s') \<and> agree A v w"
proof -
  have "A \<subseteq> {0..<SCREEN_VRAM_SIZE}" "finite A" using assms(3) addresses_bounds unfolding plan_ok_def by blast+
  then obtain v s' where "read_ranges vpeek (ranges A) blank_vram s = (Inr v, s')" "agree A v w"
    using capture_agree [OF assms(1,2)] by blast
  then show ?thesis using assms(3) by (simp add: acquire_realmsx_capture_def bindIO_def plan_ok_def)
qed

lemma acquire_plan:
  "acquire_realmsx_capture peek vpeek sprites page None s =
     (case plan_realmsx_capture peek sprites page s of
        (Inl e, s1) \<Rightarrow> (Inl e, s1)
      | (Inr plan, s1) \<Rightarrow> acquire_realmsx_capture peek vpeek sprites page (Some plan) s1)"
  by (simp add: acquire_realmsx_capture_def bindIO_def split: prod.splits sum.splits)

text \<open>
  C35: a screenshot of a real machine reads enough of its video memory. Whatever display mode,
  registers and options, once the plan is made the file that \<open>capture_realmsx\<close> produces is the file the
  complete video memory would give, although only the ranges of the plan were read and the rest of the
  dump is zero.
\<close>

theorem realmsx_screenshot_complete:
  assumes "full_dump w" "serves vpeek w" "returns_count peek"
    and "plan_realmsx_capture peek sprites page s = (Inr plan, s1)"
  shows "fst (capture_realmsx compress peek vpeek palette sprites page s) =
    render_realmsx_capture compress (plan, w) palette"
proof -
  obtain A where A: "plan_ok plan A" using wpD [OF plan_facts [OF assms(3)] assms(4)] by blast
  obtain v s2 where v: "acquire_realmsx_capture peek vpeek sprites page (Some plan) s1 = (Inr (plan, v), s2)" "agree A v w"
    using acquire_agrees [OF assms(2,1) A] by blast
  have "acquire_realmsx_capture peek vpeek sprites page None s = (Inr (plan, v), s2)"
    by (simp add: acquire_plan assms(4) v(1))
  then show ?thesis
    using render_vram_agree [OF v(2)] A registers_wf [of "cp_regs plan"]
    by (simp add: capture_realmsx_def bindIO_def render_realmsx_capture_def plan_ok_def)
qed

text \<open>
  A target whose display is in SCREEN 5: \<open>peek\<close> answers the mode for one byte and zeros otherwise.
\<close>

definition sample_peek :: "unit reader" where
  "sample_peek a n s = (Inr (if a = 0xFCAF then replicate (nat n) 5 else replicate (nat n) 0), s)"

definition sample_vpeek :: "unit reader" where
  "sample_vpeek a n s = (Inr (replicate (nat n) 0x1F), s)"

lemma sample_serves: "serves sample_vpeek (replicate (nat SCREEN_VRAM_SIZE) 0x1F)"
  by (auto simp: serves_def sample_vpeek_def slice_def SCREEN_VRAM_SIZE_def min_def)

text \<open>
  the ranges of a capture are exact: they cover the addresses the screenshot needs and no other,
  in ascending order with a gap between any two, so that no byte is read twice and no two reads could
  be one; \<open>vram_bytes\<close> of the plan is the number of addresses.
\<close>

theorem capture_ranges_exact:
  assumes "addresses_for_capture mode regs height sprites page text_width = Inr addresses"
  shows "covered (ranges addresses) = addresses \<and> list_all (\<lambda>(b, n). 0 \<le> b \<and> 0 < n \<and> b + n \<le> SCREEN_VRAM_SIZE) (ranges addresses) \<and>
    sorted_wrt before (ranges addresses) \<and> sum_list (map snd (ranges addresses)) = int (card addresses)"
proof -
  have A: "addresses \<subseteq> {0..<SCREEN_VRAM_SIZE}" "finite addresses" using addresses_bounds [OF assms] by auto
  have r: "covered (ranges addresses) = addresses" "list_all (\<lambda>(b, n). 0 < n) (ranges addresses)"
    "sorted_wrt before (ranges addresses)" "sum_list (map snd (ranges addresses)) = int (card addresses)"
    using ranges_spec [OF A(2)] by auto
  have "list_all (\<lambda>(b, n). 0 \<le> b \<and> 0 < n \<and> b + n \<le> SCREEN_VRAM_SIZE) (ranges addresses)"
    unfolding list_all_iff using covered_bounds [OF _ r(2)] r(1) A(1) by blast
  then show ?thesis using r by blast
qed


lemma sample_count: "returns_count sample_peek"
  by (auto simp: returns_count_def sample_peek_def)

lemma sample_plan: "\<exists>plan. plan_realmsx_capture sample_peek True None () = (Inr plan, ()) \<and> cp_mode plan = 5"
proof -
  have "sample_peek 0xFCAF 1 () = (Inr [5], ())" "real_registers sample_peek () = (Inr (replicate 28 0), ())"
    by code_simp+
  moreover obtain A where "addresses_for_capture 5 (replicate 28 0) 192 True None (Some 40) = Inr A"
    by (simp add: addresses_for_capture_def background_addresses_def bitmap_page_base_def Let_def)
  moreover have "validate_mode 5 = Inr ()" by code_simp
  moreover have "active_height (replicate 28 0) None = Inr 192" by code_simp
  ultimately show ?thesis by (simp add: plan_realmsx_capture_def bindIO_def first_byte_def Let_def)
qed

theorem realmsx_screenshot_complete_witness:
  "\<exists>plan. plan_realmsx_capture sample_peek True None () = (Inr plan, ()) \<and> cp_mode plan = 5 \<and>
     fst (capture_realmsx id sample_peek sample_vpeek None True None ()) = render_realmsx_capture id (plan, sample_dump) None"
  using sample_plan realmsx_screenshot_complete [OF sample_dump_ok sample_serves [folded sample_dump_def] sample_count, of True None "()"]
  by blast

lemma capture_ranges_exact_example:
  "covered (ranges {0..<128}) = {0..<128} \<and> sum_list (map snd (ranges {0..<128})) = 128"
proof -
  have "range_int 1 = [0]" by code_simp
  then have "addresses_for_capture 5 (replicate 28 0) 1 False None None = Inr {0..<128}"
    by (simp add: addresses_for_capture_def background_addresses_def sprite_addresses_def bitmap_page_base_def
        bitmap_stride_def Let_def)
  from capture_ranges_exact [OF this] show ?thesis by simp
qed

subsection \<open>PNG files\<close>

text \<open>
  A reader of PNG files with one image chunk of unfiltered 8-bit RGB rows, in the terms of the format:
  signature, big-endian lengths, checked CRCs. \<open>decompress\<close> stands for \<open>zlib.decompress\<close>.
\<close>

definition be32 :: "bytes \<Rightarrow> int" where "be32 bs = le_value (rev (take 4 bs))"

function read_chunks :: "bytes \<Rightarrow> (bytes \<times> bytes) list option" where
  "read_chunks bs =
     (if bs = [] then Some []
      else
        let n = nat (be32 bs); body = slice 4 (n + 4) bs; crc = be32 (drop (n + 8) bs)
        in if length bs < n + 12 \<or> zlib_crc32 body 0 \<noteq> crc then None
           else map_option (\<lambda>cs. (take 4 body, drop 4 body) # cs) (read_chunks (drop (n + 12) bs)))"
  by pat_completeness auto
termination by (relation "measure length") auto

declare read_chunks.simps [simp del]

fun read_rows :: "nat \<Rightarrow> nat \<Rightarrow> bytes \<Rightarrow> bytes option" where
  "read_rows w 0 bs = (if bs = [] then Some [] else None)"
| "read_rows w (Suc h) bs =
     (if length bs < w * 3 + 1 \<or> hd bs \<noteq> 0 then None
      else map_option (\<lambda>rest. slice 1 (w * 3) bs @ rest) (read_rows w h (drop (w * 3 + 1) bs)))"

definition png_image :: "(bytes \<Rightarrow> bytes) \<Rightarrow> (bytes \<times> bytes) list \<Rightarrow> (int \<times> int \<times> bytes) option" where
  "png_image decompress chunks =
     (case chunks of
        [(ihdr, header), (idat, data), (iend, trailer)] \<Rightarrow>
          if ihdr = ascii_bytes ''IHDR'' \<and> idat = ascii_bytes ''IDAT'' \<and> iend = ascii_bytes ''IEND'' \<and>
             drop 8 header = [8, 2, 0, 0, 0] \<and> trailer = []
          then let w = be32 header; h = be32 (drop 4 header)
               in map_option (\<lambda>rgb. (w, h, rgb)) (read_rows (nat w) (nat h) (decompress data))
          else None
      | _ \<Rightarrow> None)"

definition read_png :: "(bytes \<Rightarrow> bytes) \<Rightarrow> bytes \<Rightarrow> (int \<times> int \<times> bytes) option" where
  "read_png decompress file =
     (if take 8 file = [137, 80, 78, 71, 13, 10, 26, 10]
      then Option.bind (read_chunks (drop 8 file)) (png_image decompress) else None)"

lemma pack_be32_read:
  assumes "pack_be32 v = Inr bs"
  shows "length bs = 4" "be32 (bs @ rest) = v" "0 \<le> v"
  using assms by (auto simp: pack_be32_def be32_def split: if_splits)

lemma read_chunks_step:
  assumes "bs \<noteq> []" "be32 bs = int n" "n + 12 \<le> length bs" "slice 4 (n + 4) bs = body"
    and "be32 (drop (n + 8) bs) = zlib_crc32 body 0"
  shows "read_chunks bs = map_option (\<lambda>cs. (take 4 body, drop 4 body) # cs) (read_chunks (drop (n + 12) bs))"
  using assms by (subst read_chunks.simps) (simp add: Let_def)

lemma read_chunk:
  assumes "png_chunk kind data = Inr c" "length kind = 4"
  shows "read_chunks (c @ rest) = map_option (\<lambda>cs. (kind, data) # cs) (read_chunks rest)"
proof -
  obtain len crc where c: "c = len @ (kind @ data) @ crc" "pack_be32 (int (length data)) = Inr len"
    "pack_be32 (zlib_crc32 (kind @ data) 0) = Inr crc"
    using assms(1) by (auto simp: png_chunk_def Let_def result_simps)
  note len = pack_be32_read [OF c(2)] and crc = pack_be32_read [OF c(3)]
  have n: "be32 (c @ rest) = int (length data)" using len(2) by (simp add: c(1))
  have body: "slice 4 (length data + 4) (c @ rest) = kind @ data"
    using len(1) assms(2) by (simp add: c(1) slice_def)
  have tail: "drop (length data + 8) (c @ rest) = crc @ rest" "drop (length data + 12) (c @ rest) = rest"
    using len(1) crc(1) assms(2) by (simp_all add: c(1))
  have "c @ rest \<noteq> []" "length data + 12 \<le> length (c @ rest)" using len(1) crc(1) assms(2) by (auto simp: c(1))
  from read_chunks_step [OF this(1) n this(2) body] show ?thesis
    unfolding tail using assms(2) crc(2) by simp
qed

lemma read_png_rows:
  assumes "length rgb = h * (w * 3)"
  shows "read_rows w h (concat (map (\<lambda>y. 0 # slice (y * (w * 3)) (w * 3) rgb) [0..<h])) = Some rgb"
  using assms
proof (induction h arbitrary: rgb)
  case (Suc h)
  let ?r = "drop (w * 3) rgb"
  have "map (\<lambda>y. 0 # slice (y * (w * 3)) (w * 3) rgb) [0..<Suc h] =
      (0 # take (w * 3) rgb) # map (\<lambda>y. 0 # slice (y * (w * 3)) (w * 3) ?r) [0..<h]"
    unfolding upt_conv_Cons [OF zero_less_Suc] map_Suc_upt [symmetric] by (simp add: slice_def comp_def add.commute)
  moreover have "length (take (w * 3) rgb) = w * 3" using Suc.prems by simp
  moreover have "read_rows w h (concat (map (\<lambda>y. 0 # slice (y * (w * 3)) (w * 3) ?r) [0..<h])) = Some ?r"
    using Suc.prems by (intro Suc.IH) simp
  ultimately show ?case by (simp add: slice_def)
qed simp

text \<open>
  C39: the PNG file of an image is readable and carries that image. For every image of a size the format
  can state, whatever the compressor, provided it is lossless, \<open>write_png\<close> produces a file, and reading
  it - signature, chunk lengths, CRCs, header, unfiltered rows - gives the width, the height and the
  pixels.
\<close>

theorem png_roundtrip:
  assumes "\<And>x. decompress (compress x) = x"
    and "int (length rgb) = w * h * 3" "0 \<le> w" "w < 2 ^ 32" "0 \<le> h" "h < 2 ^ 32"
    and "length (compress (png_rows w h rgb)) < 2 ^ 32"
  shows "\<exists>file. write_png compress w h rgb = Inr file \<and> read_png decompress file = Some (w, h, rgb)"
proof -
  have pack: "\<exists>bs. pack_be32 v = Inr bs" if "0 \<le> v" "v < 2 ^ 32" for v using that by (simp add: pack_be32_def)
  have chunk: "\<exists>c. png_chunk kind data = Inr c" if "length data < 2 ^ 32" for kind data
  proof -
    have "zlib_crc32 (kind @ data) 0 < 2 ^ 32" using zlib_crc32_bounds(2) [of "kind @ data" 0] by (simp add: UINT32_MAX_def)
    moreover have "int (length data) < 2 ^ 32" using that by (metis of_nat_less_numeral_power_cancel_iff)
    ultimately show ?thesis
      using pack [of "int (length data)"] pack [of "zlib_crc32 (kind @ data) 0"] by (auto simp: png_chunk_def Let_def)
  qed
  obtain wb hb where b: "pack_be32 w = Inr wb" "pack_be32 h = Inr hb" using pack assms by meson
  note wb = pack_be32_read [OF b(1)] and hb = pack_be32_read [OF b(2)]
  obtain ihdr where ihdr: "png_chunk (ascii_bytes ''IHDR'') (wb @ hb @ [8, 2, 0, 0, 0]) = Inr ihdr"
    using chunk [of "wb @ hb @ [8, 2, 0, 0, 0]"] wb(1) hb(1) by auto
  obtain idat where idat: "png_chunk (ascii_bytes ''IDAT'') (compress (png_rows w h rgb)) = Inr idat"
    using chunk assms(7) by meson
  obtain iend where iend: "png_chunk (ascii_bytes ''IEND'') [] = Inr iend" using chunk [of "[]"] by auto
  have kinds: "length (ascii_bytes ''IHDR'') = 4" "length (ascii_bytes ''IDAT'') = 4" "length (ascii_bytes ''IEND'') = 4"
    by (simp_all add: ascii_bytes_def)
  have "length rgb = nat h * (nat w * 3)"
    using assms(2,3,5) by (metis mult.assoc mult.commute nat_int nat_mult_distrib nat_numeral zero_le_numeral)
  then have rows: "read_rows (nat w) (nat h) (png_rows w h rgb) = Some rgb"
    using read_png_rows [of rgb "nat h" "nat w"] assms(3) by (simp add: png_rows_def nat_mult_distrib)
  have "read_chunks (ihdr @ idat @ iend) = Some [(ascii_bytes ''IHDR'', wb @ hb @ [8, 2, 0, 0, 0]),
      (ascii_bytes ''IDAT'', compress (png_rows w h rgb)), (ascii_bytes ''IEND'', [])]"
    using read_chunk [OF iend kinds(3), of "[]"] read_chunk [OF idat kinds(2)] read_chunk [OF ihdr kinds(1)]
    by (simp add: read_chunks.simps [of "[]"])
  moreover have "png_image decompress [(ascii_bytes ''IHDR'', wb @ hb @ [8, 2, 0, 0, 0]),
      (ascii_bytes ''IDAT'', compress (png_rows w h rgb)), (ascii_bytes ''IEND'', [])] = Some (w, h, rgb)"
    using wb hb rows assms(1) by (simp add: png_image_def Let_def)
  ultimately have "read_png decompress ([137, 80, 78, 71, 13, 10, 26, 10] @ ihdr @ idat @ iend) = Some (w, h, rgb)"
    by (simp add: read_png_def)
  then show ?thesis using assms(2) b ihdr idat iend by (simp add: write_png_def)
qed

theorem png_roundtrip_witness:
  "\<exists>file. write_png rev 2 1 [1, 2, 3, 4, 5, 6] = Inr file \<and> read_png rev file = Some (2, 1, [1, 2, 3, 4, 5, 6])"
  by (rule png_roundtrip) (simp_all add: png_rows_def)

end
