(* ===== verification/Runs.thy ===== *)
theory Runs
  imports Effects
begin

text \<open>
  Computations that may run forever: \<open>None\<close> is a run that does not end. \<open>loop\<close> is the \<open>while\<close> of a translated
  function whose end depends on what a device answers, a partial function; \<open>returns\<close> states total
  correctness, and a loop returns when its variables decrease along a well-founded relation.
\<close>

type_synonym ('s, 'e, 'a) run = "'s \<Rightarrow> (('e + 'a) \<times> 's) option"

definition run_of :: "('s, 'e, 'a) comp \<Rightarrow> ('s, 'e, 'a) run" where
  "run_of m s = Some (m s)"

definition bindR :: "('s, 'e, 'a) run \<Rightarrow> ('a \<Rightarrow> ('s, 'e, 'b) run) \<Rightarrow> ('s, 'e, 'b) run" where
  "bindR m k s =
     (case m s of
        None \<Rightarrow> None
      | Some (Inl e, s1) \<Rightarrow> Some (Inl e, s1)
      | Some (Inr x, s1) \<Rightarrow> k x s1)"

text \<open>
  \<open>loop body x\<close> repeats \<open>body\<close>: \<open>Inl y\<close> is the next iteration with the loop variables \<open>y\<close>, \<open>Inr a\<close>
  leaves the loop with \<open>a\<close>; an exception leaves it too.
\<close>

partial_function (option) loop :: "('x \<Rightarrow> ('s, 'e, 'x + 'a) run) \<Rightarrow> 'x \<Rightarrow> ('s, 'e, 'a) run" where
  "loop body x s =
     Option.bind (body x s) (\<lambda>(r, s1).
       case r of
         Inl e \<Rightarrow> Some (Inl e, s1)
       | Inr (Inl y) \<Rightarrow> loop body y s1
       | Inr (Inr a) \<Rightarrow> Some (Inr a, s1))"

text \<open>\<open>finally_run m cleanup\<close> is \<open>try: m finally: cleanup\<close>; \<open>on_failure\<close> is \<open>except BaseException: cleanup; raise\<close>.\<close>

definition finally_run :: "('s, 'e, 'a) run \<Rightarrow> ('s, 'e, unit) comp \<Rightarrow> ('s, 'e, 'a) run" where
  "finally_run m cleanup s =
     (case m s of
        None \<Rightarrow> None
      | Some (r, s1) \<Rightarrow>
          (case cleanup s1 of (Inl e, s2) \<Rightarrow> Some (Inl e, s2) | (Inr _, s2) \<Rightarrow> Some (r, s2)))"

definition on_failure :: "('s, 'e, 'a) run \<Rightarrow> ('s, 'e, unit) comp \<Rightarrow> ('s, 'e, 'a) run" where
  "on_failure m cleanup s =
     (case m s of
        None \<Rightarrow> None
      | Some (Inr x, s1) \<Rightarrow> Some (Inr x, s1)
      | Some (Inl e, s1) \<Rightarrow>
          (case cleanup s1 of (Inl e', s2) \<Rightarrow> Some (Inl e', s2) | (Inr _, s2) \<Rightarrow> Some (Inl e, s2)))"

subsection \<open>Total correctness\<close>

text \<open>\<open>returns m Q s\<close>: run from \<open>s\<close>, \<open>m\<close> ends, with a result or exception and a state that satisfy \<open>Q\<close>.\<close>

definition returns :: "('s, 'e, 'a) run \<Rightarrow> ('e + 'a \<Rightarrow> 's \<Rightarrow> bool) \<Rightarrow> 's \<Rightarrow> bool" where
  "returns m Q s \<longleftrightarrow> (\<exists>r s'. m s = Some (r, s') \<and> Q r s')"

lemma returns_mono: "returns m P s \<Longrightarrow> (\<And>r s'. P r s' \<Longrightarrow> Q r s') \<Longrightarrow> returns m Q s"
  by (auto simp: returns_def)

lemma returns_run_of [simp]: "returns (run_of m) Q s = wp m Q s"
  by (cases "m s") (simp add: returns_def run_of_def wp_def)

lemma returns_bind:
  assumes "returns m P s" "\<And>e s1. P (Inl e) s1 \<Longrightarrow> Q (Inl e) s1"
    and "\<And>x s1. P (Inr x) s1 \<Longrightarrow> returns (k x) Q s1"
  shows "returns (bindR m k) Q s"
proof -
  obtain r s1 where "m s = Some (r, s1)" "P r s1" using assms(1) by (auto simp: returns_def)
  then show ?thesis using assms(2,3) by (cases r) (auto simp: returns_def bindR_def)
qed

lemma returns_loop:
  assumes "wf R" "I x s"
    and "\<And>x s. I x s \<Longrightarrow> returns (body x) (\<lambda>r s'.
       case r of Inl e \<Rightarrow> Q (Inl e) s' | Inr (Inl y) \<Rightarrow> I y s' \<and> ((y, s'), (x, s)) \<in> R | Inr (Inr a) \<Rightarrow> Q (Inr a) s') s"
  shows "returns (loop body x) Q s"
  using assms(1,2)
proof (induction "(x, s)" arbitrary: x s rule: wf_induct_rule)
  case less
  obtain r s1 where body: "body x s = Some (r, s1)" and post:
    "case r of Inl e \<Rightarrow> Q (Inl e) s1 | Inr (Inl y) \<Rightarrow> I y s1 \<and> ((y, s1), (x, s)) \<in> R | Inr (Inr a) \<Rightarrow> Q (Inr a) s1"
    using assms(3) [OF less.prems] by (auto simp: returns_def)
  have unfold: "loop body x s = (case r of Inl e \<Rightarrow> Some (Inl e, s1) | Inr (Inl y) \<Rightarrow> loop body y s1
      | Inr (Inr a) \<Rightarrow> Some (Inr a, s1))"
    by (subst loop.simps) (simp add: body)
  show ?case
  proof (cases r)
    case (Inl e)
    then show ?thesis using post unfold by (simp add: returns_def)
  next
    case (Inr q)
    show ?thesis
    proof (cases q)
      case (Inl y)
      then have "returns (loop body y) Q s1" using post \<open>r = Inr q\<close> less.hyps by simp
      then show ?thesis using unfold Inl \<open>r = Inr q\<close> by (simp add: returns_def)
    next
      case (Inr a)
      then show ?thesis using post unfold \<open>r = Inr q\<close> by (simp add: returns_def)
    qed
  qed
qed

text \<open>A loop whose body always goes on from a state in \<open>I\<close> does not end.\<close>

lemma loop_never:
  assumes "I x s" "\<And>x s. I x s \<Longrightarrow> \<exists>y s'. body x s = Some (Inr (Inl y), s') \<and> I y s'"
  shows "loop body x s = None"
proof (cases "loop body x s")
  case (Some r)
  have "bd = body \<longrightarrow> \<not> I x s" if "loop bd x s = Some r" for bd x s r
    using loop.raw_induct [where xa = "((bd, x), s)" and y = r and P = "\<lambda>bd x s _. bd = body \<longrightarrow> \<not> I x s"] that
    by (fastforce dest: assms(2) simp: bind_eq_Some_conv)
  then show ?thesis using Some assms(1) by blast
qed

lemma returns_checked:
  assumes "\<And>e. r = Inl e \<Longrightarrow> Q (Inl e) s" "\<And>x. r = Inr x \<Longrightarrow> returns (k x) Q s"
  shows "returns (bindR (run_of (lift_result r)) k) Q s"
  by (rule returns_bind [where P = "\<lambda>q s'. q = r \<and> s' = s"]) (use assms in auto)

lemma returns_at: "m s = m' s \<Longrightarrow> returns m' Q s \<Longrightarrow> returns m Q s"
  by (simp add: returns_def)

lemma returns_guard:
  assumes "\<not> c \<Longrightarrow> Q (Inl e) s" "c \<Longrightarrow> returns (k ()) Q s"
  shows "returns (bindR (run_of (guard c e)) k) Q s"
  using assms by (cases c) (auto simp: returns_def bindR_def run_of_def)

lemma returns_loop_step:
  assumes "returns (body x) (\<lambda>r s1. case r of Inl e \<Rightarrow> Q (Inl e) s1
      | Inr (Inl y) \<Rightarrow> returns (loop body y) Q s1 | Inr (Inr a) \<Rightarrow> Q (Inr a) s1) s"
  shows "returns (loop body x) Q s"
proof -
  obtain r s1 where body: "body x s = Some (r, s1)" and post: "case r of Inl e \<Rightarrow> Q (Inl e) s1
      | Inr (Inl y) \<Rightarrow> returns (loop body y) Q s1 | Inr (Inr a) \<Rightarrow> Q (Inr a) s1"
    using assms by (auto simp: returns_def)
  have "loop body x s = (case r of Inl e \<Rightarrow> Some (Inl e, s1) | Inr (Inl y) \<Rightarrow> loop body y s1
      | Inr (Inr a) \<Rightarrow> Some (Inr a, s1))"
    by (subst loop.simps) (simp add: body)
  with post show ?thesis by (auto simp: returns_def split: sum.splits)
qed

lemma run_ret: "bindR (run_of (ret x)) k = k x"
  by (simp add: bindR_def run_of_def fun_eq_iff)

text \<open>Partial correctness of a loop.\<close>

lemma loop_partial:
  assumes "loop body x s = Some (r, s')" "I x s"
    and "\<And>x s q s1. I x s \<Longrightarrow> body x s = Some (q, s1) \<Longrightarrow>
       (case q of Inl e \<Rightarrow> Q (Inl e) s1 | Inr (Inl y) \<Rightarrow> I y s1 | Inr (Inr a) \<Rightarrow> Q (Inr a) s1)"
  shows "Q r s'"
proof -
  have "bd = body \<longrightarrow> I x s \<longrightarrow> Q (fst q) (snd q)" if "loop bd x s = Some q" for bd x s q
  proof (rule loop.raw_induct [where xa = "((bd, x), s)" and y = q and
        P = "\<lambda>bd x s q. bd = body \<longrightarrow> I x s \<longrightarrow> Q (fst q) (snd q)", simplified])
    show "loop bd x s = Some q" by (rule that)
    fix lp bd x s q
    assume IH: "\<And>x s b p. lp x s b = Some p \<Longrightarrow> x = body \<longrightarrow> I s b \<longrightarrow> Q (fst p) (snd p)"
      and step: "Option.bind (bd x s) (\<lambda>(r, s1). case r of Inl e \<Rightarrow> Some (Inl e, s1)
        | Inr (Inl y) \<Rightarrow> lp bd y s1 | Inr (Inr a) \<Rightarrow> Some (Inr a, s1)) = Some q"
    show "bd = body \<longrightarrow> I x s \<longrightarrow> Q (fst q) (snd q)"
    proof (intro impI)
      assume bd: "bd = body" and "I x s"
      obtain p s1 where p: "body x s = Some (p, s1)" using step bd by (cases "body x s") auto
      note post = assms(3) [OF \<open>I x s\<close> p]
      show "Q (fst q) (snd q)"
      proof (cases p)
        case (Inl e)
        then show ?thesis using post step bd p by auto
      next
        case (Inr u)
        then show ?thesis using post step bd p IH [of body _ s1 q] by (cases u) auto
      qed
    qed
  qed
  from this [OF assms(1)] assms(2) show ?thesis by simp
qed

end
