(* ===== verification/Real_Link.thy ===== *)
theory Real_Link
  imports Runs V3_Session Transfer_Wire
begin

text \<open>
  The primitives of \<open>RealMSX\<close> in \<open>server/msx_real.py\<close>: framed requests, the raw stream of older agents,
  run state, RAM and VRAM access, ports, mapping and execution. The state is the part of the object the
  operations use, with the world behind it; what the object drives is a record of parameters, \<open>link\<close>.
  The accesses to memory are loops over chunks: they end, and on a target that serves its memory they
  read and write it.
\<close>

unbundle bit_operations_syntax

subsection \<open>Exceptions\<close>

text \<open>
  \<open>RealTransfer e\<close> is an exception of \<open>msx_transfer.py\<close>; \<open>RealOther\<close> stands for the exceptions the module does not define (of the argument checks, of the
  frame layer, of integer packing), \<open>RealInterrupt\<close> for those outside \<open>Exception\<close>, such as a keyboard
  interrupt.
\<close>

datatype real_error =
    RealMSXError
  | RealMSXProtocolError
  | RealMSXTimeoutError
  | RealMSXRangeError
  | RealMSXKeyboardTimeoutError
  | RealMSXUnsupportedError
  | RealMSXCancelledError
  | RealTransfer transfer_error
  | RealOther
  | RealInterrupt

definition is_Exception :: "real_error \<Rightarrow> bool" where
  "is_Exception e \<longleftrightarrow> e \<noteq> RealInterrupt"

text \<open>
  What the session, the stream and the clock raise: \<open>TransportFailed\<close> is \<open>V3TransportError\<close>,
  \<open>InvalidOpcode\<close> is \<open>RemoteInvalidOpcodeError\<close> and \<open>SessionFailed\<close> any other \<open>V3SessionError\<close>.
\<close>

datatype link_error = SessionFailed | TransportFailed | InvalidOpcode | StreamTimeout | StreamFailed | LinkOther | LinkInterrupt

definition request_error :: "link_error \<Rightarrow> real_error" where
  "request_error e =
     (case e of SessionFailed \<Rightarrow> RealMSXProtocolError | TransportFailed \<Rightarrow> RealMSXProtocolError
      | InvalidOpcode \<Rightarrow> RealMSXProtocolError | LinkInterrupt \<Rightarrow> RealInterrupt | _ \<Rightarrow> RealOther)"

definition send_error :: "link_error \<Rightarrow> real_error" where
  "send_error e =
     (case e of StreamTimeout \<Rightarrow> RealMSXError | StreamFailed \<Rightarrow> RealMSXError
      | LinkInterrupt \<Rightarrow> RealInterrupt | _ \<Rightarrow> RealOther)"

definition recv_error :: "link_error \<Rightarrow> real_error" where
  "recv_error e =
     (case e of StreamTimeout \<Rightarrow> RealMSXTimeoutError | StreamFailed \<Rightarrow> RealMSXError
      | LinkInterrupt \<Rightarrow> RealInterrupt | _ \<Rightarrow> RealOther)"

definition plain_error :: "link_error \<Rightarrow> real_error" where
  "plain_error e = (case e of LinkInterrupt \<Rightarrow> RealInterrupt | _ \<Rightarrow> RealOther)"

subsection \<open>State\<close>

text \<open>The attributes of \<open>self._v3\<close> the operations use; times are integers, in microseconds.\<close>

record v3_config =
  c_timeout :: int
  c_retries :: int
  c_max_payload :: int
  c_local_max :: int
  c_peer_max :: int
  c_wake_ack :: "byte option"
  c_wake_optional :: bool
  c_wake_delay :: int
  c_quarantine_on :: bool

text \<open>
  What a \<open>RealMSX\<close> drives, as functions on the state of the world: \<open>V3Session.request\<close> with a
  configuration, the constructor of a \<open>V3Session\<close> on the stream, the raw stream, its timeout, the write
  quarantine of the session, and the clock.
\<close>

record 'w link =
  l_request :: "v3_config \<Rightarrow> byte \<Rightarrow> bytes \<Rightarrow> int option \<Rightarrow> ('w, link_error, bytes) comp"
  l_session :: "v3_config \<Rightarrow> ('w, link_error, unit) comp"
  l_sendall :: "bytes \<Rightarrow> ('w, link_error, unit) comp"
  l_recv :: "int \<Rightarrow> ('w, link_error, bytes) comp"
  l_gettimeout :: "'w \<Rightarrow> int"
  l_settimeout :: "int \<Rightarrow> ('w, link_error, unit) comp"
  l_quarantined :: "'w \<Rightarrow> bool"
  l_now :: "'w \<Rightarrow> int \<times> 'w"
  l_sleep :: "int \<Rightarrow> ('w, link_error, unit) comp"

record 'w real =
  r_v3 :: "v3_config option"
  r_connected :: bool
  r_protocol :: "int option"
  r_capabilities :: int
  r_features :: int
  r_runtime_id :: "int option"
  r_resident_base :: "int option"
  r_vram_size :: int
  r_quarantine :: bool
  r_pause_owned :: bool
  r_transfer_caps :: "capabilities_reply option"
  r_fast_caps :: "fast_capabilities_reply option"
  r_fast_id :: "bytes option"
  r_socket_timeout :: int
  r_transport_id :: "int option"
  r_vram_banks :: int
  r_vdp_generation :: "int option"
  r_control_level :: "int option"
  r_debug :: bool
  r_resident_entry :: "int option"
  r_recovered :: bool
  r_bootstrap_protocol :: "int option"
  r_bootstrap_features :: int
  r_bootstrap_known :: bool
  r_peer_sent :: bool
  r_endpoint :: "(string \<times> string option) option"
  r_world :: 'w

type_synonym ('w, 'a) real_comp = "('w real, real_error, 'a) comp"

definition on_world :: "(link_error \<Rightarrow> real_error) \<Rightarrow> ('w, link_error, 'a) comp \<Rightarrow> ('w, 'a) real_comp" where
  "on_world convert m s =
     (case m (r_world s) of
        (Inl e, w) \<Rightarrow> (Inl (convert e), s\<lparr>r_world := w\<rparr>)
      | (Inr x, w) \<Rightarrow> (Inr x, s\<lparr>r_world := w\<rparr>))"

definition real_monotonic :: "'w link \<Rightarrow> ('w, int) real_comp" where
  "real_monotonic L s = (case l_now L (r_world s) of (t, w) \<Rightarrow> (Inr t, s\<lparr>r_world := w\<rparr>))"

definition time_sleep :: "'w link \<Rightarrow> int \<Rightarrow> ('w, unit) real_comp" where
  "time_sleep L d = on_world plain_error (l_sleep L d)"

subsection \<open>Constants\<close>

definition REAL_RAM_SIZE :: int where "REAL_RAM_SIZE = 0x10000"
definition CAPABILITY_RUN :: int where "CAPABILITY_RUN = 0x08"
definition CAPABILITY_MAPPING :: int where "CAPABILITY_MAPPING = 0x80"
definition BASE_PROTOCOL_VERSION :: int where "BASE_PROTOCOL_VERSION = 2"
definition FRAMED_PROTOCOL_VERSION :: int where "FRAMED_PROTOCOL_VERSION = 3"
definition FEATURE_TIMI_POLL_SAFE :: int where "FEATURE_TIMI_POLL_SAFE = 0x10"

datatype agent_state = AgentMonitor | AgentRunning | AgentPaused | AgentUnknown int

definition state_name :: "int \<Rightarrow> agent_state" where
  "state_name code =
     (if code = 0 then AgentMonitor else if code = 1 then AgentRunning
      else if code = 2 then AgentPaused else AgentUnknown code)"

datatype runtime = NoRuntime | Resident | ForegroundMonitor | UnknownRuntime int

definition runtime_mode :: "'w real \<Rightarrow> runtime" where
  "runtime_mode s =
     (case r_runtime_id s of
        None \<Rightarrow> NoRuntime
      | Some i \<Rightarrow> if i = 0 then Resident else if i = 1 then ForegroundMonitor else UnknownRuntime i)"

subsection \<open>Primitives\<close>

text \<open>\<open>write_quarantined\<close> also copies the reason of the session into the attachment.\<close>

definition attachment_quarantined :: "'w link \<Rightarrow> ('w, bool) real_comp" where
  "attachment_quarantined L s =
     (if r_quarantine s then (Inr True, s)
      else if r_v3 s \<noteq> None \<and> l_quarantined L (r_world s) then (Inr True, s\<lparr>r_quarantine := True\<rparr>)
      else (Inr False, s))"

definition quarantine_attachment_writes :: "('w, unit) real_comp" where
  "quarantine_attachment_writes s = (Inr (), s\<lparr>r_quarantine := True\<rparr>)"

definition send :: "'w link \<Rightarrow> bytes \<Rightarrow> ('w, unit) real_comp" where
  "send L data s =
     bindIO (guard (r_connected s) RealMSXError) (\<lambda>_.
     bindIO (attachment_quarantined L) (\<lambda>q.
     bindIO (guard (\<not> q) RealMSXProtocolError) (\<lambda>_.
       on_world send_error (l_sendall L data)))) s"

text \<open>The loop of \<open>_recv_exact\<close> ends because every chunk has at least one byte.\<close>

function recv_more :: "'w link \<Rightarrow> int \<Rightarrow> bytes \<Rightarrow> ('w, bytes) real_comp" where
  "recv_more L n buf s =
     (if int (length buf) < n then
        bindIO (on_world recv_error (l_recv L (n - int (length buf)))) (\<lambda>data s.
          if data = [] then raise RealMSXError s else recv_more L n (buf @ data) s) s
      else ret buf s)"
  by pat_completeness auto
termination
  by (relation "measure (\<lambda>(_, n, buf, _). nat (n - int (length buf)))") (auto simp: neq_Nil_conv)

declare recv_more.simps [simp del]

definition recv_exact :: "'w link \<Rightarrow> int \<Rightarrow> ('w, bytes) real_comp" where
  "recv_exact L n s =
     bindIO (guard (r_connected s) RealMSXError) (\<lambda>_. recv_more L n []) s"

definition address16 :: "int \<Rightarrow> bytes" where
  "address16 addr = [word_of_int (drop_bit 8 addr AND 0xFF), word_of_int (addr AND 0xFF)]"

definition real_range :: "int \<Rightarrow> int \<Rightarrow> int \<Rightarrow> real_error + unit" where
  "real_range addr count limit =
     (if addr < 0 \<or> count < 0 \<or> addr > limit \<or> addr + count > limit then Inl RealMSXRangeError else Inr ())"

definition real_byte :: "int \<Rightarrow> real_error + unit" where
  "real_byte v = (if \<not> (0 \<le> v \<and> v \<le> 0xFF) then Inl RealMSXRangeError else Inr ())"

definition resident_runtime_active :: "'w real \<Rightarrow> bool" where
  "resident_runtime_active s =
     (case r_runtime_id s of
        Some i \<Rightarrow> i = 0
      | None \<Rightarrow> r_protocol s \<noteq> None \<and> r_capabilities s AND CAPABILITY_RUN = 0)"

definition ranges_overlap :: "int \<Rightarrow> int \<Rightarrow> int \<Rightarrow> int \<Rightarrow> bool" where
  "ranges_overlap addr count lo hi \<longleftrightarrow> count > 0 \<and> addr < hi \<and> addr + count > lo"

definition validate_mappable_page :: "int \<Rightarrow> ('w, unit) real_comp" where
  "validate_mappable_page page s =
     bindIO (guard (0 \<le> page \<and> page \<le> 1) RealMSXRangeError) (\<lambda>_.
     bindIO (guard (\<not> resident_runtime_active s) RealMSXError) (\<lambda>_.
       guard (r_capabilities s AND CAPABILITY_MAPPING \<noteq> 0) RealMSXError)) s"

definition expect_ack :: "'w link \<Rightarrow> ('w, unit) real_comp" where
  "expect_ack L =
     bindIO (recv_exact L 1) (\<lambda>first.
       if first = [0x4B] then ret ()
       else if first = [0x45] then bindIO (recv_exact L 1) (\<lambda>_. raise RealMSXProtocolError)
       else raise RealMSXProtocolError)"

definition request_v3 :: "'w link \<Rightarrow> byte \<Rightarrow> bytes \<Rightarrow> int option \<Rightarrow> ('w, bytes) real_comp" where
  "request_v3 L opcode payload timeout =
     bindIO (attachment_quarantined L) (\<lambda>q.
     bindIO (guard (\<not> q) RealMSXProtocolError) (\<lambda>_ s.
       case r_v3 s of
         None \<Rightarrow> raise RealMSXProtocolError s
       | Some c \<Rightarrow> on_world request_error (l_request L c opcode payload timeout) s))"

text \<open>\<open>int(value).to_bytes(n, 'little')\<close> raises an \<open>OverflowError\<close> outside \<open>n\<close> bytes.\<close>

definition to_le :: "nat \<Rightarrow> int \<Rightarrow> real_error + bytes" where
  "to_le n v = (if 0 \<le> v \<and> v < 256 ^ n then Inr (le_bytes n v) else Inl RealOther)"

subsection \<open>Run state\<close>

definition status :: "'w link \<Rightarrow> ('w, agent_state) real_comp" where
  "status L s =
     (if r_v3 s \<noteq> None then
        bindIO (request_v3 L 0x71 [] None) (\<lambda>reply.
          if length reply \<noteq> 2 then raise RealMSXProtocolError
          else if uint (reply ! 1) \<noteq> FRAMED_PROTOCOL_VERSION then raise RealMSXProtocolError
          else ret (state_name (uint (reply ! 0))))
      else
        bindIO (send L [0x71]) (\<lambda>_.
        bindIO (recv_exact L 3) (\<lambda>reply.
          if take 1 reply \<noteq> [0x4B] then raise RealMSXProtocolError
          else if uint (reply ! 2) \<noteq> BASE_PROTOCOL_VERSION then raise RealMSXProtocolError
          else ret (state_name (uint (reply ! 1)))))) s"

text \<open>A command without payload: a framed request, or a raw byte and its acknowledgement.\<close>

definition command :: "'w link \<Rightarrow> byte \<Rightarrow> ('w, unit) real_comp" where
  "command L opcode s =
     (if r_v3 s \<noteq> None then bindIO (request_v3 L opcode [] None) (\<lambda>_. ret ())
      else bindIO (send L [opcode]) (\<lambda>_. expect_ack L)) s"

definition pause :: "'w link \<Rightarrow> ('w, agent_state) real_comp" where
  "pause L s =
     (if runtime_mode s = Resident \<and> r_features s AND FEATURE_TIMI_POLL_SAFE \<noteq> 0 then raise RealMSXError
      else
        bindIO (status L) (\<lambda>state.
          if state = AgentPaused then ret state
          else if state \<noteq> AgentRunning then raise RealMSXError
          else bindIO (command L 0x73) (\<lambda>_. ret AgentPaused))) s"

definition resume :: "'w link \<Rightarrow> ('w, agent_state) real_comp" where
  "resume L =
     bindIO (status L) (\<lambda>state.
       if state = AgentRunning then ret state
       else if state \<noteq> AgentPaused then raise RealMSXError
       else bindIO (command L 0x67) (\<lambda>_. ret AgentRunning))"

definition stop :: "'w link \<Rightarrow> ('w, agent_state) real_comp" where
  "stop L s =
     (if runtime_mode s = Resident then raise RealMSXError
      else
        bindIO (status L) (\<lambda>state.
        bindIO (if state = AgentRunning then bindIO (pause L) (\<lambda>_. ret ()) else ret ()) (\<lambda>_.
        bindIO (command L 0x6B) (\<lambda>_. ret AgentMonitor)))) s"

subsection \<open>Memory\<close>

text \<open>\<open>data[a:b]\<close>, with an end that counts from the back when it is negative.\<close>

definition py_index :: "'a list \<Rightarrow> int \<Rightarrow> nat" where
  "py_index xs k = nat (if k < 0 then k + int (length xs) else k)"

definition py_slice :: "'a list \<Rightarrow> int \<Rightarrow> int \<Rightarrow> 'a list" where
  "py_slice xs a b = drop (py_index xs a) (take (py_index xs b) xs)"

text \<open>
  The loops of the memory operations: \<open>offset\<close> counts the bytes written, \<open>out\<close> holds the bytes read.
\<close>

definition poke_step :: "'w link \<Rightarrow> int \<Rightarrow> bytes \<Rightarrow> int \<Rightarrow> ('w, int + unit) real_comp" where
  "poke_step L addr data offset s =
     (if \<not> offset < int (length data) then ret (Inr ())
      else
        let target = addr + offset in
        bindIO
          (case r_v3 s of
             Some c \<Rightarrow>
               let chunk = py_slice data offset (offset + c_max_payload c - 2) in
               bindIO (lift_result (to_le 2 target)) (\<lambda>at.
               bindIO (request_v3 L 0x70 (at @ chunk) None) (\<lambda>_. ret chunk))
           | None \<Rightarrow>
               let chunk = py_slice data offset (offset + 255) in
               bindIO (send L (0x70 # address16 target @ word_of_int (int (length chunk)) # chunk)) (\<lambda>_.
               bindIO (expect_ack L) (\<lambda>_. ret chunk))) (\<lambda>chunk.
          ret (Inl (offset + int (length chunk))))) s"

definition poke_checks :: "'w real \<Rightarrow> int \<Rightarrow> bytes \<Rightarrow> real_error + unit" where
  "poke_checks s addr data =
     bindE (real_range addr (int (length data)) REAL_RAM_SIZE) (\<lambda>_.
       if data \<noteq> [] then
         if resident_runtime_active s \<and> ranges_overlap addr (int (length data)) 0x4000 0x8000
         then Inl RealMSXRangeError
         else if \<not> resident_runtime_active s \<and>
           (case r_resident_base s of None \<Rightarrow> False | Some base \<Rightarrow> addr + int (length data) > base)
         then Inl RealMSXRangeError
         else Inr ()
       else Inr ())"

definition poke :: "'w link \<Rightarrow> int \<Rightarrow> bytes \<Rightarrow> ('w real, real_error, int) run" where
  "poke L addr data s =
     bindR (run_of (lift_result (poke_checks s addr data))) (\<lambda>_.
     bindR (loop (\<lambda>offset. run_of (poke_step L addr data offset)) 0) (\<lambda>_.
       run_of (ret (int (length data))))) s"

definition peek_step :: "'w link \<Rightarrow> int \<Rightarrow> int \<Rightarrow> bytes \<Rightarrow> ('w, bytes + bytes) real_comp" where
  "peek_step L addr n out s =
     (if \<not> int (length out) < n then ret (Inr out)
      else
        bindIO
          (case r_v3 s of
             Some c \<Rightarrow>
               let count = min (n - int (length out)) (c_max_payload c) in
               bindIO (lift_result (to_le 2 (addr + int (length out)))) (\<lambda>at.
               bindIO (lift_result (to_le 2 count)) (\<lambda>size_bytes.
                 request_v3 L 0x72 (at @ size_bytes) None))
           | None \<Rightarrow>
               let count = min (n - int (length out)) 255 in
               bindIO (send L (0x72 # address16 (addr + int (length out)) @ [word_of_int count])) (\<lambda>_.
                 recv_exact L count)) (\<lambda>data.
          ret (Inl (out @ data)))) s"

definition peek :: "'w link \<Rightarrow> int \<Rightarrow> int \<Rightarrow> ('w real, real_error, bytes) run" where
  "peek L addr n s =
     bindR (run_of (lift_result (real_range addr n REAL_RAM_SIZE))) (\<lambda>_.
     bindR (run_of (guard (\<not> (resident_runtime_active s \<and> ranges_overlap addr n 0x4000 0x8000))
       RealMSXRangeError)) (\<lambda>_.
       loop (\<lambda>out. run_of (peek_step L addr n out)) [])) s"

definition vram_header :: "byte \<Rightarrow> int \<Rightarrow> int \<Rightarrow> bytes" where
  "vram_header opcode addr count =
     opcode # word_of_int (drop_bit 14 addr AND 7) # address16 (addr AND 0x3FFF) @ [word_of_int count]"

definition vpeek_step :: "'w link \<Rightarrow> int \<Rightarrow> int \<Rightarrow> bytes \<Rightarrow> ('w, bytes + bytes) real_comp" where
  "vpeek_step L addr n out s =
     (if \<not> int (length out) < n then ret (Inr out)
      else
        let current = addr + int (length out); boundary = 0x4000 - (current AND 0x3FFF) in
        bindIO
          (case r_v3 s of
             Some c \<Rightarrow>
               let size = min (min (n - int (length out)) (c_max_payload c)) boundary in
               bindIO (lift_result (to_le 3 current)) (\<lambda>at.
               bindIO (lift_result (to_le 2 size)) (\<lambda>size_bytes.
                 request_v3 L 0x76 (at @ size_bytes) None))
           | None \<Rightarrow>
               let size = min (min (n - int (length out)) 255) boundary in
               bindIO (send L (vram_header 0x76 current size)) (\<lambda>_.
                 recv_exact L size)) (\<lambda>data.
          ret (Inl (out @ data)))) s"

definition vpeek :: "'w link \<Rightarrow> int \<Rightarrow> int \<Rightarrow> ('w real, real_error, bytes) run" where
  "vpeek L addr n s =
     bindR (run_of (lift_result (real_range addr n (r_vram_size s)))) (\<lambda>_.
       loop (\<lambda>out. run_of (vpeek_step L addr n out)) []) s"

definition vpoke_step :: "'w link \<Rightarrow> int \<Rightarrow> bytes \<Rightarrow> int \<Rightarrow> ('w, int + unit) real_comp" where
  "vpoke_step L addr data offset s =
     (if \<not> offset < int (length data) then ret (Inr ())
      else
        let current = addr + offset; boundary = 0x4000 - (current AND 0x3FFF) in
        bindIO
          (case r_v3 s of
             Some c \<Rightarrow>
               let chunk = py_slice data offset (offset + min (c_max_payload c - 3) boundary) in
               bindIO (lift_result (to_le 3 current)) (\<lambda>at.
               bindIO (request_v3 L 0x77 (at @ chunk) None) (\<lambda>_. ret chunk))
           | None \<Rightarrow>
               let chunk = py_slice data offset (offset + min 255 boundary) in
               bindIO (send L (vram_header 0x77 current (int (length chunk)) @ chunk)) (\<lambda>_.
               bindIO (expect_ack L) (\<lambda>_. ret chunk))) (\<lambda>chunk.
          ret (Inl (offset + int (length chunk))))) s"

definition vpoke :: "'w link \<Rightarrow> int \<Rightarrow> bytes \<Rightarrow> ('w real, real_error, int) run" where
  "vpoke L addr data s =
     bindR (run_of (lift_result (real_range addr (int (length data)) (r_vram_size s)))) (\<lambda>_.
     bindR (loop (\<lambda>offset. run_of (vpoke_step L addr data offset)) 0) (\<lambda>_.
       run_of (ret (int (length data))))) s"

subsection \<open>Ports, mapping and execution\<close>

text \<open>A command with an argument: framed under its opcode, or raw with an acknowledgement.\<close>

definition acknowledged :: "'w link \<Rightarrow> byte \<Rightarrow> bytes \<Rightarrow> bytes \<Rightarrow> ('w, unit) real_comp" where
  "acknowledged L opcode framed raw s =
     (if r_v3 s \<noteq> None then bindIO (request_v3 L opcode framed None) (\<lambda>_. ret ())
      else bindIO (send L (opcode # raw)) (\<lambda>_. expect_ack L)) s"

definition port_read :: "'w link \<Rightarrow> int \<Rightarrow> ('w, byte) real_comp" where
  "port_read L port s =
     (if r_v3 s \<noteq> None then
        bindIO (request_v3 L 0x69 [word_of_int port] None) (\<lambda>reply.
          if length reply \<noteq> 1 then raise RealMSXProtocolError else ret (hd reply))
      else bindIO (send L [0x69, word_of_int port]) (\<lambda>_. bindIO (recv_exact L 1) (\<lambda>bs. ret (hd bs)))) s"

definition io_read :: "'w link \<Rightarrow> int \<Rightarrow> ('w, byte) real_comp" where
  "io_read L port = bindIO (lift_result (real_byte port)) (\<lambda>_. port_read L port)"

fun read_ports :: "'w link \<Rightarrow> int list \<Rightarrow> ('w, bytes) real_comp" where
  "read_ports L [] = ret []"
| "read_ports L (port # ports) =
     bindIO (port_read L port) (\<lambda>v. bindIO (read_ports L ports) (\<lambda>vs. ret (v # vs)))"

definition io_read_many :: "'w link \<Rightarrow> int list \<Rightarrow> ('w, bytes) real_comp" where
  "io_read_many L ports =
     bindIO (lift_result (mapE real_byte ports)) (\<lambda>_. read_ports L ports)"

text \<open>The read-back takes \<open>reply[0]\<close>: an empty reply raises an \<open>IndexError\<close>.\<close>

definition port_write :: "'w link \<Rightarrow> int \<Rightarrow> int \<Rightarrow> bool \<Rightarrow> ('w, unit) real_comp" where
  "port_write L port v verify =
     bindIO (acknowledged L 0x6F [word_of_int port, word_of_int v] [word_of_int port, word_of_int v]) (\<lambda>_.
       if verify then
         bindIO (\<lambda>s. (if r_v3 s \<noteq> None then request_v3 L 0x69 [word_of_int port] None
           else bindIO (send L [0x69, word_of_int port]) (\<lambda>_. recv_exact L 1)) s) (\<lambda>reply.
           if reply = [] then raise RealOther
           else if uint (hd reply) \<noteq> v then raise RealMSXProtocolError
           else ret ())
       else ret ())"

definition io_write :: "'w link \<Rightarrow> int \<Rightarrow> int \<Rightarrow> bool \<Rightarrow> ('w, unit) real_comp" where
  "io_write L port v verify =
     bindIO (lift_result (real_byte port)) (\<lambda>_.
     bindIO (lift_result (real_byte v)) (\<lambda>_.
       port_write L port v verify))"

fun write_ports :: "'w link \<Rightarrow> (int \<times> int) list \<Rightarrow> bool \<Rightarrow> ('w, unit) real_comp" where
  "write_ports L [] verify = ret ()"
| "write_ports L ((port, v) # items) verify =
     bindIO (port_write L port v verify) (\<lambda>_. write_ports L items verify)"

definition io_write_many :: "'w link \<Rightarrow> (int \<times> int) list \<Rightarrow> bool \<Rightarrow> ('w, int) real_comp" where
  "io_write_many L items verify =
     bindIO (lift_result (mapE (\<lambda>(port, v). bindE (real_byte port) (\<lambda>_. real_byte v)) items)) (\<lambda>_.
     bindIO (write_ports L items verify) (\<lambda>_.
       ret (int (length items))))"

definition slot_select :: "'w link \<Rightarrow> int \<Rightarrow> int \<Rightarrow> ('w, unit) real_comp" where
  "slot_select L page slot_id =
     bindIO (validate_mappable_page page) (\<lambda>_.
     bindIO (lift_result (real_byte slot_id)) (\<lambda>_.
       acknowledged L 0x6C [word_of_int page, word_of_int slot_id] [word_of_int page, word_of_int slot_id]))"

definition mapper_select :: "'w link \<Rightarrow> int \<Rightarrow> int \<Rightarrow> ('w, unit) real_comp" where
  "mapper_select L page segment =
     bindIO (validate_mappable_page page) (\<lambda>_.
     bindIO (lift_result (real_byte segment)) (\<lambda>_.
       acknowledged L 0x6D [word_of_int page, word_of_int segment] [word_of_int page, word_of_int segment]))"

text \<open>\<open>call\<close> and \<open>run\<close>: the little-endian address in a frame, the big-endian one on the raw stream.\<close>

definition launch :: "'w link \<Rightarrow> byte \<Rightarrow> int \<Rightarrow> ('w, unit) real_comp" where
  "launch L opcode addr s =
     bindIO (lift_result (real_range addr 1 REAL_RAM_SIZE)) (\<lambda>_.
     bindIO (guard (r_capabilities s AND CAPABILITY_RUN \<noteq> 0) RealMSXError) (\<lambda>_.
     bindIO (lift_result (to_le 2 addr)) (\<lambda>at.
       acknowledged L opcode at (address16 addr)))) s"

definition call_address :: "'w link \<Rightarrow> int \<Rightarrow> ('w, unit) real_comp" where
  "call_address L = launch L 0x63"

definition run_address :: "'w link \<Rightarrow> int \<Rightarrow> ('w, unit) real_comp" where
  "run_address L = launch L 0x6A"

definition uninstall :: "'w link \<Rightarrow> ('w, unit) real_comp" where
  "uninstall L s =
     bindIO (guard (r_v3 s = None) RealMSXProtocolError) (\<lambda>_.
     bindIO (send L [0x7A]) (\<lambda>_. expect_ack L)) s"

subsection \<open>Frames\<close>

text \<open>\<open>same_host s s'\<close>: only the world and the quarantine of the attachment moved.\<close>

definition same_host :: "'w real \<Rightarrow> 'w real \<Rightarrow> bool" where
  "same_host s s' \<longleftrightarrow> s' = s\<lparr>r_quarantine := r_quarantine s', r_world := r_world s'\<rparr>"

lemma same_host_refl [simp]: "same_host s s"
  by (simp add: same_host_def)

lemma same_host_trans: "same_host s s1 \<Longrightarrow> same_host s1 s2 \<Longrightarrow> same_host s s2"
  unfolding same_host_def by (cases s, cases s1, cases s2) simp

lemma same_host_world [simp]: "same_host s (s\<lparr>r_world := w\<rparr>)" "same_host s (s\<lparr>r_quarantine := q\<rparr>)"
  by (simp_all add: same_host_def)

lemma same_host_fields:
  assumes "same_host s s'"
  shows "r_v3 s' = r_v3 s" "r_connected s' = r_connected s" "r_protocol s' = r_protocol s"
    "r_capabilities s' = r_capabilities s" "r_features s' = r_features s" "r_runtime_id s' = r_runtime_id s"
    "r_resident_base s' = r_resident_base s" "r_vram_size s' = r_vram_size s"
    "r_pause_owned s' = r_pause_owned s" "runtime_mode s' = runtime_mode s"
  using assms unfolding same_host_def runtime_mode_def by (cases s, cases s', simp)+

lemma wp_on_world:
  "wp (on_world f m) (\<lambda>r s'. s' = s\<lparr>r_world := r_world s'\<rparr> \<and>
     (\<exists>r0. m (r_world s) = (r0, r_world s') \<and> r = map_sum f id r0)) s"
  by (auto simp: wp_def on_world_def split: prod.splits sum.splits)

lemma wp_attachment_quarantined:
  "wp (attachment_quarantined L) (\<lambda>r s'. \<exists>b. r = Inr b \<and> s' = s\<lparr>r_quarantine := b\<rparr>) s"
  by (cases s) (auto simp: wp_def attachment_quarantined_def)

text \<open>\<open>asked\<close>: a framed request was refused without touching the world, or made with this outcome.\<close>

definition asked :: "'w link \<Rightarrow> byte \<Rightarrow> bytes \<Rightarrow> int option \<Rightarrow> 'w real \<Rightarrow> real_error + bytes \<Rightarrow> 'w real \<Rightarrow> bool" where
  "asked L opcode payload timeout s r s' \<longleftrightarrow> same_host s s' \<and>
     ((\<exists>e. r = Inl e) \<and> r_world s' = r_world s \<or>
      (\<exists>c r0. r_v3 s = Some c \<and> l_request L c opcode payload timeout (r_world s) = (r0, r_world s') \<and>
         r = map_sum request_error id r0))"

lemma wp_request_v3: "wp (request_v3 L opcode payload timeout) (asked L opcode payload timeout s) s"
  unfolding request_v3_def
proof (rule wp_bind [OF wp_attachment_quarantined], goal_cases)
  case (2 q s1)
  then have s1: "s1 = s\<lparr>r_quarantine := q\<rparr>" by simp
  show ?case
  proof (rule wp_guard, goal_cases)
    case 1
    then show ?case using s1 by (simp add: asked_def)
  next
    case 2
    show ?case
    proof (cases "r_v3 s")
      case None
      then show ?thesis by (simp add: s1 wp_def asked_def)
    next
      case (Some c)
      show ?thesis
      proof (cases "l_request L c opcode payload timeout (r_world s)")
        case (Pair r0 w)
        then show ?thesis using Some
          by (cases r0) (simp_all add: wp_def on_world_def s1 asked_def same_host_def)
      qed
    qed
  qed
qed simp

lemma wp_recv_more:
  "wp (recv_more L n buf) (\<lambda>r s'. same_host s s' \<and> (\<forall>bs. r = Inr bs \<longrightarrow> n \<le> int (length bs))) s"
proof (induction "nat (n - int (length buf))" arbitrary: buf s rule: less_induct)
  case less
  show ?case
  proof (cases "int (length buf) < n")
    case False
    then show ?thesis by (simp add: wp_def recv_more.simps)
  next
    case True
    have "wp (bindIO (on_world recv_error (l_recv L (n - int (length buf)))) (\<lambda>data s.
          if data = [] then raise RealMSXError s else recv_more L n (buf @ data) s))
        (\<lambda>r s'. same_host s s' \<and> (\<forall>bs. r = Inr bs \<longrightarrow> n \<le> int (length bs))) s"
    proof (rule wp_bind [OF wp_on_world], goal_cases)
      case (1 e s1)
      then show ?case by (metis Inl_Inr_False same_host_world(1))
    next
      case (2 data s1)
      then have s1: "same_host s s1" by (metis same_host_world(1))
      show ?case
      proof (cases "data = []")
        case True
        then show ?thesis using s1 by (simp add: wp_def)
      next
        case False
        then have "nat (n - int (length (buf @ data))) < nat (n - int (length buf))"
          using True by (cases data) auto
        from less [OF this, of s1] False show ?thesis
          by (auto simp: wp_def intro: same_host_trans [OF s1])
      qed
    qed
    then show ?thesis using True by (simp add: wp_def recv_more.simps [of L n buf s])
  qed
qed

lemma wp_recv_exact:
  "wp (recv_exact L n) (\<lambda>r s'. same_host s s' \<and> (\<forall>bs. r = Inr bs \<longrightarrow> n \<le> int (length bs))) s"
  using wp_recv_more [of L n "[]" s] by (cases "r_connected s") (simp_all add: wp_def recv_exact_def)

lemma wp_send: "wp (send L data) (\<lambda>r s'. same_host s s') s"
proof (cases "r_connected s")
  case True
  have "wp (bindIO (attachment_quarantined L) (\<lambda>q.
     bindIO (guard (\<not> q) RealMSXProtocolError) (\<lambda>_.
       on_world send_error (l_sendall L data)))) (\<lambda>r s'. same_host s s') s"
  proof (rule wp_bind [OF wp_attachment_quarantined], goal_cases)
    case (2 q s1)
    then have s1: "same_host s s1" by auto
    show ?case
    proof (rule wp_guard)
      show "wp (on_world send_error (l_sendall L data)) (\<lambda>r. same_host s) s1"
        by (rule wp_mono [OF wp_on_world]) (metis same_host_trans s1 same_host_world(1))
    qed (use s1 in simp)
  qed simp
  with True show ?thesis by (simp add: wp_def send_def)
qed (simp add: wp_def send_def)

lemma wp_expect_ack: "wp (expect_ack L) (\<lambda>r s'. same_host s s') s"
  unfolding expect_ack_def
proof (rule wp_bind [OF wp_recv_exact], goal_cases)
  case (2 first s1)
  have "wp (bindIO (recv_exact L 1) (\<lambda>_. raise RealMSXProtocolError) :: ('a, unit) real_comp)
      (\<lambda>r. same_host s) s1"
    by (rule wp_bind [OF wp_recv_exact]) (use 2 in \<open>auto intro: same_host_trans\<close>)
  then show ?case using 2 by simp
qed simp

subsection \<open>The steps of the memory operations\<close>

lemma py_slice_nonneg: "0 \<le> a \<Longrightarrow> 0 \<le> b \<Longrightarrow> py_slice xs a b = take (nat (b - a)) (drop (nat a) xs)"
  by (simp add: py_slice_def py_index_def drop_take nat_diff_distrib')

definition wrote :: "'w link \<Rightarrow> byte \<Rightarrow> nat \<Rightarrow> int \<Rightarrow> bytes \<Rightarrow> int \<Rightarrow> 'w real \<Rightarrow> real_error + (int + unit) \<Rightarrow> 'w real \<Rightarrow> bool" where
  "wrote L opcode width addr data offset s r s' \<longleftrightarrow> same_host s s' \<and>
     (case r of
        Inr (Inr _) \<Rightarrow> int (length data) \<le> offset \<and> s' = s
      | Inr (Inl y) \<Rightarrow> offset < y \<and> y \<le> int (length data) \<and>
          (\<forall>c. r_v3 s = Some c \<longrightarrow> (\<exists>x. l_request L c opcode
             (le_bytes width (addr + offset) @ take (nat (y - offset)) (drop (nat offset) data)) None (r_world s) =
             (Inr x, r_world s')))
      | Inl e \<Rightarrow> offset < int (length data) \<and>
          (\<forall>c. r_v3 s = Some c \<longrightarrow> r_world s' = r_world s \<or>
             (\<exists>k e. l_request L c opcode
               (le_bytes width (addr + offset) @ take k (drop (nat offset) data)) None (r_world s) =
               (Inl e, r_world s'))))"

lemma map_sum_error [simp]:
  "(Inl e = map_sum f id r) = (\<exists>e0. r = Inl e0 \<and> e = f e0)"
  "(Inr x = map_sum f id r) = (r = Inr x)"
  by (cases r; auto)+

text \<open>One framed chunk of at least one byte.\<close>

lemma wp_framed_chunk:
  assumes "r_v3 s = Some c" "0 < k" "0 \<le> offset" "offset < int (length data)"
    and "0 \<le> addr + offset" "addr + offset < 256 ^ width"
  shows "wp (bindIO (lift_result (to_le width (addr + offset))) (\<lambda>at.
           bindIO (request_v3 L opcode (at @ take k (drop (nat offset) data)) None) (\<lambda>_.
             ret (Inl (offset + int (length (take k (drop (nat offset) data))))))))
         (wrote L opcode width addr data offset s) s"
proof -
  let ?chunk = "take k (drop (nat offset) data)"
  let ?n = "int (length ?chunk)"
  have n: "offset < offset + ?n" "offset + ?n \<le> int (length data)"
    and chunk: "take (nat (offset + ?n - offset)) (drop (nat offset) data) = ?chunk"
    using assms(2-4) by (auto simp: min_def)
  have "wp (bindIO (request_v3 L opcode (le_bytes width (addr + offset) @ ?chunk) None) (\<lambda>_.
          ret (Inl (offset + ?n)))) (wrote L opcode width addr data offset s) s"
  proof (rule wp_bind [OF wp_request_v3], goal_cases)
    case (1 e s1)
    then show ?case using assms(1,4) by (auto simp: asked_def wrote_def)
  next
    case (2 x s1)
    then show ?case using n chunk assms(1)
      by (auto simp: asked_def wrote_def simp del: length_take length_drop)
  qed
  then show ?thesis using assms(5,6) by (simp add: to_le_def)
qed

lemma wp_raw_chunk:
  assumes "r_v3 s = None" "0 < k" "0 \<le> offset" "offset < int (length data)"
  shows "wp (bindIO (send L raw) (\<lambda>_. bindIO (expect_ack L) (\<lambda>_.
           ret (Inl (offset + int (length (take k (drop (nat offset) data))))))))
         (wrote L opcode width addr data offset s) s"
proof -
  have n: "offset < offset + int (length (take k (drop (nat offset) data)))"
    "offset + int (length (take k (drop (nat offset) data))) \<le> int (length data)"
    using assms(2-4) by auto
  show ?thesis
  proof (rule wp_bind [OF wp_send], goal_cases)
    case (2 u s1)
    show ?case
      by (rule wp_bind [OF wp_expect_ack])
        (use 2 n assms(1,4) in \<open>auto simp: wrote_def simp del: length_take length_drop intro: same_host_trans\<close>)
  qed (use assms(1,4) in \<open>simp add: wrote_def\<close>)
qed

text \<open>A payload limit that leaves room for the address and one byte.\<close>

definition room :: "nat \<Rightarrow> 'w real \<Rightarrow> bool" where
  "room width s \<longleftrightarrow> (\<forall>c. r_v3 s = Some c \<longrightarrow> int width < c_max_payload c)"

lemma bindIO_assoc: "bindIO (bindIO m f) g = bindIO m (\<lambda>x. bindIO (f x) g)"
  by (auto simp: bindIO_def fun_eq_iff split: prod.splits sum.splits)

lemma ret_Pair: "ret x = Pair (Inr x)" "bindIO (Pair (Inr x)) k = k x"
  by (simp_all add: fun_eq_iff)

lemma wp_poke_step:
  assumes "room 2 s" "0 \<le> offset" "0 \<le> addr" "addr + int (length data) \<le> 65536"
  shows "wp (poke_step L addr data offset) (wrote L 0x70 2 addr data offset s) s"
proof (cases "offset < int (length data)")
  case False
  then show ?thesis by (simp add: wp_def poke_step_def wrote_def)
next
  case True
  show ?thesis
  proof (cases "r_v3 s")
    case None
    have "wp (bindIO (send L (0x70 # address16 (addr + offset) @
          word_of_int (int (length (take 255 (drop (nat offset) data)))) # take 255 (drop (nat offset) data)))
          (\<lambda>_. bindIO (expect_ack L) (\<lambda>_. ret (Inl (offset + int (length (take 255 (drop (nat offset) data))))))))
        (wrote L 0x70 2 addr data offset s) s"
      by (rule wp_raw_chunk) (use None True assms in auto)
    then show ?thesis using True None assms(2)
      by (simp add: wp_def poke_step_def py_slice_nonneg bindIO_assoc ret_Pair Let_def)
  next
    case (Some c)
    then have k: "0 < nat (c_max_payload c - 2)" "0 \<le> offset + c_max_payload c - 2"
      using assms(1,2) by (simp_all add: room_def)
    from wp_framed_chunk [OF Some k(1) assms(2) True, of addr 2 L "0x70"] show ?thesis
      using True Some k assms by (simp add: wp_def poke_step_def py_slice_nonneg bindIO_assoc ret_Pair Let_def)
  qed
qed

lemma vram_boundary: "1 \<le> 0x4000 - (current AND 0x3FFF :: int)"
proof -
  have "current AND 0x3FFF = current mod 2 ^ 14"
    using take_bit_eq_mask [of 14 current] by (simp add: take_bit_eq_mod mask_eq_exp_minus_1)
  then show ?thesis by (simp add: pos_mod_bound zle_diff1_eq [symmetric])
qed

lemma wp_vpoke_step:
  assumes "room 3 s" "0 \<le> offset" "0 \<le> addr" "addr + int (length data) \<le> 256 ^ 3"
  shows "wp (vpoke_step L addr data offset) (wrote L 0x77 3 addr data offset s) s"
proof (cases "offset < int (length data)")
  case False
  then show ?thesis by (simp add: wp_def vpoke_step_def wrote_def)
next
  case True
  let ?boundary = "0x4000 - ((addr + offset) AND 0x3FFF)"
  show ?thesis
  proof (cases "r_v3 s")
    case None
    let ?k = "nat (min 255 ?boundary)"
    have k: "0 < ?k" using vram_boundary [of "addr + offset"] by simp
    have "wp (bindIO (send L (vram_header 0x77 (addr + offset) (int (length (take ?k (drop (nat offset) data)))) @
          take ?k (drop (nat offset) data)))
          (\<lambda>_. bindIO (expect_ack L) (\<lambda>_. ret (Inl (offset + int (length (take ?k (drop (nat offset) data))))))))
        (wrote L 0x77 3 addr data offset s) s"
      by (rule wp_raw_chunk) (use None True k assms in auto)
    then show ?thesis using True None k assms(2)
      by (simp add: wp_def vpoke_step_def py_slice_nonneg bindIO_assoc ret_Pair Let_def)
  next
    case (Some c)
    let ?k = "nat (min (c_max_payload c - 3) ?boundary)"
    have k: "0 < ?k" using assms(1) Some vram_boundary [of "addr + offset"] by (simp add: room_def)
    from wp_framed_chunk [OF Some k assms(2) True, of addr 3 L "0x77"] show ?thesis
      using True Some k assms by (simp add: wp_def vpoke_step_def py_slice_nonneg bindIO_assoc ret_Pair Let_def)
  qed
qed

subsection \<open>A target that serves its memory\<close>

definition write_at :: "(int \<Rightarrow> byte) \<Rightarrow> int \<Rightarrow> bytes \<Rightarrow> int \<Rightarrow> byte" where
  "write_at m a bs = (\<lambda>i. if a \<le> i \<and> i < a + int (length bs) then bs ! nat (i - a) else m i)"

definition read_at :: "(int \<Rightarrow> byte) \<Rightarrow> int \<Rightarrow> nat \<Rightarrow> bytes" where
  "read_at m a n = map (\<lambda>i. m (a + int i)) [0..<n]"

lemma write_at_Nil [simp]: "write_at m a [] = m"
  by (auto simp: write_at_def fun_eq_iff)

lemma write_at_append: "write_at (write_at m a xs) (a + int (length xs)) ys = write_at m a (xs @ ys)"
proof
  fix i
  have "nat (i - a) - length xs = nat (i - (a + int (length xs)))" by simp
  then show "write_at (write_at m a xs) (a + int (length xs)) ys i = write_at m a (xs @ ys) i"
    by (auto simp: write_at_def nth_append)
qed

lemma read_at_append: "read_at m a (k + n) = read_at m a k @ read_at m (a + int k) n"
  by (induction n) (simp_all add: read_at_def algebra_simps)

lemma length_read_at [simp]: "length (read_at m a n) = n"
  by (simp add: read_at_def)

lemma read_write_at: "read_at (write_at m a bs) a (length bs) = bs"
  by (rule nth_equalityI) (simp_all add: read_at_def write_at_def)

text \<open>
  While the target holds \<open>still\<close> only writes change its memory. \<open>stores\<close>: an answered write request stored
  its bytes, a failed one did so or did nothing. \<open>fetches\<close>: an answered read request returned the bytes
  of the memory. The address takes \<open>width\<close> bytes of the payload.
\<close>

definition stores :: "'w link \<Rightarrow> byte \<Rightarrow> nat \<Rightarrow> ('w \<Rightarrow> bool) \<Rightarrow> ('w \<Rightarrow> int \<Rightarrow> byte) \<Rightarrow> bool" where
  "stores L opcode width still mem \<longleftrightarrow>
     (\<forall>c a bs w r w'. still w \<longrightarrow> 0 \<le> a \<longrightarrow> a < 256 ^ width \<longrightarrow>
        l_request L c opcode (le_bytes width a @ bs) None w = (r, w') \<longrightarrow>
        still w' \<and> (mem w' = write_at (mem w) a bs \<or> (\<exists>e. r = Inl e) \<and> mem w' = mem w))"

definition fetches :: "'w link \<Rightarrow> byte \<Rightarrow> nat \<Rightarrow> ('w \<Rightarrow> bool) \<Rightarrow> ('w \<Rightarrow> int \<Rightarrow> byte) \<Rightarrow> bool" where
  "fetches L opcode width still mem \<longleftrightarrow>
     (\<forall>c a n w r w'. still w \<longrightarrow> 0 \<le> a \<longrightarrow> a < 256 ^ width \<longrightarrow> 0 \<le> n \<longrightarrow> n < 65536 \<longrightarrow>
        l_request L c opcode (le_bytes width a @ le_bytes 2 n) None w = (r, w') \<longrightarrow>
        still w' \<and> mem w' = mem w \<and> (\<forall>bs. r = Inr bs \<longrightarrow> bs = read_at (mem w) a (nat n)))"

text \<open>What a write of \<open>data\<close> leaves: a prefix is in memory, all of it when no exception is raised.\<close>

definition stored_prefix :: "'w link \<Rightarrow> byte \<Rightarrow> nat \<Rightarrow> ('w \<Rightarrow> bool) \<Rightarrow> ('w \<Rightarrow> int \<Rightarrow> byte) \<Rightarrow> int \<Rightarrow> bytes \<Rightarrow> 'w real \<Rightarrow>
    real_error + 'a \<Rightarrow> 'w real \<Rightarrow> bool" where
  "stored_prefix L opcode width still mem addr data s r s' \<longleftrightarrow> same_host s s' \<and>
     (r_v3 s \<noteq> None \<longrightarrow> stores L opcode width still mem \<longrightarrow> still (r_world s) \<longrightarrow>
        still (r_world s') \<and> (\<exists>k. mem (r_world s') = write_at (mem (r_world s)) addr (take k data) \<and>
           (is_ok r \<longrightarrow> take k data = data)))"

lemma wrote_stored_prefix:
  assumes "wrote L opcode width addr data offset s1 r s2" "0 \<le> offset" "offset \<le> int (length data)"
    and "r_v3 s1 \<noteq> None" "stores L opcode width still mem" "still (r_world s1)" "0 \<le> addr" "addr + int (length data) \<le> 256 ^ width"
    and "mem (r_world s1) = write_at m addr (take (nat offset) data)"
  shows "still (r_world s2) \<and> (\<exists>k. mem (r_world s2) = write_at m addr (take k data) \<and>
     (\<forall>y. r = Inr (Inl y) \<longrightarrow> k = nat y) \<and> (\<forall>y. r = Inr (Inr y) \<longrightarrow> take k data = data))"
proof -
  obtain c where c: "r_v3 s1 = Some c" using assms(4) by auto
  have ext: "write_at (mem (r_world s1)) (addr + offset) (take k (drop (nat offset) data)) =
      write_at m addr (take (nat offset + k) data)" for k
    using assms(2,3) write_at_append [of m addr "take (nat offset) data" "take k (drop (nat offset) data)"]
    by (simp add: assms(9) take_add min_absorb2)
  have stored: "still w' \<and> (mem w' = write_at (mem (r_world s1)) (addr + offset) bs \<or> (\<exists>e. q = Inl e) \<and> mem w' = mem (r_world s1))"
    if "l_request L c opcode (le_bytes width (addr + offset) @ bs) None (r_world s1) = (q, w')"
      "offset < int (length data)" for bs q w'
  proof -
    have "0 \<le> addr + offset" "addr + offset < 256 ^ width" using assms(2,7,8) that(2) by linarith+
    with assms(5,6) that(1) show ?thesis unfolding stores_def by blast
  qed
  show ?thesis
  proof (cases r)
    case (Inl e)
    then have o: "offset < int (length data)" and
      "r_world s2 = r_world s1 \<or> (\<exists>k e. l_request L c opcode
        (le_bytes width (addr + offset) @ take k (drop (nat offset) data)) None (r_world s1) = (Inl e, r_world s2))"
      using assms(1) c by (auto simp: wrote_def)
    then have "still (r_world s2) \<and> (\<exists>k. mem (r_world s2) = write_at m addr (take k data))"
      using stored [OF _ o] ext assms(6,9) by metis
    then show ?thesis using Inl by simp
  next
    case (Inr q)
    show ?thesis
    proof (cases q)
      case (Inl y)
      then obtain x where y: "offset < y" "y \<le> int (length data)" and ask: "l_request L c opcode
          (le_bytes width (addr + offset) @ take (nat (y - offset)) (drop (nat offset) data)) None (r_world s1) =
          (Inr x, r_world s2)"
        using assms(1) \<open>r = Inr q\<close> c by (auto simp: wrote_def)
      have "nat offset + nat (y - offset) = nat y" using assms(2) y(1) by simp
      with stored [OF ask] ext [of "nat (y - offset)"] y have "still (r_world s2) \<and> mem (r_world s2) = write_at m addr (take (nat y) data)"
        by simp
      then show ?thesis using Inl \<open>r = Inr q\<close> by simp
    next
      case (Inr u)
      then show ?thesis using assms(1,6,9) \<open>r = Inr q\<close> by (auto simp: wrote_def intro!: exI [of _ "nat offset"])
    qed
  qed
qed

lemma write_loop_returns:
  assumes "\<And>offset s1. same_host s s1 \<Longrightarrow> 0 \<le> offset \<Longrightarrow>
      wp (step offset) (wrote L opcode width addr data offset s1) s1"
    and "0 \<le> addr" "addr + int (length data) \<le> 256 ^ width"
  shows "returns (loop (\<lambda>offset. run_of (step offset)) 0) (stored_prefix L opcode width still mem addr data s) s"
proof (rule returns_loop [where R = "measure (\<lambda>(offset, _). nat (int (length data) - offset))" and
    I = "\<lambda>offset s1. same_host s s1 \<and> 0 \<le> offset \<and> offset \<le> int (length data) \<and>
      (r_v3 s \<noteq> None \<longrightarrow> stores L opcode width still mem \<longrightarrow> still (r_world s) \<longrightarrow>
         still (r_world s1) \<and> mem (r_world s1) = write_at (mem (r_world s)) addr (take (nat offset) data))"])
  fix offset s1
  assume I: "same_host s s1 \<and> 0 \<le> offset \<and> offset \<le> int (length data) \<and>
      (r_v3 s \<noteq> None \<longrightarrow> stores L opcode width still mem \<longrightarrow> still (r_world s) \<longrightarrow>
         still (r_world s1) \<and> mem (r_world s1) = write_at (mem (r_world s)) addr (take (nat offset) data))"
  have v3: "r_v3 s1 = r_v3 s" using I by (simp add: same_host_fields)
  show "returns (run_of (step offset)) (\<lambda>r s'. case r of Inl e \<Rightarrow> stored_prefix L opcode width still mem addr data s (Inl e) s'
      | Inr (Inl y) \<Rightarrow> (same_host s s' \<and> 0 \<le> y \<and> y \<le> int (length data) \<and>
          (r_v3 s \<noteq> None \<longrightarrow> stores L opcode width still mem \<longrightarrow> still (r_world s) \<longrightarrow>
             still (r_world s') \<and> mem (r_world s') = write_at (mem (r_world s)) addr (take (nat y) data))) \<and>
          ((y, s'), offset, s1) \<in> measure (\<lambda>(offset, _). nat (int (length data) - offset))
      | Inr (Inr a) \<Rightarrow> stored_prefix L opcode width still mem addr data s (Inr a) s') s1"
    unfolding returns_run_of
  proof (rule wp_mono [OF assms(1)], goal_cases)
    case (3 r s2)
    have host: "same_host s s2" using 3 I by (auto simp: wrote_def intro: same_host_trans)
    have stored: "still (r_world s2) \<and> (\<exists>k. mem (r_world s2) = write_at (mem (r_world s)) addr (take k data) \<and>
       (\<forall>y. r = Inr (Inl y) \<longrightarrow> k = nat y) \<and> (\<forall>y. r = Inr (Inr y) \<longrightarrow> take k data = data))"
      if "r_v3 s \<noteq> None" "stores L opcode width still mem" "still (r_world s)"
      using that I v3 assms(2,3) by (intro wrote_stored_prefix [OF 3]) auto
    show ?case
    proof (cases r)
      case (Inl e)
      then show ?thesis using host stored by (auto simp: stored_prefix_def)
    next
      case (Inr q)
      show ?thesis
      proof (cases q)
        case (Inl y)
        then show ?thesis using host stored I 3 \<open>r = Inr q\<close> by (auto simp: wrote_def)
      next
        case (Inr u)
        then show ?thesis using host stored \<open>r = Inr q\<close> by (auto simp: stored_prefix_def)
      qed
    qed
  qed (use I in auto)
qed auto

lemma room_host: "same_host s s1 \<Longrightarrow> room k s1 = room k s"
  by (simp add: room_def same_host_fields)

lemma real_range_Inr: "real_range addr n limit = Inr u \<longleftrightarrow> 0 \<le> addr \<and> 0 \<le> n \<and> addr + n \<le> limit"
  by (auto simp: real_range_def)

lemma poke_checks_Inr: "poke_checks s addr data = Inr u \<Longrightarrow> 0 \<le> addr \<and> addr + int (length data) \<le> 65536"
  by (auto simp: poke_checks_def real_range_def REAL_RAM_SIZE_def bindE_def split: if_splits)

lemma stored_prefix_value: "stored_prefix L op w still mem addr data s r s' \<Longrightarrow> r = Inr u \<Longrightarrow> stored_prefix L op w still mem addr data s (Inr v) s'"
  by (auto simp: stored_prefix_def)

text \<open>
  \<open>poke\<close> and \<open>vpoke\<close> end on every link, with every byte in the memory or an exception and a prefix.
\<close>

lemma poke_returns:
  assumes "room 2 s"
  shows "returns (poke L addr data) (\<lambda>r s'. stored_prefix L 0x70 2 still mem addr data s r s' \<and>
    (\<forall>n. r = Inr n \<longrightarrow> n = int (length data))) s"
proof (rule returns_at [OF poke_def], rule returns_checked, goal_cases)
  case (1 e)
  then show ?case by (auto simp: stored_prefix_def intro: exI [of _ 0])
next
  case (2 u)
  note range = poke_checks_Inr [OF 2]
  show ?case
  proof (rule returns_bind, rule write_loop_returns)
    fix offset :: int and s1
    assume "same_host s s1" "0 \<le> offset"
    then show "wp (poke_step L addr data offset) (wrote L 0x70 2 addr data offset s1) s1"
      using assms range by (intro wp_poke_step) (simp_all add: room_host)
  qed (use range in \<open>auto intro: stored_prefix_value\<close>, auto simp: stored_prefix_def)
qed

lemma vpoke_returns:
  assumes "room 3 s" "r_vram_size s \<le> 256 ^ 3"
  shows "returns (vpoke L addr data) (\<lambda>r s'. stored_prefix L 0x77 3 still mem addr data s r s' \<and>
    (\<forall>n. r = Inr n \<longrightarrow> n = int (length data))) s"
proof (rule returns_at [OF vpoke_def], rule returns_checked, goal_cases)
  case (1 e)
  then show ?case by (auto simp: stored_prefix_def intro: exI [of _ 0])
next
  case (2 u)
  then have range: "0 \<le> addr" "addr + int (length data) \<le> 256 ^ 3"
    using assms(2) by (simp_all add: real_range_Inr)
  show ?case
  proof (rule returns_bind, rule write_loop_returns)
    fix offset :: int and s1
    assume "same_host s s1" "0 \<le> offset"
    then show "wp (vpoke_step L addr data offset) (wrote L 0x77 3 addr data offset s1) s1"
      using assms range by (intro wp_vpoke_step) (simp_all add: room_host)
  qed (use range in \<open>auto intro: stored_prefix_value\<close>, auto simp: stored_prefix_def)
qed

subsection \<open>Reads\<close>

text \<open>\<open>yields\<close>: a read request for at least one byte is never answered with an empty payload.\<close>

definition yields :: "'w link \<Rightarrow> byte \<Rightarrow> nat \<Rightarrow> bool" where
  "yields L opcode width \<longleftrightarrow>
     (\<forall>c a n w w'. 0 \<le> a \<longrightarrow> a < 256 ^ width \<longrightarrow> 0 < n \<longrightarrow> n < 65536 \<longrightarrow>
        l_request L c opcode (le_bytes width a @ le_bytes 2 n) None w \<noteq> (Inr [], w'))"

lemma fetchesD:
  assumes "fetches L opcode width still mem" "still w" "0 \<le> a" "a < 256 ^ width" "0 \<le> n" "n < 65536"
    and "l_request L c opcode (le_bytes width a @ le_bytes 2 n) None w = (r, w')"
  shows "still w' \<and> mem w' = mem w" "r = Inr bs \<Longrightarrow> bs = read_at (mem w) a (nat n)"
  using assms unfolding fetches_def by blast+

definition fetched :: "'w link \<Rightarrow> byte \<Rightarrow> nat \<Rightarrow> ('w \<Rightarrow> bool) \<Rightarrow> ('w \<Rightarrow> int \<Rightarrow> byte) \<Rightarrow> int \<Rightarrow> int \<Rightarrow> 'w real \<Rightarrow>
    real_error + bytes \<Rightarrow> 'w real \<Rightarrow> bool" where
  "fetched L opcode width still mem addr n s r s' \<longleftrightarrow> same_host s s' \<and>
     (\<forall>bs. r = Inr bs \<longrightarrow> n \<le> int (length bs)) \<and>
     (r_v3 s \<noteq> None \<longrightarrow> fetches L opcode width still mem \<longrightarrow> still (r_world s) \<longrightarrow>
        still (r_world s') \<and> mem (r_world s') = mem (r_world s) \<and>
        (\<forall>bs. r = Inr bs \<longrightarrow> bs = read_at (mem (r_world s)) addr (nat n)))"

text \<open>One chunk: at least one byte, and the bytes of the memory.\<close>

definition fetched_chunk :: "'w link \<Rightarrow> byte \<Rightarrow> nat \<Rightarrow> ('w \<Rightarrow> bool) \<Rightarrow> ('w \<Rightarrow> int \<Rightarrow> byte) \<Rightarrow> int \<Rightarrow> int \<Rightarrow> bytes \<Rightarrow> 'w real \<Rightarrow>
    real_error + (bytes + bytes) \<Rightarrow> 'w real \<Rightarrow> bool" where
  "fetched_chunk L opcode width still mem addr n out s r s' \<longleftrightarrow> same_host s s' \<and>
     (r_v3 s \<noteq> None \<longrightarrow> fetches L opcode width still mem \<longrightarrow> still (r_world s) \<longrightarrow>
        still (r_world s') \<and> mem (r_world s') = mem (r_world s)) \<and>
     (case r of
        Inl _ \<Rightarrow> int (length out) < n
      | Inr (Inr bs) \<Rightarrow> bs = out \<and> n \<le> int (length out)
      | Inr (Inl out') \<Rightarrow> \<exists>bs. out' = out @ bs \<and> bs \<noteq> [] \<and> int (length out) < n \<and>
          (r_v3 s \<noteq> None \<longrightarrow> fetches L opcode width still mem \<longrightarrow> still (r_world s) \<longrightarrow> int (length out') \<le> n \<and>
             bs = read_at (mem (r_world s)) (addr + int (length out)) (length bs)))"

lemma wp_framed_read:
  assumes "r_v3 s = Some c" "0 < k" "int (length out) + k \<le> n" "yields L opcode width"
    and "0 \<le> addr + int (length out)" "addr + int (length out) < 256 ^ width"
  shows "wp (bindIO (lift_result (to_le width (addr + int (length out)))) (\<lambda>at.
           bindIO (lift_result (to_le 2 k)) (\<lambda>size_bytes.
           bindIO (request_v3 L opcode (at @ size_bytes) None) (\<lambda>bs. ret (Inl (out @ bs))))))
         (fetched_chunk L opcode width still mem addr n out s) s"
proof (cases "k < 65536")
  case False
  then show ?thesis using assms(2,3,5,6) by (simp add: to_le_def fetched_chunk_def)
next
  case True
  have "wp (bindIO (request_v3 L opcode (le_bytes width (addr + int (length out)) @ le_bytes 2 k) None)
          (\<lambda>bs. ret (Inl (out @ bs)))) (fetched_chunk L opcode width still mem addr n out s) s"
  proof (rule wp_bind [OF wp_request_v3], goal_cases)
    case (1 e s1)
    then show ?case using assms True
      by (auto simp: asked_def fetched_chunk_def dest: fetchesD(1) [where n = k])
  next
    case (2 bs s1)
    then have ask: "l_request L c opcode (le_bytes width (addr + int (length out)) @ le_bytes 2 k) None (r_world s) =
        (Inr bs, r_world s1)" and host: "same_host s s1"
      using assms(1) by (auto simp: asked_def)
    have "bs \<noteq> []" using assms(2,4-6) True ask unfolding yields_def by blast
    moreover have "still (r_world s1) \<and> mem (r_world s1) = mem (r_world s) \<and> bs = read_at (mem (r_world s)) (addr + int (length out)) (nat k)"
      if "fetches L opcode width still mem" "still (r_world s)"
      using fetchesD [OF that assms(5,6) _ True ask] assms(2) by simp
    ultimately show ?case using host assms(2,3) by (auto simp: fetched_chunk_def)
  qed
  then show ?thesis using True assms(2,5,6) by (simp add: to_le_def)
qed

lemma wp_raw_read:
  assumes "r_v3 s = None" "0 < k" "int (length out) < n"
  shows "wp (bindIO (send L raw) (\<lambda>_. bindIO (recv_exact L k) (\<lambda>bs. ret (Inl (out @ bs)))))
         (fetched_chunk L opcode width still mem addr n out s) s"
proof (rule wp_bind [OF wp_send], goal_cases)
  case (2 u s1)
  show ?case
    by (rule wp_bind [OF wp_recv_exact])
      (use 2 assms in \<open>auto simp: fetched_chunk_def intro: same_host_trans\<close>)
qed (use assms in \<open>simp add: fetched_chunk_def\<close>)

lemma wp_peek_step:
  assumes "room 0 s" "0 \<le> addr" "addr + n \<le> 65536" "r_v3 s \<noteq> None \<Longrightarrow> yields L 0x72 2"
  shows "wp (peek_step L addr n out) (fetched_chunk L 0x72 2 still mem addr n out s) s"
proof (cases "int (length out) < n")
  case False
  then show ?thesis by (simp add: wp_def peek_step_def fetched_chunk_def)
next
  case True
  show ?thesis
  proof (cases "r_v3 s")
    case None
    from wp_raw_read [OF None, of "min (n - int (length out)) 255" out n] show ?thesis
      using True None by (simp add: wp_def peek_step_def bindIO_assoc ret_Pair Let_def)
  next
    case (Some c)
    from wp_framed_read [OF Some, of "min (n - int (length out)) (c_max_payload c)" out n L "0x72" 2 addr] show ?thesis
      using True Some assms by (simp add: wp_def peek_step_def bindIO_assoc ret_Pair Let_def room_def)
  qed
qed

lemma wp_vpeek_step:
  assumes "room 0 s" "0 \<le> addr" "addr + n \<le> 256 ^ 3" "r_v3 s \<noteq> None \<Longrightarrow> yields L 0x76 3"
  shows "wp (vpeek_step L addr n out) (fetched_chunk L 0x76 3 still mem addr n out s) s"
proof (cases "int (length out) < n")
  case False
  then show ?thesis by (simp add: wp_def vpeek_step_def fetched_chunk_def)
next
  case True
  let ?boundary = "0x4000 - ((addr + int (length out)) AND 0x3FFF)"
  have b: "0 < ?boundary" using vram_boundary [of "addr + int (length out)"] by simp
  show ?thesis
  proof (cases "r_v3 s")
    case None
    from wp_raw_read [OF None, of "min (min (n - int (length out)) 255) ?boundary" out n] show ?thesis
      using True None b by (simp add: wp_def vpeek_step_def bindIO_assoc ret_Pair Let_def)
  next
    case (Some c)
    from wp_framed_read [OF Some, of "min (min (n - int (length out)) (c_max_payload c)) ?boundary" out n L "0x76" 3 addr]
    show ?thesis
      using True Some assms b by (simp add: wp_def vpeek_step_def bindIO_assoc ret_Pair Let_def room_def)
  qed
qed

lemma read_loop_returns:
  assumes "\<And>out s1. same_host s s1 \<Longrightarrow> wp (step out) (fetched_chunk L opcode width still mem addr n out s1) s1"
    and "0 \<le> n"
  shows "returns (loop (\<lambda>out. run_of (step out)) []) (fetched L opcode width still mem addr n s) s"
proof (rule returns_loop [where R = "measure (\<lambda>(out, _). nat (n - int (length out)))" and
    I = "\<lambda>out s1. same_host s s1 \<and> (r_v3 s \<noteq> None \<longrightarrow> fetches L opcode width still mem \<longrightarrow> still (r_world s) \<longrightarrow>
      still (r_world s1) \<and> mem (r_world s1) = mem (r_world s) \<and> int (length out) \<le> n \<and>
      out = read_at (mem (r_world s)) addr (length out))"])
  fix out s1
  assume I: "same_host s s1 \<and> (r_v3 s \<noteq> None \<longrightarrow> fetches L opcode width still mem \<longrightarrow> still (r_world s) \<longrightarrow>
      still (r_world s1) \<and> mem (r_world s1) = mem (r_world s) \<and> int (length out) \<le> n \<and>
      out = read_at (mem (r_world s)) addr (length out))"
  have v3: "r_v3 s1 = r_v3 s" using I by (simp add: same_host_fields)
  show "returns (run_of (step out)) (\<lambda>r s'. case r of Inl e \<Rightarrow> fetched L opcode width still mem addr n s (Inl e) s'
      | Inr (Inl y) \<Rightarrow> (same_host s s' \<and> (r_v3 s \<noteq> None \<longrightarrow> fetches L opcode width still mem \<longrightarrow> still (r_world s) \<longrightarrow>
          still (r_world s') \<and> mem (r_world s') = mem (r_world s) \<and> int (length y) \<le> n \<and>
          y = read_at (mem (r_world s)) addr (length y))) \<and>
          ((y, s'), out, s1) \<in> measure (\<lambda>(out, _). nat (n - int (length out)))
      | Inr (Inr a) \<Rightarrow> fetched L opcode width still mem addr n s (Inr a) s') s1"
    unfolding returns_run_of
  proof (rule wp_mono [OF assms(1)], goal_cases)
    case (2 r s2)
    have host: "same_host s s2" using 2 I by (auto simp: fetched_chunk_def intro: same_host_trans)
    show ?case
    proof (cases r)
      case (Inl e)
      then show ?thesis using host 2 I v3 by (auto simp: fetched_def fetched_chunk_def)
    next
      case (Inr q)
      show ?thesis
      proof (cases q)
        case (Inl y)
        then obtain bs where y: "y = out @ bs" "bs \<noteq> []" "int (length out) < n"
          and chunk: "r_v3 s1 \<noteq> None \<longrightarrow> fetches L opcode width still mem \<longrightarrow> still (r_world s1) \<longrightarrow> int (length y) \<le> n \<and>
            bs = read_at (mem (r_world s1)) (addr + int (length out)) (length bs)"
          and same: "r_v3 s1 \<noteq> None \<longrightarrow> fetches L opcode width still mem \<longrightarrow> still (r_world s1) \<longrightarrow>
              still (r_world s2) \<and> mem (r_world s2) = mem (r_world s1)"
          using 2 \<open>r = Inr q\<close> by (auto simp: fetched_chunk_def)
        have "nat (n - int (length y)) < nat (n - int (length out))" using y by (cases bs) auto
        moreover have "still (r_world s2) \<and> mem (r_world s2) = mem (r_world s) \<and> int (length y) \<le> n \<and>
            y = read_at (mem (r_world s)) addr (length y)"
          if "r_v3 s \<noteq> None" "fetches L opcode width still mem" "still (r_world s)"
          using that I chunk same v3 y(1) read_at_append [of "mem (r_world s)" addr "length out" "length bs"] by simp
        ultimately show ?thesis using host Inl \<open>r = Inr q\<close> by simp
      next
        case (Inr bs)
        then have "bs = out" "n \<le> int (length out)" using 2 \<open>r = Inr q\<close> by (auto simp: fetched_chunk_def)
        then show ?thesis using host I 2 v3 Inr \<open>r = Inr q\<close> by (fastforce simp: fetched_def fetched_chunk_def)
      qed
    qed
  qed (use I in auto)
qed (use assms(2) in \<open>auto simp: read_at_def\<close>)

lemma peek_returns:
  assumes "room 0 s" "r_v3 s \<noteq> None \<Longrightarrow> yields L 0x72 2"
  shows "returns (peek L addr n) (fetched L 0x72 2 still mem addr n s) s"
proof (rule returns_at [OF peek_def], rule returns_checked, goal_cases)
  case (2 u)
  then have range: "0 \<le> addr" "0 \<le> n" "addr + n \<le> 65536" by (simp_all add: real_range_Inr REAL_RAM_SIZE_def)
  show ?case
  proof (rule returns_guard, goal_cases)
    case 2
    show ?case
    proof (rule read_loop_returns)
      fix out and s1 :: "'a real"
      assume "same_host s s1"
      then show "wp (peek_step L addr n out) (fetched_chunk L 0x72 2 still mem addr n out s1) s1"
        using assms range by (intro wp_peek_step) (simp_all add: room_host same_host_fields)
    qed (rule range)
  qed (simp add: fetched_def)
qed (simp add: fetched_def)

lemma vpeek_returns:
  assumes "room 0 s" "r_v3 s \<noteq> None \<Longrightarrow> yields L 0x76 3" "r_vram_size s \<le> 256 ^ 3"
  shows "returns (vpeek L addr n) (fetched L 0x76 3 still mem addr n s) s"
proof (rule returns_at [OF vpeek_def], rule returns_checked, goal_cases)
  case (2 u)
  then have range: "0 \<le> addr" "0 \<le> n" "addr + n \<le> 256 ^ 3" using assms(3) by (simp_all add: real_range_Inr)
  show ?case
  proof (rule read_loop_returns)
    fix out and s1 :: "'a real"
    assume "same_host s s1"
    then show "wp (vpeek_step L addr n out) (fetched_chunk L 0x76 3 still mem addr n out s1) s1"
      using assms range by (intro wp_vpeek_step) (simp_all add: room_host same_host_fields)
  qed (rule range)
qed (simp add: fetched_def)

subsection \<open>Properties\<close>

text \<open>
  C14: The memory operations end. With a payload limit that leaves room for the address, and a target that
  never answers a read request with nothing, every RAM or VRAM access returns or raises, also when the
  session times out, the stream breaks or replies are short.
\<close>

theorem memory_operations_end:
  assumes "\<And>c. r_v3 s = Some c \<Longrightarrow> 3 < c_max_payload c"
    and "r_v3 s \<noteq> None \<Longrightarrow> yields L 0x72 2 \<and> yields L 0x76 3" and "r_vram_size s \<le> 0x20000"
  shows "(\<exists>q. poke L addr data s = Some q) \<and> (\<exists>q. peek L addr n s = Some q) \<and>
    (\<exists>q. vpoke L addr data s = Some q) \<and> (\<exists>q. vpeek L addr n s = Some q)"
proof (intro conjI)
  have room: "room 3 s" "room 2 s" "room 0 s" using assms(1) by (force simp: room_def)+
  have vram: "r_vram_size s \<le> 256 ^ 3" using assms(3) by simp
  note ends = poke_returns [OF room(2), of L addr data "\<lambda>_. True" "\<lambda>_ _. 0"]
    peek_returns [OF room(3), of L addr n "\<lambda>_. True" "\<lambda>_ _. 0"]
    vpoke_returns [OF room(1) vram, of L addr data "\<lambda>_. True" "\<lambda>_ _. 0"]
    vpeek_returns [OF room(3) _ vram, of L addr n "\<lambda>_. True" "\<lambda>_ _. 0"]
  show "\<exists>q. poke L addr data s = Some q" "\<exists>q. peek L addr n s = Some q"
    "\<exists>q. vpoke L addr data s = Some q" "\<exists>q. vpeek L addr n s = Some q"
    using ends assms(2) by (auto simp: returns_def)
qed

text \<open>
  C13: RAM access refines the memory. On a target that stores the bytes of a write request and answers a
  read request from its memory, a write that returns has stored all its bytes and a failed one a prefix
  of them, a read that returns yields the bytes of the memory and changes nothing, in whatever chunks
  the payload limit makes the client travel.
\<close>

theorem ram_access_refines_memory:
  assumes "r_v3 s \<noteq> None" "\<And>c. r_v3 s = Some c \<Longrightarrow> 2 < c_max_payload c"
    and "stores L 0x70 2 still mem" "fetches L 0x72 2 still mem" "yields L 0x72 2" "still (r_world s)"
  shows "returns (poke L addr data) (\<lambda>r s'. still (r_world s') \<and> (\<exists>k. mem (r_world s') = write_at (mem (r_world s)) addr (take k data) \<and>
           (\<forall>n. r = Inr n \<longrightarrow> n = int (length data) \<and> take k data = data))) s \<and>
    returns (peek L addr n) (\<lambda>r s'. still (r_world s') \<and> mem (r_world s') = mem (r_world s) \<and>
           (\<forall>bs. r = Inr bs \<longrightarrow> bs = read_at (mem (r_world s)) addr (nat n))) s"
proof (intro conjI)
  have room: "room 2 s" "room 0 s" using assms(2) by (force simp: room_def)+
  show "returns (poke L addr data) (\<lambda>r s'. still (r_world s') \<and> (\<exists>k. mem (r_world s') = write_at (mem (r_world s)) addr (take k data) \<and>
           (\<forall>n. r = Inr n \<longrightarrow> n = int (length data) \<and> take k data = data))) s"
    by (rule returns_mono [OF poke_returns [OF room(1)]])
      (use assms(1,3,6) in \<open>auto simp: stored_prefix_def is_ok_iff\<close>)
  show "returns (peek L addr n) (\<lambda>r s'. still (r_world s') \<and> mem (r_world s') = mem (r_world s) \<and>
           (\<forall>bs. r = Inr bs \<longrightarrow> bs = read_at (mem (r_world s)) addr (nat n))) s"
    by (rule returns_mono [OF peek_returns [OF room(2) assms(5), where mem = mem and still = still]])
      (use assms(1,4,6) in \<open>auto simp: fetched_def\<close>)
qed

text \<open>
  A peer that limits payloads to two bytes leaves a write no room for data: it sends empty writes for
  ever. A peer that answers reads with nothing keeps a read going for ever.
\<close>

lemma poke_stalls:
  assumes "r_v3 s = Some c" "c_max_payload c = 2" "\<not> r_quarantine s" "data \<noteq> []"
    and "poke_checks s addr data = Inr ()"
    and "\<And>w. \<not> l_quarantined L w" "\<And>p w. \<exists>x w'. l_request L c 0x70 p None w = (Inr x, w')"
  shows "poke L addr data s = None"
proof -
  have "loop (\<lambda>offset. run_of (poke_step L addr data offset)) 0 s = None"
  proof (rule loop_never [where I = "\<lambda>offset s1. offset = 0 \<and> r_v3 s1 = Some c \<and> \<not> r_quarantine s1"])
    fix offset :: int and s1 :: "'a real"
    assume I: "offset = (0::int) \<and> r_v3 s1 = Some c \<and> \<not> r_quarantine s1"
    obtain x w' where ask: "l_request L c 0x70 (le_bytes 2 addr) None (r_world s1) = (Inr x, w')"
      using assms(7) by metis
    have "0 \<le> addr" "addr < 65536"
      using poke_checks_Inr [OF assms(5)] assms(4) by (cases data; simp)+
    then have "poke_step L addr data 0 s1 = (Inr (Inl 0), s1\<lparr>r_world := w'\<rparr>)"
      using I assms(2,4,6) ask
      by (cases data) (simp_all add: poke_step_def py_slice_def py_index_def to_le_def request_v3_def
        attachment_quarantined_def on_world_def bindIO_def)
    then show "\<exists>y s'. run_of (poke_step L addr data offset) s1 = Some (Inr (Inl y), s') \<and>
        y = 0 \<and> r_v3 s' = Some c \<and> \<not> r_quarantine s'"
      using I by (simp add: run_of_def)
  qed (use assms in auto)
  then show ?thesis using assms(5) by (simp add: poke_def bindR_def run_of_def)
qed

lemma peek_stalls:
  assumes "r_v3 s = Some c" "0 < c_max_payload c" "\<not> r_quarantine s" "0 < n" "n < 65536"
    and "real_range addr n REAL_RAM_SIZE = Inr ()"
    and "\<not> (resident_runtime_active s \<and> ranges_overlap addr n 0x4000 0x8000)"
    and "\<And>w. \<not> l_quarantined L w" "\<And>p w. \<exists>w'. l_request L c 0x72 p None w = (Inr [], w')"
  shows "peek L addr n s = None"
proof -
  have "loop (\<lambda>out. run_of (peek_step L addr n out)) [] s = None"
  proof (rule loop_never [where I = "\<lambda>out s1. out = [] \<and> r_v3 s1 = Some c \<and> \<not> r_quarantine s1"])
    fix out :: bytes and s1 :: "'a real"
    assume I: "out = [] \<and> r_v3 s1 = Some c \<and> \<not> r_quarantine s1"
    let ?k = "min n (c_max_payload c)"
    obtain w' where ask: "l_request L c 0x72 (le_bytes 2 addr @ le_bytes 2 ?k) None (r_world s1) = (Inr [], w')"
      using assms(9) by metis
    have "0 \<le> addr" "addr < 65536"
      using assms(4,6) by (simp_all add: real_range_Inr REAL_RAM_SIZE_def)
    then have "peek_step L addr n [] s1 = (Inr (Inl []), s1\<lparr>r_world := w'\<rparr>)"
      using I assms(2,4,5,8) ask
      by (simp add: peek_step_def to_le_def request_v3_def attachment_quarantined_def on_world_def bindIO_def Let_def)
    then show "\<exists>y s'. run_of (peek_step L addr n out) s1 = Some (Inr (Inl y), s') \<and>
        y = [] \<and> r_v3 s' = Some c \<and> \<not> r_quarantine s'"
      using I by (simp add: run_of_def)
  qed (use assms in auto)
  then show ?thesis using assms(6,7) by (simp add: peek_def bindR_def run_of_def)
qed

subsection \<open>Examples\<close>

definition sample_config :: v3_config where
  "sample_config = \<lparr>c_timeout = 1000000, c_retries = 2, c_max_payload = 64,
     c_local_max = 4096, c_peer_max = 64, c_wake_ack = None, c_wake_optional = False, c_wake_delay = 0,
     c_quarantine_on = False\<rparr>"

definition sample_real :: "int \<Rightarrow> 'w \<Rightarrow> 'w real" where
  "sample_real features w = \<lparr>r_v3 = Some sample_config, r_connected = True, r_protocol = Some 3, r_capabilities = 0,
     r_features = features, r_runtime_id = Some 0, r_resident_base = None, r_vram_size = 0x20000,
     r_quarantine = False, r_pause_owned = False, r_transfer_caps = None,
     r_fast_caps = None, r_fast_id = None, r_socket_timeout = 15000000, r_transport_id = None,
     r_vram_banks = 8, r_vdp_generation = None, r_control_level = None, r_debug = False,
     r_resident_entry = None, r_recovered = False, r_bootstrap_protocol = None, r_bootstrap_features = 0,
     r_bootstrap_known = False, r_peer_sent = False, r_endpoint = None, r_world = w\<rparr>"

text \<open>A target that is nothing but its memory.\<close>

definition ram_link :: "(int \<Rightarrow> byte) link" where
  "ram_link =
     \<lparr>l_request = (\<lambda>c opcode payload t m.
        if opcode = 0x70 then (Inr [], write_at m (le_value (take 2 payload)) (drop 2 payload))
        else if opcode = 0x72 then
          (Inr (read_at m (le_value (take 2 payload)) (nat (le_value (drop 2 payload)))), m)
        else if opcode = 0x76 then
          (Inr (read_at m (le_value (take 3 payload)) (nat (le_value (drop 3 payload)))), m)
        else (Inr [], m)),
      l_session = (\<lambda>c w. (Inr (), w)), l_sendall = (\<lambda>bs m. (Inr (), m)), l_recv = (\<lambda>n m. (Inl StreamFailed, m)),
      l_gettimeout = (\<lambda>m. 1000000), l_settimeout = (\<lambda>t m. (Inr (), m)), l_quarantined = (\<lambda>m. False),
      l_now = (\<lambda>m. (0, m)), l_sleep = (\<lambda>delay m. (Inr (), m))\<rparr>"

lemma le_value_take2 [simp]: "0 \<le> a \<Longrightarrow> a < 65536 \<Longrightarrow> le_value (take 2 (le_bytes 2 a)) = a"
  using length_le_bytes [of 2 a] by simp

lemma ram_link_serves:
  "stores ram_link 0x70 2 (\<lambda>_. True) id" "fetches ram_link 0x72 2 (\<lambda>_. True) id"
  "yields ram_link 0x72 2" "yields ram_link 0x76 3"
  by (auto simp: stores_def fetches_def yields_def ram_link_def read_at_def)

lemma memory_operations_end_witness:
  "(\<exists>q. poke ram_link 0xC000 [1, 2, 3] (sample_real 0 (\<lambda>_. 0)) = Some q) \<and>
   (\<exists>q. peek ram_link 0xC000 3 (sample_real 0 (\<lambda>_. 0)) = Some q) \<and>
   (\<exists>q. vpoke ram_link 0xC000 [1, 2, 3] (sample_real 0 (\<lambda>_. 0)) = Some q) \<and>
   (\<exists>q. vpeek ram_link 0xC000 3 (sample_real 0 (\<lambda>_. 0)) = Some q)"
  by (rule memory_operations_end) (auto simp: sample_real_def sample_config_def ram_link_serves)

lemma ram_access_refines_memory_witness:
  "returns (poke ram_link 0xC000 [1, 2, 3]) (\<lambda>r s'. \<exists>k. r_world s' = write_at (\<lambda>_. 0) 0xC000 (take k [1, 2, 3]))
     (sample_real 0 (\<lambda>_. 0)) \<and>
   returns (peek ram_link 0xC000 3) (\<lambda>r s'. r_world s' = (\<lambda>_. 0)) (sample_real 0 (\<lambda>_. 0))"
proof -
  have ready: "r_v3 (sample_real 0 (\<lambda>_. 0)) \<noteq> None"
    "\<And>c. r_v3 (sample_real 0 (\<lambda>_. 0)) = Some c \<Longrightarrow> 2 < c_max_payload c" "(\<lambda>_. True) (r_world (sample_real 0 (\<lambda>_. 0)))"
    by (simp_all add: sample_real_def sample_config_def)
  from ram_access_refines_memory [OF ready(1,2) ram_link_serves(1-3) ready(3), where addr = "0xC000" and data = "[1, 2, 3]" and n = "3"]
  show ?thesis
    by (auto simp: sample_real_def intro: returns_mono)
qed

end
