(* ===== verification/Keyboard.thy ===== *)
theory Keyboard
  imports Real_Link Python_Text
begin

text \<open>
  Keyboard input of \<open>RealMSX\<close> in \<open>server/msx_real.py\<close>: the framed and the pausing write into the keyboard
  ring of the BIOS, the resident spool, typing with a no-progress timeout, terminal lines and special
  keys.
\<close>

unbundle bit_operations_syntax

subsection \<open>Constants\<close>

definition KEYBUF_START :: int where "KEYBUF_START = 0xFBF0"
definition KEYBUF_SIZE :: int where "KEYBUF_SIZE = 40"
definition KEYBUF_END :: int where "KEYBUF_END = KEYBUF_START + KEYBUF_SIZE"
definition KEYBUF_CAPACITY :: int where "KEYBUF_CAPACITY = KEYBUF_SIZE - 1"
definition PUTPNT :: int where "PUTPNT = 0xF3F8"
definition INTFLG :: int where "INTFLG = 0xFC9B"
definition KEYBUF_POLL_INTERVAL :: int where "KEYBUF_POLL_INTERVAL = 20000"
definition KEYBUF_LINE_SETTLE :: int where "KEYBUF_LINE_SETTLE = 50000"
definition KEYBUF_SPOOL_CAPACITY :: int where "KEYBUF_SPOOL_CAPACITY = 255"
definition KEYBUF_SPOOL_MAX_PENDING :: int where
  "KEYBUF_SPOOL_MAX_PENDING = KEYBUF_SPOOL_CAPACITY + KEYBUF_CAPACITY"
definition KEYBUF_SPOOL_REFILL_TARGET :: int where "KEYBUF_SPOOL_REFILL_TARGET = 128"
definition FEATURE_KEYBUF_INPUT :: int where "FEATURE_KEYBUF_INPUT = 0x01"
definition FEATURE_KEYBUF_SPOOL :: int where "FEATURE_KEYBUF_SPOOL = 0x20"

definition SPECIAL_KEY_BYTES :: "(string \<times> byte) list" where
  "SPECIAL_KEY_BYTES =
     [(''ESC'', 0x1B), (''RET'', 0x0D), (''SPACE'', 0x20), (''SELECT'', 0x18), (''TAB'', 0x09)]"

definition SPECIAL_KEY_INTFLG :: "(string \<times> byte) list" where
  "SPECIAL_KEY_INTFLG = [(''CTRL+C'', 0x03), (''CTRL+STOP'', 0x03), (''STOP'', 0x04)]"

lemmas keybuf_constants = KEYBUF_START_def KEYBUF_SIZE_def KEYBUF_END_def KEYBUF_CAPACITY_def PUTPNT_def

subsection \<open>The ring of the BIOS\<close>

definition keybuf_pointer :: "int \<Rightarrow> real_error + int" where
  "keybuf_pointer pointer =
     (if \<not> (KEYBUF_START \<le> pointer \<and> pointer < KEYBUF_END) then Inl RealMSXProtocolError else Inr pointer)"

definition keybuf_state :: "bytes \<Rightarrow> real_error + int \<times> int \<times> int" where
  "keybuf_state raw =
     bindE (keybuf_pointer (le_value (take 2 raw))) (\<lambda>put.
     bindE (keybuf_pointer (le_value (drop 2 raw))) (\<lambda>get.
     let pending = ((put - KEYBUF_START) - (get - KEYBUF_START)) mod KEYBUF_SIZE in
       if pending > KEYBUF_CAPACITY then Inl RealMSXProtocolError else Inr (put, get, pending)))"

definition keybuf_state_from_ram :: "'w link \<Rightarrow> ('w real, real_error, int \<times> int \<times> int) run" where
  "keybuf_state_from_ram L =
     bindR (peek L PUTPNT 4) (\<lambda>raw. run_of (lift_result (keybuf_state raw)))"

text \<open>
  The pause transaction of older agents. \<open>publish_keys\<close> is its middle: read the pointers, write the
  accepted bytes, in two parts when the ring wraps, and the pointer last.
\<close>

definition publish_keys :: "'w link \<Rightarrow> bytes \<Rightarrow> ('w real, real_error, int \<times> int) run" where
  "publish_keys L data =
     bindR (keybuf_state_from_ram L) (\<lambda>(put, _, pending).
     let accepted = min (int (length data)) (KEYBUF_CAPACITY - pending) in
     if accepted \<noteq> 0 then
       let first = min accepted (KEYBUF_END - put);
           new_put = KEYBUF_START + ((put - KEYBUF_START + accepted) mod KEYBUF_SIZE) in
       bindR (poke L put (py_slice data 0 first)) (\<lambda>_.
       bindR (if first < accepted then poke L KEYBUF_START (py_slice data first accepted)
              else run_of (ret 0)) (\<lambda>_.
       bindR (run_of (lift_result (to_le 2 new_put))) (\<lambda>pointer.
       bindR (poke L PUTPNT pointer) (\<lambda>_.
         run_of (ret (accepted, pending + accepted))))))
     else run_of (ret (accepted, pending + accepted)))"

text \<open>
  \<open>finally_resume m\<close>: the \<open>finally\<close> block always resumes; an exception of the resume itself is
  dropped when the transaction has failed already, unless it is no \<open>Exception\<close>.
\<close>

definition finally_resume :: "'w link \<Rightarrow> ('w real, real_error, 'a) run \<Rightarrow> ('w real, real_error, 'a) run" where
  "finally_resume L m s =
     (case m s of
        None \<Rightarrow> None
      | Some (r, s1) \<Rightarrow>
          (case resume L s1 of
             (Inr _, s2) \<Rightarrow> Some (r, s2)
           | (Inl e, s2) \<Rightarrow>
               (case r of
                  Inl e' \<Rightarrow> if is_Exception e then Some (Inl e', s2) else Some (Inl e, s2)
                | Inr _ \<Rightarrow> Some (Inl e, s2))))"

definition legacy_transaction :: "'w link \<Rightarrow> bytes \<Rightarrow> ('w real, real_error, int \<times> int) run" where
  "legacy_transaction L data =
     (if data = [] then
        bindR (keybuf_state_from_ram L) (\<lambda>(_, _, pending). run_of (ret (0, pending)))
      else
        bindR (run_of (status L)) (\<lambda>state.
        bindR (run_of (guard (state = AgentRunning) RealMSXError)) (\<lambda>_.
        bindR (run_of (pause L)) (\<lambda>_.
          finally_resume L (publish_keys L data)))))"

definition set_v3_timeout :: "int \<Rightarrow> ('w, unit) real_comp" where
  "set_v3_timeout t s = (Inr (), s\<lparr>r_v3 := map_option (\<lambda>c. c\<lparr>c_timeout := t\<rparr>) (r_v3 s)\<rparr>)"

definition set_conn_timeout :: "'w link \<Rightarrow> int \<Rightarrow> ('w, unit) real_comp" where
  "set_conn_timeout L t = on_world plain_error (l_settimeout L t)"

text \<open>\<open>bounded\<close>: the timeouts of one of \<open>n\<close> operations while \<open>m\<close> runs, restored afterwards.\<close>

definition narrow :: "'w link \<Rightarrow> int \<Rightarrow> int option \<Rightarrow> ('w, unit) real_comp" where
  "narrow L n timeout s =
     (case timeout of
        None \<Rightarrow> ret ()
      | Some t \<Rightarrow>
          let attempts = (case r_v3 s of Some c \<Rightarrow> c_retries c + 1 | None \<Rightarrow> 1);
              per_attempt = max 1000 (t div (n * attempts)) in
          (case r_v3 s of
             Some c \<Rightarrow> set_v3_timeout (min (c_timeout c) per_attempt)
           | None \<Rightarrow> set_conn_timeout L (min (l_gettimeout L (r_world s)) per_attempt))) s"

definition restore_timeouts :: "'w link \<Rightarrow> v3_config option \<Rightarrow> int \<Rightarrow> ('w, unit) real_comp" where
  "restore_timeouts L original_v3 original_stream s =
     bindIO (case (r_v3 s, original_v3) of (Some _, Some c) \<Rightarrow> set_v3_timeout (c_timeout c) | _ \<Rightarrow> ret ()) (\<lambda>_.
       set_conn_timeout L original_stream) s"

definition bounded :: "'w link \<Rightarrow> int \<Rightarrow> int option \<Rightarrow> ('w real, real_error, 'a) run \<Rightarrow> ('w real, real_error, 'a) run" where
  "bounded L n timeout m s =
     bindR (run_of (guard (r_connected s) RealOther)) (\<lambda>_.
     bindR (run_of (narrow L n timeout)) (\<lambda>_.
       finally_run m (restore_timeouts L (r_v3 s) (l_gettimeout L (r_world s))))) s"

definition keybuf_write_legacy :: "'w link \<Rightarrow> bytes \<Rightarrow> int option \<Rightarrow> ('w real, real_error, int \<times> int) run" where
  "keybuf_write_legacy L data timeout =
     bounded L (if data = [] then 1 else 9) timeout (legacy_transaction L data)"

text \<open>The timeout of one framed request of an operation that may take \<open>timeout\<close>.\<close>

definition request_timeout :: "v3_config \<Rightarrow> int option \<Rightarrow> real_error + int option" where
  "request_timeout c timeout =
     (case timeout of
        None \<Rightarrow> Inr None
      | Some t \<Rightarrow> if t \<le> 0 then Inl RealMSXKeyboardTimeoutError
                 else Inr (Some (max 1000 (t div (c_retries c + 1)))))"

definition keybuf_counts :: "bytes \<Rightarrow> bytes \<Rightarrow> real_error + int \<times> int" where
  "keybuf_counts data reply =
     (if length reply \<noteq> 2 then Inl RealMSXProtocolError
      else let accepted = uint (reply ! 0); pending = uint (reply ! 1) in
        if accepted > int (length data) \<or> pending > KEYBUF_CAPACITY then Inl RealMSXProtocolError
        else Inr (accepted, pending))"

definition keybuf_write :: "'w link \<Rightarrow> bytes \<Rightarrow> int option \<Rightarrow> ('w real, real_error, int \<times> int) run" where
  "keybuf_write L data timeout s =
     bindR (run_of (guard (int (length data) \<le> KEYBUF_CAPACITY) RealMSXRangeError)) (\<lambda>_.
       case r_v3 s of
         Some c \<Rightarrow>
           if r_features s AND FEATURE_KEYBUF_INPUT \<noteq> 0 then
             run_of (bindIO (lift_result (request_timeout c timeout)) (\<lambda>t.
                     bindIO (request_v3 L 0x74 data t) (\<lambda>reply.
                       lift_result (keybuf_counts data reply))))
           else keybuf_write_legacy L data timeout
       | None \<Rightarrow> keybuf_write_legacy L data timeout) s"

subsection \<open>The resident spool\<close>

record spool_reply =
  sp_accepted :: int
  sp_pending :: int
  sp_credits :: int
  sp_barrier :: bool
  sp_active :: bool
  sp_authorized :: bool

definition parse_spool_reply :: "bytes \<Rightarrow> bytes \<Rightarrow> real_error + spool_reply" where
  "parse_spool_reply data reply =
     (if length reply \<noteq> 7 then Inl RealMSXProtocolError
      else
        let accepted = le_value (slice 0 2 reply); pending = le_value (slice 2 2 reply);
            credits = le_value (slice 4 2 reply); flags = uint (reply ! 6) in
        if accepted > int (length data) \<or> pending > KEYBUF_SPOOL_MAX_PENDING \<or>
           credits > KEYBUF_SPOOL_CAPACITY \<or> flags AND NOT 7 \<noteq> 0
        then Inl RealMSXProtocolError
        else Inr \<lparr>sp_accepted = accepted, sp_pending = pending, sp_credits = credits,
               sp_barrier = (flags AND 1 \<noteq> 0), sp_active = (flags AND 2 \<noteq> 0),
               sp_authorized = (flags AND 4 \<noteq> 0)\<rparr>)"

definition spool_payload :: "bytes \<Rightarrow> bool \<Rightarrow> bool \<Rightarrow> bytes" where
  "spool_payload data pump cancel =
     (let control = (if pump then 1 else 0) OR (if cancel then 2 else 0 :: byte)
      in if control = 0 \<and> data = [] then [] else control # data)"

definition keybuf_spool_write ::
  "'w link \<Rightarrow> bytes \<Rightarrow> int option \<Rightarrow> bool \<Rightarrow> bool \<Rightarrow> ('w, spool_reply) real_comp" where
  "keybuf_spool_write L data timeout pump cancel s =
     bindIO (guard (\<not> (cancel \<and> (pump \<or> data \<noteq> []))) RealOther) (\<lambda>_.
     bindIO (guard (int (length data) \<le> KEYBUF_SPOOL_CAPACITY) RealMSXRangeError) (\<lambda>_.
       case r_v3 s of
         None \<Rightarrow> raise RealMSXError
       | Some c \<Rightarrow>
           bindIO (guard (r_features s AND FEATURE_KEYBUF_SPOOL \<noteq> 0) RealMSXError) (\<lambda>_.
           bindIO (guard (int (length (spool_payload data pump cancel)) \<le> c_max_payload c) RealMSXRangeError) (\<lambda>_.
           bindIO (lift_result (request_timeout c timeout)) (\<lambda>t.
           bindIO (request_v3 L 0x54 (spool_payload data pump cancel) t) (\<lambda>reply.
             lift_result (parse_spool_reply data reply))))))) s"

definition cancel_keybuf_spool :: "'w link \<Rightarrow> int option \<Rightarrow> ('w, spool_reply) real_comp" where
  "cancel_keybuf_spool L timeout = keybuf_spool_write L [] timeout False True"

definition spooled :: "'w real \<Rightarrow> bool" where
  "spooled s \<longleftrightarrow> r_v3 s \<noteq> None \<and> r_features s AND FEATURE_KEYBUF_SPOOL \<noteq> 0"

subsection \<open>Waiting for the queue to drain\<close>

text \<open>
  The tuple \<open>state\<close> of the code, of one element for the ring. An attachment does not change its kind
  between two polls, so the comparison across kinds, an \<open>IndexError\<close> at worst, is never made.
\<close>

datatype drain_state = RingState int | SpoolState spool_reply

definition drained :: "drain_state \<Rightarrow> bool" where
  "drained st =
     (case st of
        RingState pending \<Rightarrow> pending = 0
      | SpoolState r \<Rightarrow> sp_pending r = 0 \<and> \<not> sp_barrier r \<and> \<not> sp_active r \<and> \<not> sp_authorized r)"

definition drain_progressed :: "drain_state \<Rightarrow> drain_state \<Rightarrow> bool" where
  "drain_progressed previous st =
     (case (previous, st) of
        (RingState p, RingState q) \<Rightarrow> q < p
      | (SpoolState p, SpoolState q) \<Rightarrow>
          sp_pending q < sp_pending p \<or> sp_credits q > sp_credits p \<or>
          sp_barrier p \<and> \<not> sp_barrier q \<or> sp_active p \<and> \<not> sp_active q \<or>
          sp_authorized p \<and> \<not> sp_authorized q
      | _ \<Rightarrow> False)"

definition poll_keyboard :: "'w link \<Rightarrow> int \<Rightarrow> ('w real, real_error, drain_state) run" where
  "poll_keyboard L left s =
     (if spooled s then
        run_of (bindIO (keybuf_spool_write L [] (Some left) False False) (\<lambda>r. ret (SpoolState r)))
      else
        bindR (keybuf_write L [] (Some left)) (\<lambda>(_, pending). run_of (ret (RingState pending)))) s"

definition time_left :: "'w link \<Rightarrow> int \<Rightarrow> ('w, int) real_comp" where
  "time_left L deadline =
     bindIO (real_monotonic L) (\<lambda>now.
       let left = deadline - now
       in if left \<le> 0 then raise RealMSXKeyboardTimeoutError else ret left)"

definition new_deadline :: "'w link \<Rightarrow> bool \<Rightarrow> int \<Rightarrow> int \<Rightarrow> ('w, int) real_comp" where
  "new_deadline L progressed timeout deadline =
     (if progressed then bindIO (real_monotonic L) (\<lambda>now. ret (now + timeout)) else ret deadline)"

definition wait_step ::
  "'w link \<Rightarrow> int \<Rightarrow> int \<times> drain_state option \<Rightarrow> ('w real, real_error, (int \<times> drain_state option) + unit) run" where
  "wait_step L timeout v =
     (case v of (deadline, previous) \<Rightarrow>
       bindR (run_of (time_left L deadline)) (\<lambda>left.
       bindR (poll_keyboard L left) (\<lambda>st.
         if drained st then run_of (ret (Inr ()))
         else
           bindR (run_of (new_deadline L
             (case previous of None \<Rightarrow> False | Some p \<Rightarrow> drain_progressed p st) timeout deadline)) (\<lambda>deadline.
           bindR (run_of (time_left L deadline)) (\<lambda>left.
           bindR (run_of (time_sleep L (min KEYBUF_POLL_INTERVAL left))) (\<lambda>_.
             run_of (ret (Inl (deadline, Some st)))))))))"

definition wait_keybuf_empty :: "'w link \<Rightarrow> int \<Rightarrow> ('w real, real_error, unit) run" where
  "wait_keybuf_empty L timeout =
     bindR (run_of (real_monotonic L)) (\<lambda>now. loop (wait_step L timeout) (now + timeout, None))"

subsection \<open>Typing\<close>

definition CR :: char where "CR = CHR 0x0D"
definition LF :: char where "LF = CHR 0x0A"

text \<open>\<open>text.replace(old, new)\<close> for a nonempty \<open>old\<close>.\<close>

function replace_all :: "string \<Rightarrow> string \<Rightarrow> string \<Rightarrow> string" where
  "replace_all old new [] = []"
| "replace_all old new (c # cs) =
     (if old \<noteq> [] \<and> starts_with old (c # cs) then new @ replace_all old new (drop (length old) (c # cs))
      else c # replace_all old new cs)"
  by pat_completeness auto
termination
  by (relation "measure (\<lambda>(_, _, s). length s)") auto

definition encode_keyboard_text :: "string \<Rightarrow> real_error + bytes" where
  "encode_keyboard_text text =
     (let normalized = replace_all [LF] [CR] (replace_all [CR, LF] [CR] text)
      in if list_all (\<lambda>c. ord_char c < 128) normalized
         then Inr (map (\<lambda>c. word_of_nat (ord_char c)) normalized) else Inl RealOther)"

text \<open>The next logical line: up to a Return, which belongs to it, or the rest of the text.\<close>

definition next_batch :: "bytes \<Rightarrow> bytes" where
  "next_batch rest =
     (case find_sub [0x0D] rest of Some i \<Rightarrow> take (i + 1) rest | None \<Rightarrow> rest)"

text \<open>The variables of the inner loop: \<open>batch_offset\<close>, \<open>credits\<close>, \<open>deadline\<close>, \<open>previous_pending\<close>.\<close>

type_synonym batch_vars = "int \<times> int \<times> int \<times> int option"

definition batch_step ::
  "'w link \<Rightarrow> int \<Rightarrow> bytes \<Rightarrow> batch_vars \<Rightarrow> ('w real, real_error, batch_vars + unit) run" where
  "batch_step L timeout batch v =
     (case v of (batch_offset, credits, deadline, previous_pending) \<Rightarrow>
       if \<not> batch_offset < int (length batch) then run_of (ret (Inr ()))
       else
         bindR (run_of (time_left L deadline)) (\<lambda>remaining_time.
         let request = (if credits \<noteq> 0
           then py_slice batch batch_offset (batch_offset + min credits KEYBUF_CAPACITY) else []) in
         bindR (keybuf_write L request (Some remaining_time)) (\<lambda>(accepted, pending).
         let batch_offset = batch_offset + accepted; credits = KEYBUF_CAPACITY - pending in
         bindR (run_of (new_deadline L
           (accepted \<noteq> 0 \<or> (case previous_pending of None \<Rightarrow> False | Some p \<Rightarrow> pending < p)) timeout deadline))
           (\<lambda>deadline.
         bindR (if batch_offset < int (length batch) \<and> credits = 0
                then run_of (time_sleep L KEYBUF_POLL_INTERVAL) else run_of (ret ())) (\<lambda>_.
           run_of (ret (Inl (batch_offset, credits, deadline, Some pending))))))))"

definition type_step :: "'w link \<Rightarrow> int \<Rightarrow> bytes \<Rightarrow> int \<Rightarrow> ('w real, real_error, int + int) run" where
  "type_step L timeout payload offset =
     (if \<not> offset < int (length payload) then run_of (ret (Inr (int (length payload))))
      else
        let batch = next_batch (py_slice payload offset (int (length payload))) in
        bindR (run_of (real_monotonic L)) (\<lambda>now.
        bindR (loop (batch_step L timeout batch) (0, KEYBUF_CAPACITY, now + timeout, None)) (\<lambda>_.
        bindR (wait_keybuf_empty L timeout) (\<lambda>_.
        bindR (if batch \<noteq> [] \<and> last batch = 0x0D then run_of (time_sleep L KEYBUF_LINE_SETTLE)
               else run_of (ret ())) (\<lambda>_.
          run_of (ret (Inl (offset + int (length batch)))))))))"

text \<open>\<open>_type_spooled\<close>: the variables are \<open>deadline\<close>, \<open>offset\<close>, the last reply and whether there was one.\<close>

type_synonym spool_vars = "int \<times> int \<times> spool_reply \<times> bool"

definition spool_progressed :: "bool \<Rightarrow> spool_reply \<Rightarrow> spool_reply \<Rightarrow> bool" where
  "spool_progressed later p q \<longleftrightarrow>
     sp_accepted q \<noteq> 0 \<or>
     later \<and> (sp_pending q < sp_pending p \<or> sp_credits q > sp_credits p \<or>
       sp_barrier p \<and> \<not> sp_barrier q \<or> sp_active p \<noteq> sp_active q \<or> sp_authorized p \<noteq> sp_authorized q)"

definition spool_step ::
  "'w link \<Rightarrow> int \<Rightarrow> bytes \<Rightarrow> int \<Rightarrow> spool_vars \<Rightarrow> ('w, spool_vars + int) real_comp" where
  "spool_step L timeout payload max_batch v =
     (case v of (deadline, offset, p, later) \<Rightarrow>
       bindIO (time_left L deadline) (\<lambda>remaining_time.
       let bytes_left = int (length payload) - offset;
           refill_goal = min bytes_left KEYBUF_SPOOL_REFILL_TARGET;
           request =
             (if bytes_left \<noteq> 0 \<and> sp_credits p \<noteq> 0 \<and> (\<not> later \<or> sp_credits p \<ge> refill_goal)
              then py_slice payload offset (offset + min (sp_credits p) max_batch) else []);
           pump = (\<not> sp_barrier p \<and> \<not> sp_active p \<and> \<not> sp_authorized p \<and>
                     (sp_pending p \<noteq> 0 \<or> request \<noteq> [])) in
       bindIO (keybuf_spool_write L request (Some remaining_time) pump False) (\<lambda>q.
       let offset = offset + sp_accepted q in
       bindIO (new_deadline L (spool_progressed later p q) timeout deadline) (\<lambda>deadline.
         if offset = int (length payload) \<and> sp_pending q = 0 \<and> \<not> sp_barrier q \<and>
            \<not> sp_active q \<and> \<not> sp_authorized q
         then ret (Inr (int (length payload)))
         else
           bindIO (if sp_accepted q = 0 then time_sleep L KEYBUF_POLL_INTERVAL else ret ()) (\<lambda>_.
             ret (Inl (deadline, offset, q, True)))))))"

definition initial_spool :: spool_reply where
  "initial_spool = \<lparr>sp_accepted = 0, sp_pending = 0, sp_credits = KEYBUF_SPOOL_CAPACITY,
     sp_barrier = False, sp_active = False, sp_authorized = False\<rparr>"

text \<open>The cancellation after a failure; its own exceptions are dropped.\<close>

definition abandon_spool :: "'w link \<Rightarrow> int \<Rightarrow> ('w, unit) real_comp" where
  "abandon_spool L timeout =
     catch (bindIO (cancel_keybuf_spool L (Some (min timeout 500000))) (\<lambda>_. ret ()))
       (\<lambda>e. if is_Exception e then ret () else raise e)"

definition type_spooled :: "'w link \<Rightarrow> bytes \<Rightarrow> int \<Rightarrow> ('w real, real_error, int) run" where
  "type_spooled L payload timeout s =
     bindR (run_of (real_monotonic L)) (\<lambda>now.
     let max_batch = min KEYBUF_SPOOL_CAPACITY
       ((case r_v3 s of Some c \<Rightarrow> c_max_payload c | None \<Rightarrow> 0) - 1) in
     bindR (run_of (guard (\<not> max_batch \<le> 0) RealMSXProtocolError)) (\<lambda>_.
       on_failure (loop (\<lambda>v. run_of (spool_step L timeout payload max_batch v))
           (now + timeout, 0, initial_spool, False))
         (abandon_spool L timeout))) s"

definition type_text :: "'w link \<Rightarrow> string \<Rightarrow> int \<Rightarrow> ('w real, real_error, int) run" where
  "type_text L text timeout s =
     bindR (run_of (lift_result (encode_keyboard_text text))) (\<lambda>payload.
     bindR (run_of (guard (\<not> timeout \<le> 0) RealMSXKeyboardTimeoutError)) (\<lambda>_.
       if payload = [] then run_of (ret 0)
       else if spooled s then type_spooled L payload timeout
       else loop (type_step L timeout payload) 0)) s"

fun join_lines :: "string \<Rightarrow> string list \<Rightarrow> string" where
  "join_lines sep [] = []"
| "join_lines sep [line] = line"
| "join_lines sep (line # lines) = line @ sep @ join_lines sep lines"

definition type_lines :: "'w link \<Rightarrow> string list \<Rightarrow> int \<Rightarrow> ('w real, real_error, int) run" where
  "type_lines L lines timeout =
     bindR (run_of (guard (list_all (\<lambda>line. CR \<notin> set line \<and> LF \<notin> set line) lines) RealOther)) (\<lambda>_.
       if lines = [] then run_of (ret 0)
       else type_text L (join_lines [CR] lines @ [CR]) timeout)"

definition type_line :: "'w link \<Rightarrow> string \<Rightarrow> int \<Rightarrow> ('w real, real_error, int) run" where
  "type_line L text timeout = type_text L (text @ [CR]) timeout"

subsection \<open>Terminal lines and special keys\<close>

definition enqueue_terminal_line :: "'w link \<Rightarrow> string \<Rightarrow> int \<Rightarrow> ('w real, real_error, int) run" where
  "enqueue_terminal_line L text timeout s =
     bindR (run_of (guard (\<not> (CR \<in> set text \<or> LF \<in> set text)) RealOther)) (\<lambda>_.
     bindR (run_of (guard (runtime_mode s = Resident) RealMSXError)) (\<lambda>_.
     bindR (run_of (guard (r_v3 s \<noteq> None \<and> r_features s AND FEATURE_KEYBUF_INPUT \<noteq> 0) RealMSXError)) (\<lambda>_.
     bindR (run_of (lift_result (encode_keyboard_text text))) (\<lambda>encoded.
     let payload = encoded @ [0x0D] in
     bindR (run_of (guard (int (length payload) \<le> KEYBUF_CAPACITY) RealMSXRangeError)) (\<lambda>_.
     bindR (wait_keybuf_empty L timeout) (\<lambda>_.
     bindR (on_failure (keybuf_write L payload (Some timeout)) quarantine_attachment_writes) (\<lambda>(accepted, pending).
       if accepted \<noteq> int (length payload) \<or> pending \<noteq> int (length payload) then
         run_of (bindIO quarantine_attachment_writes (\<lambda>_. raise RealMSXProtocolError))
       else run_of (ret accepted)))))))) s"

text \<open>\<open>str.upper\<close> on code points below 256; the two letters whose capitals lie above are left alone.\<close>

definition upper_char :: "char \<Rightarrow> string" where
  "upper_char c =
     (let n = ord_char c
      in if 97 \<le> n \<and> n \<le> 122 \<or> 0xE0 \<le> n \<and> n \<le> 0xFE \<and> n \<noteq> 0xF7 then [char_of (n - 32)]
         else if n = 0xDF then ''SS'' else [c])"

definition special_key_name :: "string \<Rightarrow> string" where
  "special_key_name key =
     (let normalized = replace_all ''CONTROL+'' ''CTRL+'' (concat (map upper_char (strip key)))
      in if normalized = ''RETURN'' then ''RET'' else normalized)"

definition press :: "'w link \<Rightarrow> string \<Rightarrow> ('w real, real_error, string) run" where
  "press L key =
     (let normalized = special_key_name key in
      case map_of SPECIAL_KEY_INTFLG normalized of
        Some flag \<Rightarrow> bindR (poke L INTFLG [flag]) (\<lambda>_. run_of (ret normalized))
      | None \<Rightarrow>
          (case map_of SPECIAL_KEY_BYTES normalized of
             None \<Rightarrow> run_of (raise RealOther)
           | Some v \<Rightarrow>
               bindR (keybuf_write L [v] None) (\<lambda>(accepted, _).
                 if accepted \<noteq> 1 then run_of (raise RealMSXKeyboardTimeoutError)
                 else run_of (ret normalized))))"

end
