(* ===== verification/Keyboard_Typing.thy ===== *)
theory Keyboard_Typing
  imports Keyboard
begin

text \<open>
  Typing ends and delivers. The locale \<open>key_queue\<close> is the contract of the keyboard queue of a target: a write
  appends the prefix that fits, software takes keys away at any time, sleeping lets the clock advance. Its
  client lemmas step through the loops of \<open>wait_keybuf_empty\<close> and \<open>type\<close> with the measures that make them
  end; the framed \<open>keybuf\<close> request is a provider.
\<close>

subsection \<open>A queue of keys\<close>

text \<open>
  What typing relies on: the world shows the bytes \<open>typed\<close> into the queue so far, the number \<open>queued\<close>
  of those not yet read, and its \<open>clock\<close>. Software may read keys at any time; only writes add keys. A
  write appends the prefix of its data that fits, also when its answer is lost.
\<close>

definition keyed :: "('w \<Rightarrow> bytes) \<Rightarrow> ('w \<Rightarrow> nat) \<Rightarrow> ('w \<Rightarrow> int) \<Rightarrow> bytes \<Rightarrow> 'w \<Rightarrow> 'w \<Rightarrow> bool" where
  "keyed typed queued clock bs w w' \<longleftrightarrow>
     typed w' = typed w @ bs \<and> queued w' \<le> queued w + length bs \<and> clock w \<le> clock w'"

lemma keyed_trans: "keyed t q c xs w w1 \<Longrightarrow> keyed t q c ys w1 w2 \<Longrightarrow> keyed t q c (xs @ ys) w w2"
  by (auto simp: keyed_def)

text \<open>The pending count the last poll saw bounds the queue.\<close>

definition ring_seen :: "drain_state option \<Rightarrow> nat \<Rightarrow> bool" where
  "ring_seen previous n \<longleftrightarrow> (case previous of None \<Rightarrow> True | Some (RingState p) \<Rightarrow> int n \<le> p \<and> p \<le> KEYBUF_CAPACITY
     | Some (SpoolState _) \<Rightarrow> False)"

definition seen_size :: "drain_state option \<Rightarrow> nat" where
  "seen_size previous = (case previous of Some (RingState p) \<Rightarrow> nat p | _ \<Rightarrow> nat (KEYBUF_CAPACITY + 1))"

locale key_queue =
  fixes L :: "'w link" and good :: "'w real \<Rightarrow> bool"
    and typed :: "'w \<Rightarrow> bytes" and queued :: "'w \<Rightarrow> nat" and clock :: "'w \<Rightarrow> int"
  assumes write_law: "good s \<Longrightarrow> int (length d) \<le> KEYBUF_CAPACITY \<Longrightarrow>
      returns (keybuf_write L d timeout) (\<lambda>r s'. good s' \<and>
        (\<exists>k. keyed typed queued clock (take k d) (r_world s) (r_world s') \<and>
          (\<forall>a p. r = Inr (a, p) \<longrightarrow> a = int (length (take k d)) \<and> p = int (queued (r_world s')) \<and> p \<le> KEYBUF_CAPACITY \<and>
             (length (take k d) < length d \<longrightarrow> p = KEYBUF_CAPACITY)))) s"
    and now_law: "good s \<Longrightarrow> wp (real_monotonic L) (\<lambda>r s'. good s' \<and>
        keyed typed queued clock [] (r_world s) (r_world s') \<and> r = Inr (clock (r_world s'))) s"
    and sleep_law: "good s \<Longrightarrow> wp (time_sleep L delay) (\<lambda>r s'. good s' \<and>
        keyed typed queued clock [] (r_world s) (r_world s') \<and>
        (r = Inr () \<longrightarrow> clock (r_world s) + delay \<le> clock (r_world s'))) s"
    and not_spooled: "good s \<Longrightarrow> \<not> spooled s"
begin

abbreviation "goes bs s s' \<equiv> keyed typed queued clock bs (r_world s) (r_world s')"

lemma goes_refl: "goes [] s s"
  by (simp add: keyed_def)

lemma goes_more: "goes bs s s1 \<Longrightarrow> goes [] s1 s2 \<Longrightarrow> goes bs s s2"
  using keyed_trans [of typed queued clock bs "r_world s" "r_world s1" "[]"] by simp

lemma more_goes: "goes [] s s1 \<Longrightarrow> goes bs s1 s2 \<Longrightarrow> goes bs s s2"
  using keyed_trans [of typed queued clock "[]" "r_world s" "r_world s1" bs] by simp

lemma wp_time_left:
  assumes "good s"
  shows "wp (time_left L deadline) (\<lambda>r s'. good s' \<and> goes [] s s' \<and>
    (\<forall>left. r = Inr left \<longrightarrow> 0 < left \<and> left = deadline - clock (r_world s'))) s"
  unfolding time_left_def
  by (rule wp_bind [OF now_law [OF assms]]) (auto simp: Let_def)

lemma wp_new_deadline:
  assumes "good s"
  shows "wp (new_deadline L progressed timeout deadline) (\<lambda>r s'. good s' \<and> goes [] s s' \<and>
    (\<forall>dl. r = Inr dl \<longrightarrow> (if progressed then dl = clock (r_world s') + timeout else dl = deadline))) s"
proof (cases progressed)
  case True
  have "wp (bindIO (real_monotonic L) (\<lambda>now. ret (now + timeout))) (\<lambda>r s'. good s' \<and> goes [] s s' \<and>
      (\<forall>dl. r = Inr dl \<longrightarrow> dl = clock (r_world s') + timeout)) s"
    by (rule wp_bind [OF now_law [OF assms]]) auto
  then show ?thesis using True by (simp add: new_deadline_def)
qed (use assms in \<open>simp add: new_deadline_def goes_refl\<close>)

lemma returns_poll:
  assumes "good s"
  shows "returns (poll_keyboard L left) (\<lambda>r s'. good s' \<and> goes [] s s' \<and>
    (\<forall>st. r = Inr st \<longrightarrow> st = RingState (int (queued (r_world s'))) \<and> int (queued (r_world s')) \<le> KEYBUF_CAPACITY)) s"
proof -
  have "returns (bindR (keybuf_write L [] (Some left)) (\<lambda>(_, pending). run_of (ret (RingState pending))))
      (\<lambda>r s'. good s' \<and> goes [] s s' \<and>
        (\<forall>st. r = Inr st \<longrightarrow> st = RingState (int (queued (r_world s'))) \<and> int (queued (r_world s')) \<le> KEYBUF_CAPACITY)) s"
    by (rule returns_bind, rule write_law [OF assms]) (auto simp: keybuf_constants)
  then show ?thesis using not_spooled [OF assms] by (simp add: returns_def poll_keyboard_def)
qed

lemma ring_seen_later: "ring_seen previous (queued (r_world s)) \<Longrightarrow> goes [] s s' \<Longrightarrow> ring_seen previous (queued (r_world s'))"
  by (auto simp: ring_seen_def keyed_def split: option.splits drain_state.splits)

text \<open>
  One poll: the queue is empty, or it was seen to shrink, or the clock came closer to the deadline.
\<close>

lemma wait_step_returns:
  assumes "good s" "ring_seen (snd v) (queued (r_world s))"
  shows "returns (wait_step L timeout v) (\<lambda>r s'. good s' \<and> goes [] s s' \<and>
    (case r of
       Inl e \<Rightarrow> True
     | Inr (Inr u) \<Rightarrow> queued (r_world s') = 0
     | Inr (Inl y) \<Rightarrow> ring_seen (snd y) (queued (r_world s')) \<and>
         (seen_size (snd y) < seen_size (snd v) \<or>
          seen_size (snd y) = seen_size (snd v) \<and> nat (fst y - clock (r_world s')) < nat (fst v - clock (r_world s))))) s"
proof -
  obtain deadline previous where v: "v = (deadline, previous)" by (cases v)
  show ?thesis
    unfolding wait_step_def v prod.case
  proof (rule returns_bind [where P = "\<lambda>r s'. good s' \<and> goes [] s s' \<and>
        (\<forall>left. r = Inr left \<longrightarrow> 0 < left \<and> left = deadline - clock (r_world s'))"], goal_cases)
    case 1
    then show ?case using wp_time_left [OF assms(1)] by simp
  next
    case (3 left s1)
    then have soon: "0 < deadline - clock (r_world s)" by (auto simp: keyed_def)
    show ?case
    proof (rule returns_bind, rule returns_poll, goal_cases)
      case (3 st s2)
      let ?n = "queued (r_world s2)"
      have s2: "goes [] s s2" using 3 \<open>good s1 \<and> _\<close> by (blast intro: goes_more)
      show ?case
      proof (cases "drained st")
        case True
        then show ?thesis using 3 s2 by (simp add: drained_def)
      next
        case False
        then have n: "0 < ?n" using 3 by (simp add: drained_def)
        let ?progressed = "case previous of None \<Rightarrow> False | Some p \<Rightarrow> drain_progressed p st"
        have seen: "ring_seen (Some st) ?n" using 3 by (simp add: ring_seen_def)
        have shrinks: "seen_size (Some st) < seen_size previous \<or>
            seen_size (Some st) = seen_size previous \<and> \<not> ?progressed"
          using 3 n ring_seen_later [OF assms(2) s2] v
          by (auto simp: seen_size_def ring_seen_def drain_progressed_def nat_less_iff keybuf_constants
              split: option.splits drain_state.splits)
        show ?thesis
          unfolding if_not_P [OF False]
        proof (rule returns_bind [where P = "\<lambda>r s'. good s' \<and> goes [] s2 s' \<and>
              (\<forall>dl. r = Inr dl \<longrightarrow> (if ?progressed then dl = clock (r_world s') + timeout else dl = deadline))"], goal_cases)
          case 1
          then show ?case using wp_new_deadline [of s2] 3 by simp
        next
          case (3 dl s3)
          have s3: "goes [] s s3" using s2 3 by (blast intro: goes_more)
          show ?case
          proof (rule returns_bind [where P = "\<lambda>r s'. good s' \<and> goes [] s3 s' \<and>
                (\<forall>left. r = Inr left \<longrightarrow> 0 < left \<and> left = dl - clock (r_world s'))"], goal_cases)
            case 1
            then show ?case using wp_time_left [of s3] 3 by simp
          next
            case (3 left' s4)
            have s4: "goes [] s s4" using s3 3 by (blast intro: goes_more)
            show ?case
            proof (rule returns_bind [where P = "\<lambda>r s'. good s' \<and> goes [] s4 s' \<and>
                  (r = Inr () \<longrightarrow> clock (r_world s4) + min KEYBUF_POLL_INTERVAL left' \<le> clock (r_world s'))"], goal_cases)
              case 1
              then show ?case using sleep_law [of s4] 3 by simp
            next
              case (3 u s5)
              have s5: "goes [] s s5" "goes [] s2 s5"
                using s4 \<open>good s3 \<and> _\<close> \<open>good s4 \<and> _\<close> 3 by (blast intro: goes_more)+
              have "clock (r_world s4) < clock (r_world s5)"
                using \<open>good s4 \<and> _\<close> 3 by (auto simp: KEYBUF_POLL_INTERVAL_def)
              then have "clock (r_world s) < clock (r_world s5)" using s4 by (simp add: keyed_def)
              then have "\<not> ?progressed \<Longrightarrow> nat (dl - clock (r_world s5)) < nat (deadline - clock (r_world s))"
                using \<open>good s3 \<and> _\<close> soon by simp
              then show ?case using 3 s5 shrinks ring_seen_later [OF seen s5(2)] v by auto
            qed (use s4 in \<open>auto intro: goes_more\<close>)
          qed (use s3 in \<open>auto intro: goes_more\<close>)
        qed (use s2 in \<open>auto intro: goes_more\<close>)
      qed
    qed (use 3 in \<open>auto intro: goes_more\<close>)
  qed auto
qed

lemma wait_keybuf_empty_returns:
  assumes "good s"
  shows "returns (wait_keybuf_empty L timeout) (\<lambda>r s'. good s' \<and> goes [] s s' \<and>
    (r = Inr () \<longrightarrow> queued (r_world s') = 0)) s"
  unfolding wait_keybuf_empty_def
proof (rule returns_bind [where P = "\<lambda>r s'. good s' \<and> goes [] s s'"], goal_cases)
  case 1
  then show ?case by (auto intro: wp_mono [OF now_law [OF assms]])
next
  case (3 now s1)
  show ?case
  proof (rule returns_loop [where I = "\<lambda>v s'. good s' \<and> goes [] s s' \<and> ring_seen (snd v) (queued (r_world s'))"
      and R = "measures [\<lambda>(v, s'). seen_size (snd v), \<lambda>(v, s'). nat (fst v - clock (r_world s'))]"])
    fix v :: "int \<times> drain_state option" and s2
    assume I: "good s2 \<and> goes [] s s2 \<and> ring_seen (snd v) (queued (r_world s2))"
    show "returns (wait_step L timeout v) (\<lambda>r s'. case r of
        Inl e \<Rightarrow> good s' \<and> goes [] s s' \<and> (Inl e = Inr () \<longrightarrow> queued (r_world s') = 0)
      | Inr (Inl y) \<Rightarrow> (good s' \<and> goes [] s s' \<and> ring_seen (snd y) (queued (r_world s'))) \<and>
          ((y, s'), v, s2) \<in> measures [\<lambda>(v, s'). seen_size (snd v), \<lambda>(v, s'). nat (fst v - clock (r_world s'))]
      | Inr (Inr a) \<Rightarrow> good s' \<and> goes [] s s' \<and> (Inr a = Inr () \<longrightarrow> queued (r_world s') = 0)) s2"
      by (rule returns_mono [OF wait_step_returns])
        (use I in \<open>auto split: sum.splits intro: goes_more\<close>)
  qed (use 3 in \<open>auto simp: ring_seen_def\<close>)
qed auto

end

definition seen_pending :: "int option \<Rightarrow> int \<Rightarrow> nat \<Rightarrow> bool" where
  "seen_pending previous credits n \<longleftrightarrow>
     (case previous of None \<Rightarrow> credits = KEYBUF_CAPACITY
      | Some p \<Rightarrow> int n \<le> p \<and> p \<le> KEYBUF_CAPACITY \<and> credits = KEYBUF_CAPACITY - p)"

definition pending_size :: "int option \<Rightarrow> nat" where
  "pending_size previous = (case previous of Some p \<Rightarrow> nat p | None \<Rightarrow> nat (KEYBUF_CAPACITY + 1))"

text \<open>An answer that took nothing and shows no less pending finds the ring full, twice in a row.\<close>

lemma batch_progress:
  assumes "seen_pending previous credits n" "int m \<le> int n" "int m \<le> KEYBUF_CAPACITY"
    and "credits \<noteq> 0 \<Longrightarrow> int m = KEYBUF_CAPACITY"
  shows "pending_size (Some (int m)) < pending_size previous \<or>
    pending_size (Some (int m)) = pending_size previous \<and>
    \<not> (case previous of None \<Rightarrow> False | Some q \<Rightarrow> int m < q) \<and> KEYBUF_CAPACITY - int m = 0"
  using assms by (cases "credits = 0") (auto simp: seen_pending_def pending_size_def keybuf_constants split: option.splits)

context key_queue
begin

text \<open>
  One round of the inner loop: more of the batch is in the queue, or the queue was seen to shrink, or
  the clock came closer to the deadline.
\<close>

lemma batch_step_returns:
  assumes "good s" "v = (bo, credits, deadline, previous)" "0 \<le> bo" "bo \<le> int (length batch)"
    and "seen_pending previous credits (queued (r_world s))"
  shows "returns (batch_step L timeout batch v) (\<lambda>r s'. good s' \<and>
    (case r of
       Inl e \<Rightarrow> \<exists>k. goes (take k (drop (nat bo) batch)) s s'
     | Inr (Inr u) \<Rightarrow> bo = int (length batch) \<and> goes [] s s'
     | Inr (Inl (bo', credits', deadline', previous')) \<Rightarrow> bo \<le> bo' \<and> bo' \<le> int (length batch) \<and>
         goes (take (nat (bo' - bo)) (drop (nat bo) batch)) s s' \<and>
         seen_pending previous' credits' (queued (r_world s')) \<and>
         (bo < bo' \<or> bo' = bo \<and> (pending_size previous' < pending_size previous \<or>
            pending_size previous' = pending_size previous \<and>
            nat (deadline' - clock (r_world s')) < nat (deadline - clock (r_world s)))))) s"
proof (cases "bo < int (length batch)")
  case False
  then show ?thesis using assms by (simp add: batch_step_def goes_refl)
next
  case True
  let ?request = "if credits \<noteq> 0 then py_slice batch bo (bo + min credits KEYBUF_CAPACITY) else []"
  have credits: "0 \<le> credits" "credits \<le> KEYBUF_CAPACITY"
    using assms(5) by (auto simp: seen_pending_def keybuf_constants split: option.splits)
  obtain n where request: "?request = take n (drop (nat bo) batch)" "int n \<le> KEYBUF_CAPACITY" "n = 0 \<longleftrightarrow> credits = 0"
  proof (cases "credits = 0")
    case False
    then have "?request = take (nat credits) (drop (nat bo) batch)"
      using assms(3) credits by (simp add: py_slice_nonneg)
    then show thesis using that [of "nat credits"] credits False by simp
  qed (use that [of 0] in \<open>simp add: keybuf_constants\<close>)
  have more: "\<not> \<not> bo < int (length batch)" using True by simp
  show ?thesis
    unfolding batch_step_def assms(2) prod.case Let_def if_not_P [OF more]
  proof (rule returns_bind [where P = "\<lambda>r s'. good s' \<and> goes [] s s' \<and>
        (\<forall>left. r = Inr left \<longrightarrow> 0 < left \<and> left = deadline - clock (r_world s'))"], goal_cases)
    case 1
    then show ?case using wp_time_left [OF assms(1)] by simp
  next
    case (2 e s1)
    then show ?case by (auto intro: exI [of _ 0])
  next
    case (3 left s1)
    then have soon: "0 < deadline - clock (r_world s)" by (auto simp: keyed_def)
    have size: "int (length ?request) \<le> KEYBUF_CAPACITY" using request(1,2) by simp
    have prefix: "take k ?request = take (min k n) (drop (nat bo) batch)" for k
      by (simp add: request(1) min.commute)
    show ?case
    proof (rule returns_bind, rule write_law [OF _ size], goal_cases)
      case (2 e s2)
      then obtain k where "goes (take k ?request) s1 s2" and "good s2" by auto
      then have "goes (take (min k n) (drop (nat bo) batch)) s s2" using \<open>good s1 \<and> _\<close> prefix [of k] more_goes by auto
      then show ?case using \<open>good s2\<close> by auto
    next
      case (3 x s2)
      obtain a p where x: "x = (a, p)" by (cases x)
      then obtain k where k: "goes (take k ?request) s1 s2" "good s2" "a = int (length (take k ?request))"
        "p = int (queued (r_world s2))" "p \<le> KEYBUF_CAPACITY"
        "length (take k ?request) < length ?request \<Longrightarrow> p = KEYBUF_CAPACITY" using 3 by auto
      define acc where "acc = take k ?request"
      have acc: "take (nat a) (drop (nat bo) batch) = acc" "bo + a \<le> int (length batch)" "a = int (length acc)"
        using k(3) prefix [of k] assms(3) True unfolding acc_def by (auto simp: min_def)
      have s2: "goes acc s s2" using k(1) \<open>good s1 \<and> _\<close> more_goes unfolding acc_def by blast
      have seen: "seen_pending (Some p) (KEYBUF_CAPACITY - p) (queued (r_world s2))"
        using k(4,5) by (simp add: seen_pending_def)
      let ?progressed = "a \<noteq> 0 \<or> (case previous of None \<Rightarrow> False | Some q \<Rightarrow> p < q)"
      have shrinks: "0 < a \<or> pending_size (Some p) < pending_size previous \<or>
          pending_size (Some p) = pending_size previous \<and> \<not> ?progressed \<and> KEYBUF_CAPACITY - p = 0"
      proof (cases "a = 0")
        case True
        then have none: "acc = []" using acc(3) by simp
        have "?request \<noteq> []" if "credits \<noteq> 0"
          using that request(1,3) \<open>bo < int (length batch)\<close> assms(3) by simp
        then have full: "credits \<noteq> 0 \<Longrightarrow> int (queued (r_world s2)) = KEYBUF_CAPACITY"
          using k(4,6) none unfolding acc_def by fastforce
        have "int (queued (r_world s2)) \<le> int (queued (r_world s))"
          using s2 none by (simp add: keyed_def)
        from batch_progress [OF assms(5) this _ full] show ?thesis unfolding k(4) [symmetric] using k(5) True by blast
      qed (use acc(3) in simp)
      show ?case
        unfolding x prod.case
      proof (rule returns_bind [where P = "\<lambda>r s'. good s' \<and> goes [] s2 s' \<and> (\<forall>dl. r = Inr dl \<longrightarrow>
            (if ?progressed then dl = clock (r_world s') + timeout else dl = deadline))"], goal_cases)
        case 1
        then show ?case using wp_new_deadline [OF k(2)] by simp
      next
        case (2 e s3)
        then have "goes acc s s3" using s2 goes_more by blast
        then show ?case using 2 acc(1) by auto
      next
        case (3 dl s3)
        have s3: "goes acc s s3" using s2 3 goes_more by blast
        let ?sleeps = "bo + a < int (length batch) \<and> KEYBUF_CAPACITY - p = 0"
        show ?case
        proof (rule returns_bind [where P = "\<lambda>r s'. good s' \<and> goes [] s3 s' \<and>
              (?sleeps \<longrightarrow> r = Inr () \<longrightarrow> clock (r_world s3) < clock (r_world s'))"], goal_cases)
          case 1
          have "wp (time_sleep L KEYBUF_POLL_INTERVAL) (\<lambda>r s'. good s' \<and> goes [] s3 s' \<and>
              (r = Inr () \<longrightarrow> clock (r_world s3) < clock (r_world s'))) s3"
            using 3 by (intro wp_mono [OF sleep_law [of s3]]) (auto simp: KEYBUF_POLL_INTERVAL_def)
          then show ?case using 3 by (simp add: goes_refl wp_def)
        next
          case (2 e s4)
          then have "goes acc s s4" using s3 goes_more by blast
          then show ?case using 2 acc(1) by auto
        next
          case (3 u s4)
          have s4: "goes acc s s4" "goes [] s2 s4" using s3 \<open>good s3 \<and> _\<close> 3 goes_more by blast+
          have "seen_pending (Some p) (KEYBUF_CAPACITY - p) (queued (r_world s4))"
            using seen s4(2) by (simp add: seen_pending_def keyed_def)
          moreover have "0 < a \<or> pending_size (Some p) < pending_size previous \<or>
              pending_size (Some p) = pending_size previous \<and>
              nat (dl - clock (r_world s4)) < nat (deadline - clock (r_world s))"
          proof (cases "0 < a \<or> pending_size (Some p) < pending_size previous")
            case False
            then have same: "pending_size (Some p) = pending_size previous" "\<not> ?progressed" "?sleeps"
              using shrinks acc(3) True by auto
            then have "dl = deadline" "clock (r_world s3) < clock (r_world s4)" using \<open>good s3 \<and> _\<close> 3 by auto
            then have "nat (dl - clock (r_world s4)) < nat (deadline - clock (r_world s))"
              using soon s3 by (simp add: keyed_def)
            with same(1) show ?thesis by blast
          qed blast
          ultimately show ?case using 3 s4(1) acc assms(3) by auto
        qed
      qed
    qed (use 3 in simp)
  qed
qed

lemma batch_loop_returns:
  assumes "good s"
  shows "returns (loop (batch_step L timeout batch) (0, KEYBUF_CAPACITY, deadline, None)) (\<lambda>r s'. good s' \<and>
    (\<exists>k. goes (take k batch) s s' \<and> (r = Inr () \<longrightarrow> take k batch = batch))) s"
proof (rule returns_loop [where
    I = "\<lambda>(bo, credits, _, previous) s'. good s' \<and> 0 \<le> bo \<and> bo \<le> int (length batch) \<and>
      goes (take (nat bo) batch) s s' \<and> seen_pending previous credits (queued (r_world s'))"
    and R = "measures [\<lambda>((bo, _), _). nat (int (length batch) - bo), \<lambda>((_, _, _, previous), _). pending_size previous,
      \<lambda>((_, _, deadline, _), s'). nat (deadline - clock (r_world s'))]"])
  fix v :: batch_vars and s1
  obtain bo credits dl previous where v: "v = (bo, credits, dl, previous)" by (cases v) auto
  assume "(\<lambda>(bo, credits, _, previous) s'. good s' \<and> 0 \<le> bo \<and> bo \<le> int (length batch) \<and>
      goes (take (nat bo) batch) s s' \<and> seen_pending previous credits (queued (r_world s'))) v s1"
  then have I: "good s1" "0 \<le> bo" "bo \<le> int (length batch)" "goes (take (nat bo) batch) s s1"
    "seen_pending previous credits (queued (r_world s1))" by (simp_all add: v)
  have more: "goes (take (nat bo + k) batch) s s2" if "goes (take k (drop (nat bo) batch)) s1 s2" for k s2
    using keyed_trans [OF I(4) that] by (simp add: take_add)
  show "returns (batch_step L timeout batch v) (\<lambda>r s'. case r of
      Inl e \<Rightarrow> good s' \<and> (\<exists>k. goes (take k batch) s s' \<and> (Inl e = Inr () \<longrightarrow> take k batch = batch))
    | Inr (Inl y) \<Rightarrow> (\<lambda>(bo, credits, _, previous) s'. good s' \<and> 0 \<le> bo \<and> bo \<le> int (length batch) \<and>
        goes (take (nat bo) batch) s s' \<and> seen_pending previous credits (queued (r_world s'))) y s' \<and>
        ((y, s'), v, s1) \<in> measures [\<lambda>((bo, _), _). nat (int (length batch) - bo),
          \<lambda>((_, _, _, previous), _). pending_size previous, \<lambda>((_, _, deadline, _), s'). nat (deadline - clock (r_world s'))]
    | Inr (Inr a) \<Rightarrow> good s' \<and> (\<exists>k. goes (take k batch) s s' \<and> (Inr a = Inr () \<longrightarrow> take k batch = batch))) s1"
  proof (rule returns_mono [OF batch_step_returns [OF I(1) v I(2,3,5)]], goal_cases)
    case (1 r s2)
    show ?case
    proof (cases r)
      case (Inl e)
      then show ?thesis using 1 more by auto
    next
      case (Inr q)
      show ?thesis
      proof (cases q)
        case (Inl y)
        obtain bo' credits' dl' previous' where y: "y = (bo', credits', dl', previous')" by (cases y) auto
        have step: "bo \<le> bo'" "bo' \<le> int (length batch)"
          "goes (take (nat (bo' - bo)) (drop (nat bo) batch)) s1 s2" "good s2"
          "seen_pending previous' credits' (queued (r_world s2))"
          "bo < bo' \<or> bo' = bo \<and> (pending_size previous' < pending_size previous \<or>
            pending_size previous' = pending_size previous \<and>
            nat (dl' - clock (r_world s2)) < nat (dl - clock (r_world s1)))"
          using 1 \<open>r = Inr q\<close> Inl y by auto
        have "nat bo + nat (bo' - bo) = nat bo'" using I(2) step(1) by simp
        with more [OF step(3)] have "goes (take (nat bo') batch) s s2" by simp
        then show ?thesis using step I(2,3) \<open>r = Inr q\<close> Inl y v by auto
      next
        case (Inr u)
        then have "bo = int (length batch)" "goes [] s1 s2" "good s2" using 1 \<open>r = Inr q\<close> by auto
        then have "goes batch s s2" using I(4) goes_more by auto
        then show ?thesis using \<open>r = Inr q\<close> Inr \<open>good s2\<close> by (auto intro: exI [of _ "length batch"])
      qed
    qed
  qed
qed (use assms in \<open>auto simp: goes_refl seen_pending_def\<close>)

end

lemma find_sub_less: "find_sub pat xs = Some i \<Longrightarrow> pat \<noteq> [] \<Longrightarrow> i < length xs"
  by (induction pat xs arbitrary: i rule: find_sub.induct) (auto split: if_splits)

lemma next_batch_prefix:
  obtains k where "next_batch rest = take k rest" "k \<le> length rest" "rest \<noteq> [] \<Longrightarrow> 0 < k"
proof (cases "find_sub [0x0D] rest")
  case None
  then show thesis using that [of "length rest"] by (simp add: next_batch_def)
next
  case (Some i)
  then show thesis using that [of "i + 1"] find_sub_less [OF Some] by (simp add: next_batch_def)
qed

context key_queue
begin

lemma type_step_returns:
  assumes "good s" "0 \<le> offset" "offset < int (length payload)"
  shows "returns (type_step L timeout payload offset) (\<lambda>r s'. good s' \<and>
    (\<exists>k. goes (take k (drop (nat offset) payload)) s s' \<and>
      (\<forall>q. r = Inr q \<longrightarrow> 0 < k \<and> nat offset + k \<le> length payload \<and> q = Inl (offset + int k) \<and> queued (r_world s') = 0))) s"
proof -
  let ?rest = "drop (nat offset) payload"
  have rest: "py_slice payload offset (int (length payload)) = ?rest" "?rest \<noteq> []"
    using assms(2,3) by (simp_all add: py_slice_nonneg)
  obtain k where batch: "next_batch ?rest = take k ?rest" "0 < k" "k \<le> length ?rest"
    using next_batch_prefix [of ?rest] rest(2) by blast
  have short: "take j (next_batch ?rest) = take (min j k) ?rest" for j
    by (simp add: batch(1) min.commute)
  have more: "\<not> \<not> offset < int (length payload)" using assms(3) by simp
  show ?thesis
    unfolding type_step_def if_not_P [OF more] Let_def rest(1)
  proof (rule returns_bind [where P = "\<lambda>r s'. good s' \<and> goes [] s s'"], goal_cases)
    case 1
    then show ?case by (auto intro: wp_mono [OF now_law [OF assms(1)]])
  next
    case (2 e s1)
    then show ?case by (auto intro: exI [of _ 0])
  next
    case (3 now s1)
    show ?case
    proof (rule returns_bind, rule batch_loop_returns, goal_cases)
      case 1
      then show ?case using 3 by simp
    next
      case (2 e s2)
      then show ?case using \<open>good s1 \<and> _\<close> short more_goes by (metis Inl_Inr_False)
    next
      case (3 u s2)
      then have s2: "good s2" "goes (next_batch ?rest) s s2"
        using \<open>good s1 \<and> _\<close> more_goes by auto
      then have s2': "goes (take k ?rest) s s2" using batch(1) by simp
      show ?case
      proof (rule returns_bind, rule wait_keybuf_empty_returns, rule s2(1), goal_cases)
        case (1 e s3)
        then show ?case using s2' goes_more by blast
      next
        case (2 w s3)
        then have s3: "good s3" "goes (take k ?rest) s s3" "queued (r_world s3) = 0" using s2' goes_more by auto
        show ?case
        proof (rule returns_bind [where P = "\<lambda>r s'. good s' \<and> goes [] s3 s'"], goal_cases)
          case 1
          have "wp (time_sleep L KEYBUF_LINE_SETTLE) (\<lambda>r s'. good s' \<and> goes [] s3 s') s3"
            by (rule wp_mono [OF sleep_law [OF s3(1)]]) auto
          then show ?case using s3(1) by (simp add: wp_def goes_refl)
        next
          case (2 e s4)
          then show ?case using s3 goes_more by blast
        next
          case (3 x s4)
          have "nat offset + k \<le> length payload" using batch(3) rest(2) by simp
          moreover have "queued (r_world s4) = 0" using s3(3) 3 by (simp add: keyed_def)
          moreover have "length (next_batch ?rest) = k" using batch(1,3) by simp
          ultimately show ?case using s3(2) 3 batch(2) goes_more by auto
        qed
      qed
    qed
  qed
qed

theorem type_loop_returns:
  assumes "good s"
  shows "returns (loop (type_step L timeout payload) 0) (\<lambda>r s'. good s' \<and>
    (\<exists>k. goes (take k payload) s s' \<and>
      (\<forall>n. r = Inr n \<longrightarrow> take k payload = payload \<and> n = int (length payload) \<and> (payload \<noteq> [] \<longrightarrow> queued (r_world s') = 0)))) s"
proof (rule returns_loop [where
    I = "\<lambda>offset s'. good s' \<and> 0 \<le> offset \<and> offset \<le> int (length payload) \<and>
      goes (take (nat offset) payload) s s' \<and> (offset = 0 \<or> queued (r_world s') = 0)"
    and R = "measure (\<lambda>(offset, _). nat (int (length payload) - offset))"])
  fix offset :: int and s1
  assume I: "good s1 \<and> 0 \<le> offset \<and> offset \<le> int (length payload) \<and>
      goes (take (nat offset) payload) s s1 \<and> (offset = 0 \<or> queued (r_world s1) = 0)"
  show "returns (type_step L timeout payload offset) (\<lambda>r s'. case r of
      Inl e \<Rightarrow> good s' \<and> (\<exists>k. goes (take k payload) s s' \<and>
        (\<forall>n. Inl e = Inr n \<longrightarrow> take k payload = payload \<and> n = int (length payload) \<and> (payload \<noteq> [] \<longrightarrow> queued (r_world s') = 0)))
    | Inr (Inl y) \<Rightarrow> (good s' \<and> 0 \<le> y \<and> y \<le> int (length payload) \<and>
        goes (take (nat y) payload) s s' \<and> (y = 0 \<or> queued (r_world s') = 0)) \<and>
        ((y, s'), offset, s1) \<in> measure (\<lambda>(offset, _). nat (int (length payload) - offset))
    | Inr (Inr a) \<Rightarrow> good s' \<and> (\<exists>k. goes (take k payload) s s' \<and>
        (\<forall>n. Inr a = Inr n \<longrightarrow> take k payload = payload \<and> n = int (length payload) \<and> (payload \<noteq> [] \<longrightarrow> queued (r_world s') = 0)))) s1"
  proof (cases "offset < int (length payload)")
    case False
    then show ?thesis using I by (auto simp: type_step_def intro!: exI [of _ "length payload"])
  next
    case True
    show ?thesis
    proof (rule returns_mono [OF type_step_returns], goal_cases)
      case (4 r s2)
      then obtain k where k: "goes (take k (drop (nat offset) payload)) s1 s2"
        "\<And>q. r = Inr q \<Longrightarrow> 0 < k \<and> nat offset + k \<le> length payload \<and> q = Inl (offset + int k) \<and> queued (r_world s2) = 0"
        and "good s2" by auto
      have "goes (take (nat offset + k) payload) s s2"
        using I keyed_trans [OF _ k(1)] by (auto simp: take_add)
      moreover have "nat (offset + int k) = nat offset + k" using I by (simp add: nat_add_distrib)
      ultimately show ?case using k(2) \<open>good s2\<close> I True by (cases r) auto
    qed (use I True in auto)
  qed
qed (use assms in \<open>auto simp: goes_refl\<close>)

end

subsection \<open>The framed ring\<close>

text \<open>What the clock and the atomic \<open>keybuf\<close> request of a target promise.\<close>

definition honest_clock :: "'w link \<Rightarrow> ('w \<Rightarrow> bytes) \<Rightarrow> ('w \<Rightarrow> nat) \<Rightarrow> ('w \<Rightarrow> int) \<Rightarrow> bool" where
  "honest_clock L typed queued clock \<longleftrightarrow>
     (\<forall>w t w'. l_now L w = (t, w') \<longrightarrow> keyed typed queued clock [] w w' \<and> t = clock w') \<and>
     (\<forall>delay w r w'. l_sleep L delay w = (r, w') \<longrightarrow>
        keyed typed queued clock [] w w' \<and> (r = Inr () \<longrightarrow> clock w + delay \<le> clock w'))"

definition honest_ring :: "'w link \<Rightarrow> ('w \<Rightarrow> bytes) \<Rightarrow> ('w \<Rightarrow> nat) \<Rightarrow> ('w \<Rightarrow> int) \<Rightarrow> bool" where
  "honest_ring L typed queued clock \<longleftrightarrow>
     (\<forall>c bs t w r w'. int (length bs) \<le> KEYBUF_CAPACITY \<longrightarrow> l_request L c 0x74 bs t w = (r, w') \<longrightarrow>
        (\<exists>k. keyed typed queued clock (take k bs) w w' \<and>
          (\<forall>reply. r = Inr reply \<longrightarrow>
             reply = [word_of_nat (length (take k bs)), word_of_nat (queued w')] \<and>
             int (queued w') \<le> KEYBUF_CAPACITY \<and>
             (length (take k bs) < length bs \<longrightarrow> int (queued w') = KEYBUF_CAPACITY))))"

definition ring_ready :: "'w link \<Rightarrow> ('w \<Rightarrow> bytes) \<Rightarrow> ('w \<Rightarrow> nat) \<Rightarrow> ('w \<Rightarrow> int) \<Rightarrow> 'w real \<Rightarrow> bool" where
  "ring_ready L typed queued clock s \<longleftrightarrow>
     honest_clock L typed queued clock \<and> honest_ring L typed queued clock \<and>
     r_v3 s \<noteq> None \<and> r_features s AND FEATURE_KEYBUF_INPUT \<noteq> 0 \<and> \<not> spooled s"

lemma ring_ready_host: "same_host s s' \<Longrightarrow> ring_ready L t q c s' = ring_ready L t q c s"
  by (simp add: ring_ready_def spooled_def same_host_fields)

lemma wp_monotonic_host:
  "honest_clock L typed queued clock \<Longrightarrow> wp (real_monotonic L) (\<lambda>r s'. same_host s s' \<and>
     keyed typed queued clock [] (r_world s) (r_world s') \<and> r = Inr (clock (r_world s'))) s"
  by (auto simp: wp_def real_monotonic_def honest_clock_def split: prod.splits)

lemma wp_sleep_host:
  assumes "honest_clock L typed queued clock"
  shows "wp (time_sleep L delay) (\<lambda>r s'. same_host s s' \<and>
     keyed typed queued clock [] (r_world s) (r_world s') \<and>
     (r = Inr () \<longrightarrow> clock (r_world s) + delay \<le> clock (r_world s'))) s"
  unfolding time_sleep_def
proof (rule wp_mono [OF wp_on_world], goal_cases)
  case (1 r s')
  then obtain r0 where r0: "l_sleep L delay (r_world s) = (r0, r_world s')" "r = map_sum plain_error id r0" by auto
  have "same_host s s'" using 1 by (metis same_host_world(1))
  with assms r0 show ?case by (cases r0) (auto simp: honest_clock_def)
qed

lemma keybuf_counts_honest:
  assumes "a \<le> length bs" "int (length bs) \<le> KEYBUF_CAPACITY" "int p \<le> KEYBUF_CAPACITY"
  shows "keybuf_counts bs [word_of_nat a, word_of_nat p] = Inr (int a, int p)"
proof -
  have "a < 256" "p < 256" using assms by (auto simp: keybuf_constants)
  then have "uint (word_of_nat a :: byte) = int a" "uint (word_of_nat p :: byte) = int p"
    by (simp_all add: unsigned_of_nat take_bit_nat_eq_self)
  then show ?thesis using assms by (simp add: keybuf_counts_def Let_def)
qed

lemma keyed_refl: "keyed typed queued clock [] w w"
  by (simp add: keyed_def)

lemma framed_write_law:
  assumes "ring_ready L typed queued clock s" "int (length bs) \<le> KEYBUF_CAPACITY"
  shows "returns (keybuf_write L bs timeout) (\<lambda>r s'. ring_ready L typed queued clock s' \<and>
      (\<exists>k. keyed typed queued clock (take k bs) (r_world s) (r_world s') \<and>
        (\<forall>a p. r = Inr (a, p) \<longrightarrow> a = int (length (take k bs)) \<and> p = int (queued (r_world s')) \<and> p \<le> KEYBUF_CAPACITY \<and>
           (length (take k bs) < length bs \<longrightarrow> p = KEYBUF_CAPACITY)))) s"
    (is "returns _ ?Q s")
proof -
  obtain c where c: "r_v3 s = Some c" using assms(1) by (auto simp: ring_ready_def)
  have quiet: "?Q (Inl e) s'" if "same_host s s'" "r_world s' = r_world s" for e s'
    using that assms(1) by (auto simp: ring_ready_host keyed_refl intro: exI [of _ 0])
  have "wp (bindIO (lift_result (request_timeout c timeout)) (\<lambda>t.
          bindIO (request_v3 L 0x74 bs t) (\<lambda>reply. lift_result (keybuf_counts bs reply)))) ?Q s"
  proof (rule wp_lift, goal_cases)
    case (2 t)
    show ?case
    proof (rule wp_bind [OF wp_request_v3], goal_cases)
      case (1 e s1)
      show ?case
      proof (cases "r_world s1 = r_world s")
        case True
        then show ?thesis using 1 quiet by (simp add: asked_def)
      next
        case False
        then obtain c e0 where "l_request L c 0x74 bs t (r_world s) = (Inl e0, r_world s1)" "same_host s s1"
          using 1 by (auto simp: asked_def)
        then show ?thesis using assms unfolding ring_ready_host [OF \<open>same_host s s1\<close>]
          by (fastforce simp: ring_ready_def honest_ring_def)
      qed
    next
      case (2 reply s1)
      then obtain c where ask: "l_request L c 0x74 bs t (r_world s) = (Inr reply, r_world s1)" and host: "same_host s s1"
        by (auto simp: asked_def)
      then obtain k where k: "keyed typed queued clock (take k bs) (r_world s) (r_world s1)"
        "reply = [word_of_nat (length (take k bs)), word_of_nat (queued (r_world s1))]"
        "int (queued (r_world s1)) \<le> KEYBUF_CAPACITY"
        "length (take k bs) < length bs \<longrightarrow> int (queued (r_world s1)) = KEYBUF_CAPACITY"
        using assms unfolding ring_ready_def honest_ring_def by blast
      have "keybuf_counts bs reply = Inr (int (length (take k bs)), int (queued (r_world s1)))"
        unfolding k(2) by (rule keybuf_counts_honest) (use assms(2) k(3) in auto)
      then show ?case using k assms(1) host by (auto simp: ring_ready_host)
    qed
  qed (use quiet [OF same_host_refl] in blast)
  then show ?thesis using c assms by (simp add: returns_def keybuf_write_def ring_ready_def bindR_def run_of_def wp_def split: prod.splits)
qed

interpretation framed_ring: key_queue L "ring_ready L typed queued clock" typed queued clock
  for L :: "'w link" and typed queued clock
proof (unfold_locales, goal_cases)
  case 1
  then show ?case by (rule framed_write_law)
next
  case (2 s)
  then have "honest_clock L typed queued clock" by (simp add: ring_ready_def)
  show ?case
    by (rule wp_mono [OF wp_monotonic_host [OF \<open>honest_clock L typed queued clock\<close>]]) (use 2 in \<open>auto simp: ring_ready_host\<close>)
next
  case (3 s delay)
  then have "honest_clock L typed queued clock" by (simp add: ring_ready_def)
  show ?case
    by (rule wp_mono [OF wp_sleep_host [OF \<open>honest_clock L typed queued clock\<close>]]) (use 3 in \<open>auto simp: ring_ready_host\<close>)
next
  case (4 s)
  then show ?case by (simp add: ring_ready_def)
qed

subsection \<open>Properties\<close>


text \<open>
  C12: Typing delivers. Whatever the outcome, the keys the target took are a prefix of the encoded text, in
  order and without repetition; when the call returns, they are the whole text and none is pending.
\<close>

theorem typing_delivers:
  assumes "ring_ready L typed queued clock s" "encode_keyboard_text text = Inr payload"
  shows "returns (type_text L text timeout) (\<lambda>r s'.
     \<exists>k. typed (r_world s') = typed (r_world s) @ take k payload \<and>
       (\<forall>n. r = Inr n \<longrightarrow> n = int (length payload) \<and> take k payload = payload \<and>
          (payload \<noteq> [] \<longrightarrow> queued (r_world s') = 0))) s"
proof (cases "timeout \<le> 0 \<or> payload = []")
  case True
  then show ?thesis using assms(2)
    by (auto simp: type_text_def returns_def bindR_def run_of_def guard_def intro: exI [of _ 0])
next
  case False
  then have "type_text L text timeout s = loop (type_step L timeout payload) 0 s"
    using assms by (simp add: type_text_def bindR_def run_of_def guard_def ring_ready_def)
  then show ?thesis
    using framed_ring.type_loop_returns [OF assms(1), of timeout payload] by (auto simp: returns_def keyed_def)
qed

text \<open>A target whose software reads every key before the next request.\<close>

definition ring_link :: "(bytes \<times> nat \<times> int) link" where
  "ring_link =
     \<lparr>l_request = (\<lambda>c opcode payload t (typed, queued, clock).
        if opcode = 0x74 then
          let taken = take 39 payload in
          (Inr [word_of_nat (length taken), word_of_nat (length taken)], (typed @ taken, length taken, clock))
        else (Inl SessionFailed, (typed, queued, clock))),
      l_session = (\<lambda>c w. (Inr (), w)), l_sendall = (\<lambda>bs w. (Inr (), w)), l_recv = (\<lambda>n w. (Inl StreamFailed, w)),
      l_gettimeout = (\<lambda>w. 1000000), l_settimeout = (\<lambda>t w. (Inr (), w)), l_quarantined = (\<lambda>w. False),
      l_now = (\<lambda>(typed, queued, clock). (clock, (typed, queued, clock))),
      l_sleep = (\<lambda>delay (typed, queued, clock). (Inr (), (typed, 0, clock + max 0 delay)))\<rparr>"

lemma ring_link_ready: "ring_ready ring_link fst (\<lambda>w. fst (snd w)) (\<lambda>w. snd (snd w)) (sample_real 1 ([], 0, 0))"
proof -
  have "honest_clock ring_link fst (\<lambda>w. fst (snd w)) (\<lambda>w. snd (snd w))"
    by (auto simp: honest_clock_def ring_link_def keyed_def)
  moreover have "honest_ring ring_link fst (\<lambda>w. fst (snd w)) (\<lambda>w. snd (snd w))"
    by (auto simp: honest_ring_def ring_link_def keyed_def Let_def keybuf_constants intro!: exI [of _ 39])
  ultimately show ?thesis
    by (simp add: ring_ready_def sample_real_def spooled_def FEATURE_KEYBUF_INPUT_def FEATURE_KEYBUF_SPOOL_def)
qed


lemma typing_delivers_witness:
  "returns (type_text ring_link ''RUN'' 5000000) (\<lambda>r s'. \<exists>k. fst (r_world s') = take k [0x52, 0x55, 0x4E])
     (sample_real 1 ([], 0, 0))"
proof -
  have "encode_keyboard_text ''RUN'' = Inr [0x52, 0x55, 0x4E]" by code_simp
  from typing_delivers [OF ring_link_ready this, of 5000000] show ?thesis
    by (rule returns_mono) (auto simp: sample_real_def)
qed

end
