(* ===== verification/Keyboard_Legacy.thy ===== *)
theory Keyboard_Legacy
  imports Keyboard_Typing
begin

text \<open>
  The pause transaction of older agents as a provider of \<open>key_queue\<close>. The keyboard ring lives in the memory of
  a \<open>machine\<close> whose software runs, and reads keys, between two requests unless the agent has paused it.
  \<open>publish_keys\<close> fills free slots first and moves the pointer last, in one frame, so that a write appends a
  prefix of its data or nothing, also when it fails half-way.
\<close>

subsection \<open>The ring in memory\<close>

definition ring_slot :: "int \<Rightarrow> int" where
  "ring_slot i = KEYBUF_START + i mod KEYBUF_SIZE"

definition ring_put :: "(int \<Rightarrow> byte) \<Rightarrow> int" where
  "ring_put m = le_value (read_at m PUTPNT 2)"

definition ring_get :: "(int \<Rightarrow> byte) \<Rightarrow> int" where
  "ring_get m = le_value (read_at m (PUTPNT + 2) 2)"

definition wf_ring :: "(int \<Rightarrow> byte) \<Rightarrow> bool" where
  "wf_ring m \<longleftrightarrow> KEYBUF_START \<le> ring_put m \<and> ring_put m < KEYBUF_END \<and>
     KEYBUF_START \<le> ring_get m \<and> ring_get m < KEYBUF_END"

definition ring_keys :: "(int \<Rightarrow> byte) \<Rightarrow> bytes" where
  "ring_keys m = map (\<lambda>i. m (ring_slot (ring_get m - KEYBUF_START + int i)))
     [0..<nat ((ring_put m - ring_get m) mod KEYBUF_SIZE)]"

lemma length_ring_keys: "int (length (ring_keys m)) = (ring_put m - ring_get m) mod KEYBUF_SIZE"
  by (simp add: ring_keys_def KEYBUF_SIZE_def)

lemma ring_keys_bound: "int (length (ring_keys m)) \<le> KEYBUF_CAPACITY"
  unfolding length_ring_keys by (simp add: KEYBUF_SIZE_def KEYBUF_CAPACITY_def pos_mod_bound zle_diff1_eq [symmetric])

lemma ring_slot_range: "KEYBUF_START \<le> ring_slot i" "ring_slot i < KEYBUF_END"
  by (simp_all add: ring_slot_def KEYBUF_SIZE_def KEYBUF_END_def)

lemma ring_slot_eq: "ring_slot i = ring_slot j \<longleftrightarrow> (i - j) mod KEYBUF_SIZE = 0"
  by (simp add: ring_slot_def mod_eq_dvd_iff dvd_eq_mod_eq_0)

text \<open>The pointers as \<open>_keybuf_state_from_ram\<close> reads them.\<close>

lemma keybuf_state_ring:
  assumes "wf_ring m"
  shows "keybuf_state (read_at m PUTPNT 4) = Inr (ring_put m, ring_get m, int (length (ring_keys m)))"
proof -
  have "read_at m PUTPNT 4 = read_at m PUTPNT 2 @ read_at m (PUTPNT + 2) 2"
    using read_at_append [of m PUTPNT 2 2] by simp
  moreover have "length (read_at m PUTPNT 2) = 2" by simp
  ultimately have "le_value (take 2 (read_at m PUTPNT 4)) = ring_put m"
    "le_value (drop 2 (read_at m PUTPNT 4)) = ring_get m"
    by (simp_all add: ring_put_def ring_get_def)
  moreover have "(ring_put m - KEYBUF_START - (ring_get m - KEYBUF_START)) mod KEYBUF_SIZE =
      int (length (ring_keys m))" by (simp add: length_ring_keys)
  ultimately show ?thesis using assms ring_keys_bound [of m]
    by (simp add: keybuf_state_def keybuf_pointer_def wf_ring_def)
qed

text \<open>Memories that agree on the pointers and off the slots the next \<open>n\<close> keys would take.\<close>

definition off_ring :: "nat \<Rightarrow> (int \<Rightarrow> byte) \<Rightarrow> (int \<Rightarrow> byte) \<Rightarrow> bool" where
  "off_ring n m m' \<longleftrightarrow>
     (\<forall>a. (\<forall>j < n. a \<noteq> ring_slot (ring_put m - KEYBUF_START + int j)) \<longrightarrow> m' a = m a)"

lemma pointer_not_slot: "a < KEYBUF_START \<Longrightarrow> a \<noteq> ring_slot i"
  using ring_slot_range [of i] by auto

lemma off_ring_pointers:
  assumes "off_ring n m m'"
  shows "ring_put m' = ring_put m" "ring_get m' = ring_get m"
proof -
  have "m' a = m a" if "a < KEYBUF_START" for a
    using assms pointer_not_slot [OF that] by (auto simp: off_ring_def)
  then show "ring_put m' = ring_put m" "ring_get m' = ring_get m"
    by (auto simp: ring_put_def ring_get_def read_at_def keybuf_constants intro!: arg_cong [where f = le_value])
qed

text \<open>A slot in use is none of the free ones.\<close>

lemma used_slot:
  assumes "i < length (ring_keys m)" "length (ring_keys m) + n \<le> 39" "j < n"
  shows "ring_slot (ring_get m - KEYBUF_START + int i) \<noteq> ring_slot (ring_put m - KEYBUF_START + int j)"
proof
  assume "ring_slot (ring_get m - KEYBUF_START + int i) = ring_slot (ring_put m - KEYBUF_START + int j)"
  then have "40 dvd (ring_get m - ring_put m + int i - int j)"
    by (simp add: ring_slot_eq KEYBUF_SIZE_def dvd_eq_mod_eq_0 algebra_simps)
  moreover define p where "p = int (length (ring_keys m))"
  have "p = (ring_put m - ring_get m) mod 40" by (simp add: p_def length_ring_keys KEYBUF_SIZE_def)
  then have "40 dvd (ring_put m - ring_get m - p)" by simp
  ultimately have "40 dvd (ring_get m - ring_put m + int i - int j + (ring_put m - ring_get m - p))"
    by (rule dvd_add)
  then have "40 dvd (p + int j - int i)" by (simp add: algebra_simps dvd_diff_commute)
  moreover have "0 < p + int j - int i" "p + int j - int i < 40" using assms by (auto simp: p_def)
  ultimately show False using zdvd_imp_le by fastforce
qed

lemma off_ring_keys:
  assumes "off_ring n m m'" "length (ring_keys m) + n \<le> 39"
  shows "ring_keys m' = ring_keys m"
proof -
  note eqs = off_ring_pointers [OF assms(1)]
  have "m' (ring_slot (ring_get m - KEYBUF_START + int i)) = m (ring_slot (ring_get m - KEYBUF_START + int i))"
    if "i < length (ring_keys m)" for i
    using assms(1) used_slot [OF that assms(2)] by (auto simp: off_ring_def)
  then show ?thesis by (auto simp: ring_keys_def eqs)
qed

lemma off_ring_wf: "off_ring n m m' \<Longrightarrow> wf_ring m' = wf_ring m"
  by (simp add: wf_ring_def off_ring_pointers)

text \<open>Publishing the new pointer appends the keys in the slots.\<close>

lemma ring_published:
  assumes "wf_ring m" "off_ring n m m'" "length (ring_keys m) + n \<le> 39" "n \<le> length bs"
    and "\<And>j. j < n \<Longrightarrow> m' (ring_slot (ring_put m - KEYBUF_START + int j)) = bs ! j"
    and "new = KEYBUF_START + (ring_put m - KEYBUF_START + int n) mod KEYBUF_SIZE"
    and "m'' = write_at m' PUTPNT (le_bytes 2 new)"
  shows "wf_ring m''" "ring_keys m'' = ring_keys m @ take n bs"
proof -
  have new: "KEYBUF_START \<le> new" "new < KEYBUF_END" "0 \<le> new" "new < 65536"
    using assms(6) by (simp_all add: keybuf_constants)
  have get: "ring_get m'' = ring_get m"
    using off_ring_pointers(2) [OF assms(2)] by (simp add: assms(7) ring_get_def read_at_def write_at_def)
  have "read_at m'' PUTPNT 2 = le_bytes 2 new"
    using read_write_at [of m' PUTPNT "le_bytes 2 new"] by (simp add: assms(7))
  then have put: "ring_put m'' = new" using new by (simp add: ring_put_def)
  have slots: "m'' (ring_slot i) = m' (ring_slot i)" for i
    using ring_slot_range [of i] by (simp add: assms(7) write_at_def keybuf_constants)
  show "wf_ring m''" using assms(1) new by (simp add: wf_ring_def put get)
  define p where "p = int (length (ring_keys m))"
  have p: "(ring_put m - ring_get m) mod KEYBUF_SIZE = p" by (simp add: p_def length_ring_keys)
  have "(new - ring_get m) mod KEYBUF_SIZE =
      ((ring_put m - KEYBUF_START + int n) mod KEYBUF_SIZE + (KEYBUF_START - ring_get m)) mod KEYBUF_SIZE"
    by (simp add: assms(6) algebra_simps)
  also have "\<dots> = ((ring_put m - ring_get m) + int n) mod KEYBUF_SIZE"
    by (subst mod_add_left_eq) (simp add: algebra_simps)
  also have "\<dots> = (p + int n) mod KEYBUF_SIZE"
    by (simp only: p [symmetric] mod_add_left_eq)
  also have "\<dots> = p + int n" using assms(3) by (simp add: p_def KEYBUF_SIZE_def)
  finally have size: "nat ((ring_put m'' - ring_get m'') mod KEYBUF_SIZE) = length (ring_keys m) + n"
    by (simp add: put get p_def)
  show "ring_keys m'' = ring_keys m @ take n bs"
  proof (rule nth_equalityI)
    show "length (ring_keys m'') = length (ring_keys m @ take n bs)"
      using size assms(4) by (simp add: ring_keys_def)
    fix i
    assume "i < length (ring_keys m'')"
    then have i: "i < length (ring_keys m) + n" using size by (simp add: ring_keys_def)
    have "ring_keys m'' ! i = m' (ring_slot (ring_get m - KEYBUF_START + int i))"
      using i size by (simp add: ring_keys_def [of m''] slots get)
    also have "\<dots> = (ring_keys m @ take n bs) ! i"
    proof (cases "i < length (ring_keys m)")
      case True
      then have "m' (ring_slot (ring_get m - KEYBUF_START + int i)) = m (ring_slot (ring_get m - KEYBUF_START + int i))"
        using assms(2) used_slot [OF True assms(3)] by (auto simp: off_ring_def)
      then show ?thesis using True by (simp add: nth_append) (simp add: ring_keys_def)
    next
      case False
      have slot: "ring_slot (ring_get m - KEYBUF_START + int i) =
          ring_slot (ring_put m - KEYBUF_START + int (i - length (ring_keys m)))"
        unfolding ring_slot_eq
      proof -
        have "KEYBUF_SIZE dvd (ring_put m - ring_get m - p)" unfolding p [symmetric] by simp
        then have "KEYBUF_SIZE dvd (ring_get m - ring_put m + p)" by (simp add: dvd_diff_commute algebra_simps)
        moreover have "ring_get m - KEYBUF_START + int i - (ring_put m - KEYBUF_START + int (i - length (ring_keys m))) =
            ring_get m - ring_put m + p" using False by (simp add: p_def of_nat_diff)
        ultimately show "(ring_get m - KEYBUF_START + int i -
            (ring_put m - KEYBUF_START + int (i - length (ring_keys m)))) mod KEYBUF_SIZE = 0" by (simp only: mod_eq_0_iff_dvd)
      qed
      have "m' (ring_slot (ring_get m - KEYBUF_START + int i)) = bs ! (i - length (ring_keys m))"
        unfolding slot by (rule assms(5)) (use False i in simp)
      then show ?thesis using False i assms(4) by (simp add: nth_append)
    qed
    finally show "ring_keys m'' ! i = (ring_keys m @ take n bs) ! i" .
  qed
qed

subsection \<open>A monitored machine\<close>

text \<open>
  The machine behind an agent without the atomic request: its memory, the state code of the agent and
  the keys its software has read. Software runs while the code is 1 and may read keys in order; what
  else it does to memory leaves the ring well-formed. A request is served as \<open>perform\<close> and \<open>answer\<close> say, or
  fails before or after its effect.
\<close>

record machine =
  m_memory :: "int \<Rightarrow> byte"
  m_code :: byte
  m_consumed :: bytes

definition software :: "machine \<Rightarrow> machine \<Rightarrow> bool" where
  "software g g' \<longleftrightarrow> g' = g \<or>
     m_code g = 1 \<and> m_code g' = 1 \<and> wf_ring (m_memory g') \<and>
     (\<exists>n. ring_keys (m_memory g') = drop n (ring_keys (m_memory g)) \<and>
          m_consumed g' = m_consumed g @ take n (ring_keys (m_memory g)))"

definition perform :: "byte \<Rightarrow> bytes \<Rightarrow> machine \<Rightarrow> machine" where
  "perform opcode payload g =
     (if opcode = 0x73 \<and> m_code g = 1 then g\<lparr>m_code := 2\<rparr>
      else if opcode = 0x67 \<and> m_code g = 2 then g\<lparr>m_code := 1\<rparr>
      else if opcode = 0x70 then g\<lparr>m_memory := write_at (m_memory g) (le_value (take 2 payload)) (drop 2 payload)\<rparr>
      else g)"

definition answer :: "byte \<Rightarrow> bytes \<Rightarrow> machine \<Rightarrow> bytes" where
  "answer opcode payload g =
     (if opcode = 0x71 then [m_code g, 3]
      else if opcode = 0x72 then read_at (m_memory g) (le_value (take 2 payload)) (nat (le_value (drop 2 payload)))
      else [])"

definition served :: "byte \<Rightarrow> bytes \<Rightarrow> machine \<Rightarrow> 'e + bytes \<Rightarrow> machine \<Rightarrow> bool" where
  "served opcode payload g r g' \<longleftrightarrow>
     (case r of
        Inl _ \<Rightarrow> g' = g \<or> g' = perform opcode payload g
      | Inr reply \<Rightarrow> reply = answer opcode payload g \<and> g' = perform opcode payload g)"

definition honest_machine :: "'w link \<Rightarrow> ('w \<Rightarrow> machine) \<Rightarrow> ('w \<Rightarrow> int) \<Rightarrow> bool" where
  "honest_machine L view clock \<longleftrightarrow>
     (\<forall>c opcode payload t w r w'. l_request L c opcode payload t w = (r, w') \<longrightarrow>
        clock w \<le> clock w' \<and> (\<exists>g. software (view w) g \<and> served opcode payload g r (view w'))) \<and>
     (\<forall>w t w'. l_now L w = (t, w') \<longrightarrow> software (view w) (view w') \<and> clock w \<le> clock w' \<and> t = clock w') \<and>
     (\<forall>delay w r w'. l_sleep L delay w = (r, w') \<longrightarrow> software (view w) (view w') \<and>
        clock w \<le> clock w' \<and> (r = Inr () \<longrightarrow> clock w + delay \<le> clock w')) \<and>
     (\<forall>t w r w'. l_settimeout L t w = (r, w') \<longrightarrow> view w' = view w \<and> clock w \<le> clock w')"

definition machine_typed :: "machine \<Rightarrow> bytes" where
  "machine_typed g = m_consumed g @ ring_keys (m_memory g)"

definition machine_queued :: "machine \<Rightarrow> nat" where
  "machine_queued g = length (ring_keys (m_memory g))"

text \<open>
  The payload limit lets both pointers of the ring travel in one frame; without the atomic request and
  the spool every write is a pause transaction.
\<close>

definition machine_ready :: "'w link \<Rightarrow> ('w \<Rightarrow> machine) \<Rightarrow> ('w \<Rightarrow> int) \<Rightarrow> 'w real \<Rightarrow> bool" where
  "machine_ready L view clock s \<longleftrightarrow>
     honest_machine L view clock \<and> (\<exists>c. r_v3 s = Some c \<and> 4 \<le> c_max_payload c) \<and>
     r_features s AND FEATURE_KEYBUF_INPUT = 0 \<and> \<not> spooled s \<and> wf_ring (m_memory (view (r_world s)))"

lemma software_refl [simp]: "software g g"
  by (simp add: software_def)

lemma software_frozen: "m_code g \<noteq> 1 \<Longrightarrow> software g g' \<Longrightarrow> g' = g"
  by (auto simp: software_def)

lemma software_facts:
  assumes "software g g'" "wf_ring (m_memory g)"
  shows "m_code g' = m_code g" "wf_ring (m_memory g')" "machine_typed g' = machine_typed g"
    "machine_queued g' \<le> machine_queued g"
  using assms by (auto simp: software_def machine_typed_def machine_queued_def)

lemma machine_ready_step:
  assumes "machine_ready L view clock s" "same_host s s'" "wf_ring (m_memory (view (r_world s')))"
  shows "machine_ready L view clock s'"
  using assms by (auto simp: machine_ready_def spooled_def same_host_fields)

text \<open>A framed request of a ready machine; a refused one counts as failed.\<close>

definition requested :: "('w \<Rightarrow> machine) \<Rightarrow> ('w \<Rightarrow> int) \<Rightarrow> byte \<Rightarrow> bytes \<Rightarrow> 'w real \<Rightarrow> real_error + bytes \<Rightarrow> 'w real \<Rightarrow> bool" where
  "requested view clock opcode payload s r s' \<longleftrightarrow> same_host s s' \<and> clock (r_world s) \<le> clock (r_world s') \<and>
     (\<exists>g. software (view (r_world s)) g \<and> served opcode payload g r (view (r_world s')))"

lemma wp_request_machine:
  assumes "machine_ready L view clock s"
  shows "wp (request_v3 L opcode payload timeout) (requested view clock opcode payload s) s"
proof (rule wp_mono [OF wp_request_v3], goal_cases)
  case (1 r s')
  show ?case
  proof (cases "r_world s' = r_world s \<and> (\<exists>e. r = Inl e)")
    case True
    then show ?thesis using 1 by (auto simp: requested_def asked_def served_def intro: exI [of _ "view (r_world s)"])
  next
    case False
    then obtain c r0 where r0: "l_request L c opcode payload timeout (r_world s) = (r0, r_world s')"
      "r = map_sum request_error id r0" "same_host s s'" using 1 by (auto simp: asked_def)
    then obtain g where "clock (r_world s) \<le> clock (r_world s')" "software (view (r_world s)) g"
      "served opcode payload g r0 (view (r_world s'))"
      using assms unfolding machine_ready_def honest_machine_def by blast
    then show ?thesis using r0 by (cases r0) (auto simp: requested_def served_def)
  qed
qed

lemma le_value_take [simp]:
  "0 \<le> a \<Longrightarrow> a < 65536 \<Longrightarrow> le_value (take 2 (le_bytes 2 a @ bs)) = a" "drop 2 (le_bytes 2 a @ bs) = bs"
  by simp_all

text \<open>\<open>quiet\<close>: no key came in; \<open>held\<close>: in addition the machine did not move at all.\<close>

abbreviation machine_keyed :: "('w \<Rightarrow> machine) \<Rightarrow> ('w \<Rightarrow> int) \<Rightarrow> bytes \<Rightarrow> 'w real \<Rightarrow> 'w real \<Rightarrow> bool" where
  "machine_keyed view clock bs s s' \<equiv>
     keyed (\<lambda>w. machine_typed (view w)) (\<lambda>w. machine_queued (view w)) clock bs (r_world s) (r_world s')"

lemma machine_keyed_trans:
  "machine_keyed view clock xs s s1 \<Longrightarrow> machine_keyed view clock ys s1 s2 \<Longrightarrow> machine_keyed view clock (xs @ ys) s s2"
  by (rule keyed_trans)

lemma perform_quiet:
  assumes "opcode \<noteq> 0x70"
  shows "m_memory (perform opcode payload g) = m_memory g" "m_consumed (perform opcode payload g) = m_consumed g"
  using assms by (simp_all add: perform_def)

lemma requested_quiet:
  assumes "requested view clock opcode payload s r s'" "opcode \<noteq> 0x70" "machine_ready L view clock s"
  shows "machine_ready L view clock s' \<and> machine_keyed view clock [] s s'"
proof -
  obtain g where g: "software (view (r_world s)) g" "served opcode payload g r (view (r_world s'))"
    using assms(1) by (auto simp: requested_def)
  have "wf_ring (m_memory (view (r_world s)))" using assms(3) by (simp add: machine_ready_def)
  note facts = software_facts [OF g(1) this]
  have "m_memory (view (r_world s')) = m_memory g" "m_consumed (view (r_world s')) = m_consumed g"
    using g(2) perform_quiet [OF assms(2)] by (auto simp: served_def split: sum.splits)
  then have "machine_typed (view (r_world s')) = machine_typed g" "machine_queued (view (r_world s')) = machine_queued g"
    "wf_ring (m_memory (view (r_world s')))"
    using facts by (simp_all add: machine_typed_def machine_queued_def)
  then show ?thesis using facts assms(1) machine_ready_step [OF assms(3)]
    by (auto simp: keyed_def requested_def)
qed

subsection \<open>Run state\<close>

lemma wp_status_machine:
  assumes "machine_ready L view clock s"
  shows "wp (status L) (\<lambda>r s'. same_host s s' \<and> machine_ready L view clock s' \<and> machine_keyed view clock [] s s' \<and>
    software (view (r_world s)) (view (r_world s')) \<and>
    (\<forall>st. r = Inr st \<longrightarrow> st = state_name (uint (m_code (view (r_world s')))))) s"
proof -
  have v3: "r_v3 s \<noteq> None" using assms by (auto simp: machine_ready_def)
  have still: "same_host s s' \<and> machine_ready L view clock s' \<and> machine_keyed view clock [] s s' \<and>
      software (view (r_world s)) (view (r_world s')) \<and> (\<forall>reply. r = Inr reply \<longrightarrow> reply = [m_code (view (r_world s')), 3])"
    if "requested view clock 0x71 [] s r s'" for r s'
    using requested_quiet [OF that _ assms] that
    by (cases r) (auto simp: requested_def served_def perform_def answer_def)
  have "wp (bindIO (request_v3 L 0x71 [] None) (\<lambda>reply.
          if length reply \<noteq> 2 then raise RealMSXProtocolError
          else if uint (reply ! 1) \<noteq> FRAMED_PROTOCOL_VERSION then raise RealMSXProtocolError
          else ret (state_name (uint (reply ! 0)))))
      (\<lambda>r s'. same_host s s' \<and> machine_ready L view clock s' \<and> machine_keyed view clock [] s s' \<and>
        software (view (r_world s)) (view (r_world s')) \<and>
        (\<forall>st. r = Inr st \<longrightarrow> st = state_name (uint (m_code (view (r_world s')))))) s"
  proof (rule wp_bind [OF wp_request_machine [OF assms]], goal_cases)
    case (1 e s1)
    then show ?case using still by auto
  next
    case (2 reply s1)
    then show ?case using still [OF 2] by (simp add: FRAMED_PROTOCOL_VERSION_def)
  qed
  then show ?thesis using v3 by (simp add: wp_def status_def)
qed

lemma state_name_simps:
  "state_name (uint c) = AgentRunning \<longleftrightarrow> c = (1 :: byte)" "state_name (uint c) = AgentPaused \<longleftrightarrow> c = (2 :: byte)"
proof -
  have "uint c = 1 \<longleftrightarrow> c = 1" "uint c = 2 \<longleftrightarrow> c = 2" "uint c = 0 \<longleftrightarrow> c = 0"
    by (simp_all add: word_uint_eq_iff)
  then show "state_name (uint c) = AgentRunning \<longleftrightarrow> c = (1 :: byte)" "state_name (uint c) = AgentPaused \<longleftrightarrow> c = (2 :: byte)"
    by (auto simp: state_name_def)
qed

lemma wp_command_machine:
  assumes "machine_ready L view clock s" "opcode \<noteq> 0x70"
  shows "wp (command L opcode) (\<lambda>r s'. same_host s s' \<and> machine_ready L view clock s' \<and> machine_keyed view clock [] s s' \<and>
    (\<exists>g. software (view (r_world s)) g \<and> (view (r_world s') = g \<or> view (r_world s') = perform opcode [] g) \<and>
      (is_ok r \<longrightarrow> view (r_world s') = perform opcode [] g))) s"
proof -
  have v3: "r_v3 s \<noteq> None" using assms by (auto simp: machine_ready_def)
  have "wp (bindIO (request_v3 L opcode [] None) (\<lambda>_. ret ())) (\<lambda>r s'. same_host s s' \<and> machine_ready L view clock s' \<and>
      machine_keyed view clock [] s s' \<and>
      (\<exists>g. software (view (r_world s)) g \<and> (view (r_world s') = g \<or> view (r_world s') = perform opcode [] g) \<and>
        (is_ok r \<longrightarrow> view (r_world s') = perform opcode [] g))) s"
    by (rule wp_bind [OF wp_request_machine [OF assms(1)]])
      (use requested_quiet [OF _ assms(2,1)] in \<open>fastforce simp: requested_def served_def\<close>)+
  then show ?thesis using v3 by (simp add: wp_def command_def)
qed

text \<open>Both pointers come in one frame.\<close>

lemma peek_pointers:
  assumes "machine_ready L view clock s"
  shows "returns (peek L PUTPNT 4) (\<lambda>r s'. same_host s s' \<and> machine_ready L view clock s' \<and>
    machine_keyed view clock [] s s' \<and> software (view (r_world s)) (view (r_world s')) \<and>
    (\<forall>raw. r = Inr raw \<longrightarrow> raw = read_at (m_memory (view (r_world s'))) PUTPNT 4)) s" (is "returns _ ?Q s")
proof (rule returns_at [OF peek_def], rule returns_checked, goal_cases)
  case (1 e)
  then show ?case using assms by (simp add: keyed_refl)
next
  case (2 u)
  show ?case
  proof (rule returns_guard, goal_cases)
    case 1
    then show ?case using assms by (simp add: keyed_refl)
  next
    case 2
    obtain c where c: "r_v3 s = Some c" "4 \<le> c_max_payload c" using assms by (auto simp: machine_ready_def)
    have bytes: "to_le 2 PUTPNT = Inr (le_bytes 2 PUTPNT)" "to_le 2 4 = Inr (le_bytes 2 4)"
      by (simp_all add: to_le_def PUTPNT_def)
    have step: "peek_step L PUTPNT 4 [] s = bindIO (request_v3 L 0x72 (le_bytes 2 PUTPNT @ le_bytes 2 4) None)
        (\<lambda>data. ret (Inl data)) s"
      using c by (simp add: peek_step_def bytes)
    have "wp (bindIO (request_v3 L 0x72 (le_bytes 2 PUTPNT @ le_bytes 2 4) None) (\<lambda>data. ret (Inl data)))
        (\<lambda>r s1. case r of Inl e \<Rightarrow> ?Q (Inl e) s1
          | Inr (Inl y) \<Rightarrow> returns (loop (\<lambda>out. run_of (peek_step L PUTPNT 4 out)) y) ?Q s1 | Inr (Inr a) \<Rightarrow> ?Q (Inr a) s1) s"
    proof (rule wp_bind [OF wp_request_machine [OF assms]], goal_cases)
      case (1 e s1)
      then show ?case using requested_quiet [OF 1 _ assms] by (auto simp: requested_def served_def perform_def)
    next
      case (2 reply s1)
      have now: "view (r_world s1) = g \<Longrightarrow> reply = read_at (m_memory g) PUTPNT 4" for g
        using 2 by (auto simp: requested_def served_def answer_def perform_def PUTPNT_def)
      then have "?Q (Inr reply) s1"
        using requested_quiet [OF 2 _ assms] 2 by (auto simp: requested_def served_def perform_def)
      moreover have "length reply = 4" using now by simp
      ultimately have "returns (loop (\<lambda>out. run_of (peek_step L PUTPNT 4 out)) reply) ?Q s1"
        by (intro returns_loop_step) (simp add: peek_step_def wp_def)
      then show ?case by simp
    qed
    then show ?case by (intro returns_loop_step) (simp add: wp_def step)
  qed
qed

lemma keybuf_state_machine:
  assumes "machine_ready L view clock s"
  shows "returns (keybuf_state_from_ram L) (\<lambda>r s'. same_host s s' \<and> machine_ready L view clock s' \<and>
    machine_keyed view clock [] s s' \<and> software (view (r_world s)) (view (r_world s')) \<and>
    (\<forall>q. r = Inr q \<longrightarrow> (let m = m_memory (view (r_world s'))
       in q = (ring_put m, ring_get m, int (length (ring_keys m)))))) s"
  unfolding keybuf_state_from_ram_def
proof (rule returns_bind, rule peek_pointers [OF assms], goal_cases)
  case (2 raw s1)
  then have "wf_ring (m_memory (view (r_world s1)))" by (simp add: machine_ready_def)
  then show ?case using 2 keybuf_state_ring by simp
qed simp

subsection \<open>The pause transaction\<close>

lemma wp_pause_machine:
  assumes "machine_ready L view clock s"
  shows "wp (pause L) (\<lambda>r s'. same_host s s' \<and> machine_ready L view clock s' \<and> machine_keyed view clock [] s s' \<and>
    (is_ok r \<longrightarrow> m_code (view (r_world s')) = 2)) s"
proof (cases "runtime_mode s = Resident \<and> r_features s AND FEATURE_TIMI_POLL_SAFE \<noteq> 0")
  case True
  then show ?thesis using assms by (simp add: wp_def pause_def keyed_refl)
next
  case False
  have "wp (bindIO (status L) (\<lambda>state.
          if state = AgentPaused then ret state
          else if state \<noteq> AgentRunning then raise RealMSXError
          else bindIO (command L 0x73) (\<lambda>_. ret AgentPaused)))
      (\<lambda>r s'. same_host s s' \<and> machine_ready L view clock s' \<and> machine_keyed view clock [] s s' \<and>
        (is_ok r \<longrightarrow> m_code (view (r_world s')) = 2)) s"
  proof (rule wp_bind [OF wp_status_machine [OF assms]], goal_cases)
    case (2 st s1)
    then have ready: "machine_ready L view clock s1" by simp
    then have wf: "wf_ring (m_memory (view (r_world s1)))" by (simp add: machine_ready_def)
    have "wp (bindIO (command L 0x73) (\<lambda>_. ret AgentPaused)) (\<lambda>r s'. same_host s s' \<and> machine_ready L view clock s' \<and>
        machine_keyed view clock [] s s' \<and> (is_ok r \<longrightarrow> m_code (view (r_world s')) = 2)) s1"
      if "m_code (view (r_world s1)) = 1"
    proof (rule wp_bind [OF wp_command_machine [OF ready]], goal_cases)
      case (3 u s2)
      then obtain g where "software (view (r_world s1)) g" "view (r_world s2) = perform 0x73 [] g" by auto
      then have "m_code (view (r_world s2)) = 2" using software_facts(1) wf that by (simp add: perform_def)
      then show ?case using 2 3 by (auto intro: same_host_trans machine_keyed_trans [where xs = "[]" and ys = "[]", simplified])
    qed (use 2 in \<open>auto intro: same_host_trans machine_keyed_trans [where xs = "[]" and ys = "[]", simplified]\<close>)
    then show ?case using 2 by (auto simp: state_name_simps)
  qed auto
  then show ?thesis using False by (simp add: wp_def pause_def if_not_P)
qed

text \<open>From the paused state a resume moves no key.\<close>

lemma wp_resume_machine:
  assumes "machine_ready L view clock s" "m_code (view (r_world s)) = 2"
  shows "wp (resume L) (\<lambda>r s'. same_host s s' \<and> machine_ready L view clock s' \<and>
    clock (r_world s) \<le> clock (r_world s') \<and>
    m_memory (view (r_world s')) = m_memory (view (r_world s)) \<and>
    m_consumed (view (r_world s')) = m_consumed (view (r_world s))) s"
  unfolding resume_def
proof (rule wp_bind [OF wp_status_machine [OF assms(1)]], goal_cases)
  case (1 e s1)
  then show ?case using software_frozen [of "view (r_world s)" "view (r_world s1)"] assms(2) by (auto simp: keyed_def)
next
  case (2 st s1)
  then have same: "view (r_world s1) = view (r_world s)"
    using software_frozen [of "view (r_world s)" "view (r_world s1)"] assms(2) by auto
  have ready: "machine_ready L view clock s1" using 2 by simp
  have "wp (bindIO (command L 0x67) (\<lambda>_. ret AgentRunning)) (\<lambda>r s'. same_host s s' \<and> machine_ready L view clock s' \<and>
      clock (r_world s) \<le> clock (r_world s') \<and>
      m_memory (view (r_world s')) = m_memory (view (r_world s)) \<and>
      m_consumed (view (r_world s')) = m_consumed (view (r_world s))) s1"
  proof (rule wp_bind [OF wp_command_machine [OF ready]], goal_cases)
    case (2 e s2)
    then obtain g where "software (view (r_world s1)) g" "view (r_world s2) = g \<or> view (r_world s2) = perform 0x67 [] g" by auto
    then have "g = view (r_world s)" using software_frozen same assms(2) by auto
    then show ?case using \<open>same_host s s1 \<and> _\<close> 2 \<open>view (r_world s2) = g \<or> _\<close>
      by (auto simp: perform_def keyed_def intro: same_host_trans)
  next
    case (3 u s2)
    then obtain g where g: "software (view (r_world s1)) g" "view (r_world s2) = perform 0x67 [] g" by auto
    then have "g = view (r_world s)" using software_frozen same assms(2) by auto
    then show ?case using 2 3 g by (auto simp: perform_def keyed_def intro: same_host_trans)
  qed auto
  then show ?case using 2 same assms(2) by (auto simp: keyed_def)
qed

text \<open>\<open>filled n bs k m m'\<close>: of the \<open>n\<close> next slots the first \<open>k\<close> hold those of \<open>bs\<close>, nothing else moved.\<close>

definition filled :: "nat \<Rightarrow> bytes \<Rightarrow> nat \<Rightarrow> (int \<Rightarrow> byte) \<Rightarrow> (int \<Rightarrow> byte) \<Rightarrow> bool" where
  "filled n bs k m m' \<longleftrightarrow> off_ring n m m' \<and>
     (\<forall>j < k. m' (ring_slot (ring_put m - KEYBUF_START + int j)) = bs ! j)"

lemma filled_start: "filled n bs 0 m m"
  by (simp add: filled_def off_ring_def)

lemma slot_low: "0 \<le> p \<Longrightarrow> p < 40 \<Longrightarrow> ring_slot p = KEYBUF_START + p"
  by (simp add: ring_slot_def KEYBUF_SIZE_def)

lemma slot_wrap: "40 \<le> p \<Longrightarrow> p < 80 \<Longrightarrow> ring_slot p = KEYBUF_START + p - 40"
  using mod_pos_pos_trivial [of "p - 40" 40] by (simp add: ring_slot_def KEYBUF_SIZE_def)

text \<open>A run of bytes that starts at a free slot and does not pass the end of the ring.\<close>

lemma filled_run:
  assumes "filled n bs i m m'" "i + k \<le> n" "n \<le> length bs"
    and "\<And>j. j < k \<Longrightarrow> ring_slot (ring_put m - KEYBUF_START + int (i + j)) = a + int j"
    and "\<And>j. j < i \<Longrightarrow> \<not> (a \<le> ring_slot (ring_put m - KEYBUF_START + int j) \<and>
           ring_slot (ring_put m - KEYBUF_START + int j) < a + int k)"
  shows "filled n bs (i + k) m (write_at m' a (take k (drop i bs)))"
proof -
  let ?slot = "\<lambda>j. ring_slot (ring_put m - KEYBUF_START + int j)"
  have len: "length (take k (drop i bs)) = k" using assms(2,3) by simp
  have "write_at m' a (take k (drop i bs)) x = m x" if "\<forall>j < n. x \<noteq> ?slot j" for x
  proof -
    have "\<not> (a \<le> x \<and> x < a + int k)"
    proof
      assume x: "a \<le> x \<and> x < a + int k"
      then have j: "nat (x - a) < k" "x = a + int (nat (x - a))" by auto
      then have "x = ?slot (i + nat (x - a))" using assms(4) [OF j(1)] by simp
      moreover have "i + nat (x - a) < n" using j(1) assms(2) by simp
      ultimately show False using that by blast
    qed
    moreover have "m' x = m x" using assms(1) that by (simp add: filled_def off_ring_def)
    ultimately show ?thesis unfolding write_at_def len by auto
  qed
  moreover have "write_at m' a (take k (drop i bs)) (?slot j) = bs ! j" if "j < i + k" for j
  proof (cases "j < i")
    case True
    then show ?thesis using assms(1) assms(5) [OF True] unfolding write_at_def len filled_def by auto
  next
    case False
    then obtain d where d: "j = i + d" "d < k" using \<open>j < i + k\<close> by (metis add_less_cancel_left le_Suc_ex not_less)
    then have "?slot j = a + int d" using assms(4) by simp
    then show ?thesis using d assms(2,3) unfolding write_at_def len by simp
  qed
  ultimately show ?thesis by (simp add: filled_def off_ring_def)
qed

lemma filled_first:
  assumes "wf_ring m" "k \<le> n" "n \<le> length bs" "ring_put m + int k \<le> KEYBUF_END"
  shows "filled n bs k m (write_at m (ring_put m) (take k bs))"
proof -
  have "filled n bs (0 + k) m (write_at m (ring_put m) (take k (drop 0 bs)))"
  proof (rule filled_run [OF filled_start])
    fix j assume "j < k"
    then show "ring_slot (ring_put m - KEYBUF_START + int (0 + j)) = ring_put m + int j"
      using assms(1,4) by (subst slot_low) (simp_all add: wf_ring_def keybuf_constants)
  qed (use assms in simp_all)
  then show ?thesis by simp
qed

lemma filled_second:
  assumes "wf_ring m" "filled n bs i m m'" "ring_put m + int i = KEYBUF_END" "i + k \<le> n" "n \<le> length bs" "n \<le> 39"
  shows "filled n bs (i + k) m (write_at m' KEYBUF_START (take k (drop i bs)))"
proof (rule filled_run [OF assms(2,4,5)])
  fix j assume "j < k"
  then show "ring_slot (ring_put m - KEYBUF_START + int (i + j)) = KEYBUF_START + int j"
    using assms(1,3,4,6) by (subst slot_wrap) (simp_all add: wf_ring_def keybuf_constants)
next
  fix j assume "j < i"
  then have "ring_slot (ring_put m - KEYBUF_START + int j) = ring_put m + int j"
    using assms(1,3) by (subst slot_low) (simp_all add: wf_ring_def keybuf_constants)
  then show "\<not> (KEYBUF_START \<le> ring_slot (ring_put m - KEYBUF_START + int j) \<and>
      ring_slot (ring_put m - KEYBUF_START + int j) < KEYBUF_START + int k)"
    using assms(1,3,4,6) by (simp add: wf_ring_def keybuf_constants)
qed

subsection \<open>Publication\<close>

text \<open>The machine is paused and its software has read \<open>C\<close>, since \<open>T\<close>.\<close>

definition paused_since :: "('w \<Rightarrow> machine) \<Rightarrow> ('w \<Rightarrow> int) \<Rightarrow> bytes \<Rightarrow> int \<Rightarrow> 'w \<Rightarrow> bool" where
  "paused_since view clock C T w \<longleftrightarrow> m_code (view w) = 2 \<and> m_consumed (view w) = C \<and> T \<le> clock w"

lemma machine_stores:
  assumes "honest_machine L view clock"
  shows "stores L 0x70 2 (paused_since view clock C T) (\<lambda>w. m_memory (view w))"
  unfolding stores_def
proof (intro allI impI, goal_cases)
  case (1 c a bs w r w')
  then obtain g where g: "clock w \<le> clock w'" "software (view w) g"
    "served 0x70 (le_bytes 2 a @ bs) g r (view w')"
    using assms unfolding honest_machine_def by blast
  have "g = view w" using 1(1) g(2) software_frozen by (auto simp: paused_since_def)
  then show ?case using 1 g by (cases r) (auto simp: paused_since_def served_def perform_def)
qed

text \<open>The pointer travels in one frame, so that it is written whole or not at all.\<close>

definition pointer_written ::
  "('w \<Rightarrow> machine) \<Rightarrow> ('w \<Rightarrow> int) \<Rightarrow> bytes \<Rightarrow> int \<Rightarrow> bytes \<Rightarrow> 'w real \<Rightarrow> real_error + 'a \<Rightarrow> 'w real \<Rightarrow> bool" where
  "pointer_written view clock C T bs s r s' \<longleftrightarrow> same_host s s' \<and> paused_since view clock C T (r_world s') \<and>
    (m_memory (view (r_world s')) = write_at (m_memory (view (r_world s))) PUTPNT bs \<or>
     \<not> is_ok r \<and> m_memory (view (r_world s')) = m_memory (view (r_world s)))"

lemma poke_pointer:
  assumes "machine_ready L view clock s" "paused_since view clock C T (r_world s)" "length bs = 2"
  shows "returns (poke L PUTPNT bs) (pointer_written view clock C T bs s) s" 
proof (rule returns_at [OF poke_def], rule returns_checked, goal_cases)
  case (1 e)
  then show ?case using assms by (simp add: pointer_written_def)
next
  case (2 u)
  obtain c where c: "r_v3 s = Some c" "4 \<le> c_max_payload c" using assms by (auto simp: machine_ready_def)
  have slice: "py_slice bs 0 (c_max_payload c - 2) = bs" using c assms(3) by (simp add: py_slice_nonneg)
  have at: "to_le 2 PUTPNT = Inr (le_bytes 2 PUTPNT)" by (simp add: to_le_def PUTPNT_def)
  have step: "poke_step L PUTPNT bs 0 s = bindIO (request_v3 L 0x70 (le_bytes 2 PUTPNT @ bs) None)
      (\<lambda>_. ret (Inl 2)) s"
    using c assms(3) slice at by (simp add: poke_step_def bindIO_def ret_Pair Let_def split: prod.splits sum.splits)
  have stored: "pointer_written view clock C T bs s r s'" if asks: "requested view clock 0x70 (le_bytes 2 PUTPNT @ bs) s r s'" for r s'
  proof -
    obtain g where g: "software (view (r_world s)) g" "served 0x70 (le_bytes 2 PUTPNT @ bs) g r (view (r_world s'))"
      using asks by (auto simp: requested_def)
    have "g = view (r_world s)" using assms(2) g(1) software_frozen by (auto simp: paused_since_def)
    then show ?thesis using asks g assms(2)
      by (cases r) (auto simp: requested_def paused_since_def served_def perform_def PUTPNT_def pointer_written_def)
  qed
  have "wp (bindIO (request_v3 L 0x70 (le_bytes 2 PUTPNT @ bs) None) (\<lambda>_. ret (Inl 2)))
      (\<lambda>r s1. case r of Inl e \<Rightarrow> (pointer_written view clock C T bs s) (Inl e) s1
        | Inr (Inl y) \<Rightarrow> returns (loop (\<lambda>offset. run_of (poke_step L PUTPNT bs offset)) y) (pointer_written view clock C T bs s) s1
        | Inr (Inr a) \<Rightarrow> (pointer_written view clock C T bs s) (Inr a) s1) s"
  proof (rule wp_bind [OF wp_request_machine [OF assms(1)]], goal_cases)
    case (1 e s1)
    then show ?case using stored [OF 1] by (simp add: pointer_written_def)
  next
    case (2 x s1)
    have "returns (loop (\<lambda>offset. run_of (poke_step L PUTPNT bs offset)) 2) (pointer_written view clock C T bs s) s1"
      by (intro returns_loop_step) (use assms(3) stored [OF 2] in \<open>simp add: poke_step_def wp_def pointer_written_def\<close>)
    then show ?case by simp
  qed
  then have "returns (loop (\<lambda>offset. run_of (poke_step L PUTPNT bs offset)) 0) (pointer_written view clock C T bs s) s"
    by (intro returns_loop_step) (simp add: wp_def step)
  then show ?case by (rule returns_bind) (auto simp: pointer_written_def)
qed

definition published ::
  "'w link \<Rightarrow> ('w \<Rightarrow> machine) \<Rightarrow> ('w \<Rightarrow> int) \<Rightarrow> bytes \<Rightarrow> int \<Rightarrow> bytes \<Rightarrow> 'w real \<Rightarrow> real_error + int \<times> int \<Rightarrow> 'w real \<Rightarrow> bool" where
  "published L view clock C T bs s r s' \<longleftrightarrow>
     same_host s s' \<and> machine_ready L view clock s' \<and> paused_since view clock C T (r_world s') \<and>
     (\<exists>k \<le> length bs. ring_keys (m_memory (view (r_world s'))) = ring_keys (m_memory (view (r_world s))) @ take k bs \<and>
       (\<forall>a p. r = Inr (a, p) \<longrightarrow> a = int k \<and> p = int (machine_queued (view (r_world s'))) \<and>
          (k < length bs \<longrightarrow> p = KEYBUF_CAPACITY)))"

text \<open>As long as only free slots changed, nothing is published.\<close>

lemma published_nothing:
  assumes "machine_ready L view clock s" "same_host s s'" "paused_since view clock C T (r_world s')"
    and "off_ring n (m_memory (view (r_world s))) (m_memory (view (r_world s')))"
    and "machine_queued (view (r_world s)) + n \<le> 39"
  shows "published L view clock C T bs s (Inl e) s'"
proof -
  have "ring_keys (m_memory (view (r_world s'))) = ring_keys (m_memory (view (r_world s)))"
    using off_ring_keys [OF assms(4)] assms(5) by (simp add: machine_queued_def)
  moreover have "wf_ring (m_memory (view (r_world s')))"
    using assms(1) off_ring_wf [OF assms(4)] by (simp add: machine_ready_def)
  ultimately show ?thesis using assms machine_ready_step by (auto simp: published_def intro: exI [of _ 0])
qed

lemma machine_room: "machine_ready L view clock s \<Longrightarrow> room 2 s"
  by (auto simp: machine_ready_def room_def)

lemma publish_paused:
  assumes "machine_ready L view clock s" "paused_since view clock C T (r_world s)" "int (length bs) \<le> KEYBUF_CAPACITY"
  shows "returns (publish_keys L bs) (published L view clock C T bs s) s"
proof -
  let ?Q = "published L view clock C T bs s"
  define m where "m = m_memory (view (r_world s))"
  define q where "q = length (ring_keys m)"
  define n where "n = min (length bs) (39 - q)"
  have q: "q \<le> 39" using ring_keys_bound [of m] by (simp add: q_def keybuf_constants)
  have n: "q + n \<le> 39" "n \<le> length bs" "n < length bs \<Longrightarrow> q + n = 39"
    and accepted: "min (int (length bs)) (KEYBUF_CAPACITY - int q) = int n"
    using q by (auto simp: n_def keybuf_constants min_def of_nat_diff)
  have wf: "wf_ring m" using assms(1) by (simp add: machine_ready_def m_def)
  have honest: "honest_machine L view clock" using assms(1) by (simp add: machine_ready_def)
  note stores = machine_stores [OF honest, of C T]
  let ?mem = "\<lambda>s'. m_memory (view (r_world s'))"
  have unpublished: "?Q (Inl e) s'" if "same_host s s'" "paused_since view clock C T (r_world s')"
      "filled n bs k m (?mem s')" for e k s'
    using published_nothing [OF assms(1) that(1,2), of n] that(3) n(1)
    by (simp add: filled_def m_def [symmetric] machine_queued_def q_def)
  let ?first = "min (int n) (KEYBUF_END - ring_put m)"
  define f where "f = nat ?first"
  have f: "?first = int f" "f \<le> n" "ring_put m + int f \<le> KEYBUF_END" "f < n \<Longrightarrow> ring_put m + int f = KEYBUF_END"
    "0 < n \<Longrightarrow> 0 < f"
    using wf by (auto simp: f_def wf_ring_def min_def)
  define new where "new = KEYBUF_START + (ring_put m - KEYBUF_START + int n) mod KEYBUF_SIZE"
  have new: "to_le 2 new = Inr (le_bytes 2 new)"
  proof -
    have "0 \<le> (ring_put m - KEYBUF_START + int n) mod KEYBUF_SIZE" "(ring_put m - KEYBUF_START + int n) mod KEYBUF_SIZE < 40"
      by (simp_all add: KEYBUF_SIZE_def)
    then show ?thesis by (simp add: to_le_def new_def KEYBUF_START_def)
  qed
  have publish_pointer: "returns (bindR (poke L PUTPNT (le_bytes 2 new)) (\<lambda>_. run_of (ret (int n, int q + int n)))) ?Q s'"
    if s': "same_host s s'" "paused_since view clock C T (r_world s')" "filled n bs n m (?mem s')" for s'
  proof -
    have "wf_ring (?mem s')" using wf off_ring_wf that(3) by (auto simp: filled_def)
    then have ready: "machine_ready L view clock s'" using machine_ready_step [OF assms(1) s'(1)] by simp
    have whole: "?Q r s2" if w: "same_host s' s2" "paused_since view clock C T (r_world s2)"
        "?mem s2 = write_at (?mem s') PUTPNT (le_bytes 2 new)" and r: "r = Inr (int n, int q + int n) \<or> (\<exists>e. r = Inl e)" for r s2
    proof -
      have slots: "?mem s' (ring_slot (ring_put m - KEYBUF_START + int j)) = bs ! j" if "j < n" for j
        using s'(3) that by (simp add: filled_def)
      have off: "off_ring n m (?mem s')" using s'(3) by (simp add: filled_def)
      have keys: "wf_ring (?mem s2)" "ring_keys (?mem s2) = ring_keys m @ take n bs"
        using ring_published [OF wf off _ n(2) slots new_def w(3)] n(1) by (simp_all add: q_def)
      have "same_host s s2" using s'(1) w(1) by (rule same_host_trans)
      moreover have "machine_queued (view (r_world s2)) = q + n"
        using keys(2) n(2) by (simp add: machine_queued_def q_def)
      ultimately show ?thesis using keys machine_ready_step [OF assms(1), of s2] w(2) n(2,3) r
        by (auto simp: published_def m_def [symmetric] keybuf_constants)
    qed
    show ?thesis
    proof (rule returns_bind, rule poke_pointer [OF ready s'(2)], goal_cases)
      case (2 e s2)
      then have host: "same_host s' s2" "paused_since view clock C T (r_world s2)"
        by (simp_all add: pointer_written_def)
      show ?case
      proof (cases "?mem s2 = write_at (?mem s') PUTPNT (le_bytes 2 new)")
        case True
        then show ?thesis using whole [OF host] by blast
      next
        case False
        then have "filled n bs n m (?mem s2)" using 2 s'(3) by (auto simp: pointer_written_def)

        with unpublished [OF same_host_trans [OF s'(1) host(1)] host(2)] show ?thesis by blast
      qed
    next
      case (3 x s2)
      then show ?case using whole [of s2] by (auto simp: pointer_written_def)
    qed simp
  qed
  show ?thesis
    unfolding publish_keys_def
  proof (rule returns_bind, rule keybuf_state_machine [OF assms(1)], goal_cases)
    case (1 e s1)
    then have "view (r_world s1) = view (r_world s)" "paused_since view clock C T (r_world s1)"
      using assms(2) software_frozen [of "view (r_world s)" "view (r_world s1)"]
      by (auto simp: paused_since_def keyed_def)
    then show ?case using unpublished [of s1 0 e] 1 by (simp add: filled_start m_def)
  next
    case (2 x s1)
    then have same: "view (r_world s1) = view (r_world s)" "paused_since view clock C T (r_world s1)"
      using assms(2) software_frozen [of "view (r_world s)" "view (r_world s1)"]
      by (auto simp: paused_since_def keyed_def)
    have x: "x = (ring_put m, ring_get m, int q)" using 2 same(1) by (simp add: m_def q_def Let_def)
    have s1: "same_host s s1" "machine_ready L view clock s1" "?mem s1 = m" using 2 same by (simp_all add: m_def)
    have v3: "r_v3 s1 \<noteq> None" using s1(2) by (auto simp: machine_ready_def)
    show ?case
    proof (cases "n = 0")
      case True
      then show ?thesis
        unfolding x prod.case Let_def accepted
        using s1 same n by (auto simp: published_def m_def [symmetric] q_def machine_queued_def keybuf_constants)
    next
      case False
      have f0: "0 < f" using False f(5) by simp
      have slice: "py_slice bs 0 (int f) = take f bs" "py_slice bs (int f) (int n) = take (n - f) (drop f bs)"
        using f(2) by (simp_all add: py_slice_nonneg nat_diff_distrib)
      have then_pointer: "returns (bindR (if int f < int n then poke L KEYBUF_START (take (n - f) (drop f bs)) else run_of (ret 0))
          (\<lambda>_. bindR (poke L PUTPNT (le_bytes 2 new)) (\<lambda>_. run_of (ret (int n, int q + int n))))) ?Q s2"
        if s2: "same_host s s2" "paused_since view clock C T (r_world s2)" "filled n bs f m (?mem s2)" for s2
      proof (cases "f < n")
        case False
        then have "f = n" using f(2) by simp
        then show ?thesis using publish_pointer [OF s2(1,2)] s2(3) by (simp add: returns_def bindR_def run_of_def)
      next
        case True
        have "wf_ring (?mem s2)" using wf off_ring_wf s2(3) by (auto simp: filled_def)
        then have ready: "machine_ready L view clock s2" using machine_ready_step [OF assms(1) s2(1)] by simp
        then have v3: "r_v3 s2 \<noteq> None" by (auto simp: machine_ready_def)
        have run: "filled n bs (f + k) m (write_at (?mem s2) KEYBUF_START (take k (drop f bs)))" if "f + k \<le> n" for k
          using filled_second [OF wf s2(3) f(4) [OF True] that n(2)] n(1) by simp
        have "returns (bindR (poke L KEYBUF_START (take (n - f) (drop f bs)))
          (\<lambda>_. bindR (poke L PUTPNT (le_bytes 2 new)) (\<lambda>_. run_of (ret (int n, int q + int n))))) ?Q s2"
        proof (rule returns_bind, rule poke_returns [OF machine_room [OF ready], where still = "paused_since view clock C T" and
            mem = "\<lambda>w. m_memory (view w)"], goal_cases)
          case (1 e s3)
          then obtain k where k: "same_host s2 s3" "paused_since view clock C T (r_world s3)"
            "?mem s3 = write_at (?mem s2) KEYBUF_START (take k (take (n - f) (drop f bs)))"
            using v3 stores s2(2) by (auto simp: stored_prefix_def)
          then show ?case using unpublished [OF same_host_trans [OF s2(1) k(1)] k(2), of "f + min k (n - f)"]
            run [of "min k (n - f)"] f(2) by simp
        next
          case (2 u s3)
          then have k: "same_host s2 s3" "paused_since view clock C T (r_world s3)"
            "?mem s3 = write_at (?mem s2) KEYBUF_START (take (n - f) (drop f bs))"
            using v3 stores s2(2) by (auto simp: stored_prefix_def)
          then show ?case using publish_pointer [OF same_host_trans [OF s2(1) k(1)] k(2)] run [of "n - f"] f(2) by simp
        qed
        then show ?thesis using True by simp
      qed
      have "returns (bindR (poke L (ring_put m) (take f bs)) (\<lambda>_.
          bindR (if int f < int n then poke L KEYBUF_START (take (n - f) (drop f bs)) else run_of (ret 0)) (\<lambda>_.
          bindR (poke L PUTPNT (le_bytes 2 new)) (\<lambda>_. run_of (ret (int n, int q + int n)))))) ?Q s1"
      proof (rule returns_bind, rule poke_returns [OF machine_room [OF s1(2)], where still = "paused_since view clock C T" and
          mem = "\<lambda>w. m_memory (view w)"], goal_cases)
        case (1 e s2)
        then obtain k where k: "same_host s1 s2" "paused_since view clock C T (r_world s2)"
          "?mem s2 = write_at m (ring_put m) (take k (take f bs))"
          using v3 stores same(2) s1(3) by (auto simp: stored_prefix_def)
        then show ?case using unpublished [OF same_host_trans [OF s1(1) k(1)] k(2), of "min k f"]
          filled_first [OF wf, of "min k f" n bs] n(2) f(2,3) by simp
      next
        case (2 u s2)
        then have k: "same_host s1 s2" "paused_since view clock C T (r_world s2)"
          "?mem s2 = write_at m (ring_put m) (take f bs)"
          using v3 stores same(2) s1(3) by (auto simp: stored_prefix_def)
        then show ?case using then_pointer [OF same_host_trans [OF s1(1) k(1)] k(2)]
          filled_first [OF wf f(2) n(2) f(3)] by simp
      qed
      then have "returns (bindR (poke L (ring_put m) (take f bs)) (\<lambda>_.
          bindR (if int f < int n then poke L KEYBUF_START (take (n - f) (drop f bs)) else run_of (ret 0)) (\<lambda>_.
          bindR (run_of (lift_result (Inr (le_bytes 2 new)))) (\<lambda>pointer.
          bindR (poke L PUTPNT pointer) (\<lambda>_. run_of (ret (int n, int q + int n))))))) ?Q s1"
        by (simp add: run_ret split del: if_split)
      then show ?thesis
        unfolding x prod.case Let_def accepted f(1) slice new_def [symmetric] new using False by simp
    qed
  qed
qed

text \<open>The contract of a write, as \<open>key_queue\<close> states it.\<close>

definition queued_write ::
  "'w link \<Rightarrow> ('w \<Rightarrow> machine) \<Rightarrow> ('w \<Rightarrow> int) \<Rightarrow> bytes \<Rightarrow> 'w real \<Rightarrow> real_error + int \<times> int \<Rightarrow> 'w real \<Rightarrow> bool" where
  "queued_write L view clock bs s r s' \<longleftrightarrow> machine_ready L view clock s' \<and>
     (\<exists>k. machine_keyed view clock (take k bs) s s' \<and>
       (\<forall>a p. r = Inr (a, p) \<longrightarrow> a = int (length (take k bs)) \<and> p = int (machine_queued (view (r_world s'))) \<and>
          p \<le> KEYBUF_CAPACITY \<and> (length (take k bs) < length bs \<longrightarrow> p = KEYBUF_CAPACITY)))"

lemma queued_write_quiet:
  "machine_ready L view clock s' \<Longrightarrow> machine_keyed view clock [] s s' \<Longrightarrow> queued_write L view clock bs s (Inl e) s'"
  by (auto simp: queued_write_def intro: exI [of _ 0])

lemma quiet_queued_write:
  "machine_keyed view clock [] s s1 \<Longrightarrow> queued_write L view clock bs s1 r s' \<Longrightarrow> queued_write L view clock bs s r s'"
  unfolding queued_write_def by (fastforce simp: keyed_def)

lemma finally_resume_machine:
  assumes "machine_ready L view clock s" "m_code (view (r_world s)) = 2" "int (length bs) \<le> KEYBUF_CAPACITY"
  shows "returns (finally_resume L (publish_keys L bs)) (queued_write L view clock bs s) s"
proof -
  have "paused_since view clock (m_consumed (view (r_world s))) (clock (r_world s)) (r_world s)"
    using assms(2) by (simp add: paused_since_def)
  from publish_paused [OF assms(1) this assms(3)] obtain r s1 where run: "publish_keys L bs s = Some (r, s1)"
    and pub: "published L view clock (m_consumed (view (r_world s))) (clock (r_world s)) bs s r s1"
    by (auto simp: returns_def)
  then obtain k where k: "k \<le> length bs" "machine_ready L view clock s1"
    "ring_keys (m_memory (view (r_world s1))) = ring_keys (m_memory (view (r_world s))) @ take k bs"
    "\<And>a p. r = Inr (a, p) \<Longrightarrow> a = int k \<and> p = int (machine_queued (view (r_world s1))) \<and>
      (k < length bs \<longrightarrow> p = KEYBUF_CAPACITY)"
    "m_code (view (r_world s1)) = 2" "m_consumed (view (r_world s1)) = m_consumed (view (r_world s))"
    "clock (r_world s) \<le> clock (r_world s1)"
    by (auto simp: published_def paused_since_def)
  obtain q s2 where resume: "resume L s1 = (q, s2)" by (cases "resume L s1")
  with wp_resume_machine [OF k(2,5)] have s2: "machine_ready L view clock s2" "clock (r_world s1) \<le> clock (r_world s2)"
    "m_memory (view (r_world s2)) = m_memory (view (r_world s1))"
    "m_consumed (view (r_world s2)) = m_consumed (view (r_world s1))"
    by (auto simp: wp_def)
  have keyed: "machine_keyed view clock (take k bs) s s2"
    using k s2 by (simp add: keyed_def machine_typed_def machine_queued_def)
  have bound: "int (machine_queued (view (r_world s2))) \<le> KEYBUF_CAPACITY"
    using ring_keys_bound by (simp add: machine_queued_def)
  have "queued_write L view clock bs s r' s2" if "r' = r \<or> (\<exists>e. r' = Inl e)" for r'
    using that keyed s2 k(1,4) bound unfolding queued_write_def
    by (intro conjI exI [of _ k]) (auto simp: machine_queued_def)
  then show ?thesis
    by (cases r; cases q) (auto simp: returns_def finally_resume_def run resume)
qed

lemma transaction_machine:
  assumes "machine_ready L view clock s" "int (length bs) \<le> KEYBUF_CAPACITY"
  shows "returns (legacy_transaction L bs) (queued_write L view clock bs s) s"
proof (cases "bs = []")
  case True
  have "returns (bindR (keybuf_state_from_ram L) (\<lambda>(_, _, pending). run_of (ret (0, pending))))
      (queued_write L view clock bs s) s"
  proof (rule returns_bind, rule keybuf_state_machine [OF assms(1)], goal_cases)
    case (2 x s1)
    then show ?case using True ring_keys_bound
      by (auto simp: queued_write_def machine_queued_def Let_def)
  qed (auto intro: queued_write_quiet)
  then show ?thesis using True by (simp add: legacy_transaction_def)
next
  case False
  have "returns (bindR (run_of (status L)) (\<lambda>state.
        bindR (run_of (guard (state = AgentRunning) RealMSXError)) (\<lambda>_.
        bindR (run_of (pause L)) (\<lambda>_.
          finally_resume L (publish_keys L bs))))) (queued_write L view clock bs s) s"
  proof (rule returns_bind, unfold returns_run_of, rule wp_status_machine [OF assms(1)], goal_cases)
    case (2 st s1)
    then have ready1: "machine_ready L view clock s1" by simp
    show ?case
    proof (rule returns_guard, goal_cases)
      case 2
      show ?case
      proof (rule returns_bind, unfold returns_run_of, rule wp_pause_machine [OF ready1], goal_cases)
        case (1 e s2)
        then show ?case using \<open>same_host s s1 \<and> _\<close>
          by (auto intro: queued_write_quiet machine_keyed_trans [where xs = "[]" and ys = "[]", simplified])
      next
        case (2 u s2)
        then have s2: "machine_ready L view clock s2" "m_code (view (r_world s2)) = 2" "machine_keyed view clock [] s s2"
          using \<open>same_host s s1 \<and> _\<close> by (auto intro: machine_keyed_trans [where xs = "[]" and ys = "[]", simplified])
        show ?case
          by (rule returns_mono [OF finally_resume_machine [OF s2(1,2) assms(2)] quiet_queued_write [OF s2(3)]])
      qed
    qed (use 2 in \<open>auto intro: queued_write_quiet\<close>)
  qed (auto intro: queued_write_quiet)
  then show ?thesis using False by (simp add: legacy_transaction_def)
qed

text \<open>Narrowing the timeouts does not show in the machine.\<close>

lemma ready_timeout:
  "machine_ready L view clock s \<Longrightarrow>
     machine_ready L view clock (s\<lparr>r_v3 := map_option (\<lambda>c. c\<lparr>c_timeout := t\<rparr>) (r_v3 s)\<rparr>)"
  by (auto simp: machine_ready_def spooled_def)

lemma wp_set_conn_timeout:
  assumes "machine_ready L view clock s"
  shows "wp (set_conn_timeout L t) (\<lambda>r s'. machine_ready L view clock s' \<and> view (r_world s') = view (r_world s) \<and>
    clock (r_world s) \<le> clock (r_world s')) s"
  unfolding set_conn_timeout_def
proof (rule wp_mono [OF wp_on_world], goal_cases)
  case (1 r s')
  then obtain r0 where "l_settimeout L t (r_world s) = (r0, r_world s')" "same_host s s'"
    by (metis same_host_world(1))
  moreover have "honest_machine L view clock" "wf_ring (m_memory (view (r_world s)))"
    using assms by (simp_all add: machine_ready_def)
  ultimately show ?case using machine_ready_step [OF assms] unfolding honest_machine_def by metis
qed

lemma wp_restore_timeouts:
  assumes "machine_ready L view clock s"
  shows "wp (restore_timeouts L original t) (\<lambda>r s'. machine_ready L view clock s' \<and> view (r_world s') = view (r_world s) \<and>
    clock (r_world s) \<le> clock (r_world s')) s"
proof -
  have "wp (bindIO (case (r_v3 s, original) of (Some _, Some c) \<Rightarrow> set_v3_timeout (c_timeout c) | _ \<Rightarrow> ret ()) (\<lambda>_.
       set_conn_timeout L t)) (\<lambda>r s'. machine_ready L view clock s' \<and> view (r_world s') = view (r_world s) \<and>
    clock (r_world s) \<le> clock (r_world s')) s"
  proof (rule wp_bind [where P = "\<lambda>r s'. machine_ready L view clock s' \<and> r_world s' = r_world s"], goal_cases)
    case 1
    show ?case
    proof (cases original)
      case (Some c)
      then show ?thesis using assms ready_timeout [OF assms, of "c_timeout c"]
        by (cases "r_v3 s") (simp_all add: wp_def set_v3_timeout_def)
    qed (use assms in \<open>simp add: wp_def split: option.splits\<close>)
  next
    case (3 u s1)
    then show ?case using wp_set_conn_timeout [of L view clock s1 t] by simp
  qed auto
  then show ?thesis by (simp add: wp_def restore_timeouts_def)
qed

lemma wp_narrow:
  assumes "machine_ready L view clock s"
  shows "wp (narrow L n timeout) (\<lambda>r s'. machine_ready L view clock s' \<and> r_world s' = r_world s) s"
  using assms ready_timeout by (auto simp: wp_def narrow_def set_v3_timeout_def Let_def machine_ready_def spooled_def split: option.splits)

lemma machine_write_law:
  assumes "machine_ready L view clock s" "int (length bs) \<le> KEYBUF_CAPACITY"
  shows "returns (keybuf_write L bs timeout) (queued_write L view clock bs s) s"
proof -
  let ?n = "if bs = [] then 1 else 9"
  have quiet: "queued_write L view clock bs s (Inl e) s'"
    if "machine_ready L view clock s'" "r_world s' = r_world s" for e s'
    by (rule queued_write_quiet [OF that(1)]) (simp add: that(2) keyed_refl)
  have "returns (bounded L ?n timeout (legacy_transaction L bs)) (queued_write L view clock bs s) s"
  proof (rule returns_at [OF bounded_def], rule returns_guard, goal_cases)
    case 1
    then show ?case using quiet assms(1) by simp
  next
    case 2
    show ?case
    proof (rule returns_bind, unfold returns_run_of, rule wp_narrow [OF assms(1)], goal_cases)
      case (1 e s1)
      then show ?case using quiet by simp
    next
      case (2 u s1)
      from transaction_machine [of L view clock s1 bs] 2 assms(2) obtain r s2
        where run: "legacy_transaction L bs s1 = Some (r, s2)" and w: "queued_write L view clock bs s1 r s2"
        by (auto simp: returns_def)
      obtain q s3 where restore: "restore_timeouts L (r_v3 s) (l_gettimeout L (r_world s)) s2 = (q, s3)"
        by (cases "restore_timeouts L (r_v3 s) (l_gettimeout L (r_world s)) s2")
      have ready: "machine_ready L view clock s2" using w by (simp add: queued_write_def)
      from wp_restore_timeouts [OF ready, of "r_v3 s" "l_gettimeout L (r_world s)"] restore
      have s3: "machine_ready L view clock s3" "view (r_world s3) = view (r_world s2)" "clock (r_world s2) \<le> clock (r_world s3)"
        by (auto simp: wp_def)
      have "queued_write L view clock bs s r' s3" if "r' = r \<or> (\<exists>e. r' = Inl e)" for r'
      proof -
        from w obtain k where k: "machine_keyed view clock (take k bs) s1 s2"
          "\<forall>a p. r = Inr (a, p) \<longrightarrow> a = int (length (take k bs)) \<and> p = int (machine_queued (view (r_world s2))) \<and>
            p \<le> KEYBUF_CAPACITY \<and> (length (take k bs) < length bs \<longrightarrow> p = KEYBUF_CAPACITY)"
          by (auto simp: queued_write_def)
        have "machine_keyed view clock (take k bs) s s3"
          using k(1) s3(2,3) 2 by (simp add: keyed_def)
        then show ?thesis unfolding queued_write_def using s3 k(2) \<open>r' = r \<or> _\<close> by (intro conjI exI [of _ k]) auto
      qed
      then show ?case by (cases q) (auto simp: returns_def finally_run_def run restore)
    qed
  qed
  then show ?thesis using assms
    by (auto simp: machine_ready_def returns_def keybuf_write_def keybuf_write_legacy_def bindR_def run_of_def)
qed

interpretation legacy_ring: key_queue L "machine_ready L view clock"
  "\<lambda>w. machine_typed (view w)" "\<lambda>w. machine_queued (view w)" clock
  for L :: "'w link" and view clock
proof (unfold_locales, goal_cases)
  case (1 s bs timeout)
  show ?case
    by (rule returns_mono [OF machine_write_law [OF 1]]) (simp add: queued_write_def)
next
  case (2 s)
  obtain t w where now: "l_now L (r_world s) = (t, w)" by (cases "l_now L (r_world s)")
  have h: "honest_machine L view clock" "wf_ring (m_memory (view (r_world s)))"
    using 2 by (simp_all add: machine_ready_def)
  then have "software (view (r_world s)) (view w)" "clock (r_world s) \<le> clock w" "t = clock w"
    using now unfolding honest_machine_def by blast+
  then show ?case using now 2 software_facts [of "view (r_world s)" "view w"] h(2) machine_ready_step [OF 2, of "s\<lparr>r_world := w\<rparr>"]
    by (simp add: wp_def real_monotonic_def keyed_def)
next
  case (3 s delay)
  have h: "honest_machine L view clock" "wf_ring (m_memory (view (r_world s)))"
    using 3 by (simp_all add: machine_ready_def)
  show ?case unfolding time_sleep_def
  proof (rule wp_mono [OF wp_on_world], goal_cases)
    case (1 r s')
    then obtain r0 where r0: "l_sleep L delay (r_world s) = (r0, r_world s')" "r = map_sum plain_error id r0" by auto
    have host: "same_host s s'" using 1 by (metis same_host_world(1))
    have "software (view (r_world s)) (view (r_world s'))" "clock (r_world s) \<le> clock (r_world s')"
      "r0 = Inr () \<longrightarrow> clock (r_world s) + delay \<le> clock (r_world s')"
      using h(1) r0(1) unfolding honest_machine_def by blast+
    then show ?case using r0(2) software_facts [of "view (r_world s)" "view (r_world s')"] h(2)
        machine_ready_step [OF 3 host] by (cases r0) (auto simp: keyed_def)
  qed
next
  case (4 s)
  then show ?case by (simp add: machine_ready_def)
qed

subsection \<open>Properties\<close>

text \<open>
  C10: The pause transaction refines an append to the keyboard queue. The write of older agents, which pauses
  the machine, fills slots of the ring, moves the pointer and resumes, appends a prefix of its data to
  the queue of the running machine whatever fails on the way, and what it reports is exact.
\<close>

theorem pause_write_refines_append:
  assumes "machine_ready L view clock s" "int (length bs) \<le> KEYBUF_CAPACITY"
  shows "returns (keybuf_write L bs timeout) (\<lambda>r s'. machine_ready L view clock s' \<and>
     (\<exists>k. machine_typed (view (r_world s')) = machine_typed (view (r_world s)) @ take k bs \<and>
       (\<forall>a p. r = Inr (a, p) \<longrightarrow> a = int (length (take k bs)) \<and>
          p = int (length (ring_keys (m_memory (view (r_world s'))))) \<and>
          (length (take k bs) < length bs \<longrightarrow> p = KEYBUF_CAPACITY)))) s"
  by (rule returns_mono [OF machine_write_law [OF assms]])
    (auto simp: queued_write_def keyed_def machine_queued_def)

text \<open>
  C9: Typing into a machine without a keyboard command delivers. Through the pause transaction alone, the
  keys the software of the machine has read or will read are a prefix of the encoded text, and all of it,
  with the ring empty, when the call returns.
\<close>

theorem machine_typing_delivers:
  assumes "machine_ready L view clock s" "encode_keyboard_text text = Inr payload"
  shows "returns (type_text L text timeout) (\<lambda>r s'.
     \<exists>k. machine_typed (view (r_world s')) = machine_typed (view (r_world s)) @ take k payload \<and>
       (\<forall>n. r = Inr n \<longrightarrow> n = int (length payload) \<and> take k payload = payload \<and>
          (payload \<noteq> [] \<longrightarrow> ring_keys (m_memory (view (r_world s'))) = []))) s"
proof (cases "timeout \<le> 0 \<or> payload = []")
  case True
  then show ?thesis using assms(2)
    by (auto simp: type_text_def returns_def bindR_def run_of_def guard_def intro: exI [of _ 0])
next
  case False
  then have "type_text L text timeout s = loop (type_step L timeout payload) 0 s"
    using assms by (simp add: type_text_def bindR_def run_of_def guard_def machine_ready_def)
  then show ?thesis
    using legacy_ring.type_loop_returns [OF assms(1), of timeout payload]
    by (auto simp: returns_def keyed_def machine_queued_def)
qed

text \<open>A machine whose software is busy, with the pointers at the end of the ring.\<close>

definition machine_link :: "(machine \<times> int) link" where
  "machine_link =
     \<lparr>l_request = (\<lambda>c opcode payload t (g, clock). (Inr (answer opcode payload g), (perform opcode payload g, clock))),
      l_session = (\<lambda>c w. (Inr (), w)), l_sendall = (\<lambda>bs w. (Inr (), w)), l_recv = (\<lambda>n w. (Inl StreamFailed, w)),
      l_gettimeout = (\<lambda>w. 1000000), l_settimeout = (\<lambda>t w. (Inr (), w)), l_quarantined = (\<lambda>w. False),
      l_now = (\<lambda>(g, clock). (clock, (g, clock))),
      l_sleep = (\<lambda>delay (g, clock). (Inr (), (g, clock + max 0 delay)))\<rparr>"

definition sample_machine :: machine where
  "sample_machine = \<lparr>m_memory = write_at (\<lambda>_. 0) PUTPNT [0x15, 0xFC, 0x15, 0xFC], m_code = 1, m_consumed = []\<rparr>"

lemma machine_link_honest: "honest_machine machine_link fst snd"
proof -
  have "\<exists>g'. software g g' \<and> served opcode payload g' (Inr (answer opcode payload g)) (perform opcode payload g)"
    for g opcode payload by (intro exI [of _ g]) (simp add: served_def)
  then show ?thesis by (auto simp: honest_machine_def machine_link_def)
qed

lemma sample_machine_ready: "machine_ready machine_link fst snd (sample_real 0 (sample_machine, 0))"
proof -
  have "wf_ring (m_memory sample_machine)"
    by code_simp
  then show ?thesis
    by (simp add: machine_ready_def machine_link_honest sample_real_def sample_config_def spooled_def)
qed

lemma pause_write_refines_append_witness:
  "returns (keybuf_write machine_link [0x41, 0x42, 0x43, 0x44] None) (\<lambda>r s'. machine_ready machine_link fst snd s' \<and>
     (\<exists>k. machine_typed (fst (r_world s')) = machine_typed sample_machine @ take k [0x41, 0x42, 0x43, 0x44])) (sample_real 0 (sample_machine, 0))"
proof -
  have "int (length [0x41, 0x42, 0x43, 0x44 :: byte]) \<le> KEYBUF_CAPACITY" by (simp add: keybuf_constants)
  from pause_write_refines_append [OF sample_machine_ready this, of None] show ?thesis
    by (rule returns_mono) (auto simp: sample_real_def)
qed

lemma machine_typing_delivers_witness:
  "returns (type_text machine_link ''A'' 5000000) (\<lambda>r s'.
     \<exists>k. machine_typed (fst (r_world s')) = machine_typed sample_machine @ take k [0x41]) (sample_real 0 (sample_machine, 0))"
proof -
  have "encode_keyboard_text ''A'' = Inr [0x41]" by code_simp
  from machine_typing_delivers [OF sample_machine_ready this, of 5000000] show ?thesis
    by (rule returns_mono) (auto simp: sample_real_def)
qed

end
