(* ===== verification/Keyboard_Spool.thy ===== *)
theory Keyboard_Spool
  imports Keyboard_Typing
begin

text \<open>
  The resident spool and the terminal line. What typing through the spool of a target delivers, in order, and
  what a failure leaves behind; a terminal line either owns the whole queue or the attachment is
  quarantined.
\<close>

subsection \<open>A resident spool\<close>

text \<open>
  A request without the cancel bit appends a prefix of its data, whose length the reply gives; a
  cancellation that is answered leaves nothing pending.
\<close>

definition honest_spool :: "'w link \<Rightarrow> ('w \<Rightarrow> bytes) \<Rightarrow> ('w \<Rightarrow> nat) \<Rightarrow> bool" where
  "honest_spool L typed pending \<longleftrightarrow>
     (\<forall>c payload t w r w'. l_request L c 0x54 payload t w = (r, w') \<longrightarrow>
        (\<exists>k. typed w' = typed w @ take k (drop 1 payload) \<and>
          (\<forall>reply. r = Inr reply \<longrightarrow>
             le_value (slice 0 2 reply) = int (length (take k (drop 1 payload))) \<and>
             le_value (slice 2 2 reply) = int (pending w') \<and> (take 1 payload = [2] \<longrightarrow> pending w' = 0)))) \<and>
     (\<forall>w t w'. l_now L w = (t, w') \<longrightarrow> typed w' = typed w \<and> pending w' \<le> pending w) \<and>
     (\<forall>delay w r w'. l_sleep L delay w = (r, w') \<longrightarrow> typed w' = typed w \<and> pending w' \<le> pending w)"

lemma wp_spool_write:
  assumes "honest_spool L typed pending"
  shows "wp (keybuf_spool_write L bs timeout pump cancel) (\<lambda>r s'.
     (\<exists>k. typed (r_world s') = typed (r_world s) @ take k bs \<and>
       (\<forall>q. r = Inr q \<longrightarrow> sp_accepted q = int (length (take k bs)) \<and> 0 \<le> sp_credits q \<and>
          sp_pending q = int (pending (r_world s')) \<and> (cancel \<longrightarrow> pending (r_world s') = 0)))) s"
    (is "wp _ ?Q s")
proof -
  have drop1: "drop 1 (spool_payload bs pump cancel) = bs" by (simp add: spool_payload_def Let_def)
  have cancelled: "take 1 (spool_payload bs pump cancel) = [2]" if "cancel" "\<not> (cancel \<and> (pump \<or> bs \<noteq> []))"
    using that by (simp add: spool_payload_def)
  have same: "?Q (Inl e) s'" if "r_world s' = r_world s" for e s'
    using that by (auto intro: exI [of _ 0])
  have asked: "?Q (bindE r (parse_spool_reply bs)) s'"
    if ask: "asked L 0x54 (spool_payload bs pump cancel) t s r s'" and alone: "\<not> (cancel \<and> (pump \<or> bs \<noteq> []))" for t r s'
  proof (cases "r_world s' = r_world s \<and> (\<exists>e. r = Inl e)")
    case True
    then show ?thesis by (auto intro: exI [of _ 0])
  next
    case False
    then obtain c r0 where r0: "l_request L c 0x54 (spool_payload bs pump cancel) t (r_world s) = (r0, r_world s')"
      "r = map_sum request_error id r0" using ask by (auto simp: asked_def)
    have "\<exists>k. typed (r_world s') = typed (r_world s) @ take k (drop 1 (spool_payload bs pump cancel)) \<and>
        (\<forall>reply. r0 = Inr reply \<longrightarrow>
           le_value (slice 0 2 reply) = int (length (take k (drop 1 (spool_payload bs pump cancel)))) \<and>
           le_value (slice 2 2 reply) = int (pending (r_world s')) \<and>
           (take 1 (spool_payload bs pump cancel) = [2] \<longrightarrow> pending (r_world s') = 0))"
      using assms r0(1) unfolding honest_spool_def by blast
    then obtain k where "typed (r_world s') = typed (r_world s) @ take k bs"
      "\<And>reply. r0 = Inr reply \<Longrightarrow> le_value (slice 0 2 reply) = int (length (take k bs)) \<and>
         le_value (slice 2 2 reply) = int (pending (r_world s')) \<and>
         (take 1 (spool_payload bs pump cancel) = [2] \<longrightarrow> pending (r_world s') = 0)"
      unfolding drop1 by blast
    then show ?thesis using r0(2) cancelled alone
      by (cases r0) (auto simp: parse_spool_reply_def Let_def intro!: exI [of _ k] split: if_splits)
  qed
  show ?thesis
  proof (cases "\<not> (cancel \<and> (pump \<or> bs \<noteq> [])) \<and> int (length bs) \<le> KEYBUF_SPOOL_CAPACITY")
    case False
    then show ?thesis using same [OF refl] by (cases "cancel \<and> (pump \<or> bs \<noteq> [])") (auto simp: wp_def keybuf_spool_write_def)
  next
    case True
    show ?thesis
    proof (cases "r_v3 s")
      case None
      then show ?thesis using same [OF refl] True by (simp add: wp_def keybuf_spool_write_def)
    next
      case (Some c)
      have "wp (bindIO (guard (r_features s AND FEATURE_KEYBUF_SPOOL \<noteq> 0) RealMSXError) (\<lambda>_.
           bindIO (guard (int (length (spool_payload bs pump cancel)) \<le> c_max_payload c) RealMSXRangeError) (\<lambda>_.
           bindIO (lift_result (request_timeout c timeout)) (\<lambda>t.
           bindIO (request_v3 L 0x54 (spool_payload bs pump cancel) t) (\<lambda>reply.
             lift_result (parse_spool_reply bs reply)))))) ?Q s"
      proof (intro wp_guard wp_lift, goal_cases)
        case (4 t)
        show ?case
        proof (rule wp_bind [OF wp_request_v3], goal_cases)
          case (1 e s1)
          then show ?case using asked [OF 1] True by simp
        next
          case (2 reply s1)
          then show ?case using asked [OF 2] True by simp
        qed
      qed (use same [OF refl] in blast)+
      then show ?thesis using Some True by (simp add: wp_def keybuf_spool_write_def)
    qed
  qed
qed

lemma wp_now_spool:
  assumes "honest_spool L typed pending"
  shows "wp (real_monotonic L) (\<lambda>r s'. typed (r_world s') = typed (r_world s) \<and> pending (r_world s') \<le> pending (r_world s)) s"
proof (cases "l_now L (r_world s)")
  case (Pair t w)
  then have "typed w = typed (r_world s) \<and> pending w \<le> pending (r_world s)"
    using assms unfolding honest_spool_def by blast
  then show ?thesis using Pair by (simp add: wp_def real_monotonic_def)
qed

lemma wp_sleep_spool:
  assumes "honest_spool L typed pending"
  shows "wp (time_sleep L delay) (\<lambda>r s'. typed (r_world s') = typed (r_world s)) s"
  unfolding time_sleep_def
  by (rule wp_mono [OF wp_on_world]) (use assms in \<open>auto simp: honest_spool_def\<close>)

lemma wp_time_left_spool:
  assumes "honest_spool L typed pending"
  shows "wp (time_left L deadline) (\<lambda>r s'. typed (r_world s') = typed (r_world s)) s"
  unfolding time_left_def
  by (rule wp_bind [OF wp_now_spool [OF assms]]) (auto simp: Let_def)

lemma wp_new_deadline_spool:
  assumes "honest_spool L typed pending"
  shows "wp (new_deadline L progressed timeout deadline)
    (\<lambda>r s'. typed (r_world s') = typed (r_world s) \<and> pending (r_world s') \<le> pending (r_world s)) s"
proof (cases progressed)
  case True
  have "wp (bindIO (real_monotonic L) (\<lambda>now. ret (now + timeout)))
      (\<lambda>r s'. typed (r_world s') = typed (r_world s) \<and> pending (r_world s') \<le> pending (r_world s)) s"
    by (rule wp_bind [OF wp_now_spool [OF assms]]) auto
  then show ?thesis using True by (simp add: new_deadline_def)
qed (simp add: new_deadline_def)

lemma wp_spool_step:
  assumes "honest_spool L typed pending" "0 < max_batch" "0 \<le> offset" "offset \<le> int (length payload)" "0 \<le> sp_credits p"
  shows "wp (spool_step L timeout payload max_batch (deadline, offset, p, later)) (\<lambda>r s'. \<exists>k.
     typed (r_world s') = typed (r_world s) @ take k (drop (nat offset) payload) \<and>
     (case r of
        Inl e \<Rightarrow> True
      | Inr (Inl (_, offset', q, _)) \<Rightarrow> offset' = offset + int (length (take k (drop (nat offset) payload))) \<and> 0 \<le> sp_credits q
      | Inr (Inr n) \<Rightarrow> n = int (length payload) \<and> pending (r_world s') = 0 \<and>
          offset + int (length (take k (drop (nat offset) payload))) = int (length payload))) s"
proof -
  let ?rest = "drop (nat offset) payload"
  define request where "request = (if int (length payload) - offset \<noteq> 0 \<and> sp_credits p \<noteq> 0 \<and>
      (\<not> later \<or> sp_credits p \<ge> min (int (length payload) - offset) KEYBUF_SPOOL_REFILL_TARGET)
    then py_slice payload offset (offset + min (sp_credits p) max_batch) else [])"
  obtain m where m: "request = take m ?rest"
  proof (cases "request = []")
    case False
    then have "request = take (nat (min (sp_credits p) max_batch)) ?rest"
      unfolding request_def using assms(2,3,5) by (auto simp: py_slice_nonneg split: if_splits)
    then show thesis using that by blast
  qed (use that [of 0] in simp)
  have sub: "take k request = take (min k m) ?rest" for k by (simp add: m min.commute)
  show ?thesis
    unfolding spool_step_def prod.case Let_def request_def [symmetric]
  proof (rule wp_bind [OF wp_time_left_spool [OF assms(1)]], goal_cases)
    case (1 e s1)
    then show ?case by (auto intro: exI [of _ 0])
  next
    case (2 left s1)
    show ?case
    proof (rule wp_bind [OF wp_spool_write [OF assms(1)]], goal_cases)
      case (1 e s2)
      then show ?case using 2 sub by auto
    next
      case (2 q s2)
      then obtain k where k: "typed (r_world s2) = typed (r_world s1) @ take k request"
        "sp_accepted q = int (length (take k request))" "0 \<le> sp_credits q" "sp_pending q = int (pending (r_world s2))"
        by auto
      then have s2: "typed (r_world s2) = typed (r_world s) @ take (min k m) ?rest"
        "sp_accepted q = int (length (take (min k m) ?rest))"
        using \<open>typed (r_world s1) = _\<close> sub by simp_all
      show ?case
      proof (rule wp_bind [OF wp_new_deadline_spool [OF assms(1)]], goal_cases)
        case (1 e s3)
        then show ?case using s2 by auto
      next
        case (2 dl s3)
        note s3 = this
        show ?case
        proof (cases "offset + sp_accepted q = int (length payload) \<and> sp_pending q = 0 \<and> \<not> sp_barrier q \<and>
            \<not> sp_active q \<and> \<not> sp_authorized q")
          case True
          then show ?thesis using s3 s2 k by (auto intro!: exI [of _ "min k m"])
        next
          case False
          have "wp (bindIO (if sp_accepted q = 0 then time_sleep L KEYBUF_POLL_INTERVAL else ret ())
              (\<lambda>_. ret (Inl (dl, offset + sp_accepted q, q, True)))) (\<lambda>r s'. \<exists>k.
             typed (r_world s') = typed (r_world s) @ take k (drop (nat offset) payload) \<and>
             (case r of
                Inl e \<Rightarrow> True
              | Inr (Inl (_, offset', q, _)) \<Rightarrow> offset' = offset + int (length (take k (drop (nat offset) payload))) \<and> 0 \<le> sp_credits q
              | Inr (Inr n) \<Rightarrow> n = int (length payload) \<and> pending (r_world s') = 0 \<and>
                  offset + int (length (take k (drop (nat offset) payload))) = int (length payload))) s3"
          proof (rule wp_bind [where P = "\<lambda>r s'. typed (r_world s') = typed (r_world s3)"], goal_cases)
            case 1
            then show ?case using wp_sleep_spool [OF assms(1)] by simp
          next
            case (2 e s4)
            then show ?case using s3 s2 by auto
          next
            case (3 u s4)
            then show ?case using s3 s2 k(3) by (auto intro!: exI [of _ "min k m"])
          qed
          then show ?thesis using False by auto
        qed
      qed
    qed
  qed
qed

lemma spool_loop_partial:
  assumes "honest_spool L typed pending" "0 < max_batch"
    and "loop (\<lambda>v. run_of (spool_step L timeout payload max_batch v)) (deadline, 0, initial_spool, False) s = Some (r, s')"
  shows "\<exists>k. typed (r_world s') = typed (r_world s) @ take k payload \<and>
     (\<forall>n. r = Inr n \<longrightarrow> n = int (length payload) \<and> take k payload = payload \<and> pending (r_world s') = 0)"
proof (rule loop_partial [OF assms(3), where
    I = "\<lambda>(_, offset, p, _) s'. 0 \<le> offset \<and> offset \<le> int (length payload) \<and> 0 \<le> sp_credits p \<and>
      typed (r_world s') = typed (r_world s) @ take (nat offset) payload"])
  fix v :: spool_vars and s1 :: "'a real" and q s2
  obtain dl offset p later where v: "v = (dl, offset, p, later)" by (cases v) auto
  assume "(\<lambda>(_, offset, p, _) s'. 0 \<le> offset \<and> offset \<le> int (length payload) \<and> 0 \<le> sp_credits p \<and>
      typed (r_world s') = typed (r_world s) @ take (nat offset) payload) v s1"
    and "run_of (spool_step L timeout payload max_batch v) s1 = Some (q, s2)"
  then have I: "0 \<le> offset" "offset \<le> int (length payload)" "0 \<le> sp_credits p"
    "typed (r_world s1) = typed (r_world s) @ take (nat offset) payload"
    and run: "spool_step L timeout payload max_batch v s1 = (q, s2)"
    by (simp_all add: v run_of_def)
  obtain k where k: "typed (r_world s2) = typed (r_world s1) @ take k (drop (nat offset) payload)"
    "case q of Inl e \<Rightarrow> True
      | Inr (Inl (_, offset', q, _)) \<Rightarrow> offset' = offset + int (length (take k (drop (nat offset) payload))) \<and> 0 \<le> sp_credits q
      | Inr (Inr n) \<Rightarrow> n = int (length payload) \<and> pending (r_world s2) = 0 \<and>
          offset + int (length (take k (drop (nat offset) payload))) = int (length payload)"
    using wpD [OF wp_spool_step [OF assms(1,2) I(1-3), where timeout = timeout and deadline = dl and later = later and s = s1] run [unfolded v]] by blast
  have typed: "typed (r_world s2) = typed (r_world s) @ take (nat offset + k) payload"
    using k(1) I(4) by (simp add: take_add)
  show "case q of
      Inl e \<Rightarrow> \<exists>k. typed (r_world s2) = typed (r_world s) @ take k payload \<and>
        (\<forall>n. Inl e = Inr n \<longrightarrow> n = int (length payload) \<and> take k payload = payload \<and> pending (r_world s2) = 0)
    | Inr (Inl y) \<Rightarrow> (\<lambda>(_, offset, p, _) s'. 0 \<le> offset \<and> offset \<le> int (length payload) \<and> 0 \<le> sp_credits p \<and>
        typed (r_world s') = typed (r_world s) @ take (nat offset) payload) y s2
    | Inr (Inr a) \<Rightarrow> \<exists>k. typed (r_world s2) = typed (r_world s) @ take k payload \<and>
        (\<forall>n. Inr a = Inr n \<longrightarrow> n = int (length payload) \<and> take k payload = payload \<and> pending (r_world s2) = 0)"
  proof (cases q)
    case (Inl e)
    then show ?thesis using typed by auto
  next
    case (Inr u)
    show ?thesis
    proof (cases u)
      case (Inl y)
      obtain dl' offset' p' later' where y: "y = (dl', offset', p', later')" by (cases y) auto
      then have o: "offset' = offset + int (length (take k (drop (nat offset) payload)))" "0 \<le> sp_credits p'"
        using k(2) \<open>q = Inr u\<close> Inl by auto
      have size: "nat offset' = nat offset + length (take k (drop (nat offset) payload))"
        unfolding o(1) using I(1) by (simp only: nat_add_distrib of_nat_0_le_iff nat_int)
      have bound: "offset' \<le> int (length payload)" using o(1) I(1,2) by auto
      have "take (nat offset + k) payload = take (nat offset + length (take k (drop (nat offset) payload))) payload"
        by (simp add: take_add min_def)
      with typed have "typed (r_world s2) = typed (r_world s) @ take (nat offset') payload" by (simp only: size)
      then show ?thesis using o I(1) bound \<open>q = Inr u\<close> Inl y by simp
    next
      case (Inr n)
      then have n: "n = int (length payload)" "pending (r_world s2) = 0"
        "offset + int (length (take k (drop (nat offset) payload))) = int (length payload)"
        using k(2) \<open>q = Inr u\<close> by auto
      then have "length payload \<le> nat offset + k" using I(1) by (auto simp: min_def split: if_splits)
      then show ?thesis using typed n \<open>q = Inr u\<close> Inr by (auto intro!: exI [of _ "nat offset + k"])
    qed
  qed
qed (simp add: initial_spool_def KEYBUF_SPOOL_CAPACITY_def)

lemma abandon_spool_outcome:
  assumes "honest_spool L typed pending" "abandon_spool L timeout s = (q, s')"
  shows "typed (r_world s') = typed (r_world s) \<and>
    (pending (r_world s') = 0 \<or> (\<exists>e. cancel_keybuf_spool L (Some (min timeout 500000)) s = (Inl e, s')))"
proof -
  obtain r s1 where cancel: "cancel_keybuf_spool L (Some (min timeout 500000)) s = (r, s1)"
    by (cases "cancel_keybuf_spool L (Some (min timeout 500000)) s")
  have "\<exists>k. typed (r_world s1) = typed (r_world s) @ take k [] \<and> (\<forall>q. r = Inr q \<longrightarrow> pending (r_world s1) = 0)"
    using wpD [OF wp_spool_write [OF assms(1), of "[]" "Some (min timeout 500000)" False True s]
        cancel [unfolded cancel_keybuf_spool_def]] by auto
  moreover have "s' = s1" using assms(2) cancel
    by (cases r) (auto simp: abandon_spool_def catch_def bindIO_def split: if_splits)
  ultimately show ?thesis using cancel by (cases r) auto
qed


text \<open>A target that runs every line at once.\<close>

definition spool_link :: "(bytes \<times> int) link" where
  "spool_link =
     \<lparr>l_request = (\<lambda>c opcode payload t (typed, clock).
        if opcode = 0x54 then
          let taken = take 255 (drop 1 payload) in
          (Inr (le_bytes 2 (int (length taken)) @ [0, 0, 255, 0, 0]), (typed @ taken, clock))
        else (Inl SessionFailed, (typed, clock))),
      l_session = (\<lambda>c w. (Inr (), w)), l_sendall = (\<lambda>bs w. (Inr (), w)), l_recv = (\<lambda>n w. (Inl StreamFailed, w)),
      l_gettimeout = (\<lambda>w. 1000000), l_settimeout = (\<lambda>t w. (Inr (), w)), l_quarantined = (\<lambda>w. False),
      l_now = (\<lambda>(typed, clock). (clock, (typed, clock))),
      l_sleep = (\<lambda>delay (typed, clock). (Inr (), (typed, clock + max 0 delay)))\<rparr>"

lemma spool_link_honest: "honest_spool spool_link fst (\<lambda>_. 0)"
proof -
  have "\<exists>k. typed @ take 255 (drop 1 payload) = typed @ take k (drop 1 payload) \<and>
      le_value (slice 0 2 (le_bytes 2 (int (length (take 255 (drop 1 payload)))) @ [0, 0, 255, 0, 0])) = int (length (take k (drop 1 payload))) \<and>
      le_value (slice 2 2 (le_bytes 2 (int (length (take 255 (drop 1 payload)))) @ [0, 0, 255, 0, 0])) = 0" for typed payload :: bytes
  proof (rule exI [of _ 255], intro conjI)
    have "int (length (take 255 (drop 1 payload))) < 256 ^ 2" by simp
    then show "le_value (slice 0 2 (le_bytes 2 (int (length (take 255 (drop 1 payload)))) @ [0, 0, 255, 0, 0])) = int (length (take 255 (drop 1 payload)))"
      by (simp add: slice_def del: length_take)
    show "le_value (slice 2 2 (le_bytes 2 (int (length (take 255 (drop 1 payload)))) @ [0, 0, 255, 0, 0])) = 0"
      by (simp add: slice_def le_value_small del: length_take)
  qed simp
  then show ?thesis by (simp add: honest_spool_def spool_link_def Let_def split: prod.splits if_splits)
qed


subsection \<open>Terminal lines\<close>



end
