(* ===== verification/Spec2Isabelle.thy ===== *)
theory Spec2Isabelle
  imports Frame_Parser Put_Prepare Journal V3_Session App_Load CPU_Snapshot Screenshot Keyboard_Legacy Keyboard_Spool
begin

text \<open>
  The host side of MSX-AI drives an MSX computer over a serial line or a TCP stream: a framed
  request/response protocol (\<open>server/msx_protocol.py\<close>, \<open>server/msx_v3.py\<close>), resumable file transfers on
  top of it (\<open>server/msx_transfer.py\<close>), the loading of applications into a target
  (\<open>server/msx_application.py\<close>), the inspection of a running machine: CPU snapshots
  (\<open>server/msx_cpu.py\<close>) and screenshots (\<open>server/msx_screenshot.py\<close>), and the client that drives a
  physical machine, of which the primitives and the keyboard are here (\<open>server/msx_real.py\<close>). This
  development models these modules function by function. A definition bears the name of the
  Python function it translates (the leading underscore dropped, a suffix where HOL has the name
  already) and follows its order of checks and effects.

  \<^bold>\<open>Conventions.\<close> Bytes are 8-bit words; Python integers are \<open>int\<close>, checked against their wire width
  where the code checks them. A function that may raise returns a sum, \<open>Inl\<close> the exception (its class
  with the values it stores, no message text); a stateful function is a computation of \<open>Effects\<close> that
  returns the result or the exception together with the state it leaves. What the code does not
  control (the clock, reads, writes, file system calls, replies of a device) is a script inside the
  state: a list of the coming answers, over which every theorem quantifies. A loop is a recursive
  function whose termination is proved, by the script or the buffer it consumes; no fuel is used.
  The client of a real machine drives peers that may answer for ever: there the environment is a
  record of functions on an arbitrary world, \<open>link\<close>, a loop is a partial function of \<open>Runs\<close> whose
  value \<open>None\<close> is a run that does not end, and a theorem that an operation ends says so
  (\<open>\<exists>q. f s = Some q\<close>, \<open>returns\<close>) under laws of the target, which a concrete target satisfies.

  \<^bold>\<open>Prelude and libraries.\<close> \<open>Prelude\<close>: bytes, results, little-endian integers, searches. \<open>Effects\<close>:
  computations, with weakest preconditions. \<open>Codec\<close>: the contracts of a delimited codec as locales.
  \<open>Stores\<close>: the contract of a store that only evolves. \<open>Runs\<close>: computations that may not end, with
  total correctness. \<open>Python_Text\<close>: dynamically typed values,
  \<open>int(s, 0)\<close>, white space, hexadecimal, base64, SHA-256. \<open>Host_IO\<close>: the files, polls and progress
  reports of the transfer preparation.

  \<^bold>\<open>Frames\<close> (\<open>msx_protocol.py\<close>). \<open>Frame_Codec\<close>: \<open>Frame\<close>, \<open>crc16_ccitt\<close>, \<open>encode_frame\<close>, \<open>decode_frame\<close>,
  \<open>SequenceCounter\<close>, \<open>validate_response\<close>; decoder and encoder are inverse, prefixes and extensions fail
  with exact sizes, corruption of up to two bytes is detected. \<open>Frame_Parser\<close>: \<open>FrameParser\<close> with its
  resynchronisation and its error accounting; the specification \<open>scan\<close> of the accepted frames of a
  byte stream is independent of the way the stream is cut.

  \<^bold>\<open>Session\<close> (\<open>msx_v3.py\<close>). \<open>V3_Session\<close>: one request at a time with retransmission, wake handshake,
  event and orphan queues and write quarantine. The invariant, the answer a request gets, the bytes it
  writes, its failures, and that a quarantine is final (an instance of \<open>Stores\<close>).

  \<^bold>\<open>Transfers\<close> (\<open>msx_transfer.py\<close>). \<open>Transfer_Wire\<close>: descriptors, request payloads and replies.
  \<open>Digest\<close>: CRC-32 of files in blocks. \<open>PackBits\<close>: the staging encoder with a decoder as its
  specification. \<open>Basic_Text\<close>: the streaming normaliser of BASIC listings with a line-based
  specification. \<open>Put_Prepare\<close>: which payload a PUT sends. \<open>Journal\<close>: the resume journal with atomic
  replacement, its parser, discovery and the histories of a state directory (an instance of \<open>Stores\<close>).

  \<^bold>\<open>Applications\<close> (\<open>msx_application.py\<close>). \<open>App_Format\<close>: manifests, COM, BLOAD and ROM images. \<open>App_Load\<close>:
  admission of an application and its transfer to a backend, which refines the memory image of the
  application.

  \<^bold>\<open>CPU snapshots\<close> (\<open>msx_cpu.py\<close>). \<open>CPU_Snapshot\<close>: the parser of the context the resident agent sends,
  exact against an encoder of register frames, and the capture of an emulated machine, which leaves
  it running or stopped as it was.

  \<^bold>\<open>Screenshots\<close> (\<open>msx_screenshot.py\<close>). \<open>Screen_Render\<close>: palettes, table addressing, the character and
  bitmap modes, sprites and \<open>render_vram\<close>. \<open>Screen_Capture\<close>: the addresses and ranges a screenshot
  reads, the captures and the PNG writer, with the lemmas that rendering depends on those addresses
  only (\<open>agree\<close>). \<open>Screen_Pixels\<close>: a specification of the colour of each pixel and the renderer against
  it (\<open>paints\<close>, \<open>confined\<close>). \<open>Screenshot\<close>: what a capture guarantees, with a reader of PNG files. The
  client's reads, the Tcl commands and \<open>zlib.compress\<close> are parameters.

  \<^bold>\<open>The real machine\<close> (\<open>msx_real.py\<close>). \<open>Real_Link\<close>: the primitives of \<open>RealMSX\<close> over a framed session or
  the raw stream of older agents, with the write quarantine of the attachment: run state, RAM and VRAM
  in chunks, ports, mapping, execution. The accesses end and refine the memory of the target; two
  lemmas (\<open>poke_stalls\<close>, \<open>peek_stalls\<close>) show the peers with which they do not. \<open>Keyboard\<close>: the keyboard
  of the target, by the framed request, the pause transaction of older agents or the resident spool.
  \<open>Keyboard_Typing\<close>: the contract of a keyboard queue as a locale (\<open>key_queue\<close>), under which typing
  ends and delivers, and the framed request as a provider. \<open>Keyboard_Legacy\<close>: the pause transaction as
  a provider, on the memory of a running machine. \<open>Keyboard_Spool\<close>: the spool and terminal lines.

  \<^bold>\<open>Bounds.\<close> None is chosen by the model: limits are those of the code (4096 bytes of a journal, 64 KiB
  of payload, 65536 sequence numbers). Times are integers, in the client of the
  real machine microseconds, and a quotient of a timeout is rounded down. Strings have code points below 256, so that
  only Latin-1 is folded and stripped.

  \<^bold>\<open>Not modelled.\<close> Of \<open>msx_real.py\<close> the connection set-up, the handshake and its recovery, the
  snapshot lease and the request loops of the file transfers remain to be done. \<open>msx_client.py\<close>
  drives an emulator process. \<open>msx_mcp_server.py\<close>, \<open>mcp_metadata.py\<close> and \<open>mcp_runtime.py\<close> declare and register tools for
  an external framework. \<open>windows_sspi.py\<close> calls the Windows API. \<open>msx_docs.py\<close>, \<open>paths.py\<close> and
  \<open>execution.py\<close> are small helpers over the file system and the environment. The scripts under
  \<open>tools/\<close> build and test. Locks are left out: every method of the code that takes one is one atomic
  step.
\<close>

end
